(* ===== verification/Prelude.thy ===== *)
theory Prelude
  imports "HOL-Library.Word" "HOL-Library.Multiset"
begin

text \<open>
  Shared vocabulary of the development: Go's fixed-width integers as words, its byte slices
  as lists, the results of operations that may panic, and the generic facts on words, lists
  and indices that the component theories use.

  Conventions.  A Go \<open>byte\<close> is a \<open>byte\<close>, a \<open>rune\<close> (an \<open>int32\<close>) is a 32-bit word read with
  \<open>sint\<close> where the code compares it as a signed value and with the unsigned order where the
  code converts it to \<open>uint32\<close> first.  A slice is a list; an index that the code has checked
  is read with \<open>!\<close>, and an access the code does not check itself is written with \<open>go_index\<close>
  or \<open>go_store\<close>, whose \<open>None\<close> is the run-time panic.
\<close>

unbundle bit_operations_syntax

type_synonym byte = "8 word"
type_synonym uint16 = "16 word"
type_synonym uint32 = "32 word"
type_synonym uint64 = "64 word"
type_synonym rune = "32 word"

named_theorems word_arith \<open>bit operations on words read as arithmetic on nat\<close>

subsection \<open>Checked slice accesses\<close>

definition go_index :: "'a list \<Rightarrow> nat \<Rightarrow> 'a option" where
  "go_index xs i = (if i < length xs then Some (xs ! i) else None)"

definition go_store :: "'a list \<Rightarrow> nat \<Rightarrow> 'a \<Rightarrow> 'a list option" where
  "go_store xs i v = (if i < length xs then Some (xs[i := v]) else None)"

definition go_slice :: "'a list \<Rightarrow> nat \<Rightarrow> nat \<Rightarrow> 'a list" where
  "go_slice xs i j = take (j - i) (drop i xs)"

lemma go_index_Some [simp]: "i < length xs \<Longrightarrow> go_index xs i = Some (xs ! i)"
  by (simp add: go_index_def)

lemma go_store_Some [simp]: "i < length xs \<Longrightarrow> go_store xs i v = Some (xs[i := v])"
  by (simp add: go_store_def)

lemma go_slice_full [simp]: "go_slice xs 0 (length xs) = xs"
  by (simp add: go_slice_def)

subsection \<open>Words as numbers\<close>

lemma not_bit_below_dvd:
  assumes "2 ^ k dvd (x::nat)" and "n < k"
  shows "\<not> bit x n"
proof -
  have "take_bit k x = 0"
    using assms(1) by (simp add: take_bit_eq_mod)
  then have "\<not> bit (take_bit k x) n"
    by simp
  with assms(2) show ?thesis
    by (simp add: bit_take_bit_iff)
qed

lemma not_bit_above_less:
  assumes "(x::nat) < 2 ^ k" and "k \<le> n"
  shows "\<not> bit x n"
proof -
  have "take_bit k x = x"
    using assms(1) by (simp add: take_bit_eq_mod)
  moreover have "\<not> bit (take_bit k x) n"
    using assms(2) by (simp add: bit_take_bit_iff)
  ultimately show ?thesis
    by simp
qed

lemma nat_or_disj:
  fixes x y :: nat
  assumes "2 ^ k dvd x" and "y < 2 ^ k"
  shows "x OR y = x + y"
proof -
  have "x AND y = 0"
    by (rule bit_eqI)
      (use not_bit_below_dvd [OF assms(1)] not_bit_above_less [OF assms(2)] in
        \<open>auto simp: bit_simps not_less [symmetric]\<close>)
  then show ?thesis
    by (simp add: disjunctive_add_eq_or)
qed

lemma unat_or_disj:
  fixes a b :: "'a::len word"
  assumes "2 ^ k dvd unat a" and "unat b < 2 ^ k"
  shows "unat (a OR b) = unat a + unat b"
  using nat_or_disj [OF assms] by (simp add: unsigned_or_eq)

lemma unat_and_mask [word_arith]:
  fixes a :: "'a::len word"
  shows "unat (a AND mask k) = unat a mod 2 ^ k"
proof -
  have "unat (take_bit k a) = take_bit k (unat a)"
    by (simp add: unsigned_take_bit_eq)
  then show ?thesis
    by (simp only: take_bit_eq_mask) (simp add: take_bit_eq_mod flip: take_bit_eq_mask)
qed

lemma unat_push_bit [word_arith]:
  "unat (push_bit k (a::'a::len word)) = unat a * 2 ^ k mod 2 ^ LENGTH('a)"
proof -
  have "unat (push_bit k a) = take_bit LENGTH('a) (push_bit k (unat a))"
    by (rule unsigned_push_bit_eq)
  then show ?thesis
    by (simp only: take_bit_eq_mod push_bit_nat_def)
qed

lemma unat_drop_bit [word_arith]: "unat (drop_bit k (a::'a::len word)) = unat a div 2 ^ k"
  by (metis drop_bit_eq_div unat_drop_bit_eq)

lemma unat_ucast_mod [word_arith]:
  "unat (ucast (a::'a::len word) :: 'b::len word) = unat a mod 2 ^ LENGTH('b)"
  by (metis unat_of_nat of_nat_unat)

lemma bit_top_iff:
  fixes k :: nat
  assumes "k < 2 ^ Suc n"
  shows "bit k n \<longleftrightarrow> 2 ^ n \<le> k"
proof (cases "k < 2 ^ n")
  case True
  then show ?thesis by (simp add: bit_iff_odd)
next
  case False
  then obtain r where "k = 2 ^ n + r" by (metis le_Suc_ex not_less)
  with assms have "r < 2 ^ n" and "k = r + 1 * 2 ^ n" by simp_all
  then have "k div 2 ^ n = 1" by (simp only: div_mult_self1) simp
  with False show ?thesis by (simp add: bit_iff_odd)
qed

lemma sint_unat:
  "sint (a::'a::len word) =
     (if unat a < 2 ^ (LENGTH('a) - 1) then int (unat a) else int (unat a) - 2 ^ LENGTH('a))"
proof -
  obtain n where n: "LENGTH('a) = Suc n" by (cases "LENGTH('a)") auto
  have less: "unat a < 2 ^ Suc n" using n by (metis unsigned_less)
  have *: "sint a = take_bit (Suc n) (uint a) - 2 ^ Suc n * of_bool (bit (uint a) n)"
    using sint_uint [of a] n by (simp add: signed_take_bit_eq_take_bit_minus)
  have "bit (uint a) n \<longleftrightarrow> bit (unat a) n"
    by (simp add: bit_unsigned_iff)
  moreover have "take_bit (Suc n) (uint a) = int (unat a)"
    using less n by (metis take_bit_length_eq of_nat_unat unsigned_take_bit_eq)
  ultimately show ?thesis
    unfolding * using less bit_top_iff [of "unat a" n] n by simp
qed

lemma signed_drop_bit_nonneg:
  assumes "0 \<le> sint (a::'a::len word)"
  shows "signed_drop_bit k a = drop_bit k a"
proof -
  have "\<not> bit a (LENGTH('a) - 1)"
    using assms by (simp add: bit_last_iff)
  then show ?thesis
    by (intro bit_word_eqI) (auto simp: bit_simps,
      metis One_nat_def Suc_leI bit_word.rep_eq diff_diff_left diff_is_0_eq' not_one_le_zero
        zero_less_diff)
qed

lemma word_less_numeral_unat [word_arith]:
  "(a::'a::len word) < b \<longleftrightarrow> unat a < unat b" "a \<le> b \<longleftrightarrow> unat a \<le> unat b"
  by (simp_all add: word_less_nat_alt word_le_nat_alt)

end
