(* ===== verification/Utf8.thy ===== *)
theory Utf8
  imports Prelude
begin

text \<open>
  Package \<open>unicode/utf8\<close>: the tables, the decoder in both its byte-slice and string variants,
  the encoder, rune counting and validation with its word-at-a-time ASCII path.  The
  correctness lemmas are in the theory \<open>Utf8_Correct\<close>.
\<close>

section \<open>Tables\<close>

abbreviation RuneError :: rune where "RuneError \<equiv> 0xFFFD"

abbreviation MaxRune :: rune where "MaxRune \<equiv> 0x10FFFF"

abbreviation surrogateMin :: rune where "surrogateMin \<equiv> 0xD800"

abbreviation surrogateMax :: rune where "surrogateMax \<equiv> 0xDFFF"

abbreviation utf8_tx :: byte where "utf8_tx \<equiv> 0x80"

abbreviation utf8_t2 :: byte where "utf8_t2 \<equiv> 0xC0"

abbreviation utf8_t3 :: byte where "utf8_t3 \<equiv> 0xE0"

abbreviation utf8_t4 :: byte where "utf8_t4 \<equiv> 0xF0"

abbreviation utf8_maskx :: byte where "utf8_maskx \<equiv> 0x3F"

abbreviation utf8_mask2 :: byte where "utf8_mask2 \<equiv> 0x1F"

abbreviation utf8_mask3 :: byte where "utf8_mask3 \<equiv> 0x0F"

abbreviation utf8_mask4 :: byte where "utf8_mask4 \<equiv> 0x07"

abbreviation locb :: byte where "locb \<equiv> 0x80"

abbreviation hicb :: byte where "hicb \<equiv> 0xBF"

definition runeErrorByte0 :: byte where
  "runeErrorByte0 = utf8_t3 OR ucast (drop_bit 12 RuneError)"

definition runeErrorByte1 :: byte where
  "runeErrorByte1 = utf8_tx OR (ucast (drop_bit 6 RuneError) AND utf8_maskx)"

definition runeErrorByte2 :: byte where
  "runeErrorByte2 = utf8_tx OR (ucast RuneError AND utf8_maskx)"

text \<open>\<open>first\<close>: 128 ASCII entries (\<open>as\<close>), then the rows 0x80 to 0xFF.\<close>

definition utf8_first :: "byte list" where
  "utf8_first =
     replicate 128 0xF0 @ replicate 64 0xF1 @
     replicate 2 0xF1 @ replicate 30 0x02 @
     [0x13] @ replicate 12 0x03 @ [0x23] @ replicate 2 0x03 @
     [0x34] @ replicate 3 0x04 @ [0x44] @ replicate 11 0xF1"

record acceptRange =
  ar_lo :: byte
  ar_hi :: byte

definition acceptRanges :: "acceptRange list" where
  "acceptRanges =
     [\<lparr>ar_lo = locb, ar_hi = hicb\<rparr>, \<lparr>ar_lo = 0xA0, ar_hi = hicb\<rparr>, \<lparr>ar_lo = locb, ar_hi = 0x9F\<rparr>,
      \<lparr>ar_lo = 0x90, ar_hi = hicb\<rparr>, \<lparr>ar_lo = locb, ar_hi = 0x8F\<rparr>] @
     replicate 11 \<lparr>ar_lo = 0, ar_hi = 0\<rparr>"

section \<open>Decoding\<close>

definition utf8_FullRune :: "byte list \<Rightarrow> bool" where
  "utf8_FullRune p =
     (let n = length p in
      if n = 0 then False
      else
        let x = utf8_first ! unat (p ! 0) in
        if unat (x AND 7) \<le> n then True
        else
          let accept = acceptRanges ! unat (drop_bit 4 x) in
          if 1 < n \<and> (p ! 1 < ar_lo accept \<or> ar_hi accept < p ! 1) then True
          else if 2 < n \<and> (p ! 2 < locb \<or> hicb < p ! 2) then True
          else False)"

definition utf8_FullRuneInString :: "byte list \<Rightarrow> bool" where
  "utf8_FullRuneInString s =
     (let n = length s in
      if n = 0 then False
      else
        let x = utf8_first ! unat (s ! 0) in
        if unat (x AND 7) \<le> n then True
        else
          let accept = acceptRanges ! unat (drop_bit 4 x) in
          if 1 < n \<and> (s ! 1 < ar_lo accept \<or> ar_hi accept < s ! 1) then True
          else if 2 < n \<and> (s ! 2 < locb \<or> hicb < s ! 2) then True
          else False)"

definition decodeRuneSlow :: "byte list \<Rightarrow> rune \<times> nat" where
  "decodeRuneSlow p =
     (let n = length p in
      if n < 1 then (RuneError, 0)
      else
        let p0 = p ! 0; x = utf8_first ! unat p0 in
        if 0xF0 \<le> x then
          let mask = signed_drop_bit 31 (push_bit 31 (ucast x :: rune)) in
          ((ucast p0 AND NOT mask) OR (RuneError AND mask), 1)
        else
          let sz = unat (x AND 7); accept = acceptRanges ! unat (drop_bit 4 x) in
          if n < sz then (RuneError, 1)
          else
            let b1 = p ! 1 in
            if b1 < ar_lo accept \<or> ar_hi accept < b1 then (RuneError, 1)
            else if sz \<le> 2 then
              (push_bit 6 (ucast (p0 AND utf8_mask2)) OR ucast (b1 AND utf8_maskx), 2)
            else
              let b2 = p ! 2 in
              if b2 < locb \<or> hicb < b2 then (RuneError, 1)
              else if sz \<le> 3 then
                (push_bit 12 (ucast (p0 AND utf8_mask3)) OR push_bit 6 (ucast (b1 AND utf8_maskx))
                   OR ucast (b2 AND utf8_maskx), 3)
              else
                let b3 = p ! 3 in
                if b3 < locb \<or> hicb < b3 then (RuneError, 1)
                else
                  (push_bit 18 (ucast (p0 AND utf8_mask4)) OR push_bit 12 (ucast (b1 AND utf8_maskx))
                     OR push_bit 6 (ucast (b2 AND utf8_maskx)) OR ucast (b3 AND utf8_maskx), 4))"

definition utf8_DecodeRune :: "byte list \<Rightarrow> rune \<times> nat" where
  "utf8_DecodeRune p =
     (case p of
        b # _ \<Rightarrow> if b < 0x80 then (ucast b, 1) else decodeRuneSlow p
      | [] \<Rightarrow> decodeRuneSlow p)"

definition decodeRuneInStringSlow :: "byte list \<Rightarrow> rune \<times> nat" where
  "decodeRuneInStringSlow s =
     (let n = length s in
      if n < 1 then (RuneError, 0)
      else
        let s0 = s ! 0; x = utf8_first ! unat s0 in
        if 0xF0 \<le> x then
          let mask = signed_drop_bit 31 (push_bit 31 (ucast x :: rune)) in
          ((ucast s0 AND NOT mask) OR (RuneError AND mask), 1)
        else
          let sz = unat (x AND 7); accept = acceptRanges ! unat (drop_bit 4 x) in
          if n < sz then (RuneError, 1)
          else
            let s1 = s ! 1 in
            if s1 < ar_lo accept \<or> ar_hi accept < s1 then (RuneError, 1)
            else if sz \<le> 2 then
              (push_bit 6 (ucast (s0 AND utf8_mask2)) OR ucast (s1 AND utf8_maskx), 2)
            else
              let s2 = s ! 2 in
              if s2 < locb \<or> hicb < s2 then (RuneError, 1)
              else if sz \<le> 3 then
                (push_bit 12 (ucast (s0 AND utf8_mask3)) OR push_bit 6 (ucast (s1 AND utf8_maskx))
                   OR ucast (s2 AND utf8_maskx), 3)
              else
                let s3 = s ! 3 in
                if s3 < locb \<or> hicb < s3 then (RuneError, 1)
                else
                  (push_bit 18 (ucast (s0 AND utf8_mask4)) OR push_bit 12 (ucast (s1 AND utf8_maskx))
                     OR push_bit 6 (ucast (s2 AND utf8_maskx)) OR ucast (s3 AND utf8_maskx), 4))"

definition utf8_DecodeRuneInString :: "byte list \<Rightarrow> rune \<times> nat" where
  "utf8_DecodeRuneInString s =
     (if s \<noteq> [] \<and> s ! 0 < 0x80 then (ucast (s ! 0), 1) else decodeRuneInStringSlow s)"

definition utf8_RuneStart :: "byte \<Rightarrow> bool" where
  "utf8_RuneStart b \<longleftrightarrow> b AND 0xC0 \<noteq> 0x80"

text \<open>The backward scan of \<open>DecodeLastRune\<close>: \<open>start\<close> may step below \<open>lim\<close>, and to \<open>-1\<close>.\<close>

function lastRuneStart :: "byte list \<Rightarrow> int \<Rightarrow> int \<Rightarrow> int" where
  "lastRuneStart p lim start =
     (if lim \<le> start \<and> 0 \<le> start then
        if utf8_RuneStart (p ! nat start) then start else lastRuneStart p lim (start - 1)
      else start)"
  by pat_completeness auto
termination
  by (relation "measure (\<lambda>(p, lim, start). nat (start + 1))") auto

declare lastRuneStart.simps [simp del]

definition utf8_DecodeLastRune :: "byte list \<Rightarrow> rune \<times> nat" where
  "utf8_DecodeLastRune p =
     (let end = length p in
      if end = 0 then (RuneError, 0)
      else
        let start = end - 1; r = ucast (p ! start) :: rune in
        if sint r < 0x80 then (r, 1)
        else
          let lim = max (int end - 4) 0;
              start' = nat (max 0 (lastRuneStart p lim (int start - 1)));
              (r', size) = utf8_DecodeRune (go_slice p start' end) in
          if start' + size \<noteq> end then (RuneError, 1) else (r', size))"

definition utf8_DecodeLastRuneInString :: "byte list \<Rightarrow> rune \<times> nat" where
  "utf8_DecodeLastRuneInString s =
     (let end = length s in
      if end = 0 then (RuneError, 0)
      else
        let start = end - 1; r = ucast (s ! start) :: rune in
        if sint r < 0x80 then (r, 1)
        else
          let lim = max (int end - 4) 0;
              start' = nat (max 0 (lastRuneStart s lim (int start - 1)));
              (r', size) = utf8_DecodeRuneInString (go_slice s start' end) in
          if start' + size \<noteq> end then (RuneError, 1) else (r', size))"

section \<open>Encoding\<close>

definition utf8_RuneLen :: "rune \<Rightarrow> int" where
  "utf8_RuneLen r =
     (if sint r < 0 then -1
      else if sint r \<le> 0x7F then 1
      else if sint r \<le> 0x7FF then 2
      else if 0xD800 \<le> sint r \<and> sint r \<le> 0xDFFF then -1
      else if sint r \<le> 0xFFFF then 3
      else if sint r \<le> 0x10FFFF then 4
      else -1)"

definition utf8_ValidRune :: "rune \<Rightarrow> bool" where
  "utf8_ValidRune r \<longleftrightarrow>
     0 \<le> sint r \<and> sint r < 0xD800 \<or> 0xDFFF < sint r \<and> sint r \<le> 0x10FFFF"

text \<open>
  \<open>EncodeRune\<close> writes through the slice it is given; \<open>None\<close> is the bounds-check panic, which
  the code provokes before the first store (\<open>_ = p[3]\<close>).
\<close>

definition encodeRuneNonASCII :: "byte list \<Rightarrow> rune \<Rightarrow> (byte list \<times> nat) option" where
  "encodeRuneNonASCII p r =
     (if r \<le> 0x7FF then
        (if 1 < length p then
           Some (p[0 := utf8_t2 OR ucast (signed_drop_bit 6 r),
                   1 := utf8_tx OR (ucast r AND utf8_maskx)], 2)
         else None)
      else if r < surrogateMin \<or> surrogateMax < r \<and> r \<le> 0xFFFF then
        (if 2 < length p then
           Some (p[0 := utf8_t3 OR ucast (signed_drop_bit 12 r),
                   1 := utf8_tx OR (ucast (signed_drop_bit 6 r) AND utf8_maskx),
                   2 := utf8_tx OR (ucast r AND utf8_maskx)], 3)
         else None)
      else if 0xFFFF < r \<and> r \<le> MaxRune then
        (if 3 < length p then
           Some (p[0 := utf8_t4 OR ucast (signed_drop_bit 18 r),
                   1 := utf8_tx OR (ucast (signed_drop_bit 12 r) AND utf8_maskx),
                   2 := utf8_tx OR (ucast (signed_drop_bit 6 r) AND utf8_maskx),
                   3 := utf8_tx OR (ucast r AND utf8_maskx)], 4)
         else None)
      else
        (if 2 < length p then
           Some (p[0 := runeErrorByte0, 1 := runeErrorByte1, 2 := runeErrorByte2], 3)
         else None))"

definition utf8_EncodeRune :: "byte list \<Rightarrow> rune \<Rightarrow> (byte list \<times> nat) option" where
  "utf8_EncodeRune p r =
     (if r \<le> 0x7F then map_option (\<lambda>p'. (p', 1)) (go_store p 0 (ucast r))
      else encodeRuneNonASCII p r)"

definition appendRuneNonASCII :: "byte list \<Rightarrow> rune \<Rightarrow> byte list" where
  "appendRuneNonASCII p r =
     (if r \<le> 0x7FF then
        p @ [utf8_t2 OR ucast (signed_drop_bit 6 r), utf8_tx OR (ucast r AND utf8_maskx)]
      else if r < surrogateMin \<or> surrogateMax < r \<and> r \<le> 0xFFFF then
        p @ [utf8_t3 OR ucast (signed_drop_bit 12 r),
             utf8_tx OR (ucast (signed_drop_bit 6 r) AND utf8_maskx),
             utf8_tx OR (ucast r AND utf8_maskx)]
      else if 0xFFFF < r \<and> r \<le> MaxRune then
        p @ [utf8_t4 OR ucast (signed_drop_bit 18 r),
             utf8_tx OR (ucast (signed_drop_bit 12 r) AND utf8_maskx),
             utf8_tx OR (ucast (signed_drop_bit 6 r) AND utf8_maskx),
             utf8_tx OR (ucast r AND utf8_maskx)]
      else p @ [runeErrorByte0, runeErrorByte1, runeErrorByte2])"

definition utf8_AppendRune :: "byte list \<Rightarrow> rune \<Rightarrow> byte list" where
  "utf8_AppendRune p r = (if r \<le> 0x7F then p @ [ucast r] else appendRuneNonASCII p r)"

section \<open>Counting and validating\<close>

text \<open>
  \<open>for range s\<close> over a string steps by the width the language's own UTF-8 decoding gives,
  one byte for an invalid or short encoding: the width \<open>DecodeRuneInString\<close> returns.
\<close>

lemma decodeRuneSlow_width: "p \<noteq> [] \<Longrightarrow> 0 < snd (decodeRuneInStringSlow p)"
  by (simp add: decodeRuneInStringSlow_def Let_def)

function utf8_RuneCountInString :: "byte list \<Rightarrow> nat" where
  "utf8_RuneCountInString s =
     (if s = [] then 0 else Suc (utf8_RuneCountInString (drop (snd (utf8_DecodeRuneInString s)) s)))"
  by pat_completeness auto
termination
  by (relation "measure length")
    (auto simp: utf8_DecodeRuneInString_def dest: decodeRuneSlow_width intro!: diff_less)

declare utf8_RuneCountInString.simps [simp del]

fun utf8_RuneCount_from :: "byte list \<Rightarrow> nat \<Rightarrow> nat" where
  "utf8_RuneCount_from [] n = n"
| "utf8_RuneCount_from (c # p) n =
     (if 0x80 \<le> c then n + utf8_RuneCountInString (c # p) else utf8_RuneCount_from p (Suc n))"

definition utf8_RuneCount :: "byte list \<Rightarrow> nat" where
  "utf8_RuneCount p = utf8_RuneCount_from p 0"

text \<open>
  \<open>Valid\<close> skips ASCII by machine words; \<open>w64\<close> says whether \<open>uintptr\<close> has 64 bits
  (\<open>ptrSize = 8\<close>) or 32 (\<open>ptrSize = 4\<close>, the Windows XP target).
\<close>

definition ptrSize :: "bool \<Rightarrow> nat" where
  "ptrSize w64 = push_bit (if w64 then 1 else 0) 4"

definition hiBits :: "bool \<Rightarrow> uint64" where
  "hiBits w64 = drop_bit (64 - 8 * ptrSize w64) 0x8080808080808080"

definition utf8_word :: "bool \<Rightarrow> byte list \<Rightarrow> uint64" where
  "utf8_word w64 s =
     (if ptrSize w64 = 4 then
        ucast (s ! 0) OR push_bit 8 (ucast (s ! 1)) OR push_bit 16 (ucast (s ! 2))
          OR push_bit 24 (ucast (s ! 3))
      else
        ucast (s ! 0) OR push_bit 8 (ucast (s ! 1)) OR push_bit 16 (ucast (s ! 2))
          OR push_bit 24 (ucast (s ! 3)) OR push_bit 32 (ucast (s ! 4))
          OR push_bit 40 (ucast (s ! 5)) OR push_bit 48 (ucast (s ! 6))
          OR push_bit 56 (ucast (s ! 7)))"

function valid_skip4 :: "bool \<Rightarrow> byte list \<Rightarrow> byte list" where
  "valid_skip4 w64 p =
     (let k = ptrSize w64 in
      if 4 * k < length p \<and>
         ((utf8_word w64 p OR utf8_word w64 (drop k p)) OR
          (utf8_word w64 (drop (2 * k) p) OR utf8_word w64 (drop (3 * k) p))) AND hiBits w64 = 0
      then valid_skip4 w64 (drop (4 * k) p) else p)"
  by pat_completeness auto
termination
  by (relation "measure (\<lambda>(w64, p). length p)") (auto simp: Let_def ptrSize_def)

declare valid_skip4.simps [simp del]

definition valid_skip :: "bool \<Rightarrow> byte list \<Rightarrow> byte list" where
  "valid_skip w64 p =
     (let k = ptrSize w64 in
      if k < length p \<and> utf8_word w64 p AND hiBits w64 = 0 then
        let p = drop k p in
        if 2 * k < length p \<and> (utf8_word w64 p OR utf8_word w64 (drop k p)) AND hiBits w64 = 0
        then valid_skip4 w64 (drop (2 * k) p) else p
      else p)"

lemma length_valid_skip4: "length (valid_skip4 w64 p) \<le> length p"
proof (induction w64 p rule: valid_skip4.induct)
  case (1 w64 p)
  then show ?case
    by (subst valid_skip4.simps) (auto simp: Let_def intro: order_trans)
qed

lemma length_valid_skip: "length (valid_skip w64 p) \<le> length p"
  by (auto simp: valid_skip_def Let_def intro: order_trans [OF length_valid_skip4])

function utf8_Valid :: "bool \<Rightarrow> byte list \<Rightarrow> bool" where
  "utf8_Valid w64 p =
     (if p = [] then True
      else
        let p0 = p ! 0 in
        if p0 < 0x80 then utf8_Valid w64 (valid_skip w64 (drop 1 p))
        else
          let x = utf8_first ! unat p0; size = unat (x AND 7);
              accept = acceptRanges ! unat (drop_bit 4 x) in
          if size = 2 then
            if length p < 2 \<or> p ! 1 < ar_lo accept \<or> ar_hi accept < p ! 1 then False
            else utf8_Valid w64 (drop 2 p)
          else if size = 3 then
            if length p < 3 \<or> p ! 1 < ar_lo accept \<or> ar_hi accept < p ! 1
               \<or> p ! 2 < locb \<or> hicb < p ! 2 then False
            else utf8_Valid w64 (drop 3 p)
          else if size = 4 then
            if length p < 4 \<or> p ! 1 < ar_lo accept \<or> ar_hi accept < p ! 1
               \<or> p ! 2 < locb \<or> hicb < p ! 2 \<or> p ! 3 < locb \<or> hicb < p ! 3 then False
            else utf8_Valid w64 (drop 4 p)
          else False)"
  by pat_completeness auto
termination
  by (relation "measure (\<lambda>(w64, p). length p)")
    (auto simp: Let_def intro: le_less_trans [OF length_valid_skip])

declare utf8_Valid.simps [simp del]

function utf8_ValidString :: "bool \<Rightarrow> byte list \<Rightarrow> bool" where
  "utf8_ValidString w64 s =
     (if s = [] then True
      else
        let s0 = s ! 0 in
        if s0 < 0x80 then utf8_ValidString w64 (valid_skip w64 (drop 1 s))
        else
          let x = utf8_first ! unat s0; size = unat (x AND 7);
              accept = acceptRanges ! unat (drop_bit 4 x) in
          if size = 2 then
            if length s < 2 \<or> s ! 1 < ar_lo accept \<or> ar_hi accept < s ! 1 then False
            else utf8_ValidString w64 (drop 2 s)
          else if size = 3 then
            if length s < 3 \<or> s ! 1 < ar_lo accept \<or> ar_hi accept < s ! 1
               \<or> s ! 2 < locb \<or> hicb < s ! 2 then False
            else utf8_ValidString w64 (drop 3 s)
          else if size = 4 then
            if length s < 4 \<or> s ! 1 < ar_lo accept \<or> ar_hi accept < s ! 1
               \<or> s ! 2 < locb \<or> hicb < s ! 2 \<or> s ! 3 < locb \<or> hicb < s ! 3 then False
            else utf8_ValidString w64 (drop 4 s)
          else False)"
  by pat_completeness auto
termination
  by (relation "measure (\<lambda>(w64, s). length s)")
    (auto simp: Let_def intro: le_less_trans [OF length_valid_skip])

declare utf8_ValidString.simps [simp del]

end
