(* ===== verification/Utf8_Correct.thy ===== *)
theory Utf8_Correct
  imports Utf8
begin

text \<open>
  Correctness of \<open>unicode/utf8\<close>.  The bit-level code is refined to the arithmetic definition
  of UTF-8 (\<open>rfc_encode\<close>, \<open>rfc_decode\<close> on natural numbers); round trips, prefix stability and
  the exact language that \<open>Valid\<close> accepts are derived from that refinement.
\<close>

section \<open>The arithmetic definition of UTF-8\<close>

definition cont :: "nat \<Rightarrow> bool" where "cont b \<longleftrightarrow> 0x80 \<le> b \<and> b \<le> 0xBF"

definition scalar :: "nat \<Rightarrow> bool" where
  "scalar c \<longleftrightarrow> c < 0xD800 \<or> 0xE000 \<le> c \<and> c \<le> 0x10FFFF"

definition rfc_encode :: "nat \<Rightarrow> nat list" where
  "rfc_encode c =
     (if c < 0x80 then [c]
      else if c < 0x800 then [0xC0 + c div 64, 0x80 + c mod 64]
      else if c < 0x10000 then [0xE0 + c div 4096, 0x80 + c div 64 mod 64, 0x80 + c mod 64]
      else [0xF0 + c div 262144, 0x80 + c div 4096 mod 64, 0x80 + c div 64 mod 64, 0x80 + c mod 64])"

fun rfc_decode :: "nat list \<Rightarrow> (nat \<times> nat) option" where
  "rfc_decode [] = None"
| "rfc_decode (a # bs) =
     (if a < 0x80 then Some (a, 1)
      else case bs of [] \<Rightarrow> None | b # cs \<Rightarrow>
        if 0xC2 \<le> a \<and> a \<le> 0xDF \<and> cont b then Some ((a - 0xC0) * 64 + (b - 0x80), 2)
        else case cs of [] \<Rightarrow> None | c # ds \<Rightarrow>
          if 0xE0 \<le> a \<and> a \<le> 0xEF \<and> (if a = 0xE0 then 0xA0 else 0x80) \<le> b
             \<and> b \<le> (if a = 0xED then 0x9F else 0xBF) \<and> cont c
          then Some ((a - 0xE0) * 4096 + (b - 0x80) * 64 + (c - 0x80), 3)
          else case ds of [] \<Rightarrow> None | d # _ \<Rightarrow>
            if 0xF0 \<le> a \<and> a \<le> 0xF4 \<and> (if a = 0xF0 then 0x90 else 0x80) \<le> b
               \<and> b \<le> (if a = 0xF4 then 0x8F else 0xBF) \<and> cont c \<and> cont d
            then Some ((a - 0xF0) * 262144 + (b - 0x80) * 4096 + (c - 0x80) * 64 + (d - 0x80), 4)
            else None)"

lemma utf8_first_nth:
  "n < 256 \<Longrightarrow> utf8_first ! n =
     (if n < 0x80 then 0xF0 else if n < 0xC2 then 0xF1 else if n < 0xE0 then 0x02
      else if n = 0xE0 then 0x13 else if n = 0xED then 0x23 else if n < 0xF0 then 0x03
      else if n = 0xF0 then 0x34 else if n < 0xF4 then 0x04 else if n = 0xF4 then 0x44 else 0xF1)"
  by (auto simp: utf8_first_def nth_append nth_Cons')

lemma unat_byte_less: "unat (b::byte) < 256"
  using unsigned_less[of b, where 'a=nat] by simp

lemma rfc_encode_2: "2 \<le> x \<Longrightarrow> x < 32 \<Longrightarrow> y < 64 \<Longrightarrow> rfc_encode (x * 64 + y) = [0xC0 + x, 0x80 + y]"
  by (auto simp: rfc_encode_def)

lemma rfc_encode_3: "x < 16 \<Longrightarrow> y < 64 \<Longrightarrow> z < 64 \<Longrightarrow> x = 0 \<longrightarrow> 32 \<le> y \<Longrightarrow>
  rfc_encode (x * 4096 + y * 64 + z) = [0xE0 + x, 0x80 + y, 0x80 + z]"
proof -
  assume a: "x < 16" "y < 64" "z < 64" "x = 0 \<longrightarrow> 32 \<le> y"
  let ?c = "x * 4096 + y * 64 + z"
  have "?c = z + (y + x * 64) * 64" by simp
  then have "?c mod 64 = z" "?c div 64 = y + x * 64" using a by (simp_all only: mod_mult_self1 div_mult_self1) simp_all
  moreover then have "?c div 4096 = x" "?c div 64 mod 64 = y" using a by (simp_all add: div_mult2_eq[of _ 64 64, simplified])
  moreover have "0x800 \<le> ?c" "?c < 0x10000" using a by auto
  ultimately show ?thesis unfolding rfc_encode_def by simp
qed

lemma rfc_encode_4: "x < 5 \<Longrightarrow> y < 64 \<Longrightarrow> z < 64 \<Longrightarrow> w < 64 \<Longrightarrow> x = 0 \<longrightarrow> 16 \<le> y \<Longrightarrow>
  rfc_encode (x * 262144 + y * 4096 + z * 64 + w) = [0xF0 + x, 0x80 + y, 0x80 + z, 0x80 + w]"
proof -
  assume a: "x < 5" "y < 64" "z < 64" "w < 64" "x = 0 \<longrightarrow> 16 \<le> y"
  let ?c = "x * 262144 + y * 4096 + z * 64 + w"
  have "?c = w + (z + (y + x * 64) * 64) * 64" by simp
  then have "?c mod 64 = w" "?c div 64 = z + (y + x * 64) * 64" using a by (simp_all only: mod_mult_self1 div_mult_self1) simp_all
  moreover then have "?c div 4096 = y + x * 64" "?c div 64 mod 64 = z" using a by (simp_all only: mod_mult_self1 div_mult_self1 div_mult2_eq[of _ 64 64, simplified]) simp_all
  moreover then have "?c div 262144 = x" "?c div 4096 mod 64 = y" using a by (simp_all add: div_mult2_eq[of _ 4096 64, simplified])
  moreover have "0x10000 \<le> ?c" using a by auto
  ultimately show ?thesis unfolding rfc_encode_def by simp
qed

lemma scalar_forms:
  assumes "scalar c"
  obtains (one) "c < 0x80"
  | (two) x y where "c = x * 64 + y" "2 \<le> x" "x < 32" "y < 64"
  | (three) x y z where "c = x * 4096 + y * 64 + z" "x < 16" "y < 64" "z < 64"
      "x = 0 \<longrightarrow> 32 \<le> y" "x = 13 \<longrightarrow> y < 32"
  | (four) x y z w where "c = x * 262144 + y * 4096 + z * 64 + w" "x < 5" "y < 64" "z < 64" "w < 64"
      "x = 0 \<longrightarrow> 16 \<le> y" "x = 4 \<longrightarrow> y < 16"
proof -
  define z y x where "z = c mod 64" and "y = c div 64 mod 64" and "x = c div 64 div 64"
  have "c = c div 64 * 64 + z" "c div 64 = x * 64 + y"
    unfolding x_def y_def z_def by simp_all
  moreover have "y < 64" "z < 64" by (simp_all add: y_def z_def)
  ultimately have c: "c = x * 4096 + y * 64 + z" "y < 64" "z < 64"
    by linarith+
  consider "c < 0x80" | "0x80 \<le> c" "c < 0x800" | "0x800 \<le> c" "c < 0x10000" | "0x10000 \<le> c"
    by linarith
  then show ?thesis
  proof cases
    case 1 then show ?thesis by (rule one)
  next
    case 2
    then have "x = 0" using c by linarith
    with c 2 show ?thesis by (intro two [of y z]) linarith+
  next
    case 3
    have "x < 16" "x = 0 \<longrightarrow> 32 \<le> y" "x = 13 \<longrightarrow> y < 32"
      using c 3 assms unfolding scalar_def by linarith+
    with c show ?thesis by (intro three [of x y z])
  next
    case 4
    define v u where "v = x mod 64" and "u = x div 64"
    have x: "x = u * 64 + v" "v < 64" unfolding u_def v_def by simp_all
    then have c': "c = u * 262144 + v * 4096 + y * 64 + z" using c(1) by simp
    have "c \<le> 0x10FFFF" using assms 4 by (simp add: scalar_def)
    then have "u < 5" "u = 0 \<longrightarrow> 16 \<le> v" "u = 4 \<longrightarrow> v < 16"
      using c' 4 c(2,3) x(2) by linarith+
    with c' c(2,3) x(2) show ?thesis by (intro four [of u v y z])
  qed
qed

lemma rfc_decode_encode:
  assumes "scalar c"
  shows "rfc_decode (rfc_encode c @ q) = Some (c, length (rfc_encode c))"
  using assms
proof (cases rule: scalar_forms)
  case one then show ?thesis by (simp add: rfc_encode_def)
next
  case (two x y) then show ?thesis by (simp add: rfc_encode_2 cont_def)
next
  case (three x y z) then show ?thesis by (auto simp: rfc_encode_3 cont_def)
next
  case (four x y z w) then show ?thesis by (auto simp: rfc_encode_4 cont_def)
qed

lemma scalar_3: "x < 16 \<Longrightarrow> y < 64 \<Longrightarrow> z < 64 \<Longrightarrow> x = 13 \<longrightarrow> y < 32 \<Longrightarrow> scalar (x * 4096 + y * 64 + z)"
  by (cases "x < 13"; cases "x = 13") (auto simp: scalar_def)

lemma scalar_4: "x < 5 \<Longrightarrow> y < 64 \<Longrightarrow> z < 64 \<Longrightarrow> w < 64 \<Longrightarrow> x = 0 \<longrightarrow> 16 \<le> y \<Longrightarrow> x = 4 \<longrightarrow> y < 16 \<Longrightarrow>
  scalar (x * 262144 + y * 4096 + z * 64 + w)"
  by (cases "x = 0"; cases "x = 4") (auto simp: scalar_def)

lemma between_add: "(a::nat) \<le> b \<Longrightarrow> b \<le> a + k \<Longrightarrow> \<exists>d. b = a + d \<and> d \<le> k"
  by (metis le_Suc_ex nat_add_left_cancel_le)

lemma rfc_decode_Some:
  assumes "rfc_decode bs = Some (c, n)"
  shows "scalar c \<and> n = length (rfc_encode c) \<and> take n bs = rfc_encode c"
proof -
  obtain a r where bs: "bs = a # r" using assms by (cases bs) auto
  consider "a < 0x80" | b r' where "r = b # r'" "0xC2 \<le> a" "a \<le> 0xDF" "cont b"
   | b d r' where "r = b # d # r'" "0xE0 \<le> a" "a \<le> 0xEF" "(if a = 0xE0 then 0xA0 else 0x80) \<le> b"
      "b \<le> (if a = 0xED then 0x9F else 0xBF)" "cont d"
   | b d e r' where "r = b # d # e # r'" "0xF0 \<le> a" "a \<le> 0xF4" "(if a = 0xF0 then 0x90 else 0x80) \<le> b"
      "b \<le> (if a = 0xF4 then 0x8F else 0xBF)" "cont d" "cont e"
    using assms bs by (auto split: if_splits list.splits)
  then show ?thesis
  proof cases
    case 1 with assms bs show ?thesis by (auto simp: rfc_encode_def scalar_def)
  next
    case 2
    then obtain x y where "a = 0xC0 + x" "b = 0x80 + y" "2 \<le> x" "x < 32" "y < 64"
      using between_add[of "0xC2" a "0x1D"] between_add[of "0x80" b "0x3F"] unfolding cont_def
      by (auto)
    with 2 assms bs show ?thesis by (auto simp add: rfc_encode_2 scalar_def)
  next
    case 3
    then obtain x y z where "a = 0xE0 + x" "b = 0x80 + y" "d = 0x80 + z" "x < 16" "y < 64" "z < 64"
      "x = 0 \<longrightarrow> 32 \<le> y" "x = 13 \<longrightarrow> y < 32"
      using between_add[of "0xE0" a "0xF"] between_add[of "0x80" b "0x3F"] between_add[of "0x80" d "0x3F"] unfolding cont_def
      by (auto split: if_splits)
    with 3 assms bs show ?thesis by (auto simp add: rfc_encode_3 scalar_3)
  next
    case 4
    then obtain x y z w where "a = 0xF0 + x" "b = 0x80 + y" "d = 0x80 + z" "e = 0x80 + w" "x < 5" "y < 64" "z < 64" "w < 64"
      "x = 0 \<longrightarrow> 16 \<le> y" "x = 4 \<longrightarrow> y < 16"
      using between_add[of "0xF0" a "0x4"] between_add[of "0x80" b "0x3F"] between_add[of "0x80" d "0x3F"] between_add[of "0x80" e "0x3F"] unfolding cont_def
      by (auto split: if_splits)
    with 4 assms bs show ?thesis by (auto simp add: rfc_encode_4 scalar_4)
  qed
qed

section \<open>The bit operations as arithmetic\<close>

lemma masks: "(0x3F::byte) = mask 6" "(0x1F::byte) = mask 5" "(0x0F::byte) = mask 4" "(0x07::byte) = mask 3"
  by (simp_all add: mask_numeral)

lemma unat_payload:
  fixes b :: byte
  shows "unat (ucast (b AND 0x3F) :: rune) = unat b mod 64"
   "unat (ucast (b AND 0x1F) :: rune) = unat b mod 32"
   "unat (ucast (b AND 0x0F) :: rune) = unat b mod 16"
   "unat (ucast (b AND 0x07) :: rune) = unat b mod 8"
  unfolding masks by (simp_all only: unat_ucast_mod unat_and_mask) simp_all

lemma unat_shifted:
  fixes w :: rune
  shows "unat w < 64 \<Longrightarrow> unat (push_bit 6 w) = unat w * 64"
    "unat w < 64 \<Longrightarrow> unat (push_bit 12 w) = unat w * 4096"
    "unat w < 64 \<Longrightarrow> unat (push_bit 18 w) = unat w * 262144"
  by (simp_all add: unat_push_bit del: push_bit_numeral)

lemma mod64: "(n::nat) mod 64 < 64"
  by simp

lemma mod_less_64: "(n::nat) mod 64 < 64" "n mod 32 < 64" "n mod 16 < 64" "n mod 8 < 64"
  using mod_less_divisor [of 64 n] mod_less_divisor [of 32 n] mod_less_divisor [of 16 n]
    mod_less_divisor [of 8 n]
  by linarith+

lemma word_decode2:
  fixes a b :: byte
  shows "push_bit 6 (ucast (a AND 0x1F)) OR ucast (b AND 0x3F) = (of_nat (unat a mod 32 * 64 + unat b mod 64) :: rune)" (is "?l = _")
proof -
  have 1: "unat (push_bit 6 (ucast (a AND 0x1F)) :: rune) = unat a mod 32 * 64"
    by (subst unat_shifted(1)) (simp_all only: unat_payload mod_less_64)
  have "unat ?l = unat a mod 32 * 64 + unat b mod 64"
    by (subst unat_or_disj[where k = 6]) (simp_all only: 1 unat_payload, simp_all)
  from this [symmetric] show ?thesis by (simp only: of_nat_unat ucast_id)
qed

lemma word_decode3:
  fixes a b c :: byte
  shows "push_bit 12 (ucast (a AND 0x0F)) OR push_bit 6 (ucast (b AND 0x3F)) OR ucast (c AND 0x3F) =
     (of_nat (unat a mod 16 * 4096 + unat b mod 64 * 64 + unat c mod 64) :: rune)" (is "?l = _")
proof -
  have 1: "unat (push_bit 12 (ucast (a AND 0x0F)) :: rune) = unat a mod 16 * 4096"
    by (subst unat_shifted(2)) (simp_all only: unat_payload mod_less_64)
  have 2: "unat (push_bit 6 (ucast (b AND 0x3F)) :: rune) = unat b mod 64 * 64"
    by (subst unat_shifted(1)) (simp_all only: unat_payload mod_less_64)
  have 3: "unat (push_bit 6 (ucast (b AND 0x3F)) OR ucast (c AND 0x3F) :: rune) = unat b mod 64 * 64 + unat c mod 64"
    by (subst unat_or_disj[where k = 6]) (simp_all only: 2 unat_payload, simp_all)
  have 4: "unat b mod 64 * 64 + unat c mod 64 < 4096"
    using mod64 [of "unat b"] mod64 [of "unat c"] by linarith
  have "unat ?l = unat a mod 16 * 4096 + unat b mod 64 * 64 + unat c mod 64"
    by (subst unat_or_disj[where k = 12]) (simp_all only: 1 3, simp_all add: 4 del: mod_less_divisor)
  from this [symmetric] show ?thesis by (simp only: of_nat_unat ucast_id)
qed

lemma word_decode4:
  fixes a b c d :: byte
  shows "push_bit 18 (ucast (a AND 0x07)) OR push_bit 12 (ucast (b AND 0x3F)) OR push_bit 6 (ucast (c AND 0x3F)) OR ucast (d AND 0x3F) =
     (of_nat (unat a mod 8 * 262144 + unat b mod 64 * 4096 + unat c mod 64 * 64 + unat d mod 64) :: rune)" (is "?l = _")
proof -
  have 0: "unat (push_bit 18 (ucast (a AND 0x07)) :: rune) = unat a mod 8 * 262144"
    by (subst unat_shifted(3)) (simp_all only: unat_payload mod_less_64)
  have 1: "unat (push_bit 12 (ucast (b AND 0x3F)) :: rune) = unat b mod 64 * 4096"
    by (subst unat_shifted(2)) (simp_all only: unat_payload mod_less_64)
  have 2: "unat (push_bit 6 (ucast (c AND 0x3F)) :: rune) = unat c mod 64 * 64"
    by (subst unat_shifted(1)) (simp_all only: unat_payload mod_less_64)
  have 3: "unat (push_bit 6 (ucast (c AND 0x3F)) OR ucast (d AND 0x3F) :: rune) = unat c mod 64 * 64 + unat d mod 64"
    by (subst unat_or_disj[where k = 6]) (simp_all only: 2 unat_payload, simp_all)
  have 4: "unat c mod 64 * 64 + unat d mod 64 < 4096"
    using mod64 [of "unat c"] mod64 [of "unat d"] by linarith
  have 5: "unat (push_bit 12 (ucast (b AND 0x3F)) OR push_bit 6 (ucast (c AND 0x3F)) OR ucast (d AND 0x3F) :: rune) = unat b mod 64 * 4096 + (unat c mod 64 * 64 + unat d mod 64)"
    by (subst unat_or_disj[where k = 12]) (simp_all only: 1 3, simp_all add: 4)
  have 6: "unat b mod 64 * 4096 + (unat c mod 64 * 64 + unat d mod 64) < 262144"
    using mod64 [of "unat b"] mod64 [of "unat c"] mod64 [of "unat d"] by linarith
  have "unat ?l = unat a mod 8 * 262144 + (unat b mod 64 * 4096 + (unat c mod 64 * 64 + unat d mod 64))"
    by (subst unat_or_disj[where k = 18]) (simp_all only: 0 5, simp_all add: 6)
  from this [symmetric] show ?thesis by (simp only: add.assoc of_nat_unat ucast_id)
qed

section \<open>The decoder refines the arithmetic definition\<close>

lemma acceptRanges_nth:
  "acceptRanges ! 0 = \<lparr>ar_lo = 0x80, ar_hi = 0xBF\<rparr>" "acceptRanges ! Suc 0 = \<lparr>ar_lo = 0xA0, ar_hi = 0xBF\<rparr>"
  "acceptRanges ! 2 = \<lparr>ar_lo = 0x80, ar_hi = 0x9F\<rparr>" "acceptRanges ! 3 = \<lparr>ar_lo = 0x90, ar_hi = 0xBF\<rparr>"
  "acceptRanges ! 4 = \<lparr>ar_lo = 0x80, ar_hi = 0x8F\<rparr>"
  by (simp_all add: acceptRanges_def)

definition dec_result :: "byte list \<Rightarrow> (nat \<times> nat) option \<Rightarrow> rune \<times> nat" where
  "dec_result p d = (case d of None \<Rightarrow> (RuneError, if p = [] then 0 else 1) | Some (c, n) \<Rightarrow> (of_nat c, n))"

lemma decode_ascii:
  "utf8_first ! unat a = 0xF0 \<Longrightarrow> decodeRuneSlow (a # r) = (ucast a, 1)"
  by (simp add: decodeRuneSlow_def)

lemma decode_bad:
  "utf8_first ! unat a = 0xF1 \<Longrightarrow> decodeRuneSlow (a # r) = (RuneError, 1)"
  by (simp add: decodeRuneSlow_def)

lemma decode_two:
  assumes "utf8_first ! unat a = 2"
  shows "decodeRuneSlow (a # r) = (case r of [] \<Rightarrow> (RuneError, 1) | b # _ \<Rightarrow>
     if b < 0x80 \<or> 0xBF < b then (RuneError, 1) else (of_nat (unat a mod 32 * 64 + unat b mod 64), 2))"
  by (cases r) (simp_all add: decodeRuneSlow_def assms acceptRanges_nth word_decode2 Let_def)

lemma decode_three:
  assumes "utf8_first ! unat a = x" "x < 0xF0" "unat (x AND 7) = 3" "acceptRanges ! unat (drop_bit 4 x) = \<lparr>ar_lo = lo, ar_hi = hi\<rparr>"
  shows "decodeRuneSlow (a # r) = (case r of b # c # _ \<Rightarrow>
     if b < lo \<or> hi < b \<or> c < 0x80 \<or> 0xBF < c then (RuneError, 1) else (of_nat (unat a mod 16 * 4096 + unat b mod 64 * 64 + unat c mod 64), 3)
     | _ \<Rightarrow> (RuneError, 1))"
  using assms
  by (auto simp add: decodeRuneSlow_def word_decode3 Let_def not_le split: list.split)

lemma decode_four:
  assumes "utf8_first ! unat a = x" "x < 0xF0" "unat (x AND 7) = 4" "acceptRanges ! unat (drop_bit 4 x) = \<lparr>ar_lo = lo, ar_hi = hi\<rparr>"
  shows "decodeRuneSlow (a # r) = (case r of b # c # d # _ \<Rightarrow>
     if b < lo \<or> hi < b \<or> c < 0x80 \<or> 0xBF < c \<or> d < 0x80 \<or> 0xBF < d then (RuneError, 1)
      else (of_nat (unat a mod 8 * 262144 + unat b mod 64 * 4096 + unat c mod 64 * 64 + unat d mod 64), 4)
     | _ \<Rightarrow> (RuneError, 1))"
  using assms
  by (auto simp add: decodeRuneSlow_def word_decode4 Let_def not_le split: list.split)

lemma rfc_bad: "0x80 \<le> n \<Longrightarrow> n < 0xC2 \<or> 0xF4 < n \<Longrightarrow> rfc_decode (n # bs) = None"
  by (elim disjE) (simp_all split: list.split)

lemma rfc_two: "0xC2 \<le> n \<Longrightarrow> n < 0xE0 \<Longrightarrow> rfc_decode (n # bs) = (case bs of [] \<Rightarrow> None | b # _ \<Rightarrow>
     if cont b then Some ((n - 0xC0) * 64 + (b - 0x80), 2) else None)"
  by (auto split: list.split)

lemma rfc_three: "0xE0 \<le> n \<Longrightarrow> n < 0xF0 \<Longrightarrow> rfc_decode (n # bs) = (case bs of b # c # _ \<Rightarrow>
     if (if n = 0xE0 then 0xA0 else 0x80) \<le> b \<and> b \<le> (if n = 0xED then 0x9F else 0xBF) \<and> cont c
     then Some ((n - 0xE0) * 4096 + (b - 0x80) * 64 + (c - 0x80), 3) else None | _ \<Rightarrow> None)"
  by (auto split: list.split)

lemma rfc_four: "0xF0 \<le> n \<Longrightarrow> n \<le> 0xF4 \<Longrightarrow> rfc_decode (n # bs) = (case bs of b # c # d # _ \<Rightarrow>
     if (if n = 0xF0 then 0x90 else 0x80) \<le> b \<and> b \<le> (if n = 0xF4 then 0x8F else 0xBF) \<and> cont c \<and> cont d
     then Some ((n - 0xF0) * 262144 + (b - 0x80) * 4096 + (c - 0x80) * 64 + (d - 0x80), 4) else None | _ \<Rightarrow> None)"
  by (auto split: list.split)

lemma mod_offset:
  fixes n :: nat
  assumes "k * m \<le> n" and "n < k * m + m"
  shows "n mod m = n - k * m"
proof -
  obtain d where d: "n = k * m + d"
    using assms(1) by (auto simp: le_iff_add)
  with assms(2) have "d < m" by simp
  with d show ?thesis by simp
qed

lemma mod64_cont: "0x80 \<le> b \<Longrightarrow> b \<le> 0xBF \<Longrightarrow> b mod 64 = b - 0x80" for b :: nat
  using mod_offset [of 2 64 b] by simp

lemma lead_mod:
  "0xC0 \<le> n \<Longrightarrow> n < 0xE0 \<Longrightarrow> n mod 32 = n - 0xC0"
  "0xE0 \<le> n \<Longrightarrow> n < 0xF0 \<Longrightarrow> n mod 16 = n - 0xE0"
  "0xF0 \<le> n \<Longrightarrow> n < 0xF8 \<Longrightarrow> n mod 8 = n - 0xF0" for n :: nat
  using mod_offset [of 6 32 n] mod_offset [of 14 16 n] mod_offset [of 30 8 n] by simp_all

declare rfc_decode.simps(2) [simp del]

lemma decodeRuneSlow_refines: "decodeRuneSlow p = dec_result p (rfc_decode (map unat p))"
proof (cases p)
  case Nil then show ?thesis by (simp add: decodeRuneSlow_def dec_result_def)
next
  case (Cons a r)
  note f = utf8_first_nth [OF unat_byte_less [of a]]
  consider (asc) "unat a < 0x80" | (bad) "0x80 \<le> unat a" "unat a < 0xC2 \<or> 0xF4 < unat a" | (two) "0xC2 \<le> unat a" "unat a < 0xE0"
    | (three) "0xE0 \<le> unat a" "unat a < 0xF0" | (four) "0xF0 \<le> unat a" "unat a \<le> 0xF4" by linarith
  then show ?thesis
  proof cases
    case asc
    with f Cons show ?thesis by (simp add: decode_ascii dec_result_def rfc_decode.simps(2))
  next
    case bad
    then have "utf8_first ! unat a = 0xF1" using f by auto
    with bad Cons show ?thesis by (simp add: decode_bad rfc_bad dec_result_def)
  next
    case two
    then have "utf8_first ! unat a = 0x02" using f by auto
    with two Cons show ?thesis
      by (auto simp: decode_two rfc_two dec_result_def cont_def word_less_numeral_unat mod64_cont lead_mod split: list.split)
  next
    case three
    let ?lo = "if unat a = 0xE0 then 0xA0 else 0x80 :: byte"
    let ?hi = "if unat a = 0xED then 0x9F else 0xBF :: byte"
    have "decodeRuneSlow (a # r) = (case r of b # c # _ \<Rightarrow>
     if b < ?lo \<or> ?hi < b \<or> c < 0x80 \<or> 0xBF < c then (RuneError, 1) else (of_nat (unat a mod 16 * 4096 + unat b mod 64 * 64 + unat c mod 64), 3)
     | _ \<Rightarrow> (RuneError, 1))"
      by (rule decode_three[OF f]) (use three in \<open>auto simp: acceptRanges_nth\<close>)
    with three Cons show ?thesis
      by (auto simp: rfc_three dec_result_def cont_def word_less_numeral_unat mod64_cont lead_mod split: list.split)
  next
    case four
    let ?lo = "if unat a = 0xF0 then 0x90 else 0x80 :: byte"
    let ?hi = "if unat a = 0xF4 then 0x8F else 0xBF :: byte"
    have "decodeRuneSlow (a # r) = (case r of b # c # d # _ \<Rightarrow>
     if b < ?lo \<or> ?hi < b \<or> c < 0x80 \<or> 0xBF < c \<or> d < 0x80 \<or> 0xBF < d then (RuneError, 1)
      else (of_nat (unat a mod 8 * 262144 + unat b mod 64 * 4096 + unat c mod 64 * 64 + unat d mod 64), 4)
     | _ \<Rightarrow> (RuneError, 1))"
      by (rule decode_four[OF f]) (use four in \<open>auto simp: acceptRanges_nth\<close>)
    with four Cons show ?thesis
      by (auto simp: rfc_four dec_result_def cont_def word_less_numeral_unat mod64_cont lead_mod split: list.split)
  qed
qed

section \<open>The encoder refines the arithmetic definition\<close>

lemma unat_tx: "unat (utf8_tx OR (b AND utf8_maskx)) = 0x80 + unat b mod 64" for b :: byte
proof -
  have m: "unat (b AND utf8_maskx) = unat b mod 64" unfolding masks by (simp only: unat_and_mask) simp
  show ?thesis by (subst unat_or_disj[where k = 6]) (simp_all add: m)
qed

lemma unat_byte_shift: "0 \<le> sint r \<Longrightarrow> unat (ucast (signed_drop_bit k r) :: byte) = unat r div 2 ^ k mod 256" for r :: rune
  by (simp add: signed_drop_bit_nonneg unat_ucast_mod unat_drop_bit)

lemma unat_lead:
  "unat b < 32 \<Longrightarrow> unat (utf8_t2 OR b) = 0xC0 + unat b"
  "unat b < 16 \<Longrightarrow> unat (utf8_t3 OR b) = 0xE0 + unat b"
  "unat b < 8 \<Longrightarrow> unat (utf8_t4 OR b) = 0xF0 + unat b" for b :: byte
  by (subst unat_or_disj[where k = 5], simp_all, subst unat_or_disj[where k = 4], simp_all, subst unat_or_disj[where k = 4], simp_all)

lemma sint_rune: "unat r < 0x80000000 \<Longrightarrow> sint r = int (unat r)" for r :: rune
  using sint_unat[of r] by simp

lemma error_bytes: "map unat [runeErrorByte0, runeErrorByte1, runeErrorByte2] = rfc_encode 0xFFFD"
  by (simp add: runeErrorByte0_def runeErrorByte1_def runeErrorByte2_def rfc_encode_def)

definition utf8_enc :: "rune \<Rightarrow> byte list" where
  "utf8_enc r = utf8_AppendRune [] r"

lemma mod_mod_256_64: "(n::nat) mod 256 mod 64 = n mod 64"
  by (simp add: mod_mod_cancel)

lemma utf8_enc_refines:
  "map unat (utf8_enc r) = rfc_encode (if scalar (unat r) then unat r else 0xFFFD)"
proof -
  note ar = word_less_numeral_unat
  consider (1) "unat r < 0x80" | (2) "0x80 \<le> unat r" "unat r < 0x800" | (3) "0x800 \<le> unat r" "unat r < 0x10000" "scalar (unat r)"
    | (4) "0x10000 \<le> unat r" "unat r \<le> 0x10FFFF" | (5) "\<not> scalar (unat r)" by (fastforce simp: scalar_def)
  then show ?thesis
  proof cases
    case 1 then show ?thesis
      by (simp add: utf8_enc_def utf8_AppendRune_def ar scalar_def rfc_encode_def unat_ucast_mod)
  next
    case 2
    then have s: "0 \<le> sint r" by (simp add: sint_rune)
    have "unat (ucast (signed_drop_bit 6 r) :: byte) < 32"
      using 2 by (simp add: unat_byte_shift[OF s])
    with 2 show ?thesis
      by (simp add: utf8_enc_def utf8_AppendRune_def appendRuneNonASCII_def ar scalar_def rfc_encode_def unat_lead
         unat_tx unat_byte_shift[OF s] unat_ucast_mod [of r] mod_mod_256_64)
  next
    case 3
    then have s: "0 \<le> sint r" by (simp add: sint_rune)
    have "unat (ucast (signed_drop_bit 12 r) :: byte) < 16"
      using 3 by (simp add: unat_byte_shift[OF s])
    with 3 show ?thesis
      by (auto simp add: utf8_enc_def utf8_AppendRune_def appendRuneNonASCII_def ar scalar_def rfc_encode_def unat_lead
         unat_tx unat_byte_shift[OF s] unat_ucast_mod [of r] mod_mod_256_64)
  next
    case 4
    then have s: "0 \<le> sint r" by (simp add: sint_rune)
    have "unat (ucast (signed_drop_bit 18 r) :: byte) < 8"
      using 4 by (simp add: unat_byte_shift[OF s])
    with 4 show ?thesis
      by (simp add: utf8_enc_def utf8_AppendRune_def appendRuneNonASCII_def ar scalar_def rfc_encode_def unat_lead
         unat_tx unat_byte_shift[OF s] unat_ucast_mod [of r] mod_mod_256_64)
  next
    case 5
    then have "utf8_enc r = [runeErrorByte0, runeErrorByte1, runeErrorByte2]"
      by (auto simp: utf8_enc_def utf8_AppendRune_def appendRuneNonASCII_def ar scalar_def)
    with 5 show ?thesis using error_bytes by simp
  qed
qed

section \<open>The word-at-a-time skip drops ASCII only\<close>

lemma less_8: "(i::nat) < 8 \<Longrightarrow> i = 0 \<or> i = 1 \<or> i = 2 \<or> i = 3 \<or> i = 4 \<or> i = 5 \<or> i = 6 \<or> i = 7"
  by linarith

lemma less_4: "(i::nat) < 4 \<Longrightarrow> i = 0 \<or> i = 1 \<or> i = 2 \<or> i = 3"
  by linarith

lemma ptrSize_simps [simp]: "ptrSize True = 8" "ptrSize False = 4"
  by (simp_all add: ptrSize_def)

lemma bit_hiBits: "i < ptrSize w64 \<Longrightarrow> bit (hiBits w64) (8 * i + 7)"
  by (cases w64) (auto simp: hiBits_def bit_drop_bit_eq dest!: less_8 less_4)

lemma ascii_iff_bit: "b < 0x80 \<longleftrightarrow> \<not> bit b 7" for b :: byte
proof -
  have "bit (unat b) 7 \<longleftrightarrow> 128 \<le> unat b" using bit_top_iff[of "unat b" 7] unat_byte_less[of b] by simp
  then show ?thesis by (auto simp: word_less_numeral_unat bit_unsigned_iff)
qed

lemma bit_utf8_word: "i < ptrSize w64 \<Longrightarrow> bit (p ! i) 7 \<Longrightarrow> bit (utf8_word w64 p) (8 * i + 7)"
proof -
  assume i: "i < ptrSize w64" and b: "bit (p ! i) 7"
  have bit: "bit (push_bit (8 * j) (ucast (p ! i)) :: uint64) (8 * i + 7)" if "j = i" for j
    using i b that by (cases w64) (auto simp: bit_push_bit_iff bit_unsigned_iff)
  show ?thesis
  proof (cases w64)
    case True
    with i have "i = 0 \<or> i = 1 \<or> i = 2 \<or> i = 3 \<or> i = 4 \<or> i = 5 \<or> i = 6 \<or> i = 7" using less_8 by simp
    then show ?thesis using True bit[of 0] bit[of 1] bit[of 2] bit[of 3] bit[of 4] bit[of 5] bit[of 6] bit[of 7]
      by (elim disjE) (simp_all add: utf8_word_def bit_or_iff)
  next
    case False
    with i have "i = 0 \<or> i = 1 \<or> i = 2 \<or> i = 3" using less_4 by simp
    then show ?thesis using False bit[of 0] bit[of 1] bit[of 2] bit[of 3]
      by (elim disjE) (simp_all add: utf8_word_def bit_or_iff)
  qed
qed

definition ascii :: "byte list \<Rightarrow> bool" where
  "ascii p \<longleftrightarrow> list_all (\<lambda>b. b < 0x80) p"

lemma ascii_append: "ascii (p @ q) \<longleftrightarrow> ascii p \<and> ascii q"
  by (simp add: ascii_def)

lemma ascii_take:
  assumes "utf8_word w64 p AND hiBits w64 = 0" shows "ascii (take (ptrSize w64) p)"
proof -
  have "\<not> bit (p ! i) 7" if "i < ptrSize w64" for i
  proof
    assume "bit (p ! i) 7"
    with that have "bit (utf8_word w64 p AND hiBits w64) (8 * i + 7)" by (simp add: bit_and_iff bit_hiBits bit_utf8_word)
    with assms show False by simp
  qed
  then show ?thesis by (auto simp: ascii_def list_all_length ascii_iff_bit)
qed

lemma and_or_zero: "(a OR b) AND c = 0 \<longleftrightarrow> a AND c = 0 \<and> b AND c = 0" for a b c :: "'a::len word"
  by (auto simp: bit_eq_iff bit_simps)

lemma ascii_take_add: "ascii (take (k + m) p) \<longleftrightarrow> ascii (take k p) \<and> ascii (take m (drop k p))"
  by (simp add: take_add ascii_append)

lemma valid_skip4_ascii: "\<exists>k. valid_skip4 w64 p = drop k p \<and> ascii (take k p)"
proof (induction w64 p rule: valid_skip4.induct)
  case (1 w64 p)
  let ?k = "ptrSize w64"
  show ?case
  proof (cases "4 * ?k < length p \<and>
         ((utf8_word w64 p OR utf8_word w64 (drop ?k p)) OR
          (utf8_word w64 (drop (2 * ?k) p) OR utf8_word w64 (drop (3 * ?k) p))) AND hiBits w64 = 0")
    case True
    then obtain k where k: "valid_skip4 w64 (drop (4 * ?k) p) = drop k (drop (4 * ?k) p)" "ascii (take k (drop (4 * ?k) p))"
      using 1 by (metis (no_types, lifting))
    have e: "2 * ?k = ?k + ?k" "3 * ?k = ?k + (?k + ?k)" "4 * ?k = ?k + (?k + (?k + ?k))" by simp_all
    from True have "ascii (take ?k p)" "ascii (take ?k (drop ?k p))" "ascii (take ?k (drop (2 * ?k) p))" "ascii (take ?k (drop (3 * ?k) p))"
      by (simp_all add: and_or_zero ascii_take)
    then have "ascii (take (?k + (?k + (?k + (?k + k)))) p)"
      using k(2) by (simp only: ascii_take_add drop_drop e add.assoc simp_thms)
    moreover have "?k + (?k + (?k + (?k + k))) = k + 4 * ?k" by simp
    ultimately have "ascii (take (k + 4 * ?k) p)" by simp
    then show ?thesis using True k by (subst valid_skip4.simps) (auto simp: Let_def intro!: exI[of _ "k + 4 * ?k"] simp: add.commute)
  next
    case False
    then show ?thesis by (subst valid_skip4.simps) (auto simp: Let_def ascii_def intro: exI[of _ 0])
  qed
qed

lemma valid_skip_ascii: "\<exists>k. valid_skip w64 p = drop k p \<and> ascii (take k p)"
proof -
  let ?k = "ptrSize w64"
  let ?c1 = "?k < length p \<and> utf8_word w64 p AND hiBits w64 = 0"
  let ?c2 = "2 * ?k < length (drop ?k p) \<and> (utf8_word w64 (drop ?k p) OR utf8_word w64 (drop ?k (drop ?k p))) AND hiBits w64 = 0"
  consider (a) "\<not> ?c1" | (b) ?c1 "\<not> ?c2" | (c) ?c1 ?c2 by blast
  then show ?thesis
  proof cases
    case a
    then have "valid_skip w64 p = drop 0 p" by (auto simp: valid_skip_def Let_def)
    then show ?thesis by (intro exI[of _ 0]) (simp add: ascii_def)
  next
    case b
    then have "valid_skip w64 p = drop ?k p" by (auto simp: valid_skip_def Let_def)
    with b show ?thesis by (intro exI[of _ ?k]) (simp add: ascii_take)
  next
    case c
    obtain k where k: "valid_skip4 w64 (drop (2 * ?k) (drop ?k p)) = drop k (drop (2 * ?k) (drop ?k p))"
      "ascii (take k (drop (2 * ?k) (drop ?k p)))" using valid_skip4_ascii by blast
    have e: "2 * ?k = ?k + ?k" by simp
    from c have "ascii (take ?k p)" "ascii (take ?k (drop ?k p))" "ascii (take ?k (drop ?k (drop ?k p)))"
      by (simp_all only: and_or_zero ascii_take)
    with k(2) have "ascii (take (?k + (?k + (?k + k))) p)"
      by (simp only: ascii_take_add drop_drop e add.assoc simp_thms)
    moreover have "valid_skip w64 p = drop (k + 3 * ?k) p"
      using c k(1) by (auto simp: valid_skip_def Let_def)
    moreover have "?k + (?k + (?k + k)) = k + 3 * ?k" by simp
    ultimately show ?thesis by metis
  qed
qed

section \<open>Agreement of the variants\<close>

lemma DecodeRune_slow: "utf8_DecodeRune p = decodeRuneSlow p"
proof (cases p)
  case Nil then show ?thesis by (simp add: utf8_DecodeRune_def)
next
  case (Cons a r)
  have "utf8_first ! unat a = 0xF0" if "a < 0x80"
    using utf8_first_nth [OF unat_byte_less [of a]] that by (simp add: word_less_numeral_unat)
  with Cons show ?thesis by (auto simp: utf8_DecodeRune_def decode_ascii)
qed

lemmas DecodeRune_refines = decodeRuneSlow_refines [folded DecodeRune_slow]

lemma decodeRuneInStringSlow_eq: "decodeRuneInStringSlow = decodeRuneSlow"
  by (rule ext) (simp only: decodeRuneInStringSlow_def decodeRuneSlow_def)

lemma DecodeRuneInString_eq: "utf8_DecodeRuneInString = utf8_DecodeRune"
proof
  fix s show "utf8_DecodeRuneInString s = utf8_DecodeRune s"
    by (cases s) (auto simp: utf8_DecodeRuneInString_def utf8_DecodeRune_def decodeRuneInStringSlow_eq)
qed

lemma DecodeLastRuneInString_eq: "utf8_DecodeLastRuneInString = utf8_DecodeLastRune"
  by (rule ext) (simp only: utf8_DecodeLastRuneInString_def utf8_DecodeLastRune_def DecodeRuneInString_eq)

lemma FullRuneInString_eq: "utf8_FullRuneInString = utf8_FullRune"
  by (rule ext) (simp only: utf8_FullRuneInString_def utf8_FullRune_def)

lemma ValidRune_scalar: "utf8_ValidRune r \<longleftrightarrow> scalar (unat r)"
  using unsigned_less [of r, where 'a = nat] sint_unat [of r]
  by (auto simp: utf8_ValidRune_def scalar_def simp del: of_nat_unat split: if_splits)

lemma map_unat_inject: "map unat (p::byte list) = map unat q \<longleftrightarrow> p = q"
  by (simp add: inj_map_eq_map inj_unsigned)

lemma AppendRune_enc: "utf8_AppendRune p r = p @ utf8_enc r"
  by (simp add: utf8_enc_def utf8_AppendRune_def appendRuneNonASCII_def)

lemma length_enc: "length (utf8_enc r) = length (rfc_encode (if scalar (unat r) then unat r else 0xFFFD))"
  using arg_cong [OF utf8_enc_refines, of length r] by simp

lemma list_update_prefix2: "Suc 0 < length p \<Longrightarrow> p[0 := a, Suc 0 := b] = a # b # drop 2 p"
  by (cases p; cases "tl p") auto

lemma list_update_drop0: "k < length p \<Longrightarrow> (drop k p)[0 := a] = a # drop (Suc k) p"
  by (subst Cons_nth_drop_Suc [symmetric]) simp_all

lemma EncodeRune_enc:
  "utf8_EncodeRune p r =
     (let e = utf8_enc r in
      if length e \<le> length p then Some (e @ drop (length e) p, length e) else None)"
proof -
  have asc: "r \<le> 0x7F \<Longrightarrow> ?thesis"
    by (cases p) (simp_all add: utf8_EncodeRune_def utf8_enc_def utf8_AppendRune_def go_store_def)
  have "encodeRuneNonASCII p r =
     (let e = appendRuneNonASCII [] r in
      if length e \<le> length p then Some (e @ drop (length e) p, length e) else None)"
    by (simp add: encodeRuneNonASCII_def appendRuneNonASCII_def Let_def Suc_le_eq
      list_update_prefix2 list_update_drop0 numeral_eq_Suc)
  then show ?thesis
    using asc by (simp add: utf8_EncodeRune_def utf8_enc_def utf8_AppendRune_def)
qed

section \<open>Round trip and exactness of decoding\<close>

lemma scalar_error: "scalar 0xFFFD" by (simp add: scalar_def)

lemma DecodeRune_enc:
  "utf8_DecodeRune (utf8_enc r @ q) = (if utf8_ValidRune r then r else RuneError, length (utf8_enc r))"
proof -
  define c where "c = (if scalar (unat r) then unat r else 0xFFFD)"
  have "scalar c" by (simp add: c_def scalar_error)
  then have "rfc_decode (map unat (utf8_enc r @ q)) = Some (c, length (utf8_enc r))"
    by (simp add: utf8_enc_refines length_enc c_def [symmetric] rfc_decode_encode)
  then show ?thesis
    by (simp add: DecodeRune_refines dec_result_def ValidRune_scalar c_def)
qed

lemma DecodeRune_cases:
  obtains (invalid) "rfc_decode (map unat p) = None" "utf8_DecodeRune p = (RuneError, if p = [] then 0 else 1)"
  | (valid) r where "utf8_ValidRune r" "utf8_DecodeRune p = (r, length (utf8_enc r))" "p = utf8_enc r @ drop (length (utf8_enc r)) p"
     "rfc_decode (map unat p) = Some (unat r, length (utf8_enc r))"
proof (cases "rfc_decode (map unat p)")
  case None
  then show ?thesis by (intro invalid) (simp_all add: DecodeRune_refines dec_result_def)
next
  case (Some d)
  obtain c n where d: "d = (c, n)" by fastforce
  from rfc_decode_Some [OF Some [unfolded d]]
  have c: "scalar c" "n = length (rfc_encode c)" "take n (map unat p) = rfc_encode c" by auto
  define r where "r = (of_nat c :: rune)"
  have "c < 2 ^ 32" using c(1) by (auto simp: scalar_def)
  then have ur: "unat r = c" by (simp add: r_def unat_of_nat)
  then have v: "utf8_ValidRune r" using c(1) by (simp add: ValidRune_scalar)
  have e: "map unat (utf8_enc r) = rfc_encode c" using c(1) ur by (simp add: utf8_enc_refines)
  then have n: "n = length (utf8_enc r)" using c(2) by (metis length_map)
  have "take n p = utf8_enc r" using e c(3) by (metis map_unat_inject take_map)
  then have "p = utf8_enc r @ drop n p" by (metis append_take_drop_id)
  moreover have "utf8_DecodeRune p = (r, n)" using Some d by (simp add: DecodeRune_refines dec_result_def r_def)
  ultimately show ?thesis using v n valid [of r] Some d ur by simp
qed

lemma enc_not_Nil: "utf8_enc r \<noteq> []"
  using length_enc[of r] by (auto simp: rfc_encode_def split: if_splits)

lemma length_enc_bounds: "0 < length (utf8_enc r)" "length (utf8_enc r) \<le> 4"
  by (auto simp: length_enc rfc_encode_def)

lemma DecodeRune_error_iff:
  "utf8_DecodeRune p = (RuneError, 1) \<longleftrightarrow> p \<noteq> [] \<and> (\<nexists>r q. utf8_ValidRune r \<and> p = utf8_enc r @ q)"
proof (cases p rule: DecodeRune_cases)
  case invalid
  have "\<not> (utf8_ValidRune r \<and> p = utf8_enc r @ q)" for r q
  proof
    assume a: "utf8_ValidRune r \<and> p = utf8_enc r @ q"
    then have "utf8_DecodeRune p = (r, length (utf8_enc r))" using DecodeRune_enc [of r q] by simp
    with invalid(2) have "r = RuneError" "length (utf8_enc r) \<le> 1" by (auto split: if_splits)
    then show False by (simp add: length_enc scalar_def rfc_encode_def)
  qed
  with invalid(2) show ?thesis by auto
next
  case (valid r)
  have "utf8_DecodeRune p \<noteq> (RuneError, 1)"
  proof
    assume "utf8_DecodeRune p = (RuneError, 1)"
    with valid(2) have "r = RuneError" "length (utf8_enc r) = 1" by auto
    then show False by (simp add: length_enc scalar_def rfc_encode_def)
  qed
  with valid show ?thesis by blast
qed

section \<open>FullRune\<close>

lemma full_one:
  "utf8_first ! unat a \<in> {0xF0, 0xF1} \<Longrightarrow> utf8_FullRune (a # r)"
  by (auto simp: utf8_FullRune_def)

lemma full_two:
  "utf8_first ! unat a = 2 \<Longrightarrow> utf8_FullRune (a # r) \<longleftrightarrow> r \<noteq> []"
  by (cases r) (simp_all add: utf8_FullRune_def)

lemma full_three:
  assumes "utf8_first ! unat a = x" "unat (x AND 7) = 3" "acceptRanges ! unat (drop_bit 4 x) = \<lparr>ar_lo = lo, ar_hi = hi\<rparr>"
  shows "utf8_FullRune (a # r) \<longleftrightarrow> (case r of [] \<Rightarrow> False | [b] \<Rightarrow> b < lo \<or> hi < b | _ \<Rightarrow> True)"
  using assms by (auto simp: utf8_FullRune_def Let_def split: list.split)

lemma full_four:
  assumes "utf8_first ! unat a = x" "unat (x AND 7) = 4" "acceptRanges ! unat (drop_bit 4 x) = \<lparr>ar_lo = lo, ar_hi = hi\<rparr>"
  shows "utf8_FullRune (a # r) \<longleftrightarrow> (case r of [] \<Rightarrow> False | [b] \<Rightarrow> b < lo \<or> hi < b | [b, c] \<Rightarrow> b < lo \<or> hi < b \<or> c < 0x80 \<or> 0xBF < c | _ \<Rightarrow> True)"
  using assms by (auto simp: utf8_FullRune_def Let_def split: list.split)

lemma stable_two:
  assumes "utf8_first ! unat a = 2"
  shows "r \<noteq> [] \<longleftrightarrow> (\<forall>q. decodeRuneSlow (a # r @ q) = decodeRuneSlow (a # r))"
proof (cases r)
  case Nil
  then have "decodeRuneSlow (a # r @ [0x80]) \<noteq> decodeRuneSlow (a # r)" by (simp add: decode_two[OF assms])
  with Nil show ?thesis by blast
qed (simp add: decode_two[OF assms])

lemma stable_three:
  assumes "utf8_first ! unat a = x" "x < 0xF0" "unat (x AND 7) = 3" "acceptRanges ! unat (drop_bit 4 x) = \<lparr>ar_lo = lo, ar_hi = hi\<rparr>" "lo \<le> hi"
  shows "utf8_FullRune (a # r) \<longleftrightarrow> (\<forall>q. decodeRuneSlow (a # r @ q) = decodeRuneSlow (a # r))"
proof -
  note D = decode_three[OF assms(1-4)] and F = full_three[OF assms(1,3,4)]
  consider "r = []" | b where "r = [b]" "\<not> (b < lo \<or> hi < b)" | b where "r = [b]" "b < lo \<or> hi < b" | b c r' where "r = b # c # r'"
    by (cases r; cases "tl r") auto
  then show ?thesis
  proof cases
    case 1
    have "decodeRuneSlow (a # r @ [lo, 0x80]) \<noteq> decodeRuneSlow (a # r)" using 1 assms(5) by (simp add: D)
    moreover have "\<not> utf8_FullRune (a # r)" using 1 by (simp add: F)
    ultimately show ?thesis by blast
  next
    case 2
    then have "decodeRuneSlow (a # r @ [0x80]) \<noteq> decodeRuneSlow (a # r)" by (simp add: D)
    moreover have "\<not> utf8_FullRune (a # r)" using 2 by (simp add: F)
    ultimately show ?thesis by blast
  next
    case 3 then show ?thesis by (elim disjE) (simp_all add: F D split: list.split)
  next
    case 4 then show ?thesis by (simp add: F D split: list.split)
  qed
qed

lemma stable_four:
  assumes "utf8_first ! unat a = x" "x < 0xF0" "unat (x AND 7) = 4" "acceptRanges ! unat (drop_bit 4 x) = \<lparr>ar_lo = lo, ar_hi = hi\<rparr>" "lo \<le> hi"
  shows "utf8_FullRune (a # r) \<longleftrightarrow> (\<forall>q. decodeRuneSlow (a # r @ q) = decodeRuneSlow (a # r))"
proof -
  note D = decode_four[OF assms(1-4)] and F = full_four[OF assms(1,3,4)]
  consider "r = []" | b where "r = [b]" "\<not> (b < lo \<or> hi < b)" | b where "r = [b]" "b < lo \<or> hi < b"
   | b c where "r = [b, c]" "\<not> (b < lo \<or> hi < b \<or> c < 0x80 \<or> 0xBF < c)" | b c where "r = [b, c]" "b < lo \<or> hi < b \<or> c < 0x80 \<or> 0xBF < c"
   | b c d r' where "r = b # c # d # r'"
    by (cases r; cases "tl r"; cases "tl (tl r)") auto
  then show ?thesis
  proof cases
    case 1
    have "decodeRuneSlow (a # r @ [lo, 0x80, 0x80]) \<noteq> decodeRuneSlow (a # r)" using 1 assms(5) by (simp add: D)
    moreover have "\<not> utf8_FullRune (a # r)" using 1 by (simp add: F)
    ultimately show ?thesis by blast
  next
    case 2
    then have "decodeRuneSlow (a # r @ [0x80, 0x80]) \<noteq> decodeRuneSlow (a # r)" by (simp add: D)
    moreover have "\<not> utf8_FullRune (a # r)" using 2 by (simp add: F)
    ultimately show ?thesis by blast
  next
    case 3 then show ?thesis by (elim disjE) (simp_all add: F D split: list.split)
  next
    case 4
    then have "decodeRuneSlow (a # r @ [0x80]) \<noteq> decodeRuneSlow (a # r)" by (simp add: D)
    moreover have "\<not> utf8_FullRune (a # r)" using 4 by (simp add: F)
    ultimately show ?thesis by blast
  next
    case 5 then show ?thesis by (elim disjE) (simp_all add: F D split: list.split)
  next
    case 6 then show ?thesis by (simp add: F D split: list.split)
  qed
qed

lemma FullRune_stable: "utf8_FullRune p \<longleftrightarrow> p \<noteq> [] \<and> (\<forall>q. utf8_DecodeRune (p @ q) = utf8_DecodeRune p)"
proof (cases p)
  case Nil then show ?thesis by (simp add: utf8_FullRune_def)
next
  case (Cons a r)
  note f = utf8_first_nth [OF unat_byte_less [of a]]
  consider (asc) "unat a < 0x80" | (bad) "0x80 \<le> unat a" "unat a < 0xC2 \<or> 0xF4 < unat a"
    | (two) "0xC2 \<le> unat a" "unat a < 0xE0"
    | (three) "0xE0 \<le> unat a" "unat a < 0xF0" | (four) "0xF0 \<le> unat a" "unat a \<le> 0xF4" by linarith
  then have "utf8_FullRune (a # r) \<longleftrightarrow> (\<forall>q. decodeRuneSlow (a # r @ q) = decodeRuneSlow (a # r))"
  proof cases
    case asc
    then show ?thesis using f by (simp add: full_one decode_ascii)
  next
    case bad
    then have "utf8_first ! unat a = 0xF1" using f by auto
    then show ?thesis by (simp add: full_one decode_bad)
  next
    case two
    then have "utf8_first ! unat a = 2" using f by auto
    then show ?thesis using full_two stable_two by simp
  next
    case three
    show ?thesis
      by (rule stable_three [OF f, where lo = "if unat a = 0xE0 then 0xA0 else 0x80"
            and hi = "if unat a = 0xED then 0x9F else 0xBF"])
        (use three in \<open>auto simp: acceptRanges_nth\<close>)
  next
    case four
    show ?thesis
      by (rule stable_four [OF f, where lo = "if unat a = 0xF0 then 0x90 else 0x80"
            and hi = "if unat a = 0xF4 then 0x8F else 0xBF"])
        (use four in \<open>auto simp: acceptRanges_nth\<close>)
  qed
  with Cons show ?thesis by (simp add: DecodeRune_slow)
qed

section \<open>The language of Valid\<close>

definition utf8_lang :: "byte list \<Rightarrow> bool" where
  "utf8_lang p \<longleftrightarrow> (\<exists>rs. list_all utf8_ValidRune rs \<and> p = concat (map utf8_enc rs))"

lemma utf8_lang_Nil: "utf8_lang []"
  by (auto simp: utf8_lang_def intro: exI [of _ "[]"])

lemma utf8_lang_step:
  assumes "p \<noteq> []"
  shows "utf8_lang p \<longleftrightarrow> (case rfc_decode (map unat p) of None \<Rightarrow> False | Some (c, n) \<Rightarrow> utf8_lang (drop n p))"
proof -
  have *: "\<exists>r q. utf8_ValidRune r \<and> p = utf8_enc r @ q \<and> utf8_lang q" if "utf8_lang p"
  proof -
    from that obtain rs where rs: "list_all utf8_ValidRune rs" "p = concat (map utf8_enc rs)"
      by (auto simp: utf8_lang_def)
    with assms obtain r rs' where "rs = r # rs'" by (cases rs) auto
    with rs show ?thesis by (auto simp: utf8_lang_def)
  qed
  have **: "utf8_lang (utf8_enc r @ q)" if "utf8_ValidRune r" "utf8_lang q" for r q
    using that by (auto simp: utf8_lang_def intro: exI [of _ "r # _"])
  show ?thesis
  proof (cases p rule: DecodeRune_cases)
    case invalid
    with assms have "utf8_DecodeRune p = (RuneError, 1)" by simp
    then have "\<not> utf8_lang p" using DecodeRune_error_iff * by blast
    with invalid show ?thesis by simp
  next
    case (valid r)
    have "utf8_lang (drop (length (utf8_enc r)) p)" if l: "utf8_lang p"
    proof -
      from * [OF l] obtain r' q where q: "utf8_ValidRune r'" "p = utf8_enc r' @ q" "utf8_lang q" by blast
      then have "r' = r" using valid(2) DecodeRune_enc [of r' q] by simp
      with q show ?thesis by simp
    qed
    moreover have "utf8_lang p" if "utf8_lang (drop (length (utf8_enc r)) p)"
      using ** [OF valid(1) that] valid(3) by simp
    ultimately show ?thesis using valid(4) by auto
  qed
qed

lemma utf8_lang_ascii: "ascii a \<Longrightarrow> utf8_lang (a @ q) \<longleftrightarrow> utf8_lang q"
proof (induction a)
  case (Cons b a)
  then have "unat b < 0x80" by (simp add: ascii_def word_less_numeral_unat)
  then have "rfc_decode (map unat ((b # a) @ q)) = Some (unat b, 1)"
    by (simp add: rfc_decode.simps(2))
  with Cons utf8_lang_step [of "(b # a) @ q"] show ?case by (simp add: ascii_def)
qed simp

lemma utf8_lang_skip: "utf8_lang (valid_skip w64 p) \<longleftrightarrow> utf8_lang p"
proof -
  obtain k where "valid_skip w64 p = drop k p" "ascii (take k p)" using valid_skip_ascii by blast
  then show ?thesis using utf8_lang_ascii [of "take k p" "drop k p"] by simp
qed

lemma Valid_two:
  assumes "utf8_first ! unat a = 2" "\<not> a < 0x80"
  shows "utf8_Valid w64 (a # r) = (case r of [] \<Rightarrow> False | b # r' \<Rightarrow> \<not> (b < 0x80 \<or> 0xBF < b) \<and> utf8_Valid w64 r')"
  using assms(2) by (subst utf8_Valid.simps) (auto simp: assms(1) acceptRanges_nth Let_def split: list.split)

lemma Valid_three:
  assumes "utf8_first ! unat a = x" "\<not> a < 0x80" "unat (x AND 7) = 3" "acceptRanges ! unat (drop_bit 4 x) = \<lparr>ar_lo = lo, ar_hi = hi\<rparr>"
  shows "utf8_Valid w64 (a # r) = (case r of b # c # r' \<Rightarrow> \<not> (b < lo \<or> hi < b \<or> c < 0x80 \<or> 0xBF < c) \<and> utf8_Valid w64 r' | _ \<Rightarrow> False)"
  using assms by (subst utf8_Valid.simps) (simp add: Let_def split: list.split)

lemma Valid_four:
  assumes "utf8_first ! unat a = x" "\<not> a < 0x80" "unat (x AND 7) = 4" "acceptRanges ! unat (drop_bit 4 x) = \<lparr>ar_lo = lo, ar_hi = hi\<rparr>"
  shows "utf8_Valid w64 (a # r) = (case r of b # c # d # r' \<Rightarrow> \<not> (b < lo \<or> hi < b \<or> c < 0x80 \<or> 0xBF < c \<or> d < 0x80 \<or> 0xBF < d) \<and> utf8_Valid w64 r' | _ \<Rightarrow> False)"
  using assms by (subst utf8_Valid.simps) (simp add: Let_def split: list.split)

lemma Valid_step:
  assumes "0x80 \<le> unat a"
  shows "utf8_Valid w64 (a # r) = (case rfc_decode (map unat (a # r)) of None \<Rightarrow> False | Some (c, n) \<Rightarrow> utf8_Valid w64 (drop n (a # r)))"
proof -
  note f = utf8_first_nth [OF unat_byte_less [of a]]
  have a: "\<not> a < 0x80" using assms by (simp add: word_less_numeral_unat)
  consider (bad) "unat a < 0xC2 \<or> 0xF4 < unat a" | (two) "0xC2 \<le> unat a" "unat a < 0xE0"
    | (three) "0xE0 \<le> unat a" "unat a < 0xF0" | (four) "0xF0 \<le> unat a" "unat a \<le> 0xF4" by linarith
  then show ?thesis
  proof cases
    case bad
    then have "utf8_first ! unat a = 0xF1" using f assms by auto
    then have "\<not> utf8_Valid w64 (a # r)" using a by (subst utf8_Valid.simps) (simp add: Let_def)
    with bad assms show ?thesis by (simp add: rfc_bad)
  next
    case two
    then have "utf8_first ! unat a = 2" using f by auto
    with two a show ?thesis
      by (auto simp: Valid_two rfc_two cont_def word_less_numeral_unat split: list.split)
  next
    case three
    have "utf8_Valid w64 (a # r) = (case r of b # c # r' \<Rightarrow> \<not> (b < (if unat a = 0xE0 then 0xA0 else 0x80)
         \<or> (if unat a = 0xED then 0x9F else 0xBF) < b \<or> c < 0x80 \<or> 0xBF < c) \<and> utf8_Valid w64 r' | _ \<Rightarrow> False)"
      by (rule Valid_three [OF f a]) (use three in \<open>auto simp: acceptRanges_nth\<close>)
    with three show ?thesis
      by (auto simp: rfc_three cont_def word_less_numeral_unat split: list.split)
  next
    case four
    have "utf8_Valid w64 (a # r) = (case r of b # c # d # r' \<Rightarrow> \<not> (b < (if unat a = 0xF0 then 0x90 else 0x80)
         \<or> (if unat a = 0xF4 then 0x8F else 0xBF) < b \<or> c < 0x80 \<or> 0xBF < c \<or> d < 0x80 \<or> 0xBF < d) \<and> utf8_Valid w64 r' | _ \<Rightarrow> False)"
      by (rule Valid_four [OF f a]) (use four in \<open>auto simp: acceptRanges_nth\<close>)
    with four show ?thesis
      by (auto simp: rfc_four cont_def word_less_numeral_unat split: list.split)
  qed
qed

lemma Valid_lang: "utf8_Valid w64 p \<longleftrightarrow> utf8_lang p"
proof (induction p rule: length_induct)
  case (1 p)
  show ?case
  proof (cases p)
    case Nil then show ?thesis by (subst utf8_Valid.simps) (simp add: utf8_lang_Nil)
  next
    case (Cons a r)
    show ?thesis
    proof (cases "unat a < 0x80")
      case True
      have "utf8_Valid w64 p = utf8_Valid w64 (valid_skip w64 r)"
        using True Cons by (subst utf8_Valid.simps) (simp add: word_less_numeral_unat)
      moreover have "length (valid_skip w64 r) < length p" using Cons length_valid_skip [of w64 r] by simp
      moreover have "utf8_lang p \<longleftrightarrow> utf8_lang r"
        using utf8_lang_ascii [of "[a]" r] True Cons by (simp add: ascii_def word_less_numeral_unat)
      ultimately show ?thesis using 1 utf8_lang_skip by blast
    next
      case False
      have "length (drop n p) < length p" if "rfc_decode (map unat p) = Some (c, n)" for c n
        using rfc_decode_Some [OF that] Cons by (auto simp: rfc_encode_def split: if_splits)
      with 1 utf8_lang_step [of p] Valid_step [of a w64 r] False Cons show ?thesis
        by (simp split: option.split)
    qed
  qed
qed

section \<open>Decoding backwards and counting\<close>

lemma RuneStart_all: "list_all (\<lambda>n. ((of_nat n :: byte) AND 0xC0 \<noteq> 0x80) = (n < 128 \<or> 192 \<le> n)) [0..<256]"
  by code_simp

lemma RuneStart_iff: "utf8_RuneStart b \<longleftrightarrow> unat b < 0x80 \<or> 0xC0 \<le> unat b"
proof -
  have "unat b \<in> set [0..<256]" using unat_byte_less[of b] by simp
  with RuneStart_all have "((of_nat (unat b) :: byte) AND 0xC0 \<noteq> 0x80) = (unat b < 128 \<or> 192 \<le> unat b)"
    unfolding list_all_iff by blast
  then show ?thesis by (simp add: utf8_RuneStart_def)
qed

lemma lastRuneStart_finds:
  assumes "0 \<le> lim" "lim \<le> s" "s \<le> start" "utf8_RuneStart (p ! nat s)" "\<And>i. s < i \<Longrightarrow> i \<le> start \<Longrightarrow> \<not> utf8_RuneStart (p ! nat i)"
  shows "lastRuneStart p lim start = s"
  using assms
proof (induction p lim start rule: lastRuneStart.induct)
  case (1 p lim start)
  show ?case
  proof (cases "start = s")
    case True with 1 show ?thesis by (subst lastRuneStart.simps) simp
  next
    case False
    then have "\<not> utf8_RuneStart (p ! nat start)" "s \<le> start - 1" using 1 by auto
    moreover have "lastRuneStart p lim (start - 1) = s"
      using 1(1) 1(2-) calculation by (auto intro!: 1(1))
    ultimately show ?thesis using 1 by (subst lastRuneStart.simps) simp
  qed
qed

lemma enc_shape:
  obtains b where "utf8_enc r = [b]" "unat b < 0x80"
  | b cs where "utf8_enc r = b # cs" "0xC0 \<le> unat b" "cs \<noteq> []" "list_all (\<lambda>c. cont (unat c)) cs"
proof -
  define c where "c = (if scalar (unat r) then unat r else 0xFFFD)"
  have e: "map unat (utf8_enc r) = rfc_encode c" by (simp add: utf8_enc_refines c_def)
  show ?thesis
  proof (cases "c < 0x80")
    case True
    with e obtain b where "utf8_enc r = [b]" "unat b = c" by (auto simp: rfc_encode_def map_eq_Cons_conv)
    with True that(1) show ?thesis by simp
  next
    case False
    obtain b cs where b: "utf8_enc r = b # cs" using enc_not_Nil by (cases "utf8_enc r") auto
    with e False have "0xC0 \<le> unat b" "cs \<noteq> []" by (auto simp: rfc_encode_def split: if_splits)
    moreover have "list_all cont (map unat cs)"
      using e False b by (auto simp: rfc_encode_def cont_def split: if_splits)
    ultimately show ?thesis using b that(2) by (simp add: list_all_iff)
  qed
qed

lemma DecodeLastRune_enc:
  "utf8_DecodeLastRune (p @ utf8_enc r) = (if utf8_ValidRune r then r else RuneError, length (utf8_enc r))"
proof -
  define s where "s = p @ utf8_enc r"
  define e where "e = utf8_enc r"
  have s: "s = p @ e" "e = utf8_enc r" by (simp_all add: s_def e_def)
  have D: "utf8_DecodeRune e = (if utf8_ValidRune r then r else RuneError, length e)"
    using DecodeRune_enc [of r "[]"] by (simp add: e_def)
  have "utf8_DecodeLastRune s = (if utf8_ValidRune r then r else RuneError, length e)"
  proof (cases r rule: enc_shape)
    case (1 b)
    have "sint (ucast b :: rune) < 0x80"
      using 1 by (subst sint_rune) (simp_all add: unat_ucast_mod del: of_nat_unat)
    moreover have "utf8_DecodeRune [b] = (ucast b, 1)" using 1 by (simp add: utf8_DecodeRune_def word_less_numeral_unat)
    ultimately show ?thesis using 1 D s by (simp add: utf8_DecodeLastRune_def Let_def nth_append)
  next
    case (2 b cs)
    have last: "s ! (length s - 1) = last cs" using 2 s by (simp add: nth_append last_conv_nth)
    have "cont (unat (last cs))" using 2 by (simp add: list_all_iff)
    then have "\<not> sint (ucast (last cs) :: rune) < 0x80"
      using unat_byte_less[of "last cs"] by (subst sint_rune) (simp_all add: unat_ucast_mod cont_def del: of_nat_unat)
    moreover have "lastRuneStart s (max (int (length s) - 4) 0) (int (length s - 1) - 1) = int (length p)"
    proof (rule lastRuneStart_finds)
      show "max (int (length s) - 4) 0 \<le> int (length p)" using length_enc_bounds(2)[of r] s by simp
      show "int (length p) \<le> int (length s - 1) - 1" using 2 s by (cases cs) auto
      show "utf8_RuneStart (s ! nat (int (length p)))" using 2 s by (simp add: RuneStart_iff)
      fix i assume i: "int (length p) < i" "i \<le> int (length s - 1) - 1"
      define j where "j = nat i - length p - 1"
      from i 2 s have j: "nat i = length p + Suc j" "j < length cs" unfolding j_def by auto
      then have "s ! nat i = cs ! j" using 2 s by (simp add: nth_append)
      moreover have "cont (unat (cs ! j))" using 2 j(2) by (simp add: list_all_length)
      ultimately show "\<not> utf8_RuneStart (s ! nat i)" by (simp add: RuneStart_iff cont_def)
    qed simp
    moreover have "go_slice s (length p) (length s) = e" using s by (simp add: go_slice_def)
    ultimately show ?thesis using last D s 2(1)
      by (simp add: utf8_DecodeLastRune_def Let_def)
  qed
  then show ?thesis by (simp add: s_def e_def)
qed

lemma RuneCountInString_enc: "utf8_RuneCountInString (utf8_enc r @ q) = Suc (utf8_RuneCountInString q)"
  by (subst utf8_RuneCountInString.simps) (simp add: DecodeRuneInString_eq DecodeRune_enc enc_not_Nil)

lemma RuneCountInString_concat: "utf8_RuneCountInString (concat (map utf8_enc rs)) = length rs"
  by (induction rs) (simp_all add: RuneCountInString_enc utf8_RuneCountInString.simps [of "[]"])

lemma RuneCount_from: "utf8_RuneCount_from p n = n + utf8_RuneCountInString p"
proof (induction p n rule: utf8_RuneCount_from.induct)
  case (1 n) then show ?case by (simp add: utf8_RuneCountInString.simps)
next
  case (2 c p n)
  then show ?case
    by (cases "0x80 \<le> c") (simp_all add: utf8_RuneCountInString.simps [of "c # p"] DecodeRuneInString_eq
      utf8_DecodeRune_def not_le)
qed

lemma ValidString_eq: "utf8_ValidString w64 s = utf8_Valid w64 s"
proof (induction s rule: length_induct)
  case (1 s)
  show ?case
  proof (cases "s = []")
    case True
    then show ?thesis by (simp add: utf8_ValidString.simps utf8_Valid.simps)
  next
    case False
    have "length (valid_skip w64 (drop 1 s)) < length s"
      using length_valid_skip [of w64 "drop 1 s"] False by (cases s) auto
    with 1 have v: "utf8_ValidString w64 (valid_skip w64 (drop 1 s)) = utf8_Valid w64 (valid_skip w64 (drop 1 s))"
      by blast
    have d: "utf8_ValidString w64 (drop k s) = utf8_Valid w64 (drop k s)" if "0 < k" for k
      using 1 False that by simp
    show ?thesis
      by (subst utf8_ValidString.simps, subst utf8_Valid.simps)
        (simp only: v d [of 2, simplified] d [of 3, simplified] d [of 4, simplified])
  qed
qed

section \<open>Properties of the package\<close>

text \<open>
  C1. Encoding and decoding are inverse: decoding what \<open>AppendRune\<close> appended, in front of any
  bytes with \<open>DecodeRune\<close> or behind any bytes with \<open>DecodeLastRune\<close>, gives the rune and its
  width, and the replacement character when the rune was not a Unicode scalar value.
\<close>

theorem utf8_roundtrip:
  "utf8_DecodeRune (utf8_AppendRune [] r @ q) =
     (if utf8_ValidRune r then r else RuneError, length (utf8_AppendRune [] r)) \<and>
   utf8_DecodeLastRune (utf8_AppendRune p r) =
     (if utf8_ValidRune r then r else RuneError, length (utf8_AppendRune [] r))"
  using DecodeRune_enc [of r q] DecodeLastRune_enc [of p r]
  by (simp add: AppendRune_enc)

text \<open>
  C2. \<open>DecodeRune\<close> reports an invalid encoding, \<open>(RuneError, 1)\<close>, exactly on the non-empty
  inputs that do not begin with the encoding of a valid rune; the string variant agrees.
\<close>

theorem utf8_DecodeRune_invalid_iff:
  "(utf8_DecodeRune p = (RuneError, 1) \<longleftrightarrow>
      p \<noteq> [] \<and> (\<nexists>r q. utf8_ValidRune r \<and> p = utf8_AppendRune [] r @ q)) \<and>
   utf8_DecodeRuneInString p = utf8_DecodeRune p"
  using DecodeRune_error_iff [of p] by (simp add: AppendRune_enc DecodeRuneInString_eq)

text \<open>
  C3. \<open>FullRune\<close> holds exactly when no further input can change what \<open>DecodeRune\<close> returns
  for a non-empty prefix: the contract buffered readers rely on.
\<close>

theorem utf8_FullRune_exact:
  "utf8_FullRune p \<longleftrightarrow> p \<noteq> [] \<and> (\<forall>q. utf8_DecodeRune (p @ q) = utf8_DecodeRune p)"
  by (rule FullRune_stable)

text \<open>
  C4. \<open>Valid\<close> and \<open>ValidString\<close>, with the word-at-a-time skip of either pointer size, accept
  exactly the concatenations of encodings of valid runes.
\<close>

theorem utf8_Valid_exact:
  "(utf8_Valid w64 p \<longleftrightarrow>
      (\<exists>rs. list_all utf8_ValidRune rs \<and> p = concat (map (utf8_AppendRune []) rs))) \<and>
   utf8_ValidString w64 p = utf8_Valid w64 p"
  using Valid_lang [of w64 p] by (simp add: utf8_lang_def AppendRune_enc [abs_def] ValidString_eq)

text \<open>
  C5. \<open>EncodeRune\<close> writes the bytes \<open>AppendRune\<close> appends, leaves the rest of the buffer alone
  and panics exactly when the buffer is too short; \<open>RuneLen\<close> is that number of bytes for a
  valid rune and -1 otherwise; \<open>RuneCount\<close> inverts encoding a sequence of runes.
\<close>

theorem utf8_EncodeRune_spec:
  "utf8_EncodeRune p r =
     (let e = utf8_AppendRune [] r in
      if length e \<le> length p then Some (e @ drop (length e) p, length e) else None) \<and>
   utf8_RuneLen r =
     (if utf8_ValidRune r then int (length (utf8_AppendRune [] r)) else -1) \<and>
   utf8_RuneCount (concat (map (utf8_AppendRune []) rs)) = length rs"
proof (intro conjI)
  show "utf8_RuneLen r = (if utf8_ValidRune r then int (length (utf8_AppendRune [] r)) else -1)"
    using sint_unat [of r] unsigned_less [of r, where 'a = nat]
    by (auto simp: utf8_RuneLen_def ValidRune_scalar scalar_def AppendRune_enc length_enc rfc_encode_def
        simp del: of_nat_unat split: if_splits)
qed (simp_all add: AppendRune_enc [abs_def] EncodeRune_enc utf8_RuneCount_def RuneCount_from
    RuneCountInString_concat)

end
