(* ===== verification/Bits.thy ===== *)
theory Bits
  imports Prelude
begin

text \<open>
  Package \<open>math/bits\<close>: the byte tables, the de Bruijn trailing-zero count, population count,
  rotation, reversal, bit length, and the multi-word primitives \<open>Add\<close>, \<open>Sub\<close>, \<open>Mul\<close>, \<open>Div\<close>
  and \<open>Rem\<close> at their widths.  \<open>w64\<close> stands for \<open>UintSize = 64\<close>; the functions on \<open>uint\<close> take
  and return their value in a 64-bit word.
\<close>

section \<open>Tables\<close>

definition ntz8tab :: "byte list" where
  "ntz8tab =
     [8, 0, 1, 0, 2, 0, 1, 0, 3, 0, 1, 0, 2, 0, 1, 0,
      4, 0, 1, 0, 2, 0, 1, 0, 3, 0, 1, 0, 2, 0, 1, 0,
      5, 0, 1, 0, 2, 0, 1, 0, 3, 0, 1, 0, 2, 0, 1, 0,
      4, 0, 1, 0, 2, 0, 1, 0, 3, 0, 1, 0, 2, 0, 1, 0,
      6, 0, 1, 0, 2, 0, 1, 0, 3, 0, 1, 0, 2, 0, 1, 0,
      4, 0, 1, 0, 2, 0, 1, 0, 3, 0, 1, 0, 2, 0, 1, 0,
      5, 0, 1, 0, 2, 0, 1, 0, 3, 0, 1, 0, 2, 0, 1, 0,
      4, 0, 1, 0, 2, 0, 1, 0, 3, 0, 1, 0, 2, 0, 1, 0,
      7, 0, 1, 0, 2, 0, 1, 0, 3, 0, 1, 0, 2, 0, 1, 0,
      4, 0, 1, 0, 2, 0, 1, 0, 3, 0, 1, 0, 2, 0, 1, 0,
      5, 0, 1, 0, 2, 0, 1, 0, 3, 0, 1, 0, 2, 0, 1, 0,
      4, 0, 1, 0, 2, 0, 1, 0, 3, 0, 1, 0, 2, 0, 1, 0,
      6, 0, 1, 0, 2, 0, 1, 0, 3, 0, 1, 0, 2, 0, 1, 0,
      4, 0, 1, 0, 2, 0, 1, 0, 3, 0, 1, 0, 2, 0, 1, 0,
      5, 0, 1, 0, 2, 0, 1, 0, 3, 0, 1, 0, 2, 0, 1, 0,
      4, 0, 1, 0, 2, 0, 1, 0, 3, 0, 1, 0, 2, 0, 1, 0]"

definition pop8tab :: "byte list" where
  "pop8tab =
     [0, 1, 1, 2, 1, 2, 2, 3, 1, 2, 2, 3, 2, 3, 3, 4,
      1, 2, 2, 3, 2, 3, 3, 4, 2, 3, 3, 4, 3, 4, 4, 5,
      1, 2, 2, 3, 2, 3, 3, 4, 2, 3, 3, 4, 3, 4, 4, 5,
      2, 3, 3, 4, 3, 4, 4, 5, 3, 4, 4, 5, 4, 5, 5, 6,
      1, 2, 2, 3, 2, 3, 3, 4, 2, 3, 3, 4, 3, 4, 4, 5,
      2, 3, 3, 4, 3, 4, 4, 5, 3, 4, 4, 5, 4, 5, 5, 6,
      2, 3, 3, 4, 3, 4, 4, 5, 3, 4, 4, 5, 4, 5, 5, 6,
      3, 4, 4, 5, 4, 5, 5, 6, 4, 5, 5, 6, 5, 6, 6, 7,
      1, 2, 2, 3, 2, 3, 3, 4, 2, 3, 3, 4, 3, 4, 4, 5,
      2, 3, 3, 4, 3, 4, 4, 5, 3, 4, 4, 5, 4, 5, 5, 6,
      2, 3, 3, 4, 3, 4, 4, 5, 3, 4, 4, 5, 4, 5, 5, 6,
      3, 4, 4, 5, 4, 5, 5, 6, 4, 5, 5, 6, 5, 6, 6, 7,
      2, 3, 3, 4, 3, 4, 4, 5, 3, 4, 4, 5, 4, 5, 5, 6,
      3, 4, 4, 5, 4, 5, 5, 6, 4, 5, 5, 6, 5, 6, 6, 7,
      3, 4, 4, 5, 4, 5, 5, 6, 4, 5, 5, 6, 5, 6, 6, 7,
      4, 5, 5, 6, 5, 6, 6, 7, 5, 6, 6, 7, 6, 7, 7, 8]"

definition rev8tab :: "byte list" where
  "rev8tab =
     [0, 128, 64, 192, 32, 160, 96, 224, 16, 144, 80, 208, 48, 176, 112, 240,
      8, 136, 72, 200, 40, 168, 104, 232, 24, 152, 88, 216, 56, 184, 120, 248,
      4, 132, 68, 196, 36, 164, 100, 228, 20, 148, 84, 212, 52, 180, 116, 244,
      12, 140, 76, 204, 44, 172, 108, 236, 28, 156, 92, 220, 60, 188, 124, 252,
      2, 130, 66, 194, 34, 162, 98, 226, 18, 146, 82, 210, 50, 178, 114, 242,
      10, 138, 74, 202, 42, 170, 106, 234, 26, 154, 90, 218, 58, 186, 122, 250,
      6, 134, 70, 198, 38, 166, 102, 230, 22, 150, 86, 214, 54, 182, 118, 246,
      14, 142, 78, 206, 46, 174, 110, 238, 30, 158, 94, 222, 62, 190, 126, 254,
      1, 129, 65, 193, 33, 161, 97, 225, 17, 145, 81, 209, 49, 177, 113, 241,
      9, 137, 73, 201, 41, 169, 105, 233, 25, 153, 89, 217, 57, 185, 121, 249,
      5, 133, 69, 197, 37, 165, 101, 229, 21, 149, 85, 213, 53, 181, 117, 245,
      13, 141, 77, 205, 45, 173, 109, 237, 29, 157, 93, 221, 61, 189, 125, 253,
      3, 131, 67, 195, 35, 163, 99, 227, 19, 147, 83, 211, 51, 179, 115, 243,
      11, 139, 75, 203, 43, 171, 107, 235, 27, 155, 91, 219, 59, 187, 123, 251,
      7, 135, 71, 199, 39, 167, 103, 231, 23, 151, 87, 215, 55, 183, 119, 247,
      15, 143, 79, 207, 47, 175, 111, 239, 31, 159, 95, 223, 63, 191, 127, 255]"

definition len8tab :: "byte list" where
  "len8tab =
     [0, 1, 2, 2, 3, 3, 3, 3, 4, 4, 4, 4, 4, 4, 4, 4,
      5, 5, 5, 5, 5, 5, 5, 5, 5, 5, 5, 5, 5, 5, 5, 5,
      6, 6, 6, 6, 6, 6, 6, 6, 6, 6, 6, 6, 6, 6, 6, 6,
      6, 6, 6, 6, 6, 6, 6, 6, 6, 6, 6, 6, 6, 6, 6, 6,
      7, 7, 7, 7, 7, 7, 7, 7, 7, 7, 7, 7, 7, 7, 7, 7,
      7, 7, 7, 7, 7, 7, 7, 7, 7, 7, 7, 7, 7, 7, 7, 7,
      7, 7, 7, 7, 7, 7, 7, 7, 7, 7, 7, 7, 7, 7, 7, 7,
      7, 7, 7, 7, 7, 7, 7, 7, 7, 7, 7, 7, 7, 7, 7, 7,
      8, 8, 8, 8, 8, 8, 8, 8, 8, 8, 8, 8, 8, 8, 8, 8,
      8, 8, 8, 8, 8, 8, 8, 8, 8, 8, 8, 8, 8, 8, 8, 8,
      8, 8, 8, 8, 8, 8, 8, 8, 8, 8, 8, 8, 8, 8, 8, 8,
      8, 8, 8, 8, 8, 8, 8, 8, 8, 8, 8, 8, 8, 8, 8, 8,
      8, 8, 8, 8, 8, 8, 8, 8, 8, 8, 8, 8, 8, 8, 8, 8,
      8, 8, 8, 8, 8, 8, 8, 8, 8, 8, 8, 8, 8, 8, 8, 8,
      8, 8, 8, 8, 8, 8, 8, 8, 8, 8, 8, 8, 8, 8, 8, 8,
      8, 8, 8, 8, 8, 8, 8, 8, 8, 8, 8, 8, 8, 8, 8, 8]"

definition deBruijn32 :: uint32 where "deBruijn32 = 0x077CB531"

definition deBruijn32tab :: "byte list" where
  "deBruijn32tab =
     [0, 1, 28, 2, 29, 14, 24, 3, 30, 22, 20, 15, 25, 17, 4, 8,
      31, 27, 13, 23, 21, 19, 16, 7, 26, 12, 18, 6, 11, 5, 10, 9]"

definition deBruijn64 :: uint64 where "deBruijn64 = 0x03f79d71b4ca8b09"

definition deBruijn64tab :: "byte list" where
  "deBruijn64tab =
     [0, 1, 56, 2, 57, 49, 28, 3, 61, 58, 42, 50, 38, 29, 17, 4,
      62, 47, 59, 36, 45, 43, 51, 22, 53, 39, 33, 30, 24, 18, 12, 5,
      63, 55, 48, 27, 60, 41, 37, 16, 46, 35, 44, 21, 52, 32, 23, 11,
      54, 26, 40, 15, 34, 20, 31, 10, 25, 14, 19, 9, 13, 8, 7, 6]"

section \<open>Bit length and zero counts\<close>

definition bits_Len8 :: "byte \<Rightarrow> nat" where
  "bits_Len8 x = unat (len8tab ! unat x)"

definition bits_Len16 :: "uint16 \<Rightarrow> nat" where
  "bits_Len16 x =
     (let (x, n) = (if 2 ^ 8 \<le> x then (drop_bit 8 x, 8) else (x, 0)) in
      n + unat (len8tab ! unat (ucast x :: byte)))"

definition bits_Len32 :: "uint32 \<Rightarrow> nat" where
  "bits_Len32 x =
     (let (x, n) = (if 2 ^ 16 \<le> x then (drop_bit 16 x, 16) else (x, 0));
          (x, n) = (if 2 ^ 8 \<le> x then (drop_bit 8 x, n + 8) else (x, n)) in
      n + unat (len8tab ! unat (ucast x :: byte)))"

definition bits_Len64 :: "uint64 \<Rightarrow> nat" where
  "bits_Len64 x =
     (let (x, n) = (if 2 ^ 32 \<le> x then (drop_bit 32 x, 32) else (x, 0));
          (x, n) = (if 2 ^ 16 \<le> x then (drop_bit 16 x, n + 16) else (x, n));
          (x, n) = (if 2 ^ 8 \<le> x then (drop_bit 8 x, n + 8) else (x, n)) in
      n + unat (len8tab ! unat (ucast x :: byte)))"

definition bits_Len :: "bool \<Rightarrow> uint64 \<Rightarrow> nat" where
  "bits_Len w64 x = (if w64 then bits_Len64 x else bits_Len32 (ucast x))"

definition bits_LeadingZeros8 :: "byte \<Rightarrow> int" where
  "bits_LeadingZeros8 x = 8 - int (bits_Len8 x)"

definition bits_LeadingZeros16 :: "uint16 \<Rightarrow> int" where
  "bits_LeadingZeros16 x = 16 - int (bits_Len16 x)"

definition bits_LeadingZeros32 :: "uint32 \<Rightarrow> int" where
  "bits_LeadingZeros32 x = 32 - int (bits_Len32 x)"

definition bits_LeadingZeros64 :: "uint64 \<Rightarrow> int" where
  "bits_LeadingZeros64 x = 64 - int (bits_Len64 x)"

definition bits_TrailingZeros8 :: "byte \<Rightarrow> nat" where
  "bits_TrailingZeros8 x = unat (ntz8tab ! unat x)"

definition bits_TrailingZeros16 :: "uint16 \<Rightarrow> nat" where
  "bits_TrailingZeros16 x =
     (if x = 0 then 16
      else unat (deBruijn32tab ! unat (drop_bit (32 - 5) (ucast (x AND - x) * deBruijn32))))"

definition bits_TrailingZeros32 :: "uint32 \<Rightarrow> nat" where
  "bits_TrailingZeros32 x =
     (if x = 0 then 32
      else unat (deBruijn32tab ! unat (drop_bit (32 - 5) ((x AND - x) * deBruijn32))))"

definition bits_TrailingZeros64 :: "uint64 \<Rightarrow> nat" where
  "bits_TrailingZeros64 x =
     (if x = 0 then 64
      else unat (deBruijn64tab ! unat (drop_bit (64 - 6) ((x AND - x) * deBruijn64))))"

definition bits_TrailingZeros :: "bool \<Rightarrow> uint64 \<Rightarrow> nat" where
  "bits_TrailingZeros w64 x =
     (if w64 then bits_TrailingZeros64 x else bits_TrailingZeros32 (ucast x))"

definition bits_LeadingZeros :: "bool \<Rightarrow> uint64 \<Rightarrow> int" where
  "bits_LeadingZeros w64 x = (if w64 then 64 else 32) - int (bits_Len w64 x)"

section \<open>Population count\<close>

abbreviation bits_m0 :: uint64 where "bits_m0 \<equiv> 0x5555555555555555"
abbreviation bits_m1 :: uint64 where "bits_m1 \<equiv> 0x3333333333333333"
abbreviation bits_m2 :: uint64 where "bits_m2 \<equiv> 0x0f0f0f0f0f0f0f0f"
abbreviation bits_m3 :: uint64 where "bits_m3 \<equiv> 0x00ff00ff00ff00ff"
abbreviation bits_m4 :: uint64 where "bits_m4 \<equiv> 0x0000ffff0000ffff"

definition bits_OnesCount8 :: "byte \<Rightarrow> nat" where
  "bits_OnesCount8 x = unat (pop8tab ! unat x)"

definition bits_OnesCount16 :: "uint16 \<Rightarrow> nat" where
  "bits_OnesCount16 x = unat (pop8tab ! unat (drop_bit 8 x) + pop8tab ! unat (x AND 0xff))"

definition bits_OnesCount32 :: "uint32 \<Rightarrow> nat" where
  "bits_OnesCount32 x =
     unat (pop8tab ! unat (drop_bit 24 x) + pop8tab ! unat (drop_bit 16 x AND 0xff)
       + pop8tab ! unat (drop_bit 8 x AND 0xff) + pop8tab ! unat (x AND 0xff))"

definition bits_OnesCount64 :: "uint64 \<Rightarrow> nat" where
  "bits_OnesCount64 x =
     (let x = (drop_bit 1 x AND bits_m0) + (x AND bits_m0);
          x = (drop_bit 2 x AND bits_m1) + (x AND bits_m1);
          x = (drop_bit 4 x + x) AND bits_m2;
          x = x + drop_bit 8 x;
          x = x + drop_bit 16 x;
          x = x + drop_bit 32 x in
      unat (x AND 127))"

definition bits_OnesCount :: "bool \<Rightarrow> uint64 \<Rightarrow> nat" where
  "bits_OnesCount w64 x = (if w64 then bits_OnesCount64 x else bits_OnesCount32 (ucast x))"

section \<open>Rotation and reversal\<close>

definition bits_RotateLeft8 :: "byte \<Rightarrow> int \<Rightarrow> byte" where
  "bits_RotateLeft8 x k =
     (let s = unat ((word_of_int k :: uint64) AND 7) in push_bit s x OR drop_bit (8 - s) x)"

definition bits_RotateLeft16 :: "uint16 \<Rightarrow> int \<Rightarrow> uint16" where
  "bits_RotateLeft16 x k =
     (let s = unat ((word_of_int k :: uint64) AND 15) in push_bit s x OR drop_bit (16 - s) x)"

definition bits_RotateLeft32 :: "uint32 \<Rightarrow> int \<Rightarrow> uint32" where
  "bits_RotateLeft32 x k =
     (let s = unat ((word_of_int k :: uint64) AND 31) in push_bit s x OR drop_bit (32 - s) x)"

definition bits_RotateLeft64 :: "uint64 \<Rightarrow> int \<Rightarrow> uint64" where
  "bits_RotateLeft64 x k =
     (let s = unat ((word_of_int k :: uint64) AND 63) in push_bit s x OR drop_bit (64 - s) x)"

definition bits_RotateLeft :: "bool \<Rightarrow> uint64 \<Rightarrow> int \<Rightarrow> uint64" where
  "bits_RotateLeft w64 x k =
     (if w64 then bits_RotateLeft64 x k else ucast (bits_RotateLeft32 (ucast x) k))"

definition bits_ReverseBytes16 :: "uint16 \<Rightarrow> uint16" where
  "bits_ReverseBytes16 x = drop_bit 8 x OR push_bit 8 x"

definition bits_ReverseBytes32 :: "uint32 \<Rightarrow> uint32" where
  "bits_ReverseBytes32 x =
     (let x = (drop_bit 8 x AND 0x00ff00ff) OR push_bit 8 (x AND 0x00ff00ff) in
      drop_bit 16 x OR push_bit 16 x)"

definition bits_ReverseBytes64 :: "uint64 \<Rightarrow> uint64" where
  "bits_ReverseBytes64 x =
     (let x = (drop_bit 8 x AND bits_m3) OR push_bit 8 (x AND bits_m3);
          x = (drop_bit 16 x AND bits_m4) OR push_bit 16 (x AND bits_m4) in
      drop_bit 32 x OR push_bit 32 x)"

definition bits_Reverse8 :: "byte \<Rightarrow> byte" where
  "bits_Reverse8 x = rev8tab ! unat x"

definition bits_Reverse16 :: "uint16 \<Rightarrow> uint16" where
  "bits_Reverse16 x =
     ucast (rev8tab ! unat (drop_bit 8 x)) OR push_bit 8 (ucast (rev8tab ! unat (x AND 0xff)))"

definition bits_Reverse32 :: "uint32 \<Rightarrow> uint32" where
  "bits_Reverse32 x =
     (let x = (drop_bit 1 x AND 0x55555555) OR push_bit 1 (x AND 0x55555555);
          x = (drop_bit 2 x AND 0x33333333) OR push_bit 2 (x AND 0x33333333);
          x = (drop_bit 4 x AND 0x0f0f0f0f) OR push_bit 4 (x AND 0x0f0f0f0f) in
      bits_ReverseBytes32 x)"

definition bits_Reverse64 :: "uint64 \<Rightarrow> uint64" where
  "bits_Reverse64 x =
     (let x = (drop_bit 1 x AND bits_m0) OR push_bit 1 (x AND bits_m0);
          x = (drop_bit 2 x AND bits_m1) OR push_bit 2 (x AND bits_m1);
          x = (drop_bit 4 x AND bits_m2) OR push_bit 4 (x AND bits_m2) in
      bits_ReverseBytes64 x)"

definition bits_Reverse :: "bool \<Rightarrow> uint64 \<Rightarrow> uint64" where
  "bits_Reverse w64 x = (if w64 then bits_Reverse64 x else ucast (bits_Reverse32 (ucast x)))"

definition bits_ReverseBytes :: "bool \<Rightarrow> uint64 \<Rightarrow> uint64" where
  "bits_ReverseBytes w64 x =
     (if w64 then bits_ReverseBytes64 x else ucast (bits_ReverseBytes32 (ucast x)))"

section \<open>Multi-word arithmetic\<close>

datatype bits_panic = OverflowError | DivideError

definition bits_Add32 :: "uint32 \<Rightarrow> uint32 \<Rightarrow> uint32 \<Rightarrow> uint32 \<times> uint32" where
  "bits_Add32 x y carry =
     (let sum64 = (ucast x :: uint64) + ucast y + ucast carry in
      (ucast sum64, ucast (drop_bit 32 sum64)))"

definition bits_Add64 :: "uint64 \<Rightarrow> uint64 \<Rightarrow> uint64 \<Rightarrow> uint64 \<times> uint64" where
  "bits_Add64 x y carry =
     (let sum = x + y + carry in
      (sum, drop_bit 63 ((x AND y) OR ((x OR y) AND NOT sum))))"

definition bits_Sub32 :: "uint32 \<Rightarrow> uint32 \<Rightarrow> uint32 \<Rightarrow> uint32 \<times> uint32" where
  "bits_Sub32 x y borrow =
     (let diff = x - y - borrow in
      (diff, drop_bit 31 ((NOT x AND y) OR (NOT (x XOR y) AND diff))))"

definition bits_Sub64 :: "uint64 \<Rightarrow> uint64 \<Rightarrow> uint64 \<Rightarrow> uint64 \<times> uint64" where
  "bits_Sub64 x y borrow =
     (let diff = x - y - borrow in
      (diff, drop_bit 63 ((NOT x AND y) OR (NOT (x XOR y) AND diff))))"

definition bits_Mul32 :: "uint32 \<Rightarrow> uint32 \<Rightarrow> uint32 \<times> uint32" where
  "bits_Mul32 x y =
     (let tmp = (ucast x :: uint64) * ucast y in (ucast (drop_bit 32 tmp), ucast tmp))"

definition bits_Mul64 :: "uint64 \<Rightarrow> uint64 \<Rightarrow> uint64 \<times> uint64" where
  "bits_Mul64 x y =
     (let mask32 = 2 ^ 32 - 1;
          x0 = x AND mask32; x1 = drop_bit 32 x;
          y0 = y AND mask32; y1 = drop_bit 32 y;
          w0 = x0 * y0;
          t = x1 * y0 + drop_bit 32 w0;
          w1 = t AND mask32;
          w2 = drop_bit 32 t;
          w1 = w1 + x0 * y1 in
      (x1 * y1 + w2 + drop_bit 32 w1, x * y))"

definition bits_Div32 :: "uint32 \<Rightarrow> uint32 \<Rightarrow> uint32 \<Rightarrow> bits_panic + uint32 \<times> uint32" where
  "bits_Div32 hi lo y =
     (if y \<noteq> 0 \<and> y \<le> hi then Inl OverflowError
      else if y = 0 then Inl DivideError
      else
        let z = push_bit 32 (ucast hi :: uint64) OR ucast lo in
        Inr (ucast (z div ucast y), ucast (z mod ucast y)))"

text \<open>
  The quotient-digit correction loop of \<open>Div64\<close>; \<open>q\<close> strictly decreases, so the number of
  iterations is bounded by \<open>q\<close>.
\<close>

function div64_adjust :: "uint64 \<Rightarrow> uint64 \<Rightarrow> uint64 \<Rightarrow> uint64 \<Rightarrow> uint64 \<Rightarrow> uint64 \<times> uint64" where
  "div64_adjust yn1 yn0 un q rhat =
     (if 2 ^ 32 \<le> q \<or> 2 ^ 32 * rhat + un < q * yn0 then
        let q' = q - 1; rhat' = rhat + yn1 in
        if 2 ^ 32 \<le> rhat' then (q', rhat') else div64_adjust yn1 yn0 un q' rhat'
      else (q, rhat))"
  by pat_completeness auto
termination
proof (relation "measure (\<lambda>(yn1, yn0, un, q, rhat). unat q)")
  fix yn1 yn0 un q rhat :: uint64 and x xa
  assume "2 ^ 32 \<le> q \<or> 2 ^ 32 * rhat + un < q * yn0" and x: "x = q - 1"
  then have "q \<noteq> 0" by auto
  then have "unat (q - 1) < unat q" by (simp add: unat_minus_one unat_gt_0)
  with x show "((yn1, yn0, un, x, xa), yn1, yn0, un, q, rhat)
      \<in> measure (\<lambda>(yn1, yn0, un, q, rhat). unat q)" by simp
qed simp

declare div64_adjust.simps [simp del]

definition bits_Div64 :: "uint64 \<Rightarrow> uint64 \<Rightarrow> uint64 \<Rightarrow> bits_panic + uint64 \<times> uint64" where
  "bits_Div64 hi lo y =
     (if y = 0 then Inl DivideError
      else if y \<le> hi then Inl OverflowError
      else if hi = 0 then Inr (lo div y, lo mod y)
      else
        let s = nat (bits_LeadingZeros64 y);
            y = push_bit s y;
            mask32 = 2 ^ 32 - 1;
            yn1 = drop_bit 32 y; yn0 = y AND mask32;
            un32 = push_bit s hi OR drop_bit (64 - s) lo;
            un10 = push_bit s lo;
            un1 = drop_bit 32 un10; un0 = un10 AND mask32;
            q1 = un32 div yn1;
            rhat = un32 - q1 * yn1;
            (q1, rhat) = div64_adjust yn1 yn0 un1 q1 rhat;
            un21 = un32 * 2 ^ 32 + un1 - q1 * y;
            q0 = un21 div yn1;
            rhat = un21 - q0 * yn1;
            (q0, rhat) = div64_adjust yn1 yn0 un0 q0 rhat in
        Inr (q1 * 2 ^ 32 + q0, drop_bit s (un21 * 2 ^ 32 + un0 - q0 * y)))"

definition bits_Rem32 :: "uint32 \<Rightarrow> uint32 \<Rightarrow> uint32 \<Rightarrow> bits_panic + uint32" where
  "bits_Rem32 hi lo y =
     (if y = 0 then Inl DivideError
      else Inr (ucast ((push_bit 32 (ucast hi :: uint64) OR ucast lo) mod ucast y)))"

definition bits_Rem64 :: "uint64 \<Rightarrow> uint64 \<Rightarrow> uint64 \<Rightarrow> bits_panic + uint64" where
  "bits_Rem64 hi lo y =
     (if y = 0 then Inl DivideError
      else case bits_Div64 (hi mod y) lo y of Inl e \<Rightarrow> Inl e | Inr (_, rem) \<Rightarrow> Inr rem)"

text \<open>The functions on \<open>uint\<close>, which select the width of the target.\<close>

definition bits_Add :: "bool \<Rightarrow> uint64 \<Rightarrow> uint64 \<Rightarrow> uint64 \<Rightarrow> uint64 \<times> uint64" where
  "bits_Add w64 x y carry =
     (if w64 then bits_Add64 x y carry
      else let (s32, c32) = bits_Add32 (ucast x) (ucast y) (ucast carry) in (ucast s32, ucast c32))"

definition bits_Sub :: "bool \<Rightarrow> uint64 \<Rightarrow> uint64 \<Rightarrow> uint64 \<Rightarrow> uint64 \<times> uint64" where
  "bits_Sub w64 x y borrow =
     (if w64 then bits_Sub64 x y borrow
      else let (d32, b32) = bits_Sub32 (ucast x) (ucast y) (ucast borrow) in (ucast d32, ucast b32))"

definition bits_Mul :: "bool \<Rightarrow> uint64 \<Rightarrow> uint64 \<Rightarrow> uint64 \<times> uint64" where
  "bits_Mul w64 x y =
     (if w64 then bits_Mul64 x y
      else let (h, l) = bits_Mul32 (ucast x) (ucast y) in (ucast h, ucast l))"

definition bits_Div :: "bool \<Rightarrow> uint64 \<Rightarrow> uint64 \<Rightarrow> uint64 \<Rightarrow> bits_panic + uint64 \<times> uint64" where
  "bits_Div w64 hi lo y =
     (if w64 then bits_Div64 hi lo y
      else case bits_Div32 (ucast hi) (ucast lo) (ucast y) of
             Inl e \<Rightarrow> Inl e | Inr (q, r) \<Rightarrow> Inr (ucast q, ucast r))"

definition bits_Rem :: "bool \<Rightarrow> uint64 \<Rightarrow> uint64 \<Rightarrow> uint64 \<Rightarrow> bits_panic + uint64" where
  "bits_Rem w64 hi lo y =
     (if w64 then bits_Rem64 hi lo y
      else case bits_Rem32 (ucast hi) (ucast lo) (ucast y) of Inl e \<Rightarrow> Inl e | Inr r \<Rightarrow> Inr (ucast r))"

end
