(* ===== verification/Bits_Correct.thy ===== *)
theory Bits_Correct
  imports Bits
begin

text \<open>
  Correctness of \<open>math/bits\<close>: \<open>blen\<close> is the mathematical bit length and \<open>low\<close> the index of the
  lowest set bit below a bound,
  \<open>swp k\<close> exchanges neighbouring groups of \<open>k\<close> indices; the table-driven and de Bruijn routines compute them, and the
  multi-word primitives are exact on the integers their words denote.
\<close>

section \<open>Reference functions\<close>

fun blen :: "nat \<Rightarrow> nat" where
  "blen n = (if n = 0 then 0 else Suc (blen (n div 2)))"

declare blen.simps [simp del]

fun low :: "nat \<Rightarrow> nat \<Rightarrow> nat" where
  "low 0 n = 0"
| "low (Suc k) n = (if odd n then 0 else Suc (low k (n div 2)))"

definition swp :: "nat \<Rightarrow> nat \<Rightarrow> nat" where
  "swp k i = (if even (i div k) then i + k else i - k)"

section \<open>Bit length\<close>

lemma blen_0 [simp]: "blen 0 = 0" by (simp add: blen.simps)

lemma blen_pos: "0 < n \<Longrightarrow> blen n = Suc (blen (n div 2))" by (subst blen.simps) simp

lemma blen_shift: "2 ^ k \<le> n \<Longrightarrow> blen n = k + blen (n div 2 ^ k)"
proof (induction k arbitrary: n)
  case (Suc k)
  then have "0 < n" by (metis less_le_trans zero_less_numeral zero_less_power)
  moreover have "2 ^ k \<le> n div 2" using Suc.prems by (simp add: less_eq_div_iff_mult_less_eq mult.commute)
  ultimately show ?case using Suc.IH [of "n div 2"] by (simp add: blen_pos div_mult2_eq)
qed simp

lemma blen_bounds: "n < 2 ^ blen n" "0 < n \<Longrightarrow> 2 ^ (blen n - 1) \<le> n"
proof (induction n rule: blen.induct)
  case (1 n)
  { case 1 then show ?case using "1.IH"(1) by (cases "n = 0") (simp_all add: blen_pos, linarith?) }
  { case 2 then show ?case using "1.IH"(2) by (cases "n div 2 = 0") (auto simp add: blen_pos) }
qed

lemma blen_unique: "2 ^ k \<le> n \<Longrightarrow> n < 2 ^ Suc k \<Longrightarrow> blen n = Suc k"
proof -
  assume a: "2 ^ k \<le> n" "n < 2 ^ Suc k"
  then obtain r where "n = r + 1 * 2 ^ k" "r < 2 ^ k" by (auto simp: le_iff_add)
  then have "n div 2 ^ k = 1" by (simp only: div_mult_self1) simp
  then show ?thesis using a(1) by (simp add: blen_shift[of k] blen_pos)
qed

lemma len8tab_all: "map unat len8tab = map blen [0..<256]"
  by code_simp

lemma tab_nth: "map f tab = map g [0..<n] \<Longrightarrow> i < n \<Longrightarrow> f (tab ! i) = g i"
  by (metis add_0 diff_zero length_map length_upt nth_map nth_upt)

lemma len8: "n < 256 \<Longrightarrow> unat (len8tab ! n) = blen n"
  by (rule tab_nth [OF len8tab_all])

lemma unat_ucast8: "unat x < 256 \<Longrightarrow> unat (ucast x :: byte) = unat x" for x :: "'a::len word"
  by (simp add: unat_ucast_mod)

lemma len_step: "(if 2 ^ k \<le> x then (drop_bit k x, n + k) else (x, n)) = (x', n') \<Longrightarrow> unat (2 ^ k :: 'a::len word) = 2 ^ k \<Longrightarrow>
  n' + blen (unat x') = n + blen (unat x) \<and> (unat x < 2 ^ (k + k) \<longrightarrow> unat x' < 2 ^ k)" for x :: "'a::len word"
  by (auto simp: word_less_numeral_unat unat_drop_bit blen_shift[of k] power_add less_mult_imp_div_less split: if_splits)

lemma Len64_blen: "bits_Len64 x = blen (unat x)"
proof -
  obtain x1 and n1 :: nat where 1: "(if 2 ^ 32 \<le> x then (drop_bit 32 x, 32) else (x, 0)) = (x1, n1)" by fastforce
  obtain x2 and n2 :: nat where 2: "(if 2 ^ 16 \<le> x1 then (drop_bit 16 x1, n1 + 16) else (x1, n1)) = (x2, n2)" by fastforce
  obtain x3 and n3 :: nat where 3: "(if 2 ^ 8 \<le> x2 then (drop_bit 8 x2, n2 + 8) else (x2, n2)) = (x3, n3)" by fastforce
  have "unat x < 2 ^ 64" using unsigned_less[of x, where 'a = nat] by simp
  then have "unat x3 < 2 ^ 8" "n3 + blen (unat x3) = blen (unat x)"
    using len_step[of 32 x 0, unfolded add_0, OF 1] len_step[OF 2] len_step[OF 3] by simp_all
  then show ?thesis by (simp only: bits_Len64_def Let_def 1 2 3 prod.case) (simp add: len8 unat_ucast8)
qed

lemma Len32_blen: "bits_Len32 x = blen (unat x)"
proof -
  obtain x2 and n2 :: nat where 2: "(if 2 ^ 16 \<le> x then (drop_bit 16 x, 16) else (x, 0)) = (x2, n2)" by fastforce
  obtain x3 and n3 :: nat where 3: "(if 2 ^ 8 \<le> x2 then (drop_bit 8 x2, n2 + 8) else (x2, n2)) = (x3, n3)" by fastforce
  have "unat x < 2 ^ 32" using unsigned_less[of x, where 'a = nat] by simp
  then have "unat x3 < 2 ^ 8" "n3 + blen (unat x3) = blen (unat x)"
    using len_step[of 16 x 0, unfolded add_0, OF 2] len_step[OF 3] by simp_all
  then show ?thesis by (simp only: bits_Len32_def Let_def 2 3 prod.case) (simp add: len8 unat_ucast8)
qed

lemma Len16_blen: "bits_Len16 x = blen (unat x)"
proof -
  obtain x3 and n3 :: nat where 3: "(if 2 ^ 8 \<le> x then (drop_bit 8 x, 8) else (x, 0)) = (x3, n3)" by fastforce
  have "unat x < 2 ^ 16" using unsigned_less[of x, where 'a = nat] by simp
  then have "unat x3 < 2 ^ 8" "n3 + blen (unat x3) = blen (unat x)"
    using len_step[of 8 x 0, unfolded add_0, OF 3] by simp_all
  then show ?thesis by (simp only: bits_Len16_def Let_def 3 prod.case) (simp add: len8 unat_ucast8)
qed

lemma Len8_blen: "bits_Len8 x = blen (unat x)"
  using unsigned_less[of x, where 'a = nat] by (simp add: bits_Len8_def len8)

section \<open>Trailing zeros\<close>

lemma odd_part:
  fixes n :: nat assumes "0 < n"
  obtains k m where "n = 2 ^ Suc k * m + 2 ^ k"
  using assms
proof (induction n arbitrary: thesis rule: less_induct)
  case (less n)
  show ?case
  proof (cases "even n")
    case True
    then have "0 < n div 2" "n div 2 < n" using less.prems(2) by auto
    then obtain k m where "n div 2 = 2 ^ Suc k * m + 2 ^ k" using less.IH by blast
    then have "n = 2 ^ Suc (Suc k) * m + 2 ^ Suc k" using True by (auto elim!: evenE)
    then show ?thesis by (rule less.prems(1))
  next
    case False
    then have "n = 2 ^ Suc 0 * (n div 2) + 2 ^ 0" by simp
    then show ?thesis by (rule less.prems(1))
  qed
qed

lemma bit_high_low: "y < 2 ^ k \<Longrightarrow> bit (2 ^ k * m + y) n \<longleftrightarrow> (if n < k then bit y n else bit m (n - k))" for y m :: nat
proof -
  assume y: "y < 2 ^ k"
  have "2 ^ k * m + y = push_bit k m OR y"
    using nat_or_disj[of k "push_bit k m" y] y by (simp add: push_bit_eq_mult mult.commute)
  then show ?thesis using not_bit_above_less[OF y, of n] by (auto simp: bit_or_iff bit_push_bit_iff)
qed

lemma bit_unat: "bit (x::'a::len word) n \<longleftrightarrow> bit (unat x) n"
  by (simp add: bit_unsigned_iff)

lemma lowest_bit:
  fixes x :: "'a::len word"
  assumes "unat x = 2 ^ Suc k * m + 2 ^ k"
  shows "x AND - x = 2 ^ k" "k < LENGTH('a)"
proof -
  show k: "k < LENGTH('a)"
  proof (rule ccontr)
    assume "\<not> k < LENGTH('a)"
    then have "(2::nat) ^ LENGTH('a) \<le> 2 ^ k" by simp
    also have "\<dots> \<le> unat x" using assms by simp
    finally show False using unsigned_less[of x, where 'a = nat] by simp
  qed
  have x0: "x \<noteq> 0" using assms by auto
  have "unat (x - 1) = 2 ^ Suc k * m + mask k"
    using assms x0 by (simp add: unat_minus_one mask_eq_exp_minus_1)
  then have b1: "bit (x - 1) n \<longleftrightarrow> (if n < Suc k then bit (mask k :: nat) n else bit m (n - Suc k))" for n
    by (simp only: bit_unat) (rule bit_high_low, simp add: mask_eq_exp_minus_1 less_imp_diff_less)
  have b0: "bit x n \<longleftrightarrow> (if n < Suc k then bit (2 ^ k :: nat) n else bit m (n - Suc k))" for n
    unfolding bit_unat[of x] assms by (rule bit_high_low) simp
  have "bit (x AND - x) n \<longleftrightarrow> bit (2 ^ k :: 'a word) n" for n
    using b0[of n] b1[of n] k
    apply (cases "n < LENGTH('a)")
    by (auto simp: minus_eq_not_minus_1 bit_and_iff bit_not_iff bit_exp_iff bit_mask_iff)
  then show "x AND - x = 2 ^ k" by (intro bit_eqI) simp
qed

lemma deBruijn64_all: "map (\<lambda>k. unat (deBruijn64tab ! unat (drop_bit 58 (2 ^ k * deBruijn64)))) [0..<64] = [0..<64]"
  by code_simp

lemma deBruijn32_all: "map (\<lambda>k. unat (deBruijn32tab ! unat (drop_bit 27 (2 ^ k * deBruijn32)))) [0..<32] = [0..<32]"
  by code_simp

lemma Least_bit:
  fixes x :: "'a::len word"
  assumes "unat x = 2 ^ Suc k * m + 2 ^ k"
  shows "(LEAST i. bit x i) = k"
proof (rule Least_equality)
  have b0: "bit x n \<longleftrightarrow> (if n < Suc k then bit (2 ^ k :: nat) n else bit m (n - Suc k))" for n
    unfolding bit_unat[of x] assms by (rule bit_high_low) simp
  show "bit x k" by (simp add: b0 bit_exp_iff)
  fix y assume "bit x y"
  then show "k \<le> y" using b0[of y] by (cases "y < Suc k") (auto simp: bit_exp_iff)
qed

lemma lowest_bit_ex:
  fixes x :: "'a::len word"
  assumes "x \<noteq> 0"
  shows "x AND - x = 2 ^ (LEAST i. bit x i)" "(LEAST i. bit x i) < LENGTH('a)"
proof -
  have "0 < unat x" using assms by (simp add: unat_gt_0)
  then obtain k m where k: "unat x = 2 ^ Suc k * m + 2 ^ k" by (rule odd_part)
  show "x AND - x = 2 ^ (LEAST i. bit x i)" "(LEAST i. bit x i) < LENGTH('a)"
    using lowest_bit[OF k] Least_bit[OF k] by simp_all
qed

lemma map_upt_nth: "map f [0..<n] = [0..<n] \<Longrightarrow> i < n \<Longrightarrow> f i = i" for f :: "nat \<Rightarrow> nat"
  by (metis add_0 diff_zero length_upt nth_map nth_upt)

lemma TrailingZeros64_Least: "bits_TrailingZeros64 x = (if x = 0 then 64 else (LEAST i. bit x i))"
  using lowest_bit_ex[of x] map_upt_nth[OF deBruijn64_all, of "LEAST i. bit x i"]
  by (simp add: bits_TrailingZeros64_def)

lemma TrailingZeros32_Least: "bits_TrailingZeros32 x = (if x = 0 then 32 else (LEAST i. bit x i))"
  using lowest_bit_ex[of x] map_upt_nth[OF deBruijn32_all, of "LEAST i. bit x i"]
  by (simp add: bits_TrailingZeros32_def)

lemma TrailingZeros16_Least: "bits_TrailingZeros16 x = (if x = 0 then 16 else (LEAST i. bit x i))"
proof (cases "x = 0")
  case False
  define i where "i = (LEAST i. bit x i)"
  have i: "x AND - x = 2 ^ i" "i < 16" using lowest_bit_ex[OF False] by (simp_all add: i_def)
  have "ucast (2 ^ i :: uint16) = (2 ^ i :: uint32)"
    using i(2) by (intro bit_eqI) (auto simp: bit_simps)
  then show ?thesis using i False map_upt_nth[OF deBruijn32_all, of i]
    by (simp add: bits_TrailingZeros16_def i_def[symmetric])
qed (simp add: bits_TrailingZeros16_def)

lemma low_odd_part: "k < K \<Longrightarrow> low K (2 ^ Suc k * m + 2 ^ k) = k"
proof (induction k arbitrary: K)
  case (Suc k)
  obtain K' where K: "K = Suc K'" using Suc.prems by (cases K) auto
  have "2 ^ Suc (Suc k) * m + 2 ^ Suc k = 2 * (2 ^ Suc k * m + 2 ^ k :: nat)" by (simp add: algebra_simps)
  then show ?case using Suc.IH[of K'] Suc.prems K by (simp add: ac_simps)
qed (auto simp: gr0_conv_Suc)

lemma low_0: "low k 0 = k" by (induction k) simp_all

lemma ntz8tab_all: "map unat ntz8tab = map (low 8) [0..<256]"
  by code_simp

lemma TrailingZeros8_Least: "bits_TrailingZeros8 x = (if x = 0 then 8 else (LEAST i. bit x i))"
proof -
  have t: "bits_TrailingZeros8 x = low 8 (unat x)"
    using tab_nth[OF ntz8tab_all, of "unat x"] unsigned_less[of x, where 'a = nat]
    by (simp add: bits_TrailingZeros8_def)
  show ?thesis
  proof (cases "x = 0")
    case False
    then have "0 < unat x" by (simp add: unat_gt_0)
    then obtain k m where k: "unat x = 2 ^ Suc k * m + 2 ^ k" by (rule odd_part)
    show ?thesis using False lowest_bit(2)[OF k] unfolding t Least_bit[OF k] unfolding k
      by (simp add: low_odd_part del: power_Suc)
  next
    case True
    then show ?thesis unfolding t by (simp add: low_0)
  qed
qed

section \<open>Addition and subtraction with carry\<close>

lemma drop_top: "drop_bit (LENGTH('a) - 1) w = of_bool (bit w (LENGTH('a) - 1))" for w :: "'a::len word"
proof (rule bit_word_eqI)
  fix n assume "n < LENGTH('a)"
  show "bit (drop_bit (LENGTH('a) - 1) w) n = bit (of_bool (bit w (LENGTH('a) - 1)) :: 'a word) n"
  proof (cases n)
    case (Suc m)
    then have "LENGTH('a) \<le> LENGTH('a) - 1 + n" by simp
    then have "\<not> bit w (LENGTH('a) - 1 + n)" using bit_imp_le_length linorder_not_le by blast
    then show ?thesis using Suc by (simp add: bit_drop_bit_eq bit_of_bool_iff)
  qed (simp add: bit_drop_bit_eq bit_of_bool_iff)
qed

lemma bit_63: "bit x 63 \<longleftrightarrow> 2 ^ 63 \<le> unat x" for x :: uint64
  using bit_top_iff[of "unat x" 63] unsigned_less[of x, where 'a = nat] by (simp add: bit_unsigned_iff)

lemma bit_31: "bit x 31 \<longleftrightarrow> 2 ^ 31 \<le> unat x" for x :: uint32
  using bit_top_iff[of "unat x" 31] unsigned_less[of x, where 'a = nat] by (simp add: bit_unsigned_iff)

lemma mod_two_cases: "(s::nat) < 2 * m \<Longrightarrow> s mod m = (if s < m then s else s - m)"
  by (simp add: mod_if)

lemma unat64_less: "unat x < 2 ^ 64" for x :: uint64
  using unsigned_less[of x, where 'a=nat] by simp

lemma unat_of_bool64: "unat (of_bool P :: uint64) = of_bool P" by simp

lemma Add64_exact:
  assumes "unat c \<le> 1"
  shows "case bits_Add64 x y c of (s, c') \<Rightarrow> unat s + 2 ^ 64 * unat c' = unat x + unat y + unat c"
proof -
  note l = unat64_less[of x] unat64_less[of y]
  let ?t = "unat x + unat y + unat c"
  have "unat (x + y + c) = ?t mod 2 ^ 64" by (simp add: unat_word_ariths mod_add_left_eq)
  also have "\<dots> = (if ?t < 2 ^ 64 then ?t else ?t - 2 ^ 64)" using l assms by (intro mod_two_cases) simp
  finally have s: "unat (x + y + c) = (if ?t < 2 ^ 64 then ?t else ?t - 2 ^ 64)" .
  have d: "drop_bit 63 w = of_bool (bit w 63)" for w :: uint64 using drop_top[of w] by simp
  have b: "bit ((x AND y) OR ((x OR y) AND NOT (x + y + c))) 63 \<longleftrightarrow>
     bit x 63 \<and> bit y 63 \<or> (bit x 63 \<or> bit y 63) \<and> \<not> bit (x + y + c) 63" by (simp add: bit_simps)
  have "unat (x + y + c) + 2 ^ 64 * of_bool (bit x 63 \<and> bit y 63 \<or> (bit x 63 \<or> bit y 63) \<and> \<not> bit (x + y + c) 63) = ?t"
    unfolding bit_63 using s l assms by (auto split: if_splits)
  then show ?thesis by (simp only: bits_Add64_def Let_def d prod.case b unat_of_bool64)
qed

lemma sub_borrow:
  fixes X Y B D M H :: int
  assumes "0 \<le> X" "X < M" "0 \<le> Y" "Y < M" "0 \<le> B" "B \<le> 1" "M = 2 * H" "0 < H"
    and D: "D = (X - Y - B) mod M"
  shows "D - M * of_bool (\<not> H \<le> X \<and> H \<le> Y \<or> (H \<le> X) = (H \<le> Y) \<and> H \<le> D) = X - Y - B"
proof (cases "0 \<le> X - Y - B")
  case True
  then have "D = X - Y - B" using assms by simp
  then show ?thesis using assms True by auto
next
  case False
  have "(X - Y - B) mod M = (X - Y - B + M) mod M" by simp
  also have "\<dots> = X - Y - B + M" using assms False by (intro mod_pos_pos_trivial) auto
  finally have "D = X - Y - B + M" using D by simp
  then show ?thesis using assms False by auto
qed

lemma uint_of_bool64: "uint (of_bool P :: uint64) = of_bool P" by simp

lemma Sub64_exact:
  assumes "unat b \<le> 1"
  shows "case bits_Sub64 x y b of (d, b') \<Rightarrow> uint d - 2 ^ 64 * uint b' = uint x - uint y - uint b"
proof -
  have d: "drop_bit 63 w = of_bool (bit w 63)" for w :: uint64 using drop_top[of w] by simp
  have h: "bit w 63 \<longleftrightarrow> 2 ^ 63 \<le> uint w" for w :: uint64
    by (simp only: bit_63 of_nat_unat[symmetric, of w, where 'a=int] of_nat_le_iff[symmetric, where 'a=int]) simp
  have b: "bit ((NOT x AND y) OR (NOT (x XOR y) AND (x - y - b))) 63 \<longleftrightarrow>
     \<not> bit x 63 \<and> bit y 63 \<or> (bit x 63 = bit y 63) \<and> bit (x - y - b) 63" by (auto simp: bit_simps)
  have "uint (x - y - b) = (uint x - uint y - uint b) mod 2 ^ 64"
    by (simp add: uint_word_ariths mod_diff_left_eq)
  moreover have "uint b \<le> 1" using assms by (metis of_nat_1 of_nat_le_iff of_nat_unat)
  ultimately have "uint (x - y - b) - 2 ^ 64 * of_bool (\<not> 2 ^ 63 \<le> uint x \<and> 2 ^ 63 \<le> uint y \<or> (2 ^ 63 \<le> uint x) = (2 ^ 63 \<le> uint y) \<and> 2 ^ 63 \<le> uint (x - y - b)) = uint x - uint y - uint b"
    using uint_lt2p[of x] uint_lt2p[of y] by (intro sub_borrow) simp_all
  then show ?thesis unfolding h[symmetric] by (simp only: bits_Sub64_def Let_def d prod.case b uint_of_bool64)
qed

section \<open>Multiplication\<close>

lemma mul_split_nat:
  fixes x0 x1 y0 y1 B :: nat
  assumes "0 < B"
  defines "t \<equiv> x1 * y0 + x0 * y0 div B"
  defines "w1 \<equiv> t mod B + x0 * y1"
  shows "(x1 * B + x0) * (y1 * B + y0) = (x1 * y1 + t div B + w1 div B) * B\<^sup>2 + ((w1 mod B) * B + x0 * y0 mod B)"
proof -
  have a: "x0 * y0 = x0 * y0 div B * B + x0 * y0 mod B" by simp
  have b: "t * B = t div B * B\<^sup>2 + t mod B * B" by (metis distrib_right div_mult_mod_eq mult.assoc power2_eq_square)
  have c: "w1 * B = w1 div B * B\<^sup>2 + w1 mod B * B" by (metis distrib_right div_mult_mod_eq mult.assoc power2_eq_square)
  have "(x1 * B + x0) * (y1 * B + y0) = x1 * y1 * B\<^sup>2 + (x1 * y0 + x0 * y1) * B + x0 * y0"
    by (simp add: algebra_simps power2_eq_square)
  also have "\<dots> = x1 * y1 * B\<^sup>2 + (t + x0 * y1) * B + x0 * y0 mod B"
    by (subst a) (simp add: t_def algebra_simps)
  also have "\<dots> = x1 * y1 * B\<^sup>2 + (t div B) * B\<^sup>2 + w1 * B + x0 * y0 mod B"
    by (simp only: w1_def distrib_right b)
  also have "\<dots> = (x1 * y1 + t div B + w1 div B) * B\<^sup>2 + ((w1 mod B) * B + x0 * y0 mod B)"
    by (simp only: distrib_right c add.assoc)
  finally show ?thesis .
qed

lemma unat_mult_no_wrap: "unat (a * b) = unat a * unat b" if "unat a * unat b < 2 ^ LENGTH('a)" for a b :: "'a::len word"
  using that by (simp add: unat_word_ariths)

lemma unat_add_no_wrap: "unat (a + b) = unat a + unat b" if "unat a + unat b < 2 ^ LENGTH('a)" for a b :: "'a::len word"
  using that by (simp add: unat_word_ariths)

lemma digit_product: "a < B \<Longrightarrow> b < B \<Longrightarrow> c < B \<Longrightarrow> a * b + c < B\<^sup>2" for a b c B :: nat
proof -
  assume "a < B" "b < B" "c < B"
  then have "a * b \<le> (B - 1) * (B - 1)" by (intro mult_mono) auto
  moreover have "(B - 1) * (B - 1) + (B - 1) < B\<^sup>2" using \<open>a < B\<close>
    by (cases B) (auto simp: power2_eq_square)
  ultimately show ?thesis using \<open>c < B\<close> by linarith
qed

lemma digit_append: "a < B \<Longrightarrow> c < B \<Longrightarrow> a * B + c < B\<^sup>2" for a B c :: nat
proof -
  assume "a < B" "c < B"
  then have "a * B + c < Suc a * B" by simp
  also have "\<dots> \<le> B * B" using \<open>a < B\<close> by (intro mult_right_mono) simp_all
  finally show ?thesis by (simp add: power2_eq_square)
qed

lemma Mul64_exact: "case bits_Mul64 x y of (hi, lo) \<Rightarrow> unat hi * 2 ^ 64 + unat lo = unat x * unat y"
proof -
  define B :: nat where "B = 2 ^ 32"
  have B2: "B\<^sup>2 = 2 ^ 64" "0 < B" by (simp_all add: B_def)
  define M :: uint64 where "M = 2 ^ 32 - 1"
  define x0 x1 y0 y1 where xy: "x0 = x AND M" "x1 = drop_bit 32 x" "y0 = y AND M" "y1 = drop_bit 32 y"
  have m: "unat (w AND M) = unat w mod B" for w :: uint64
    using unat_and_mask[of w 32] by (simp only: mask_eq_exp_minus_1 B_def M_def)
  have d: "unat (drop_bit 32 w) = unat w div B" for w :: uint64
    by (simp only: unat_drop_bit B_def)
  have dl: "unat w div B < B" for w :: uint64
    using unat64_less[of w] by (simp add: B_def less_mult_imp_div_less)
  have lt: "unat x0 < B" "unat x1 < B" "unat y0 < B" "unat y1 < B"
    using dl B2 by (simp_all add: xy m d)
  define t where "t = x1 * y0 + drop_bit 32 (x0 * y0)"
  define w1 where "w1 = (t AND M) + x0 * y1"
  have p: "unat (a * b) = unat a * unat b" if "unat a < B" "unat b < B" for a b :: uint64
    using digit_product[of "unat a" B "unat b" 0] that B2 by (intro unat_mult_no_wrap) simp
  have pa: "unat (a * b + c) = unat a * unat b + unat c" if "unat a < B" "unat b < B" "unat c < B" for a b c :: uint64
    using digit_product[OF that] that B2 p[OF that(1,2)] by (subst unat_add_no_wrap) simp_all
  have t: "unat t = unat x1 * unat y0 + unat x0 * unat y0 div B"
    unfolding t_def using lt dl[of "x0 * y0"] by (subst pa) (simp_all add: d p)
  have w1: "unat w1 = unat t mod B + unat x0 * unat y1"
    unfolding w1_def using lt B2 by (subst add.commute, subst pa) (simp_all add: m)
  have r: "(unat w1 mod B) * B + unat x0 * unat y0 mod B < B\<^sup>2"
    using B2(2) by (intro digit_append) simp_all
  note e = mul_split_nat[OF B2(2), of "unat x1" "unat x0" "unat y1" "unat y0", folded t, folded w1]
  have ex: "unat x1 * B + unat x0 = unat x" "unat y1 * B + unat y0 = unat y" by (simp_all add: xy m d)
  define h where "h = unat x1 * unat y1 + unat t div B + unat w1 div B"
  have e': "unat x * unat y = h * B\<^sup>2 + ((unat w1 mod B) * B + unat x0 * unat y0 mod B)"
    using e unfolding ex h_def by simp
  have "unat x * unat y < B\<^sup>2 * B\<^sup>2"
    using unat64_less[of x] unat64_less[of y] unfolding B2(1) by (intro mult_strict_mono) auto
  then have h: "h < 2 ^ 64" unfolding e' B2(1)[symmetric] by (metis add_lessD1 mult_less_cancel2)
  have hi: "unat (x1 * y1 + drop_bit 32 t + drop_bit 32 w1) = h"
    using h unfolding h_def
    by (subst unat_add_no_wrap, simp_all add: unat_add_no_wrap d p[OF lt(2,4)] add_lessD1)
  have "unat (x * y) = unat x * unat y mod B\<^sup>2" by (simp add: unat_word_ariths B2)
  then have "unat (x * y) = (unat w1 mod B) * B + unat x0 * unat y0 mod B" using e' r by simp
  then have "h * 2 ^ 64 + unat (x * y) = unat x * unat y" using e' B2 by simp
  then show ?thesis unfolding bits_Mul64_def Let_def prod.case M_def[symmetric] xy[symmetric] t_def[symmetric] w1_def[symmetric] hi .
qed

section \<open>Division\<close>

lemma trial_digit:
  fixes q r u v Y1 Y0 B :: nat
  assumes "u = q * Y1 + r" "0 < Y1 * B + Y0"
  shows "B * r + v < q * Y0 \<longleftrightarrow> (u * B + v) div (Y1 * B + Y0) < q"
proof -
  have "(u * B + v) div (Y1 * B + Y0) < q \<longleftrightarrow> u * B + v < q * (Y1 * B + Y0)"
    using assms(2) by (simp add: div_less_iff_less_mult)
  also have "\<dots> \<longleftrightarrow> B * r + v < q * Y0" by (simp add: assms(1) algebra_simps)
  finally show ?thesis by simp
qed

lemma two_pow_32: "unat (2 ^ 32 :: uint64) = 2 ^ 32" by simp

lemma adjust_exact:
  fixes yn1 yn0 un q r :: uint64
  defines "B \<equiv> 2 ^ 32 :: nat"
  defines "Y \<equiv> unat yn1 * B + unat yn0"
  assumes inv: "u = unat q * unat yn1 + unat r" "unat r < B" "unat q \<le> B + 1"
    and un: "unat un < B" and y: "unat yn0 < B" "unat yn1 < B" "0 < unat yn1" and u: "u < Y"
    and Q: "(u * B + unat un) div Y \<le> unat q"
  shows "unat (fst (div64_adjust yn1 yn0 un q r)) = (u * B + unat un) div Y"
  using inv Q
proof (induction "unat q" arbitrary: q r rule: less_induct)
  case less
  have B: "B\<^sup>2 = 2 ^ 64" "0 < B" by (simp_all add: B_def)
  have Y: "0 < Y" using y B unfolding Y_def by simp
  have "unat q * unat yn0 \<le> (B + 1) * (B - 1)" using less.prems y by (intro mult_mono) auto
  also have "\<dots> < B\<^sup>2" using B(2) by (cases B) (auto simp: power2_eq_square)
  finally have qy: "unat (q * yn0) = unat q * unat yn0" unfolding B by (intro unat_mult_no_wrap) simp
  have "unat r * B + unat un < B\<^sup>2" using digit_append[OF less.prems(2) un] .
  then have ru: "unat (2 ^ 32 * r + un) = B * unat r + unat un" unfolding B
    by (subst unat_add_no_wrap; subst unat_mult_no_wrap) (simp_all add: B_def mult.commute)
  have QB: "(u * B + unat un) div Y < B"
  proof -
    have "u * B + unat un < Suc u * B" using un by simp
    also have "\<dots> \<le> Y * B" using u by (intro mult_right_mono) simp_all
    finally show ?thesis using Y by (simp add: div_less_iff_less_mult mult.commute)
  qed
  have c: "2 ^ 32 \<le> q \<or> 2 ^ 32 * r + un < q * yn0 \<longleftrightarrow> (u * B + unat un) div Y < unat q"
    using trial_digit[OF less.prems(1), of B "unat yn0" "unat un"] Y QB
    unfolding word_le_nat_alt word_less_nat_alt ru qy two_pow_32 B_def[symmetric] Y_def by auto
  show ?case
  proof (cases "(u * B + unat un) div Y < unat q")
    case False
    then show ?thesis using less.prems(4) c by (subst div64_adjust.simps) simp
  next
    case True
    then have q1: "unat (q - 1) = unat q - 1" by (subst unat_minus_one) auto
    have r1: "unat (r + yn1) = unat r + unat yn1"
      using less.prems(2) y by (intro unat_add_no_wrap) (simp add: B_def)
    have i: "u = unat (q - 1) * unat yn1 + unat (r + yn1)"
      using less.prems(1) True unfolding q1 r1 by (cases "unat q") auto
    have le: "(u * B + unat un) div Y \<le> unat (q - 1)" using True q1 by simp
    show ?thesis
    proof (cases "2 ^ 32 \<le> r + yn1")
      case big: True
      then have "B \<le> unat (r + yn1)" unfolding word_le_nat_alt two_pow_32 B_def .
      then have "B * B \<le> B * unat (r + yn1)" by simp
      moreover have "unat (q - 1) * unat yn0 \<le> B * B" using less.prems(3) y q1 by (intro mult_mono) auto
      ultimately have "\<not> B * unat (r + yn1) + unat un < unat (q - 1) * unat yn0" by linarith
      then have "unat (q - 1) \<le> (u * B + unat un) div Y"
        using trial_digit[OF i, of B "unat yn0" "unat un"] Y unfolding Y_def by simp
      then show ?thesis using le True c big by (subst div64_adjust.simps) (simp add: Let_def)
    next
      case small: False
      have "unat (fst (div64_adjust yn1 yn0 un (q - 1) (r + yn1))) = (u * B + unat un) div Y"
        using small le q1 less.prems(3) True i
        by (intro less.hyps) (simp_all add: word_le_nat_alt B_def)
      then show ?thesis using True c small by (subst div64_adjust.simps) (simp add: Let_def)
    qed
  qed
qed

lemma unat_diff_mult_exact:
  fixes u v q y :: uint64
  assumes "unat q = N div unat y" "0 < unat y" "N = unat u * 2 ^ 32 + unat v"
  shows "unat (u * 2 ^ 32 + v - q * y) = N mod unat y"
proof -
  have "N - unat q * unat y = N mod unat y" using assms(1) by (simp add: minus_div_mult_eq_mod)
  moreover have "unat q * unat y \<le> N" using assms(1) by simp
  ultimately have "of_nat N - of_nat (unat q) * of_nat (unat y) = (of_nat (N mod unat y) :: uint64)"
    by (metis of_nat_diff of_nat_mult)
  then have "u * 2 ^ 32 + v - q * y = of_nat (N mod unat y)" using assms(3) by simp
  moreover have "N mod unat y < 2 ^ 64" using unat64_less[of y] assms(2) by (meson mod_less_divisor less_trans)
  ultimately show ?thesis by (simp add: unat_of_nat)
qed

lemma div64_digit:
  fixes u v y :: uint64
  assumes y: "2 ^ 63 \<le> unat y" and u: "unat u < unat y" and v: "unat v < 2 ^ 32"
  defines "yn1 \<equiv> drop_bit 32 y" and "yn0 \<equiv> y AND (2 ^ 32 - 1)"
  defines "N \<equiv> unat u * 2 ^ 32 + unat v"
  defines "q \<equiv> fst (div64_adjust yn1 yn0 v (u div yn1) (u - u div yn1 * yn1))"
  shows "unat q = N div unat y" "unat (u * 2 ^ 32 + v - q * y) = N mod unat y"
proof -
  define B :: nat where "B = 2 ^ 32"
  have yn1: "unat yn1 = unat y div B" by (simp only: yn1_def unat_drop_bit B_def)
  have yn0: "unat yn0 = unat y mod B"
    using unat_and_mask[of y 32] by (simp only: yn0_def mask_eq_exp_minus_1 B_def)
  have lt: "unat yn1 < B" "unat yn0 < B" using unat64_less[of y] unfolding yn1 yn0
    by (simp_all add: B_def less_mult_imp_div_less)
  have big: "2 ^ 31 \<le> unat yn1" using div_le_mono[OF y, of B] unfolding yn1 by (simp add: B_def)
  then have pos: "0 < unat yn1" by (metis less_le_trans zero_less_numeral zero_less_power)
  have Y: "unat yn1 * B + unat yn0 = unat y" unfolding yn1 yn0 by simp
  have d: "unat (u div yn1) = unat u div unat yn1" by (simp add: unat_div)
  have "u - u div yn1 * yn1 = u mod yn1" by (simp add: minus_div_mult_eq_mod)
  then have m: "unat (u - u div yn1 * yn1) = unat u mod unat yn1" by (simp add: unat_mod)
  have qle: "unat u div unat yn1 \<le> B + 1"
  proof -
    have "unat u < Suc (unat yn1) * B" using u Y lt by simp
    also have "\<dots> \<le> (B + 2) * unat yn1" using big lt by (simp add: B_def)
    finally have "unat u div unat yn1 < B + 2" using pos by (simp add: div_less_iff_less_mult)
    then show ?thesis by simp
  qed
  have ge: "(unat u * B + unat v) div unat y \<le> unat (u div yn1)"
  proof -
    have "(unat u * B + unat v) div unat y \<le> (unat u * B + unat v) div (unat yn1 * B)"
      using pos Y by (intro div_le_mono2) (simp_all add: B_def)
    also have "\<dots> = (unat u * B + unat v) div B div unat yn1" by (simp add: div_mult2_eq mult.commute)
    also have "(unat u * B + unat v) div B = unat u" using v by (simp add: B_def)
    finally show ?thesis by (simp add: d)
  qed
  have "unat q = (unat u * B + unat v) div (unat yn1 * B + unat yn0)" unfolding q_def B_def
    by (rule adjust_exact) (use d m qle v lt pos u ge Y less_trans[OF mod_less_divisor[OF pos] lt(1)] in \<open>simp_all add: B_def\<close>)
  then show q: "unat q = N div unat y" unfolding Y by (simp add: N_def B_def)
  show "unat (u * 2 ^ 32 + v - q * y) = N mod unat y"
    using y by (intro unat_diff_mult_exact[OF q]) (simp_all add: N_def)
qed

lemma normalise:
  fixes hi lo y :: uint64
  assumes "hi < y"
  defines "s \<equiv> nat (bits_LeadingZeros64 y)"
  shows "unat (push_bit s y) = unat y * 2 ^ s" "2 ^ 63 \<le> unat y * 2 ^ s" "s < 64"
    "unat (push_bit s hi OR drop_bit (64 - s) lo) * 2 ^ 64 + unat (push_bit s lo) = (unat hi * 2 ^ 64 + unat lo) * 2 ^ s"
    "unat (push_bit s hi OR drop_bit (64 - s) lo) < unat y * 2 ^ s"
proof -
  have hy: "unat hi < unat y" using assms(1) by (simp add: word_less_nat_alt)
  then have y0: "0 < unat y" by simp
  define b where "b = blen (unat y)"
  have b: "unat y < 2 ^ b" "2 ^ (b - 1) \<le> unat y" using blen_bounds y0 by (simp_all add: b_def)
  have b0: "0 < b" using y0 by (simp add: b_def blen_pos)
  have b64: "b \<le> 64"
  proof (rule ccontr)
    assume "\<not> b \<le> 64"
    then have "(2::nat) ^ 64 \<le> 2 ^ (b - 1)" by (intro power_increasing) simp_all
    then show False using b(2) unat64_less[of y] by linarith
  qed
  have s: "s = 64 - b" using b64 by (simp add: s_def bits_LeadingZeros64_def Len64_blen b_def)
  show s64: "s < 64" using s b0 by simp
  have "unat y * 2 ^ s < 2 ^ b * 2 ^ s" using b by simp
  also have "\<dots> = 2 ^ 64" using s b64 by (simp flip: power_add)
  finally have ys: "unat y * 2 ^ s < 2 ^ 64" .
  then show "unat (push_bit s y) = unat y * 2 ^ s" by (simp add: unat_push_bit)
  have "(2::nat) ^ 63 = 2 ^ (b - 1) * 2 ^ s" using s b0 b64 by (simp flip: power_add)
  also have "\<dots> \<le> unat y * 2 ^ s" using b by simp
  finally show "2 ^ 63 \<le> unat y * 2 ^ s" .
  have hs: "unat hi * 2 ^ s < unat y * 2 ^ s" using hy by simp
  have split: "(2::nat) ^ 64 = 2 ^ s * 2 ^ (64 - s)" using s64 by (simp flip: power_add)
  have l: "unat lo div 2 ^ (64 - s) < 2 ^ s"
    using unat64_less[of lo] split by (simp add: less_mult_imp_div_less)
  have ph: "unat (push_bit s hi) = unat hi * 2 ^ s"
    using less_trans[OF hs ys] by (simp add: unat_push_bit)
  then have o: "unat (push_bit s hi OR drop_bit (64 - s) lo) = unat hi * 2 ^ s + unat lo div 2 ^ (64 - s)"
    using l by (subst unat_or_disj[of s]) (simp_all only: unat_drop_bit dvd_triv_right)
  have "unat lo * 2 ^ s div 2 ^ 64 = unat lo div 2 ^ (64 - s)"
    unfolding split by simp
  then have "unat lo * 2 ^ s = unat lo div 2 ^ (64 - s) * 2 ^ 64 + unat (push_bit s lo)"
    using div_mult_mod_eq[of "unat lo * 2 ^ s" "2 ^ 64"] unat_push_bit[of s lo] by simp
  then show "unat (push_bit s hi OR drop_bit (64 - s) lo) * 2 ^ 64 + unat (push_bit s lo) = (unat hi * 2 ^ 64 + unat lo) * 2 ^ s"
    unfolding o by (simp add: algebra_simps)
  have "unat hi * 2 ^ s + unat lo div 2 ^ (64 - s) < Suc (unat hi) * 2 ^ s" using l by simp
  also have "\<dots> \<le> unat y * 2 ^ s" using hy by (intro mult_right_mono) simp_all
  finally show "unat (push_bit s hi OR drop_bit (64 - s) lo) < unat y * 2 ^ s" unfolding o .
qed

lemma digit_shift: "U * C + w = U div Y * C * Y + (U mod Y * C + w)" for U C w Y :: nat
proof -
  have "U * C = (U div Y * Y + U mod Y) * C" by simp
  then show ?thesis by (simp only: algebra_simps)
qed

lemma Div64_exact:
  assumes "hi < y"
  shows "\<exists>q r. bits_Div64 hi lo y = Inr (q, r) \<and> unat q = (unat hi * 2 ^ 64 + unat lo) div unat y
    \<and> unat r = (unat hi * 2 ^ 64 + unat lo) mod unat y"
proof (cases "hi = 0")
  case True
  have "y \<noteq> 0" using assms by auto
  then show ?thesis using assms True by (simp add: bits_Div64_def unat_div unat_mod)
next
  case False
  define s where "s = nat (bits_LeadingZeros64 y)"
  note n = normalise[OF assms, folded s_def]
  define N where "N = unat hi * 2 ^ 64 + unat lo"
  define Y where "Y = push_bit s y"
  define yn1 yn0 where "yn1 = drop_bit 32 Y" and "yn0 = Y AND (2 ^ 32 - 1)"
  define un32 where "un32 = push_bit s hi OR drop_bit (64 - s) lo"
  define un10 where "un10 = push_bit s lo"
  define un1 un0 where "un1 = drop_bit 32 un10" and "un0 = un10 AND (2 ^ 32 - 1)"
  obtain q1 r1 where q1: "div64_adjust yn1 yn0 un1 (un32 div yn1) (un32 - un32 div yn1 * yn1) = (q1, r1)"
    by fastforce
  define un21 where "un21 = un32 * 2 ^ 32 + un1 - q1 * Y"
  obtain q0 r0 where q0: "div64_adjust yn1 yn0 un0 (un21 div yn1) (un21 - un21 div yn1 * yn1) = (q0, r0)"
    by fastforce
  have c: "(y = 0) = False" "(y \<le> hi) = False" "(hi = 0) = False" using assms False by auto
  have res: "bits_Div64 hi lo y = Inr (q1 * 2 ^ 32 + q0, drop_bit s (un21 * 2 ^ 32 + un0 - q0 * Y))"
    unfolding bits_Div64_def c if_False Let_def s_def[symmetric] Y_def[symmetric] yn1_def[symmetric] yn0_def[symmetric]
      un32_def[symmetric] un10_def[symmetric] un1_def[symmetric] un0_def[symmetric] q1 prod.case un21_def[symmetric] q0
    by (rule refl)
  have Y: "unat Y = unat y * 2 ^ s" "2 ^ 63 \<le> unat Y" using n by (simp_all only: Y_def)
  have u1: "unat un1 = unat un10 div 2 ^ 32" by (simp only: un1_def unat_drop_bit)
  have u0: "unat un0 = unat un10 mod 2 ^ 32"
    using unat_and_mask[of un10 32] by (simp only: un0_def mask_eq_exp_minus_1)
  have l: "unat un1 < 2 ^ 32" "unat un0 < 2 ^ 32" using unat64_less[of un10] unfolding u1 u0
    by (simp_all add: less_mult_imp_div_less)
  have "unat un32 < unat Y" using n(5)[of lo] Y by (simp add: un32_def)
  note d1 = div64_digit[OF Y(2) this l(1), folded yn1_def yn0_def, unfolded q1 fst_conv, folded un21_def]
  have "unat un21 < unat Y" unfolding d1 using Y(2) by (intro mod_less_divisor) simp
  note d0 = div64_digit[OF Y(2) this l(2), folded yn1_def yn0_def, unfolded q0 fst_conv]
  define U where "U = unat un32 * 2 ^ 32 + unat un1"
  have NU: "U * 2 ^ 32 + unat un0 = N * 2 ^ s"
    using n(4)[of lo] unfolding U_def N_def un32_def[symmetric] un10_def[symmetric] u1 u0
    by (simp add: algebra_simps)
  have eq: "U * 2 ^ 32 + unat un0 = U div unat Y * 2 ^ 32 * unat Y + (unat un21 * 2 ^ 32 + unat un0)"
    unfolding d1 U_def[symmetric]
    by (rule digit_shift)
  have Ypos: "0 < unat Y" using Y(2) by simp
  have qn: "unat q1 * 2 ^ 32 + unat q0 = N div unat y"
  proof -
    have "N div unat y = (U * 2 ^ 32 + unat un0) div unat Y" unfolding NU Y(1) by simp
    also have "\<dots> = U div unat Y * 2 ^ 32 + (unat un21 * 2 ^ 32 + unat un0) div unat Y"
      unfolding eq using Ypos by (simp only: div_mult_self3)
    finally show ?thesis using d1 d0 U_def by simp
  qed
  have "N div unat y < 2 ^ 64"
  proof -
    have "N < Suc (unat hi) * 2 ^ 64" using unat64_less[of lo] by (simp add: N_def)
    also have "\<dots> \<le> unat y * 2 ^ 64" using assms by (intro mult_right_mono) (simp_all add: word_less_nat_alt)
    finally show ?thesis using assms by (simp add: div_less_iff_less_mult word_less_nat_alt mult.commute)
  qed
  then have q: "unat (q1 * 2 ^ 32 + q0) = N div unat y"
    unfolding qn[symmetric] by (subst unat_add_no_wrap; subst unat_mult_no_wrap) simp_all
  have "unat (un21 * 2 ^ 32 + un0 - q0 * Y) = (U * 2 ^ 32 + unat un0) mod unat Y"
    unfolding d0(2) eq by (simp only: mod_mult_self3)
  also have "\<dots> = N mod unat y * 2 ^ s" unfolding NU Y(1) by simp
  finally have "unat (drop_bit s (un21 * 2 ^ 32 + un0 - q0 * Y)) = N mod unat y"
    by (simp only: unat_drop_bit) simp
  then show ?thesis using res q N_def by auto
qed

section \<open>Rotation and reversal\<close>

lemma odd_div_ge: "odd (i div k) \<Longrightarrow> k \<le> i" for i k :: nat
  by (metis div_less even_zero not_le)

lemma div_minus_self: "0 < k \<Longrightarrow> k \<le> i \<Longrightarrow> i div k = Suc ((i - k) div k)" for i k :: nat
  by (simp add: le_div_geq)

lemma swap_stage:
  fixes x m :: "'a::len word"
  assumes m: "\<And>i. i < LENGTH('a) \<Longrightarrow> bit m i = even (i div k)" and k: "0 < k" and i: "i < LENGTH('a)"
  shows "bit ((drop_bit k x AND m) OR push_bit k (x AND m)) i = bit x (swp k i)"
proof (cases "even (i div k)")
  case True
  have "\<not> (k \<le> i \<and> bit m (i - k))"
  proof
    assume a: "k \<le> i \<and> bit m (i - k)"
    then have "even ((i - k) div k)" using m[of "i - k"] i by simp
    then show False using True div_minus_self[OF k] a by simp
  qed
  then show ?thesis using True m[OF i] i by (auto simp: swp_def bit_simps add.commute)
next
  case False
  then have "k \<le> i" by (rule odd_div_ge)
  moreover then have "even ((i - k) div k)" using False div_minus_self[OF k] by simp
  then have "bit m (i - k)" using m[of "i - k"] i by simp
  ultimately show ?thesis using False m[OF i] i by (auto simp: swp_def bit_simps)
qed

lemma swap_last:
  fixes x :: "'a::len word"
  assumes k: "LENGTH('a) = 2 * k" and i: "i < LENGTH('a)"
  shows "bit (drop_bit k x OR push_bit k x) i = bit x (swp k i)"
proof (cases "i < k")
  case True
  then show ?thesis by (auto simp: swp_def bit_simps add.commute)
next
  case False
  then have "i div k = 1" using k i by (simp add: div_nat_eqI)
  moreover have "\<not> bit x (k + i)" using False k bit_imp_le_length[of x "k + i"] by auto
  ultimately show ?thesis using False i by (auto simp: swp_def bit_simps)
qed

lemma bit_tab: "map (bit m) [0..<n] = map g [0..<n] \<Longrightarrow> i < n \<Longrightarrow> bit m i = g i"
  by (metis add_0 diff_zero length_upt nth_map nth_upt)

lemma masks64:
  "map (bit bits_m0) [0..<64] = map (\<lambda>i. even (i div 1)) [0..<64]"
  "map (bit bits_m1) [0..<64] = map (\<lambda>i. even (i div 2)) [0..<64]"
  "map (bit bits_m2) [0..<64] = map (\<lambda>i. even (i div 4)) [0..<64]"
  "map (bit bits_m3) [0..<64] = map (\<lambda>i. even (i div 8)) [0..<64]"
  "map (bit bits_m4) [0..<64] = map (\<lambda>i. even (i div 16)) [0..<64]"
  by code_simp+

lemma masks32:
  "map (bit (0x55555555::uint32)) [0..<32] = map (\<lambda>i. even (i div 1)) [0..<32]"
  "map (bit (0x33333333::uint32)) [0..<32] = map (\<lambda>i. even (i div 2)) [0..<32]"
  "map (bit (0x0f0f0f0f::uint32)) [0..<32] = map (\<lambda>i. even (i div 4)) [0..<32]"
  "map (bit (0x00ff00ff::uint32)) [0..<32] = map (\<lambda>i. even (i div 8)) [0..<32]"
  by code_simp+

lemma swp_lt:
  assumes "0 < k" "i < 2 * k * c"
  shows "swp k i < 2 * k * c"
proof (cases "even (i div k)")
  case True
  then obtain e where e: "i div k = 2 * e" by auto
  have "i div k < 2 * c" using assms by (simp add: div_less_iff_less_mult ac_simps)
  then have "i div k + 2 \<le> 2 * c" using e by simp
  then have "(i div k + 2) * k \<le> 2 * c * k" by (rule mult_right_mono) simp
  moreover have "i < (i div k + 1) * k" using assms(1) by (simp add: dividend_less_div_times)
  ultimately show ?thesis using True by (simp add: swp_def algebra_simps)
qed (use assms in \<open>simp add: swp_def\<close>)

lemma swp_xor: "swp (2 ^ j) i = i XOR 2 ^ j"
proof -
  have "swp (2 ^ j) i = flip_bit j i"
  proof (cases "bit i j")
    case True
    have "set_bit j (unset_bit j i) = i" using True by (intro bit_eqI) (auto simp: bit_simps)
    then have "unset_bit j i + 2 ^ j = i" using set_bit_eq[of j "unset_bit j i"] by (simp add: bit_unset_bit_iff)
    then show ?thesis using True by (auto simp add: swp_def flip_bit_eq_if bit_iff_odd)
  qed (simp add: swp_def flip_bit_eq_if set_bit_eq bit_iff_odd)
  then show ?thesis by (simp add: flip_bit_eq_xor)
qed

lemma xor_mask: "i < 2 ^ k \<Longrightarrow> i XOR mask k = mask k - i" for i :: nat
proof -
  assume i: "i < 2 ^ k"
  have b: "bit i n \<Longrightarrow> n < k" for n using not_bit_above_less[OF i, of n] by (meson not_le)
  have "i + (i XOR mask k) = i OR (i XOR mask k)"
    by (rule disjunctive_add) (auto simp: bit_simps b)
  also have "\<dots> = mask k"
    by (intro bit_eqI) (auto simp: bit_simps b)
  finally show ?thesis by simp
qed

lemma swp_rev64: "i < 64 \<Longrightarrow> swp 1 (swp 2 (swp 4 (swp 8 (swp 16 (swp 32 i))))) = 63 - i"
  using swp_xor[of 0] swp_xor[of 1] swp_xor[of 2] swp_xor[of 3] swp_xor[of 4] swp_xor[of 5] xor_mask[of i 6]
  by (simp add: mask_eq_exp_minus_1 xor.assoc)

lemma swp_rev32: "i < 32 \<Longrightarrow> swp 1 (swp 2 (swp 4 (swp 8 (swp 16 i)))) = 31 - i"
  using swp_xor[of 0] swp_xor[of 1] swp_xor[of 2] swp_xor[of 3] swp_xor[of 4] xor_mask[of i 5]
  by (simp add: mask_eq_exp_minus_1 xor.assoc)

lemma swp_lt64:
  assumes "i < 64"
  shows "swp 1 i < 64" "swp 2 i < 64" "swp 4 i < 64" "swp 8 i < 64" "swp 16 i < 64" "swp 32 i < 64"
  using swp_lt[of 32 i 1] swp_lt[of 16 i 2] swp_lt[of 8 i 4] swp_lt[of 4 i 8] swp_lt[of 2 i 16] swp_lt[of 1 i 32] assms by simp_all

lemma swp_lt32:
  assumes "i < 32"
  shows "swp 1 i < 32" "swp 2 i < 32" "swp 4 i < 32" "swp 8 i < 32" "swp 16 i < 32"
  using swp_lt[of 16 i 1] swp_lt[of 8 i 2] swp_lt[of 4 i 4] swp_lt[of 2 i 8] swp_lt[of 1 i 16] assms by simp_all

lemma stage64:
  fixes x :: uint64
  assumes "i < 64"
  shows "bit ((drop_bit 1 x AND bits_m0) OR push_bit 1 (x AND bits_m0)) i = bit x (swp 1 i)"
    "bit ((drop_bit 2 x AND bits_m1) OR push_bit 2 (x AND bits_m1)) i = bit x (swp 2 i)"
    "bit ((drop_bit 4 x AND bits_m2) OR push_bit 4 (x AND bits_m2)) i = bit x (swp 4 i)"
    "bit ((drop_bit 8 x AND bits_m3) OR push_bit 8 (x AND bits_m3)) i = bit x (swp 8 i)"
    "bit ((drop_bit 16 x AND bits_m4) OR push_bit 16 (x AND bits_m4)) i = bit x (swp 16 i)"
    "bit (drop_bit 32 x OR push_bit 32 x) i = bit x (swp 32 i)"
  by (rule swap_stage[OF bit_tab[OF masks64(1)]] swap_stage[OF bit_tab[OF masks64(2)]] swap_stage[OF bit_tab[OF masks64(3)]]
    swap_stage[OF bit_tab[OF masks64(4)]] swap_stage[OF bit_tab[OF masks64(5)]] swap_last; use assms in simp)+

lemma stage32:
  fixes x :: uint32
  assumes "i < 32"
  shows "bit ((drop_bit 1 x AND 0x55555555) OR push_bit 1 (x AND 0x55555555)) i = bit x (swp 1 i)"
    "bit ((drop_bit 2 x AND 0x33333333) OR push_bit 2 (x AND 0x33333333)) i = bit x (swp 2 i)"
    "bit ((drop_bit 4 x AND 0x0f0f0f0f) OR push_bit 4 (x AND 0x0f0f0f0f)) i = bit x (swp 4 i)"
    "bit ((drop_bit 8 x AND 0x00ff00ff) OR push_bit 8 (x AND 0x00ff00ff)) i = bit x (swp 8 i)"
    "bit (drop_bit 16 x OR push_bit 16 x) i = bit x (swp 16 i)"
  by (rule swap_stage[OF bit_tab[OF masks32(1)]] swap_stage[OF bit_tab[OF masks32(2)]] swap_stage[OF bit_tab[OF masks32(3)]]
    swap_stage[OF bit_tab[OF masks32(4)]] swap_last; use assms in simp)+

lemma ReverseBytes64_swp: "i < 64 \<Longrightarrow> bit (bits_ReverseBytes64 x) i = bit x (swp 8 (swp 16 (swp 32 i)))"
  by (simp only: bits_ReverseBytes64_def Let_def stage64 swp_lt64)

lemma Reverse64_bit: "i < 64 \<Longrightarrow> bit (bits_Reverse64 x) i = bit x (63 - i)"
  by (simp only: bits_Reverse64_def Let_def ReverseBytes64_swp stage64 swp_lt64 swp_rev64)

lemma ReverseBytes32_swp: "i < 32 \<Longrightarrow> bit (bits_ReverseBytes32 x) i = bit x (swp 8 (swp 16 i))"
  by (simp only: bits_ReverseBytes32_def Let_def stage32 swp_lt32)

lemma Reverse32_bit: "i < 32 \<Longrightarrow> bit (bits_Reverse32 x) i = bit x (31 - i)"
  by (simp only: bits_Reverse32_def Let_def ReverseBytes32_swp stage32 swp_lt32 swp_rev32)

lemma xor_digit: "(8 * a + b) XOR (8 * c) = 8 * (a XOR c) + b" if "b < 8" for a b c :: nat
proof -
  have d: "8 * u + b = push_bit 3 u OR b" for u :: nat
    using nat_or_disj[of 3 "push_bit 3 u" b] that by (simp add: push_bit_eq_mult mult.commute)
  have b: "bit b n \<Longrightarrow> n < 3" for n using not_bit_above_less[of b 3 n] that by (auto simp: not_le[symmetric])
  have "8 * c = push_bit 3 c" by (simp add: push_bit_eq_mult)
  then show ?thesis unfolding d by (intro bit_eqI) (auto simp: bit_simps dest: b)
qed

lemma swp_bytes64: "i < 64 \<Longrightarrow> swp 8 (swp 16 (swp 32 i)) = 8 * (7 - i div 8) + i mod 8"
  using swp_xor[of 3] swp_xor[of 4] swp_xor[of 5] xor_mask[of "i div 8" 3] xor_digit[of "i mod 8" "i div 8" 7]
  by (simp add: mask_eq_exp_minus_1 xor.assoc)

lemma swp_bytes32: "i < 32 \<Longrightarrow> swp 8 (swp 16 i) = 8 * (3 - i div 8) + i mod 8"
  using swp_xor[of 3] swp_xor[of 4] xor_mask[of "i div 8" 2] xor_digit[of "i mod 8" "i div 8" 3]
  by (simp add: mask_eq_exp_minus_1 xor.assoc)

lemma and_pow_mask: "unat ((word_of_int k :: uint64) AND mask n) = nat (k mod 2 ^ n)" if "n < 64"
proof -
  have "unat ((word_of_int k :: uint64) AND mask n) = nat (k mod 2 ^ 64) mod 2 ^ n"
    by (simp only: unat_and_mask) (simp add: unat_eq_nat_uint uint_word_of_int)
  also have "\<dots> = nat (k mod 2 ^ 64 mod 2 ^ n)" by (simp add: nat_mod_distrib nat_power_eq)
  also have "k mod 2 ^ 64 mod 2 ^ n = k mod 2 ^ n" using that by (intro mod_mod_cancel le_imp_power_dvd) simp
  finally show ?thesis .
qed

lemma rotl_or:
  fixes x :: "'a::len word"
  assumes "s < LENGTH('a)"
  shows "push_bit s x OR drop_bit (LENGTH('a) - s) x = word_rotl s x"
proof (rule bit_word_eqI)
  fix n assume n: "n < LENGTH('a)"
  show "bit (push_bit s x OR drop_bit (LENGTH('a) - s) x) n = bit (word_rotl s x) n"
  proof (cases "s \<le> n")
    case True
    have "(n + (LENGTH('a) - s)) mod LENGTH('a) = n - s"
      using True n assms by (simp add: mod_if)
    moreover have "\<not> bit x (LENGTH('a) - s + n)" using True assms bit_imp_le_length[of x "LENGTH('a) - s + n"] by auto
    ultimately show ?thesis using True n assms by (auto simp: bit_word_rotl_iff bit_simps)
  next
    case False
    then show ?thesis using n assms by (auto simp: bit_word_rotl_iff bit_simps add.commute)
  qed
qed

lemma rotl_spec:
  fixes x :: "'a::len word"
  assumes "LENGTH('a) = 2 ^ n" "n < 64"
  shows "(let s = unat ((word_of_int k :: uint64) AND mask n) in push_bit s x OR drop_bit (LENGTH('a) - s) x)
    = word_rotl (nat (k mod 2 ^ n)) x"
proof -
  have "nat (k mod 2 ^ n) < LENGTH('a)" unfolding assms(1) by (metis Euclidean_Rings.pos_mod_bound nat_less_iff Euclidean_Rings.pos_mod_sign of_nat_numeral of_nat_power zero_less_numeral zero_less_power)
  then show ?thesis unfolding Let_def and_pow_mask[OF assms(2)] by (rule rotl_or)
qed

lemma RotateLeft_rotl:
  "bits_RotateLeft8 a k = word_rotl (nat (k mod 8)) a" "bits_RotateLeft16 b k = word_rotl (nat (k mod 16)) b"
  "bits_RotateLeft32 c k = word_rotl (nat (k mod 32)) c" "bits_RotateLeft64 d k = word_rotl (nat (k mod 64)) d"
  using rotl_spec[of 3 k a] rotl_spec[of 4 k b] rotl_spec[of 5 k c] rotl_spec[of 6 k d]
  by (simp_all add: bits_RotateLeft8_def bits_RotateLeft16_def bits_RotateLeft32_def bits_RotateLeft64_def mask_eq_exp_minus_1)

section \<open>Single-word widths and remainders\<close>

lemma blen_Least: "blen n = (LEAST k. n < 2 ^ k)"
proof (rule sym, rule Least_equality)
  show "n < 2 ^ blen n" by (rule blen_bounds)
  fix y :: nat assume y: "n < 2 ^ y"
  show "blen n \<le> y"
  proof (rule ccontr)
    assume c: "\<not> blen n \<le> y"
    then have "0 < n" by (cases n) auto
    then have "2 ^ (blen n - 1) \<le> n" by (rule blen_bounds)
    moreover have "(2::nat) ^ y \<le> 2 ^ (blen n - 1)" using c by (intro power_increasing) auto
    ultimately show False using y by (meson le_trans not_le)
  qed
qed

lemma unat32_less: "unat x < 2 ^ 32" for x :: uint32
  using unsigned_less[of x, where 'a=nat] by simp

lemma unat_ucast64: "unat (ucast x :: uint64) = unat x" for x :: uint32
  using unat32_less[of x] by (simp add: unat_ucast_mod)

lemma Add32_exact: "case bits_Add32 x y c of (s, c') \<Rightarrow> unat s + 2 ^ 32 * unat c' = unat x + unat y + unat c"
proof -
  let ?s = "ucast x + ucast y + ucast c :: uint64"
  have s: "unat ?s = unat x + unat y + unat c"
    using unat32_less[of x] unat32_less[of y] unat32_less[of c]
    by (subst unat_add_no_wrap; subst unat_add_no_wrap)+ (simp_all add: unat_ucast64)
  have "unat ?s div 2 ^ 32 < 2 ^ 32"
    using unat64_less[of ?s] by (simp add: less_mult_imp_div_less)
  then have "unat (ucast ?s :: uint32) + 2 ^ 32 * unat (ucast (drop_bit 32 ?s) :: uint32) = unat ?s"
    by (simp only: unat_ucast_mod unat_drop_bit len_num1) simp
  then show ?thesis unfolding s by (simp add: bits_Add32_def Let_def del: of_nat_unat)
qed

lemma Mul32_exact: "case bits_Mul32 x y of (hi, lo) \<Rightarrow> unat hi * 2 ^ 32 + unat lo = unat x * unat y"
proof -
  let ?s = "ucast x * ucast y :: uint64"
  have s: "unat ?s = unat x * unat y"
    using mult_strict_mono[OF unat32_less[of x] unat32_less[of y]]
    by (subst unat_mult_no_wrap) (simp_all add: unat_ucast64)
  have "unat ?s div 2 ^ 32 < 2 ^ 32"
    using unat64_less[of ?s] by (simp add: less_mult_imp_div_less)
  then have "unat (ucast (drop_bit 32 ?s) :: uint32) * 2 ^ 32 + unat (ucast ?s :: uint32) = unat ?s"
    by (simp only: unat_ucast_mod unat_drop_bit len_num1) simp
  then show ?thesis unfolding s by (simp add: bits_Mul32_def Let_def del: of_nat_unat)
qed

lemma concat32: "unat (push_bit 32 (ucast hi :: uint64) OR ucast lo) = unat hi * 2 ^ 32 + unat lo" for hi lo :: uint32
proof -
  have p: "unat (push_bit 32 (ucast hi :: uint64)) = unat hi * 2 ^ 32"
    using unat32_less[of hi] by (simp add: unat_push_bit unat_ucast64)
  show ?thesis using unat32_less[of lo] p by (subst unat_or_disj[of 32]) (simp_all add: unat_ucast64)
qed

lemma Div32_exact:
  assumes "hi < y"
  shows "\<exists>q r. bits_Div32 hi lo y = Inr (q, r) \<and> unat q = (unat hi * 2 ^ 32 + unat lo) div unat y
    \<and> unat r = (unat hi * 2 ^ 32 + unat lo) mod unat y"
proof -
  let ?N = "unat hi * 2 ^ 32 + unat lo"
  have y: "0 < unat y" "unat hi < unat y" using assms by (auto simp: word_less_nat_alt)
  have "?N < Suc (unat hi) * 2 ^ 32" using unat32_less[of lo] by simp
  also have "\<dots> \<le> unat y * 2 ^ 32" using y by (intro mult_right_mono) simp_all
  finally have "?N div unat y < 2 ^ 32" using y by (simp add: div_less_iff_less_mult mult.commute)
  moreover have "?N mod unat y < 2 ^ 32" using y unat32_less[of y] by (meson mod_less_divisor less_trans)
  moreover have "unat y mod 2 ^ 64 = unat y" using unat32_less[of y] by simp
  moreover have "\<not> (y \<noteq> 0 \<and> y \<le> hi)" "y \<noteq> 0" using assms by auto
  ultimately show ?thesis
    by (simp add: bits_Div32_def Let_def unat_ucast_mod unat_div unat_mod concat32[simplified] unat_ucast64)
qed

lemma Rem32_exact: "y \<noteq> 0 \<Longrightarrow> \<exists>r. bits_Rem32 hi lo y = Inr r \<and> unat r = (unat hi * 2 ^ 32 + unat lo) mod unat y"
proof -
  assume y: "y \<noteq> 0"
  then have "(unat hi * 2 ^ 32 + unat lo) mod unat y < 2 ^ 32"
    using unat32_less[of y] by (meson mod_less_divisor less_trans unat_gt_0)
  moreover have "unat y mod 2 ^ 64 = unat y" using unat32_less[of y] by simp
  ultimately show ?thesis using y by (simp add: bits_Rem32_def unat_ucast_mod unat_mod concat32[simplified] unat_ucast64)
qed

lemma Rem64_exact: "y \<noteq> 0 \<Longrightarrow> \<exists>r. bits_Rem64 hi lo y = Inr r \<and> unat r = (unat hi * 2 ^ 64 + unat lo) mod unat y"
proof -
  assume y: "y \<noteq> 0"
  then have "hi mod y < y" by (simp add: word_less_nat_alt unat_mod unat_gt_0)
  from Div64_exact[OF this, of lo] obtain q r where
    r: "bits_Div64 (hi mod y) lo y = Inr (q, r)" "unat r = (unat (hi mod y) * 2 ^ 64 + unat lo) mod unat y" by blast
  have "unat r = (unat hi * 2 ^ 64 + unat lo) mod unat y"
    unfolding r(2) unat_mod by (metis mod_add_left_eq mod_mult_left_eq)
  then show ?thesis using y r(1) by (simp add: bits_Rem64_def)
qed

lemma Sub32_exact:
  assumes "unat b \<le> 1"
  shows "case bits_Sub32 x y b of (d, b') \<Rightarrow> uint d - 2 ^ 32 * uint b' = uint x - uint y - uint b"
proof -
  have d: "drop_bit 31 w = of_bool (bit w 31)" for w :: uint32 using drop_top[of w] by simp
  have h: "bit w 31 \<longleftrightarrow> 2 ^ 31 \<le> uint w" for w :: uint32
    by (simp only: bit_31 of_nat_unat[symmetric, of w, where 'a=int] of_nat_le_iff[symmetric, where 'a=int]) simp
  have b: "bit ((NOT x AND y) OR (NOT (x XOR y) AND (x - y - b))) 31 \<longleftrightarrow>
     \<not> bit x 31 \<and> bit y 31 \<or> (bit x 31 = bit y 31) \<and> bit (x - y - b) 31" by (auto simp: bit_simps)
  have o: "uint (of_bool P :: uint32) = of_bool P" for P by simp
  have "uint (x - y - b) = (uint x - uint y - uint b) mod 2 ^ 32"
    by (simp add: uint_word_ariths mod_diff_left_eq)
  moreover have "uint b \<le> 1" using assms by (metis of_nat_1 of_nat_le_iff of_nat_unat)
  ultimately have "uint (x - y - b) - 2 ^ 32 * of_bool (\<not> 2 ^ 31 \<le> uint x \<and> 2 ^ 31 \<le> uint y \<or> (2 ^ 31 \<le> uint x) = (2 ^ 31 \<le> uint y) \<and> 2 ^ 31 \<le> uint (x - y - b)) = uint x - uint y - uint b"
    using uint_lt2p[of x] uint_lt2p[of y] by (intro sub_borrow) simp_all
  then show ?thesis unfolding h[symmetric] by (simp only: bits_Sub32_def Let_def d prod.case b o)
qed

section \<open>Properties\<close>

lemma Len_cases:
  "bits_Len8 a = (LEAST k. unat a < 2 ^ k) \<and> bits_Len16 b = (LEAST k. unat b < 2 ^ k)
   \<and> bits_Len32 c = (LEAST k. unat c < 2 ^ k) \<and> bits_Len64 d = (LEAST k. unat d < 2 ^ k)
   \<and> bits_Len w64 d = (LEAST k. (if w64 then unat d else unat d mod 2 ^ 32) < 2 ^ k)
   \<and> bits_LeadingZeros w64 d + int (bits_Len w64 d) = (if w64 then 64 else 32)
   \<and> bits_LeadingZeros64 d + int (LEAST k. unat d < 2 ^ k) = 64
   \<and> bits_LeadingZeros32 c + int (LEAST k. unat c < 2 ^ k) = 32
   \<and> bits_LeadingZeros16 b + int (LEAST k. unat b < 2 ^ k) = 16
   \<and> bits_LeadingZeros8 a + int (LEAST k. unat a < 2 ^ k) = 8"
  by (simp add: Len8_blen Len16_blen Len32_blen Len64_blen bits_Len_def bits_LeadingZeros_def
      bits_LeadingZeros8_def bits_LeadingZeros16_def bits_LeadingZeros32_def bits_LeadingZeros64_def
      unat_ucast_mod flip: blen_Least)

text \<open>
  C8. The highest and the lowest set bit: at every width \<open>Len\<close> is the least number of bits that can represent its argument
  (0 for 0) and \<open>LeadingZeros\<close> is the width minus that; the table lookup and the de Bruijn multiplication of
  \<open>TrailingZeros\<close> give the index of the lowest set bit, and the width itself for 0.
\<close>

theorem bits_Len_TrailingZeros_exact:
  "(bits_Len8 a = (LEAST k. unat a < 2 ^ k) \<and> bits_Len16 b = (LEAST k. unat b < 2 ^ k)
    \<and> bits_Len32 c = (LEAST k. unat c < 2 ^ k) \<and> bits_Len64 d = (LEAST k. unat d < 2 ^ k)
    \<and> bits_Len w64 d = (LEAST k. (if w64 then unat d else unat d mod 2 ^ 32) < 2 ^ k)
    \<and> bits_LeadingZeros w64 d + int (bits_Len w64 d) = (if w64 then 64 else 32)
    \<and> bits_LeadingZeros64 d + int (LEAST k. unat d < 2 ^ k) = 64
    \<and> bits_LeadingZeros32 c + int (LEAST k. unat c < 2 ^ k) = 32
    \<and> bits_LeadingZeros16 b + int (LEAST k. unat b < 2 ^ k) = 16
    \<and> bits_LeadingZeros8 a + int (LEAST k. unat a < 2 ^ k) = 8)
   \<and> (bits_TrailingZeros8 a = (if a = 0 then 8 else LEAST i. bit a i)
    \<and> bits_TrailingZeros16 b = (if b = 0 then 16 else LEAST i. bit b i)
    \<and> bits_TrailingZeros32 c = (if c = 0 then 32 else LEAST i. bit c i)
    \<and> bits_TrailingZeros64 d = (if d = 0 then 64 else LEAST i. bit d i)
    \<and> bits_TrailingZeros True d = bits_TrailingZeros64 d
    \<and> bits_TrailingZeros False d = (if (ucast d :: uint32) = 0 then 32 else LEAST i. bit (ucast d :: uint32) i))"
  by (rule conjI [OF Len_cases], simp add: TrailingZeros8_Least TrailingZeros16_Least TrailingZeros32_Least
      TrailingZeros64_Least bits_TrailingZeros_def)

text \<open>
  C7. Multi-word arithmetic: the two result words of a multiplication are the exact double-width product, with no intermediate
  wrap-around in the four partial products; for an incoming carry of 0 or 1 the result word and the outgoing carry of an
  addition (a subtraction) denote the exact sum (difference) of the operands.
\<close>

theorem bits_Mul_Add_Sub_exact:
  assumes "unat c \<le> 1" and "unat c' \<le> 1"
  shows "(case bits_Mul64 x y of (hi, lo) \<Rightarrow> unat hi * 2 ^ 64 + unat lo = unat x * unat y)
    \<and> (case bits_Mul32 u v of (hi, lo) \<Rightarrow> unat hi * 2 ^ 32 + unat lo = unat u * unat v)
    \<and> (case bits_Add64 x y c of (s, co) \<Rightarrow> unat s + 2 ^ 64 * unat co = unat x + unat y + unat c)
    \<and> (case bits_Sub64 x y c of (d, bo) \<Rightarrow> uint d - 2 ^ 64 * uint bo = uint x - uint y - uint c)
    \<and> (case bits_Add32 u v c' of (s, co) \<Rightarrow> unat s + 2 ^ 32 * unat co = unat u + unat v + unat c')
    \<and> (case bits_Sub32 u v c' of (d, bo) \<Rightarrow> uint d - 2 ^ 32 * uint bo = uint u - uint v - uint c')"
  using Mul64_exact [of x y] Mul32_exact [of u v] Add64_exact [OF assms(1)] Sub64_exact [OF assms(1)] Add32_exact
    Sub32_exact [OF assms(2)]
  by simp

theorem bits_Mul_Add_Sub_exact_witness:
  "bits_Add64 (- 1) 5 1 = (5, 1) \<and> bits_Sub32 3 5 1 = (- 3, 1)
   \<and> (case bits_Add64 (- 1) 5 1 of (s, co) \<Rightarrow>
        unat s + 2 ^ 64 * unat co = unat (- 1 :: uint64) + unat (5 :: uint64) + unat (1 :: uint64))"
proof -
  have "unat (1 :: uint64) \<le> 1" "unat (1 :: uint32) \<le> 1" by simp_all
  note bits_Mul_Add_Sub_exact [OF this, of "- 1" 5 3 5]
  then show ?thesis by (simp add: bits_Add64_def bits_Sub32_def)
qed

lemma Div_cases:
  "(case bits_Div64 hi lo y of
      Inl e \<Rightarrow> y \<le> hi \<and> e = (if y = 0 then DivideError else OverflowError)
    | Inr (q, r) \<Rightarrow> hi < y \<and> unat r < unat y
        \<and> unat hi * 2 ^ 64 + unat lo = unat q * unat y + unat r)
   \<and> (case bits_Div32 hi' lo' y' of
      Inl e \<Rightarrow> y' \<le> hi' \<and> e = (if y' = 0 then DivideError else OverflowError)
    | Inr (q, r) \<Rightarrow> hi' < y' \<and> unat r < unat y'
        \<and> unat hi' * 2 ^ 32 + unat lo' = unat q * unat y' + unat r)"
proof (intro conjI)
  show "case bits_Div64 hi lo y of
      Inl e \<Rightarrow> y \<le> hi \<and> e = (if y = 0 then DivideError else OverflowError)
    | Inr (q, r) \<Rightarrow> hi < y \<and> unat r < unat y
        \<and> unat hi * 2 ^ 64 + unat lo = unat q * unat y + unat r"
  proof (cases "hi < y")
    case True
    then have "0 < unat y" by (simp add: word_less_nat_alt)
    then show ?thesis using Div64_exact [OF True, of lo] True by auto
  next
    case False
    then have "y \<le> hi" by simp
    then show ?thesis by (simp add: bits_Div64_def)
  qed
  show "case bits_Div32 hi' lo' y' of
      Inl e \<Rightarrow> y' \<le> hi' \<and> e = (if y' = 0 then DivideError else OverflowError)
    | Inr (q, r) \<Rightarrow> hi' < y' \<and> unat r < unat y'
        \<and> unat hi' * 2 ^ 32 + unat lo' = unat q * unat y' + unat r"
  proof (cases "hi' < y'")
    case True
    then have "0 < unat y'" by (simp add: word_less_nat_alt)
    then show ?thesis using Div32_exact [OF True, of lo'] True by auto
  next
    case False
    then have "y' \<le> hi'" by simp
    then show ?thesis by (simp add: bits_Div32_def)
  qed
qed

lemma Rem_cases:
  "(case bits_Rem64 hi lo y of Inl e \<Rightarrow> y = 0 \<and> e = DivideError
    | Inr r \<Rightarrow> y \<noteq> 0 \<and> unat r = (unat hi * 2 ^ 64 + unat lo) mod unat y)
   \<and> (case bits_Rem32 hi' lo' y' of Inl e \<Rightarrow> y' = 0 \<and> e = DivideError
    | Inr r \<Rightarrow> y' \<noteq> 0 \<and> unat r = (unat hi' * 2 ^ 32 + unat lo') mod unat y')"
proof (intro conjI)
  show "case bits_Rem64 hi lo y of Inl e \<Rightarrow> y = 0 \<and> e = DivideError
    | Inr r \<Rightarrow> y \<noteq> 0 \<and> unat r = (unat hi * 2 ^ 64 + unat lo) mod unat y"
    using Rem64_exact [of y hi lo] by (cases "y = 0") (auto simp: bits_Rem64_def)
  show "case bits_Rem32 hi' lo' y' of Inl e \<Rightarrow> y' = 0 \<and> e = DivideError
    | Inr r \<Rightarrow> y' \<noteq> 0 \<and> unat r = (unat hi' * 2 ^ 32 + unat lo') mod unat y'"
    using Rem32_exact [of y' hi' lo'] by (cases "y' = 0") (auto simp: bits_Rem32_def)
qed

text \<open>
  C6. Two-word division and remainder: \<open>Div64\<close> (Knuth's algorithm D with its digit-correction loops) and
  \<open>Div32\<close> return the exact quotient and remainder whenever the quotient fits, panic with the
  divide error exactly for a zero divisor and with the overflow error exactly when the quotient
  does not fit.  \<open>Rem64\<close> and \<open>Rem32\<close> never overflow: for a non-zero divisor they return the remainder of the
  two-word value even when the quotient does not fit a word.
\<close>

theorem bits_Div_Rem_exact:
  "(case bits_Div64 hi lo y of
      Inl e \<Rightarrow> y \<le> hi \<and> e = (if y = 0 then DivideError else OverflowError)
    | Inr (q, r) \<Rightarrow> hi < y \<and> unat r < unat y
        \<and> unat hi * 2 ^ 64 + unat lo = unat q * unat y + unat r)
   \<and> (case bits_Div32 hi' lo' y' of
      Inl e \<Rightarrow> y' \<le> hi' \<and> e = (if y' = 0 then DivideError else OverflowError)
    | Inr (q, r) \<Rightarrow> hi' < y' \<and> unat r < unat y'
        \<and> unat hi' * 2 ^ 32 + unat lo' = unat q * unat y' + unat r)
   \<and> (case bits_Rem64 hi lo y of Inl e \<Rightarrow> y = 0 \<and> e = DivideError
    | Inr r \<Rightarrow> y \<noteq> 0 \<and> unat r = (unat hi * 2 ^ 64 + unat lo) mod unat y)
   \<and> (case bits_Rem32 hi' lo' y' of Inl e \<Rightarrow> y' = 0 \<and> e = DivideError
    | Inr r \<Rightarrow> y' \<noteq> 0 \<and> unat r = (unat hi' * 2 ^ 32 + unat lo') mod unat y')"
  by (intro conjI Div_cases [THEN conjunct1] Div_cases [THEN conjunct2] Rem_cases [THEN conjunct1] Rem_cases [THEN conjunct2])

lemma Reverse_Rotate_cases:
  "map (bit (bits_Reverse64 x)) [0..<64] = map (\<lambda>i. bit x (63 - i)) [0..<64]
   \<and> map (bit (bits_Reverse32 y)) [0..<32] = map (\<lambda>i. bit y (31 - i)) [0..<32]
   \<and> map (bit (bits_ReverseBytes64 x)) [0..<64] = map (\<lambda>i. bit x (8 * (7 - i div 8) + i mod 8)) [0..<64]
   \<and> map (bit (bits_ReverseBytes32 y)) [0..<32] = map (\<lambda>i. bit y (8 * (3 - i div 8) + i mod 8)) [0..<32]
   \<and> bits_RotateLeft64 x k = word_rotl (nat (k mod 64)) x
   \<and> bits_RotateLeft32 y k = word_rotl (nat (k mod 32)) y
   \<and> bits_RotateLeft16 b k = word_rotl (nat (k mod 16)) b
   \<and> bits_RotateLeft8 a k = word_rotl (nat (k mod 8)) a"
  by (simp add: RotateLeft_rotl Reverse64_bit Reverse32_bit ReverseBytes64_swp ReverseBytes32_swp
      swp_bytes64 swp_bytes32)

end
