(* ===== verification/Bits_Count.thy ===== *)
theory Bits_Count
  imports Bits_Correct
begin

text \<open>
  The population counts of \<open>math/bits\<close>. \<open>fsum w k n\<close> is the sum of the first \<open>k\<close> fields of \<open>w\<close> bits of \<open>n\<close>; each step of the
  parallel count keeps it while the fields double in width.
\<close>

section \<open>Sums of fields\<close>

fun fsum :: "nat \<Rightarrow> nat \<Rightarrow> nat \<Rightarrow> nat" where
  "fsum w 0 n = 0"
| "fsum w (Suc k) n = n mod 2 ^ w + fsum w k (n div 2 ^ w)"

fun fbound :: "nat \<Rightarrow> nat \<Rightarrow> nat \<Rightarrow> nat \<Rightarrow> bool" where
  "fbound b w 0 n \<longleftrightarrow> True"
| "fbound b w (Suc k) n \<longleftrightarrow> n mod 2 ^ w \<le> b \<and> fbound b w k (n div 2 ^ w)"

fun fmask :: "nat \<Rightarrow> nat \<Rightarrow> nat" where
  "fmask w 0 = 0"
| "fmask w (Suc k) = 2 ^ (2 * w) * fmask w k + (2 ^ w - 1)"

lemma fsum_add: "fsum w (j + k) n = fsum w j n + fsum w k (n div 2 ^ (w * j))"
  by (induction j arbitrary: n) (simp_all add: div_mult2_eq [symmetric] power_add)

lemma fsum_mod: "fsum w j (n mod 2 ^ (w * j)) = fsum w j n"
proof (induction j arbitrary: n)
  case (Suc j)
  have "n mod 2 ^ (w * Suc j) = n mod (2 ^ w * 2 ^ (w * j))" by (simp add: power_add)
  also have "\<dots> = 2 ^ w * (n div 2 ^ w mod 2 ^ (w * j)) + n mod 2 ^ w" by (rule mod_mult2_eq)
  finally show ?case using Suc [of "n div 2 ^ w"] by simp
qed simp

lemma and_concat:
  fixes n m d :: nat
  assumes "d < 2 ^ j"
  shows "n AND (2 ^ j * m + d) = 2 ^ j * (n div 2 ^ j AND m) + (n mod 2 ^ j AND d)"
proof -
  let ?x = "n AND (2 ^ j * m + d)"
  have "drop_bit j ?x = drop_bit j n AND drop_bit j (2 ^ j * m + d)" by (rule drop_bit_and)
  then have "?x div 2 ^ j = n div 2 ^ j AND m" using assms by (simp add: drop_bit_eq_div)
  moreover have "take_bit j ?x = take_bit j n AND take_bit j (2 ^ j * m + d)" by (rule take_bit_and)
  then have "?x mod 2 ^ j = n mod 2 ^ j AND d" using assms by (simp add: take_bit_eq_mod)
  ultimately show ?thesis by (metis mult_div_mod_eq)
qed

lemma and_low: "n AND (2 ^ w - 1) = n mod 2 ^ w" for n :: nat
  by (metis mask_eq_exp_minus_1 take_bit_eq_mask take_bit_eq_mod)

lemma and_fmask_Suc: "n AND fmask w (Suc k) = 2 ^ (2 * w) * (n div 2 ^ (2 * w) AND fmask w k) + n mod 2 ^ w"
proof -
  have "(2::nat) ^ w - 1 < 2 ^ (2 * w)" by (rule le_less_trans [of _ "2 ^ w - 1"]) (auto intro: less_le_trans [of _ "2 ^ w"])
  then have "n AND fmask w (Suc k) = 2 ^ (2 * w) * (n div 2 ^ (2 * w) AND fmask w k) + (n mod 2 ^ (2 * w) AND (2 ^ w - 1))"
    using and_concat [of "2 ^ w - 1" "2 * w" n "fmask w k"] by simp
  also have "n mod 2 ^ (2 * w) AND (2 ^ w - 1) = n mod 2 ^ w"
    unfolding and_low by (rule mod_mod_cancel) (simp add: le_imp_power_dvd)
  finally show ?thesis .
qed

lemma fields_step:
  fixes s y :: nat
  assumes "s < 2 ^ w"
  shows "fsum w (Suc k) (2 ^ w * y + s) = s + fsum w k y" and "fbound b w (Suc k) (2 ^ w * y + s) \<longleftrightarrow> s \<le> b \<and> fbound b w k y"
  using assms by simp_all

text \<open>Adding neighbouring fields under a mask keeps the sum; the fields double in width and bound.\<close>

lemma halve_fields:
  assumes "0 < w" and "fbound b w (2 * k) n"
  shows "fsum (2 * w) k ((n div 2 ^ w AND fmask w k) + (n AND fmask w k)) = fsum w (2 * k) n
    \<and> fbound (2 * b) (2 * w) k ((n div 2 ^ w AND fmask w k) + (n AND fmask w k))"
  using assms(2)
proof (induction k arbitrary: n)
  case (Suc k)
  define q where q: "q = n div 2 ^ (2 * w)"
  define s where s: "s = n div 2 ^ w mod 2 ^ w + n mod 2 ^ w"
  have dq: "n div 2 ^ w div 2 ^ w = q" "n div 2 ^ w div 2 ^ (2 * w) = q div 2 ^ w"
    by (simp_all add: q div_mult2_eq [symmetric] power_add [symmetric] mult_2 add.commute add.left_commute)
  have b: "n mod 2 ^ w \<le> b" "n div 2 ^ w mod 2 ^ w \<le> b" "fbound b w (2 * k) q"
    using Suc.prems dq by simp_all
  have "n mod 2 ^ w < 2 ^ w" "n div 2 ^ w mod 2 ^ w < 2 ^ w" by simp_all
  then have "s < 2 * 2 ^ w" unfolding s by linarith
  also have "2 * 2 ^ w \<le> (2 ^ (2 * w) :: nat)" using assms(1) power_increasing [of "Suc w" "2 * w" "2 :: nat"] by simp
  finally have s2: "s < 2 ^ (2 * w)" .
  have "(n div 2 ^ w AND fmask w (Suc k)) + (n AND fmask w (Suc k)) =
      2 ^ (2 * w) * ((q div 2 ^ w AND fmask w k) + (q AND fmask w k)) + s"
    unfolding and_fmask_Suc dq q [symmetric] s by (simp add: algebra_simps)
  then show ?case
    using Suc.IH [OF b(3)] fields_step [OF s2] b(1,2) dq by (simp add: s)
qed simp

text \<open>When the fields are small enough the mask can be applied after the addition.\<close>

lemma nibble_sum:
  fixes x n q :: nat
  assumes "16 * x + r0 = n" and "16 * q + r1 = x" and "16 * y + z = q"
  shows "x + n = 256 * (y + q) + (16 * (z + r1) + (r1 + r0))"
  unfolding assms(1) [symmetric] unfolding assms(2) [symmetric] unfolding assms(3) [symmetric] by simp

lemma regroup_16: "256 * x + (16 * y + z) = 16 * (16 * x + y) + (z :: nat)"
  by simp

lemma halve_nibbles:
  assumes "fbound 4 4 (2 * k) n" and "n < 2 ^ (8 * k)"
  shows "fsum 8 k ((n div 16 + n) AND fmask 4 k) = fsum 4 (2 * k) n \<and> fbound 8 8 k ((n div 16 + n) AND fmask 4 k)"
  using assms
proof (induction k arbitrary: n)
  case (Suc k)
  define q r0 r1 where qr: "q = n div 256" "r0 = n mod 16" "r1 = n div 16 mod 16"
  have dq: "n div 16 div 16 = q" by (simp add: qr div_mult2_eq [symmetric])
  have b: "r0 \<le> 4" "r1 \<le> 4" "fbound 4 4 (2 * k) q" using Suc.prems(1) dq by (simp_all add: qr)
  have q: "q < 2 ^ (8 * k)" unfolding qr using Suc.prems(2) by (intro less_mult_imp_div_less) (simp add: power_add)
  have q4: "q mod 16 \<le> 4" using b(3) q by (cases k) simp_all
  have e: "16 * (n div 16) + r0 = n" "16 * q + r1 = n div 16" "16 * (q div 16) + q mod 16 = q"
    using mult_div_mod_eq [of 16 n] mult_div_mod_eq [of 16 "n div 16"] mult_div_mod_eq [of 16 q] dq qr(2,3) by simp_all
  define t where t: "t = 16 * (q mod 16 + r1) + (r1 + r0)"
  define N where N: "N = n div 16 + n"
  have Nt: "N = 256 * (q div 16 + q) + t" unfolding N t by (rule nibble_sum [OF e])
  have "16 * (q mod 16 + r1) \<le> 16 * 8" using b(2) q4 by (intro mult_le_mono2) simp
  moreover have "r1 + r0 \<le> 8" using b(1,2) by simp
  ultimately have t2: "t < 256" unfolding t by simp
  have d: "N div 2 ^ (2 * 4) = q div 16 + q" unfolding Nt using t2 by simp
  have "N = 16 * (16 * (q div 16 + q) + (q mod 16 + r1)) + (r1 + r0)" unfolding Nt t by (rule regroup_16)
  then have "N mod 16 = (r1 + r0) mod 16" by (simp only: mod_mult_self4)
  then have m: "N mod 2 ^ 4 = r1 + r0" using b(1,2) by simp
  have A: "N AND fmask 4 (Suc k) = 2 ^ 8 * ((q div 16 + q) AND fmask 4 k) + (r1 + r0)"
    using and_fmask_Suc [of N 4 k] unfolding d m by simp
  have "r1 + r0 < 2 ^ 8" using b by simp
  note F = fields_step [OF this]
  have S: "fsum 4 (2 * Suc k) n = (r1 + r0) + fsum 4 (2 * k) q" using dq by (simp add: qr)
  show ?case unfolding N [symmetric] A F S using Suc.IH [OF b(3) q] b(1,2) by simp
qed simp

section \<open>Adding up the bytes\<close>

fun of_bytes :: "nat list \<Rightarrow> nat" where
  "of_bytes [] = 0"
| "of_bytes (b # bs) = b + 256 * of_bytes bs"

lemma of_bytes_div: "b < 256 \<Longrightarrow> of_bytes (b # bs) div 256 = of_bytes bs"
  by simp

lemma bytes_of:
  assumes "fbound 8 8 k n" and "n < 2 ^ (8 * k)"
  shows "\<exists>bs. length bs = k \<and> n = of_bytes bs \<and> (\<forall>b \<in> set bs. b \<le> 8) \<and> fsum 8 k n = sum_list bs"
  using assms
proof (induction k arbitrary: n)
  case (Suc k)
  have "n div 256 < 2 ^ (8 * k)" using Suc.prems(2) by (intro less_mult_imp_div_less) (simp add: power_add)
  then obtain bs where "length bs = k" "n div 256 = of_bytes bs" "\<forall>b \<in> set bs. b \<le> 8" "fsum 8 k (n div 256) = sum_list bs"
    using Suc.IH [of "n div 256"] Suc.prems(1) by auto
  moreover have "n mod 256 + 256 * (n div 256) = n" by simp
  ultimately show ?case using Suc.prems(1) by (intro exI [of _ "n mod 256 # bs"]) (auto simp: mult.commute)
qed simp

lemma length_8: "length bs = 8 \<Longrightarrow> \<exists>a b c d e f g h. bs = [a, b, c, d, e, f, g, h]"
  by (simp add: numeral_eq_Suc length_Suc_conv) blast

lemma fold_bytes:
  assumes "fbound 8 8 8 n" and "n < 2 ^ 64"
    and "n1 = n + n div 2 ^ 8" and "n2 = n1 + n1 div 2 ^ 16" and "n3 = n2 + n2 div 2 ^ 32"
  shows "n3 mod 128 = fsum 8 8 n"
proof -
  obtain bs where bs: "length bs = 8" "n = of_bytes bs" "\<forall>b \<in> set bs. b \<le> 8" "fsum 8 8 n = sum_list bs"
    using bytes_of [of 8 n] assms(1,2) by auto
  obtain a b c d e f g h where l: "bs = [a, b, c, d, e, f, g, h]" using length_8 [OF bs(1)] by blast
  have le: "a \<le> 8" "b \<le> 8" "c \<le> 8" "d \<le> 8" "e \<le> 8" "f \<le> 8" "g \<le> 8" "h \<le> 8" using bs(3) l by simp_all
  have "n div 2 ^ 8 = of_bytes [b, c, d, e, f, g, h]" using bs(2) l le of_bytes_div [of a] by simp
  then have n1: "n1 = of_bytes [a + b, b + c, c + d, d + e, e + f, f + g, g + h, h]" using assms(3) bs(2) l by simp
  have "n1 div 2 ^ 16 = n1 div 256 div 256" by (simp add: div_mult2_eq [symmetric])
  also have "n1 div 256 = of_bytes [b + c, c + d, d + e, e + f, f + g, g + h, h]" unfolding n1 using le by (intro of_bytes_div) simp
  also have "\<dots> div 256 = of_bytes [c + d, d + e, e + f, f + g, g + h, h]" using le by (intro of_bytes_div) simp
  finally have n2: "n2 = of_bytes [a + b + (c + d), b + c + (d + e), c + d + (e + f), d + e + (f + g), e + f + (g + h), f + g + h, g + h, h]"
    using assms(4) n1 by simp
  have "n2 div 2 ^ 32 = n2 div 256 div 256 div 256 div 256" by (simp add: div_mult2_eq [symmetric])
  also have "n2 div 256 = of_bytes [b + c + (d + e), c + d + (e + f), d + e + (f + g), e + f + (g + h), f + g + h, g + h, h]"
    unfolding n2 using le by (intro of_bytes_div) simp
  also have "\<dots> div 256 = of_bytes [c + d + (e + f), d + e + (f + g), e + f + (g + h), f + g + h, g + h, h]" using le by (intro of_bytes_div) simp
  also have "\<dots> div 256 = of_bytes [d + e + (f + g), e + f + (g + h), f + g + h, g + h, h]" using le by (intro of_bytes_div) simp
  also have "\<dots> div 256 = of_bytes [e + f + (g + h), f + g + h, g + h, h]" using le by (intro of_bytes_div) simp
  finally have q: "n2 div 2 ^ 32 = of_bytes [e + f + (g + h), f + g + h, g + h, h]" .
  obtain y z where "n2 = (a + b + (c + d)) + 256 * y" "of_bytes [e + f + (g + h), f + g + h, g + h, h] = e + f + (g + h) + 256 * z"
    unfolding n2 of_bytes.simps(2) by blast
  then have n3: "n3 = (a + b + (c + d) + (e + f + (g + h))) + 256 * (y + z)" using assms(5) q by (simp add: distrib_left)
  have "n3 mod 128 = a + b + (c + d) + (e + f + (g + h))"
  proof -
    have "n3 = (a + b + (c + d) + (e + f + (g + h))) + 128 * (2 * (y + z))" unfolding n3 by simp
    then have "n3 mod 128 = (a + b + (c + d) + (e + f + (g + h))) mod 128" by (simp only: mod_mult_self2)
    then show ?thesis using le by simp
  qed
  then show ?thesis unfolding bs(4) l by simp
qed

section \<open>The routines\<close>

lemma fmask_numeral: "fmask w (numeral k) = 2 ^ (2 * w) * fmask w (pred_numeral k) + (2 ^ w - 1)"
  by (simp add: numeral_eq_Suc)

lemma fmask_values: "fmask 1 32 = unat bits_m0" "fmask 2 16 = unat bits_m1" "fmask 4 8 = unat bits_m2"
  by (simp_all add: fmask_numeral)

lemma ones_filter: "fsum 1 k (unat x) = length (filter (bit x) [0..<k])" for x :: "'a::len word"
proof -
  have "fsum 1 k n = length (filter (bit n) [0..<k])" for n :: nat
  proof (induction k arbitrary: n)
    case (Suc k)
    have "[0..<Suc k] = 0 # map Suc [0..<k]" by (simp add: upt_conv_Cons map_Suc_upt del: upt_Suc)
    then have "length (filter (bit n) [0..<Suc k]) = of_bool (odd n) + length (filter (bit (n div 2)) [0..<k])"
      by (simp add: filter_map comp_def bit_0 bit_Suc del: upt_Suc)
    then show ?case using Suc [of "n div 2"] by (simp add: mod_2_eq_odd)
  qed simp
  then show ?thesis by (simp add: bit_unsigned_iff cong: filter_cong)
qed

lemma fbound_1: "fbound 1 1 k n"
  by (induction k arbitrary: n) (simp_all add: less_Suc_eq_le [symmetric])

lemma unat_and: "unat (a AND b) = unat a AND unat b" for a b :: "'a::len word"
  by (simp add: unsigned_and_eq)

lemma and_le: "unat (a AND b) \<le> unat b" for a b :: "'a::len word"
  using word_and_le1 [of a b] by (simp add: word_le_nat_alt)

lemma OnesCount64_fields: "bits_OnesCount64 x = fsum 1 64 (unat x)"
proof -
  let ?n = "unat x"
  define x1 where x1: "x1 = (drop_bit 1 x AND bits_m0) + (x AND bits_m0)"
  have u1: "unat x1 = (?n div 2 ^ 1 AND fmask 1 32) + (?n AND fmask 1 32)" "unat x1 \<le> 2 * unat bits_m0"
  proof -
    have "unat (drop_bit 1 x AND bits_m0) + unat (x AND bits_m0) \<le> 2 * unat bits_m0"
      using and_le [of "drop_bit 1 x" bits_m0] and_le [of x bits_m0] by simp
    moreover from this have "unat x1 = unat (drop_bit 1 x AND bits_m0) + unat (x AND bits_m0)"
      unfolding x1 by (intro unat_add_no_wrap) simp
    ultimately show "unat x1 = (?n div 2 ^ 1 AND fmask 1 32) + (?n AND fmask 1 32)" "unat x1 \<le> 2 * unat bits_m0"
      unfolding unat_and unat_drop_bit fmask_values by simp_all
  qed
  have f1: "fsum 2 32 (unat x1) = fsum 1 64 ?n" "fbound 2 2 32 (unat x1)"
    using halve_fields [of 1 1 32 ?n] fbound_1 [of 64 ?n] unfolding u1(1) by simp_all
  define x2 where x2: "x2 = (drop_bit 2 x1 AND bits_m1) + (x1 AND bits_m1)"
  have u2: "unat x2 = (unat x1 div 2 ^ 2 AND fmask 2 16) + (unat x1 AND fmask 2 16)" "unat x2 \<le> 2 * unat bits_m1"
  proof -
    have "unat (drop_bit 2 x1 AND bits_m1) + unat (x1 AND bits_m1) \<le> 2 * unat bits_m1"
      using and_le [of "drop_bit 2 x1" bits_m1] and_le [of x1 bits_m1] by simp
    moreover from this have "unat x2 = unat (drop_bit 2 x1 AND bits_m1) + unat (x1 AND bits_m1)"
      unfolding x2 by (intro unat_add_no_wrap) simp
    ultimately show "unat x2 = (unat x1 div 2 ^ 2 AND fmask 2 16) + (unat x1 AND fmask 2 16)" "unat x2 \<le> 2 * unat bits_m1"
      unfolding unat_and unat_drop_bit fmask_values by simp_all
  qed
  have f2: "fsum 4 16 (unat x2) = fsum 2 32 (unat x1)" "fbound 4 4 16 (unat x2)"
    using halve_fields [of 2 2 16 "unat x1"] f1(2) unfolding u2(1) by simp_all
  define x3 where x3: "x3 = (drop_bit 4 x2 + x2) AND bits_m2"
  have u3: "unat x3 = (unat x2 div 16 + unat x2) AND fmask 4 8" "unat x3 \<le> unat bits_m2"
  proof -
    have "unat x2 div 16 + unat x2 < 2 ^ 64" using u2(2) by simp
    then have "unat (drop_bit 4 x2 + x2) = unat x2 div 16 + unat x2"
      using unat_add_no_wrap [of "drop_bit 4 x2" x2] by (simp add: unat_drop_bit)
    then show "unat x3 = (unat x2 div 16 + unat x2) AND fmask 4 8" unfolding x3 unat_and fmask_values by simp
    show "unat x3 \<le> unat bits_m2" unfolding x3 by (rule and_le)
  qed
  have f3: "fsum 8 8 (unat x3) = fsum 4 16 (unat x2)" "fbound 8 8 8 (unat x3)"
    using halve_nibbles [of 8 "unat x2"] f2(2) unat64_less [of x2] unfolding u3(1) by simp_all
  define x4 where x4: "x4 = x3 + drop_bit 8 x3"
  define x5 where x5: "x5 = x4 + drop_bit 16 x4"
  define x6 where x6: "x6 = x5 + drop_bit 32 x5"
  have b3: "unat x3 \<le> 1085102592571150095" using u3(2) by simp
  have u4: "unat x4 = unat x3 + unat x3 div 2 ^ 8" unfolding x4
    using b3 by (subst unat_add_no_wrap) (simp_all add: unat_drop_bit)
  have b4: "unat x4 \<le> 2000000000000000000" using b3 unfolding u4 by simp
  have u5: "unat x5 = unat x4 + unat x4 div 2 ^ 16" unfolding x5
    using b4 by (subst unat_add_no_wrap) (simp_all add: unat_drop_bit)
  have b5: "unat x5 \<le> 3000000000000000000" using b4 unfolding u5 by simp
  have u6: "unat x6 = unat x5 + unat x5 div 2 ^ 32" unfolding x6
    using b5 by (subst unat_add_no_wrap) (simp_all add: unat_drop_bit)
  have "(127 :: uint64) = mask 7" by (simp add: mask_eq_exp_minus_1)
  then have "bits_OnesCount64 x = unat x6 mod 128"
    unfolding bits_OnesCount64_def Let_def x1 [symmetric] x2 [symmetric] x3 [symmetric] x4 [symmetric] x5 [symmetric] x6 [symmetric]
    using unat_and_mask [of x6 7] by simp
  also have "\<dots> = fsum 8 8 (unat x3)" using fold_bytes [OF f3(2) unat64_less u4 u5 u6] by simp
  finally show ?thesis using f1 f2 f3 by simp
qed

lemma pop8tab_fields: "n < 256 \<Longrightarrow> unat (pop8tab ! n) = fsum 1 8 n"
proof -
  have "map unat pop8tab = map (fsum 1 8) [0..<256]" by code_simp
  then show "n < 256 \<Longrightarrow> ?thesis" by (rule tab_nth)
qed

lemma fsum_1_le: "fsum 1 k n \<le> k"
proof (induction k arbitrary: n)
  case (Suc k)
  have "n mod 2 < 2" by simp
  then show ?case using Suc [of "n div 2"] by simp
qed simp

lemma low_byte: "unat (x AND 0xff) = unat x mod 256" for x :: "'a::len word"
proof -
  have "x AND 0xff = x AND mask 8" by (simp add: mask_eq_exp_minus_1)
  then show ?thesis using unat_and_mask [of x 8] by simp
qed

lemma fsum_split_byte: "fsum 1 (8 + k) n = fsum 1 8 (n mod 256) + fsum 1 k (n div 256)"
  using fsum_add [of 1 8 k n] fsum_mod [of 1 8 n] by simp

lemma OnesCount16_fields: "bits_OnesCount16 x = fsum 1 16 (unat x)"
proof -
  have x: "unat x div 256 < 256" using unsigned_less [of x, where 'a = nat] by (intro less_mult_imp_div_less) simp
  have "unat (pop8tab ! (unat x div 256) + pop8tab ! (unat x mod 256)) = fsum 1 8 (unat x div 256) + fsum 1 8 (unat x mod 256)"
    using fsum_1_le [of 8 "unat x div 256"] fsum_1_le [of 8 "unat x mod 256"]
    by (subst unat_add_no_wrap) (simp_all add: pop8tab_fields x)
  then show ?thesis using fsum_split_byte [of 8 "unat x"] by (simp add: bits_OnesCount16_def unat_drop_bit low_byte)
qed

lemma OnesCount32_fields: "bits_OnesCount32 x = fsum 1 32 (unat x)"
proof -
  let ?n = "unat x"
  have x: "?n div 16777216 < 256" using unsigned_less [of x, where 'a = nat] by (intro less_mult_imp_div_less) simp
  define a b c d where abcd: "a = pop8tab ! (?n div 16777216)" "b = pop8tab ! (?n div 65536 mod 256)" "c = pop8tab ! (?n div 256 mod 256)" "d = pop8tab ! (?n mod 256)"
  have p: "unat a = fsum 1 8 (?n div 16777216)" "unat b = fsum 1 8 (?n div 65536 mod 256)" "unat c = fsum 1 8 (?n div 256 mod 256)" "unat d = fsum 1 8 (?n mod 256)"
    unfolding abcd using x by (simp_all add: pop8tab_fields)
  have l: "unat a \<le> 8" "unat b \<le> 8" "unat c \<le> 8" "unat d \<le> 8" unfolding p by (rule fsum_1_le)+
  have 1: "unat (a + b) = unat a + unat b" using l by (intro unat_add_no_wrap) simp
  have 2: "unat (a + b + c) = unat a + unat b + unat c" using l unat_add_no_wrap [of "a + b" c] unfolding 1 by simp
  have 3: "unat (a + b + c + d) = unat a + unat b + unat c + unat d" using l unat_add_no_wrap [of "a + b + c" d] unfolding 2 by simp
  have q: "?n div 256 div 256 = ?n div 65536" "?n div 65536 div 256 = ?n div 16777216" by (simp_all add: div_mult2_eq [symmetric])
  have "fsum 1 32 ?n = fsum 1 8 (?n mod 256) + (fsum 1 8 (?n div 256 mod 256) + (fsum 1 8 (?n div 65536 mod 256) + fsum 1 8 (?n div 16777216)))"
    using fsum_split_byte [of 24 ?n] fsum_split_byte [of 16 "?n div 256"] fsum_split_byte [of 8 "?n div 65536"] q by simp
  then show ?thesis using 3 p unfolding bits_OnesCount32_def low_byte unat_drop_bit abcd by simp
qed

lemma OnesCount_cases:
  "bits_OnesCount8 a = length (filter (bit a) [0..<8]) \<and> bits_OnesCount16 b = length (filter (bit b) [0..<16])
   \<and> bits_OnesCount32 c = length (filter (bit c) [0..<32]) \<and> bits_OnesCount64 d = length (filter (bit d) [0..<64])
   \<and> bits_OnesCount w64 d = length (filter (bit d) [0..<if w64 then 64 else 32])"
proof -
  have "unat a < 256" using unsigned_less [of a, where 'a = nat] by simp
  then have "bits_OnesCount8 a = fsum 1 8 (unat a)" by (simp add: bits_OnesCount8_def pop8tab_fields)
  moreover have "fsum 1 32 (unat (ucast d :: uint32)) = fsum 1 32 (unat d)"
    using fsum_mod [of 1 32 "unat d"] by (simp add: unat_ucast_mod)
  ultimately show ?thesis
    by (simp add: OnesCount16_fields OnesCount32_fields OnesCount64_fields bits_OnesCount_def ones_filter [symmetric])
qed

fun mirror :: "nat \<Rightarrow> nat \<Rightarrow> nat" where
  "mirror 0 n = 0"
| "mirror (Suc k) n = n mod 2 * 2 ^ k + mirror k (n div 2)"

lemma mirror_less: "mirror k n < 2 ^ k"
proof (induction k arbitrary: n)
  case (Suc k)
  have "n mod 2 * 2 ^ k \<le> 1 * 2 ^ k" by (rule mult_le_mono1) simp
  with Suc [of "n div 2"] have "n mod 2 * 2 ^ k + mirror k (n div 2) < 1 * 2 ^ k + 2 ^ k" by (rule add_le_less_mono [rotated])
  then show ?case by simp
qed simp

lemma mirror_bits: "i < k \<Longrightarrow> odd (mirror k n div 2 ^ i) = odd (n div 2 ^ (k - 1 - i))"
proof (induction k arbitrary: i n)
  case (Suc k)
  show ?case
  proof (cases "i = k")
    case True
    have "(mirror k (n div 2) + n mod 2 * 2 ^ k) div 2 ^ k = n mod 2 + mirror k (n div 2) div 2 ^ k"
      by (rule div_mult_self1) simp
    then show ?thesis using mirror_less [of k "n div 2"] True by (simp add: add.commute)
  next
    case False
    then obtain d where d: "k = i + Suc d" using Suc.prems less_imp_Suc_add [of i k] by auto
    have c: "n mod 2 * 2 ^ k = (n mod 2 * 2 ^ Suc d) * 2 ^ i" by (simp add: d power_add)
    have "(mirror k (n div 2) + (n mod 2 * 2 ^ Suc d) * 2 ^ i) div 2 ^ i = n mod 2 * 2 ^ Suc d + mirror k (n div 2) div 2 ^ i"
      by (rule div_mult_self1) simp
    then have "mirror (Suc k) n div 2 ^ i = n mod 2 * 2 ^ Suc d + mirror k (n div 2) div 2 ^ i"
      by (simp only: mirror.simps c add.commute)
    moreover have "even (n mod 2 * 2 ^ Suc d)" by simp
    ultimately have "odd (mirror (Suc k) n div 2 ^ i) = odd (mirror k (n div 2) div 2 ^ i)" by (simp only: even_add simp_thms)
    also have "\<dots> = odd (n div 2 div 2 ^ (k - 1 - i))" using Suc False by simp
    also have "\<dots> = odd (n div 2 ^ (Suc k - 1 - i))" using d by (simp add: div_mult2_eq [symmetric])
    finally show ?thesis .
  qed
qed simp

lemma rev8tab_mirror: "map unat rev8tab = map (mirror 8) [0..<256]"
  by code_simp

lemma rev8tab_bits:
  assumes "i < 8"
  shows "bit (rev8tab ! unat a) i = bit (a :: byte) (7 - i)"
proof -
  have "unat a < 256" using unsigned_less [of a, where 'a = nat] by simp
  from tab_nth [OF rev8tab_mirror this] have "odd (unat (rev8tab ! unat a) div 2 ^ i) = odd (unat a div 2 ^ (7 - i))"
    using mirror_bits [OF assms, of "unat a"] by simp
  moreover have "bit w j = odd (unat w div 2 ^ j)" for w :: byte and j
    using bit_unsigned_iff [of w j, where 'a = nat] bit_imp_le_length [of w j] by (auto simp: bit_iff_odd)
  ultimately show ?thesis by (simp only:)
qed

lemma Reverse16_bit:
  assumes "i < 16"
  shows "bit (bits_Reverse16 b) i = bit b (15 - i)"
proof -
  have hi: "unat (drop_bit 8 b) = unat (ucast (drop_bit 8 b) :: byte)" and lo: "unat (b AND 0xff) = unat (ucast b :: byte)"
  proof -
    have "unat b div 256 < 256" using unsigned_less [of b, where 'a = nat] by (intro less_mult_imp_div_less) simp
    then show "unat (drop_bit 8 b) = unat (ucast (drop_bit 8 b) :: byte)" by (simp add: unat_ucast_mod unat_drop_bit)
    show "unat (b AND 0xff) = unat (ucast b :: byte)" by (simp add: unat_ucast_mod low_byte)
  qed
  show ?thesis
  proof (cases "i < 8")
    case True
    then have "7 - i < 8" by simp
    then show ?thesis using True assms unfolding bits_Reverse16_def hi lo
      by (simp add: bit_or_iff bit_push_bit_iff bit_unsigned_iff rev8tab_bits bit_drop_bit_eq)
  next
    case False
    have "15 - i < 8" "i - 8 < 8" using False assms by simp_all
    moreover have "\<not> bit (rev8tab ! unat (ucast (drop_bit 8 b) :: byte)) i" using False by (auto dest: bit_imp_le_length)
    ultimately show ?thesis using False assms unfolding bits_Reverse16_def hi lo
      by (simp add: bit_or_iff bit_push_bit_iff bit_unsigned_iff rev8tab_bits)
  qed
qed

lemma ReverseBytes16_bit: "i < 16 \<Longrightarrow> bit (bits_ReverseBytes16 b) i = bit b (8 * (1 - i div 8) + i mod 8)"
proof -
  assume i: "i < 16"
  show ?thesis
  proof (cases "i < 8")
    case True
    then show ?thesis using i by (simp add: bits_ReverseBytes16_def bit_or_iff bit_push_bit_iff bit_drop_bit_eq)
  next
    case False
    then have "i div 8 = 1" "i mod 8 = i - 8" using i by (auto simp: mod_if div_if)
    moreover have "\<not> bit b (8 + i)" using False by (auto dest: bit_imp_le_length)
    ultimately show ?thesis using i False by (simp add: bits_ReverseBytes16_def bit_or_iff bit_push_bit_iff bit_drop_bit_eq)
  qed
qed

lemma Reverse_small_cases:
  "map (bit (bits_Reverse8 a)) [0..<8] = map (\<lambda>i. bit a (7 - i)) [0..<8]
   \<and> map (bit (bits_Reverse16 b)) [0..<16] = map (\<lambda>i. bit b (15 - i)) [0..<16]
   \<and> map (bit (bits_ReverseBytes16 b)) [0..<16] = map (\<lambda>i. bit b (8 * (1 - i div 8) + i mod 8)) [0..<16]"
  by (simp add: bits_Reverse8_def rev8tab_bits Reverse16_bit ReverseBytes16_bit)

lemma Reverse_uint_cases:
  "(let w = (if w64 then 64 else 32) in
     map (bit (bits_Reverse w64 x)) [0..<w] = map (\<lambda>i. bit x (w - 1 - i)) [0..<w]
     \<and> map (bit (bits_ReverseBytes w64 x)) [0..<w] = map (\<lambda>i. bit x (8 * (w div 8 - 1 - i div 8) + i mod 8)) [0..<w])
   \<and> bits_RotateLeft w64 x k =
      (if w64 then word_rotl (nat (k mod 64)) x else ucast (word_rotl (nat (k mod 32)) (ucast x :: uint32)))"
proof (cases w64)
  case True
  then show ?thesis using Reverse_Rotate_cases [of x] by (simp add: bits_Reverse_def bits_ReverseBytes_def bits_RotateLeft_def RotateLeft_rotl)
next
  case False
  have "8 * (3 - i div 8) + i mod 8 < 32" "31 - i < 32" if "i < 32" for i :: nat using that by simp_all
  then show ?thesis using False
    by (simp add: bits_Reverse_def bits_ReverseBytes_def bits_RotateLeft_def RotateLeft_rotl bit_unsigned_iff
        Reverse32_bit ReverseBytes32_swp swp_bytes32)
qed

text \<open>
  C9. Population count, reversal and rotation: the table lookups and the parallel sums of adjacent fields, whose last steps add
  without masks, return the number of set bits at every width; bit \<open>i\<close> of \<open>Reverse\<close> is bit \<open>W - 1 - i\<close> of its argument,
  \<open>ReverseBytes\<close> exchanges byte \<open>j\<close> with byte \<open>W/8 - 1 - j\<close>, and \<open>RotateLeft\<close> by any \<open>k\<close>, negative included, is the
  rotation by \<open>k\<close> modulo the width; the variants for \<open>uint\<close> do so in the 64 or 32 bits of the target.
\<close>

theorem bits_OnesCount_Reverse_exact:
  "(bits_OnesCount8 a = length (filter (bit a) [0..<8]) \<and> bits_OnesCount16 b = length (filter (bit b) [0..<16])
    \<and> bits_OnesCount32 y = length (filter (bit y) [0..<32]) \<and> bits_OnesCount64 x = length (filter (bit x) [0..<64])
    \<and> bits_OnesCount w64 x = length (filter (bit x) [0..<if w64 then 64 else 32]))
   \<and> (map (bit (bits_Reverse64 x)) [0..<64] = map (\<lambda>i. bit x (63 - i)) [0..<64]
   \<and> map (bit (bits_Reverse32 y)) [0..<32] = map (\<lambda>i. bit y (31 - i)) [0..<32]
   \<and> map (bit (bits_ReverseBytes64 x)) [0..<64] = map (\<lambda>i. bit x (8 * (7 - i div 8) + i mod 8)) [0..<64]
   \<and> map (bit (bits_ReverseBytes32 y)) [0..<32] = map (\<lambda>i. bit y (8 * (3 - i div 8) + i mod 8)) [0..<32]
   \<and> bits_RotateLeft64 x k = word_rotl (nat (k mod 64)) x
   \<and> bits_RotateLeft32 y k = word_rotl (nat (k mod 32)) y
   \<and> bits_RotateLeft16 b k = word_rotl (nat (k mod 16)) b
   \<and> bits_RotateLeft8 a k = word_rotl (nat (k mod 8)) a)
   \<and> (map (bit (bits_Reverse8 a)) [0..<8] = map (\<lambda>i. bit a (7 - i)) [0..<8]
   \<and> map (bit (bits_Reverse16 b)) [0..<16] = map (\<lambda>i. bit b (15 - i)) [0..<16]
   \<and> map (bit (bits_ReverseBytes16 b)) [0..<16] = map (\<lambda>i. bit b (8 * (1 - i div 8) + i mod 8)) [0..<16])
   \<and> (let w = (if w64 then 64 else 32) in
     map (bit (bits_Reverse w64 x)) [0..<w] = map (\<lambda>i. bit x (w - 1 - i)) [0..<w]
     \<and> map (bit (bits_ReverseBytes w64 x)) [0..<w] = map (\<lambda>i. bit x (8 * (w div 8 - 1 - i div 8) + i mod 8)) [0..<w])
   \<and> bits_RotateLeft w64 x k =
      (if w64 then word_rotl (nat (k mod 64)) x else ucast (word_rotl (nat (k mod 32)) (ucast x :: uint32)))"
  by (intro conjI [OF OnesCount_cases] conjI [OF Reverse_Rotate_cases] conjI [OF Reverse_small_cases] Reverse_uint_cases)

end
