(* ===== verification/Sort.thy ===== *)
theory Sort
  imports Bits
begin

text \<open>
  Package \<open>sort\<close>: the pattern-defeating quicksort, its heap-sort fallback, the in-place stable
  merge sort and the binary searches.  \<open>sort.Interface\<close> is a record of the three methods over an
  abstract collection \<open>'s\<close>; a method with side effects returns the new collection.  Indices are
  natural numbers: but for the values named below, every index the code forms is non-negative and below \<open>Len\<close>, so that
  \<open>int(uint(i+j) >> 1)\<close> is \<open>(i + j) div 2\<close>.  Every \<open>for\<close> loop is a function of its own,
  named after the function it belongs to.

  The indices of a heap and the block sizes of the stable sort are formed by doubling and can exceed the range of
  \<open>int\<close>, where the code would wrap around and go on with a negative index.  The model does not follow it there: a
  function that meets such a value returns \<open>None\<close>, and the theorems show for which lengths this does not happen.
\<close>

section \<open>The interface\<close>

record 's Interface =
  Len :: "'s \<Rightarrow> nat"
  Less :: "'s \<Rightarrow> nat \<Rightarrow> nat \<Rightarrow> bool"
  Swap :: "'s \<Rightarrow> nat \<Rightarrow> nat \<Rightarrow> 's"

definition sort_Reverse :: "'s Interface \<Rightarrow> 's Interface" where
  "sort_Reverse D = D\<lparr>Less := \<lambda>s i j. Less D s j i\<rparr>"

text \<open>Slices under a comparison of elements: \<open>IntSlice\<close>, \<open>StringSlice\<close> and user slice types.\<close>

definition list_swap :: "'a list \<Rightarrow> nat \<Rightarrow> nat \<Rightarrow> 'a list" where
  "list_swap xs i j = xs[i := xs ! j, j := xs ! i]"

definition slice_Interface :: "('a \<Rightarrow> 'a \<Rightarrow> bool) \<Rightarrow> 'a list Interface" where
  "slice_Interface lt =
     \<lparr>Len = length, Less = (\<lambda>xs i j. lt (xs ! i) (xs ! j)), Swap = list_swap\<rparr>"

definition IntSlice :: "int list Interface" where
  "IntSlice = slice_Interface (<)"

section \<open>Insertion sort and heap sort\<close>

text \<open>The largest value of type \<open>int\<close>.\<close>

definition max_int :: "bool \<Rightarrow> nat" where
  "max_int w64 = 2 ^ (if w64 then 63 else 31) - 1"

function insertionSort_shift :: "'s Interface \<Rightarrow> nat \<Rightarrow> nat \<Rightarrow> 's \<Rightarrow> 's" where
  "insertionSort_shift D a j s =
     (if a < j \<and> Less D s j (j - 1) then insertionSort_shift D a (j - 1) (Swap D s j (j - 1)) else s)"
  by pat_completeness auto
termination by (relation "measure (\<lambda>(D, a, j, s). j)") auto

function insertionSort_loop :: "'s Interface \<Rightarrow> nat \<Rightarrow> nat \<Rightarrow> nat \<Rightarrow> 's \<Rightarrow> 's" where
  "insertionSort_loop D a b i s =
     (if i < b then insertionSort_loop D a b (i + 1) (insertionSort_shift D a i s) else s)"
  by pat_completeness auto
termination by (relation "measure (\<lambda>(D, a, b, i, s). b - i)") auto

definition insertionSort :: "'s Interface \<Rightarrow> 's \<Rightarrow> nat \<Rightarrow> nat \<Rightarrow> 's" where
  "insertionSort D s a b = insertionSort_loop D a b (a + 1) s"

function siftDown :: "bool \<Rightarrow> 's Interface \<Rightarrow> 's \<Rightarrow> nat \<Rightarrow> nat \<Rightarrow> nat \<Rightarrow> 's option" where
  "siftDown w64 D s root hi first =
     (let child = 2 * root + 1 in
      if max_int w64 < child then None
      else if hi \<le> child then Some s
      else
        let child = (if child + 1 < hi \<and> Less D s (first + child) (first + child + 1)
                     then child + 1 else child) in
        if \<not> Less D s (first + root) (first + child) then Some s
        else siftDown w64 D (Swap D s (first + root) (first + child)) child hi first)"
  by pat_completeness auto
termination by (relation "measure (\<lambda>(w64, D, s, root, hi, first). hi - root)") auto

fun heapSort_build :: "bool \<Rightarrow> 's Interface \<Rightarrow> nat \<Rightarrow> nat \<Rightarrow> nat \<Rightarrow> 's \<Rightarrow> 's option" where
  "heapSort_build w64 D hi first 0 s = siftDown w64 D s 0 hi first"
| "heapSort_build w64 D hi first (Suc i) s =
     Option.bind (siftDown w64 D s (Suc i) hi first) (\<lambda>s. heapSort_build w64 D hi first i s)"

fun heapSort_pop :: "bool \<Rightarrow> 's Interface \<Rightarrow> nat \<Rightarrow> nat \<Rightarrow> 's \<Rightarrow> 's option" where
  "heapSort_pop w64 D first 0 s = Some s"
| "heapSort_pop w64 D first (Suc i) s =
     Option.bind (siftDown w64 D (Swap D s first (first + i)) 0 i first) (\<lambda>s. heapSort_pop w64 D first i s)"

definition heapSort :: "bool \<Rightarrow> 's Interface \<Rightarrow> 's \<Rightarrow> nat \<Rightarrow> nat \<Rightarrow> 's option" where
  "heapSort w64 D s a b =
     (let first = a; hi = b - a in
      Option.bind (heapSort_build w64 D hi first ((hi - 1) div 2) s) (\<lambda>s. heapSort_pop w64 D first hi s))"

section \<open>Partitioning\<close>

text \<open>
  The two inner scans, \<open>for i <= j && p(i) { i++ }\<close> and \<open>for i <= j && p(j) { j-- }\<close>; in the
  second, \<open>i\<close> is above the left end of the range and hence positive, so that \<open>j = 0\<close> ends it.
\<close>

function scan_up :: "(nat \<Rightarrow> bool) \<Rightarrow> nat \<Rightarrow> nat \<Rightarrow> nat" where
  "scan_up p i j = (if i \<le> j \<and> p i then scan_up p (i + 1) j else i)"
  by pat_completeness auto
termination by (relation "measure (\<lambda>(p, i, j). j + 1 - i)") auto

fun scan_down :: "(nat \<Rightarrow> bool) \<Rightarrow> nat \<Rightarrow> nat \<Rightarrow> nat" where
  "scan_down p i 0 = 0"
| "scan_down p i (Suc j) = (if i \<le> Suc j \<and> p (Suc j) then scan_down p i j else Suc j)"

declare insertionSort_shift.simps [simp del] insertionSort_loop.simps [simp del]
  siftDown.simps [simp del] scan_up.simps [simp del]

lemma scan_up_bounds: "i \<le> scan_up p i j \<and> scan_up p i j \<le> max i (j + 1)"
proof (induction p i j rule: scan_up.induct)
  case (1 p i j)
  then show ?case by (cases "i \<le> j \<and> p i") (auto simp add: scan_up.simps [of p i j])
qed

lemma scan_down_bounds: "scan_down p i j \<le> j \<and> min j (i - 1) \<le> scan_down p i j"
  by (induction j) auto

lemma scans_shrink:
  assumes "i' = scan_up p i j" "j' = scan_down q i' j" "\<not> j' < i'"
  shows "j' - 1 + 1 - (i' + 1) < j + 1 - i"
  using assms scan_up_bounds [of i p j] scan_down_bounds [of q i' j] by linarith

function partition_loop :: "'s Interface \<Rightarrow> nat \<Rightarrow> nat \<Rightarrow> nat \<Rightarrow> 's \<Rightarrow> nat \<times> 's" where
  "partition_loop D a i j s =
     (let i = scan_up (\<lambda>i. Less D s i a) i j;
          j = scan_down (\<lambda>j. \<not> Less D s j a) i j in
      if j < i then (j, s) else partition_loop D a (i + 1) (j - 1) (Swap D s i j))"
  by pat_completeness auto
termination
  by (relation "measure (\<lambda>(D, a, i, j, s). j + 1 - i)") (simp, use scans_shrink in fastforce)

definition sort_partition :: "'s Interface \<Rightarrow> 's \<Rightarrow> nat \<Rightarrow> nat \<Rightarrow> nat \<Rightarrow> nat \<times> bool \<times> 's" where
  "sort_partition D s a b pivot =
     (let s = Swap D s a pivot;
          i = scan_up (\<lambda>i. Less D s i a) (a + 1) (b - 1);
          j = scan_down (\<lambda>j. \<not> Less D s j a) i (b - 1) in
      if j < i then (j, True, Swap D s j a)
      else
        let (j, s) = partition_loop D a (i + 1) (j - 1) (Swap D s i j) in
        (j, False, Swap D s j a))"

function partitionEqual_loop :: "'s Interface \<Rightarrow> nat \<Rightarrow> nat \<Rightarrow> nat \<Rightarrow> 's \<Rightarrow> nat \<times> 's" where
  "partitionEqual_loop D a i j s =
     (let i = scan_up (\<lambda>i. \<not> Less D s a i) i j;
          j = scan_down (\<lambda>j. Less D s a j) i j in
      if j < i then (i, s) else partitionEqual_loop D a (i + 1) (j - 1) (Swap D s i j))"
  by pat_completeness auto
termination
  by (relation "measure (\<lambda>(D, a, i, j, s). j + 1 - i)") (simp, use scans_shrink in fastforce)

definition partitionEqual :: "'s Interface \<Rightarrow> 's \<Rightarrow> nat \<Rightarrow> nat \<Rightarrow> nat \<Rightarrow> nat \<times> 's" where
  "partitionEqual D s a b pivot =
     partitionEqual_loop D a (a + 1) (b - 1) (Swap D s a pivot)"

declare partition_loop.simps [simp del] partitionEqual_loop.simps [simp del]

section \<open>Partial insertion sort\<close>

function partialInsertionSort_scan :: "'s Interface \<Rightarrow> 's \<Rightarrow> nat \<Rightarrow> nat \<Rightarrow> nat" where
  "partialInsertionSort_scan D s b i =
     (if i < b \<and> \<not> Less D s i (i - 1) then partialInsertionSort_scan D s b (i + 1) else i)"
  by pat_completeness auto
termination by (relation "measure (\<lambda>(D, s, b, i). b - i)") auto

fun shift_left :: "'s Interface \<Rightarrow> nat \<Rightarrow> 's \<Rightarrow> 's" where
  "shift_left D 0 s = s"
| "shift_left D (Suc j) s =
     (if \<not> Less D s (Suc j) j then s else shift_left D j (Swap D s (Suc j) j))"

function shift_right :: "'s Interface \<Rightarrow> nat \<Rightarrow> nat \<Rightarrow> 's \<Rightarrow> 's" where
  "shift_right D b j s =
     (if j < b then
        if \<not> Less D s j (j - 1) then s else shift_right D b (j + 1) (Swap D s j (j - 1))
      else s)"
  by pat_completeness auto
termination by (relation "measure (\<lambda>(D, b, j, s). b - j)") auto

declare partialInsertionSort_scan.simps [simp del] shift_right.simps [simp del]

fun partialInsertionSort_steps :: "'s Interface \<Rightarrow> nat \<Rightarrow> nat \<Rightarrow> nat \<Rightarrow> nat \<Rightarrow> 's \<Rightarrow> bool \<times> 's" where
  "partialInsertionSort_steps D a b 0 i s = (False, s)"
| "partialInsertionSort_steps D a b (Suc n) i s =
     (let i = partialInsertionSort_scan D s b i in
      if i = b then (True, s)
      else if b - a < 50 then (False, s)
      else
        let s = Swap D s i (i - 1);
            s = (if 2 \<le> i - a then shift_left D (i - 1) s else s);
            s = (if 2 \<le> b - i then shift_right D b (i + 1) s else s) in
        partialInsertionSort_steps D a b n i s)"

definition partialInsertionSort :: "'s Interface \<Rightarrow> 's \<Rightarrow> nat \<Rightarrow> nat \<Rightarrow> bool \<times> 's" where
  "partialInsertionSort D s a b = partialInsertionSort_steps D a b 5 (a + 1) s"

section \<open>Choosing the pivot and breaking patterns\<close>

datatype sortedHint = unknownHint | increasingHint | decreasingHint

definition xorshift_Next :: "uint64 \<Rightarrow> uint64" where
  "xorshift_Next r =
     (let r = r XOR push_bit 13 r; r = r XOR drop_bit 7 r in r XOR push_bit 17 r)"

text \<open>The type \<open>uint\<close> of the target: 64 bits when \<open>w64\<close>, else 32 bits held in 64.\<close>

definition to_uint :: "bool \<Rightarrow> uint64 \<Rightarrow> uint64" where
  "to_uint w64 x = (if w64 then x else ucast (ucast x :: uint32))"

definition nextPowerOfTwo :: "bool \<Rightarrow> nat \<Rightarrow> uint64" where
  "nextPowerOfTwo w64 len =
     (let shift = bits_Len w64 (of_nat len) in to_uint w64 (push_bit shift 1))"

function breakPatterns_loop ::
  "bool \<Rightarrow> 's Interface \<Rightarrow> nat \<Rightarrow> nat \<Rightarrow> uint64 \<Rightarrow> nat \<Rightarrow> nat \<Rightarrow> uint64 \<Rightarrow> 's \<Rightarrow> 's" where
  "breakPatterns_loop w64 D a len modulus bound idx random s =
     (if idx \<le> bound then
        let random = xorshift_Next random;
            other = unat (to_uint w64 random AND (modulus - 1));
            other = (if len \<le> other then other - len else other) in
        breakPatterns_loop w64 D a len modulus bound (idx + 1) random (Swap D s idx (a + other))
      else s)"
  by pat_completeness auto
termination by (relation "measure (\<lambda>(w64, D, a, len, modulus, bound, idx, random, s). bound + 1 - idx)") auto

declare breakPatterns_loop.simps [simp del]

definition breakPatterns :: "bool \<Rightarrow> 's Interface \<Rightarrow> 's \<Rightarrow> nat \<Rightarrow> nat \<Rightarrow> 's" where
  "breakPatterns w64 D s a b =
     (let len = b - a in
      if 8 \<le> len then
        breakPatterns_loop w64 D a len (nextPowerOfTwo w64 len) (a + len div 4 * 2 + 1)
          (a + len div 4 * 2 - 1) (of_nat len) s
      else s)"

definition order2 :: "'s Interface \<Rightarrow> 's \<Rightarrow> nat \<Rightarrow> nat \<Rightarrow> nat \<Rightarrow> nat \<times> nat \<times> nat" where
  "order2 D s a b swaps = (if Less D s b a then (b, a, swaps + 1) else (a, b, swaps))"

definition sort_median :: "'s Interface \<Rightarrow> 's \<Rightarrow> nat \<Rightarrow> nat \<Rightarrow> nat \<Rightarrow> nat \<Rightarrow> nat \<times> nat" where
  "sort_median D s a b c swaps =
     (let (a, b, swaps) = order2 D s a b swaps;
          (b, c, swaps) = order2 D s b c swaps;
          (a, b, swaps) = order2 D s a b swaps in
      (b, swaps))"

definition medianAdjacent :: "'s Interface \<Rightarrow> 's \<Rightarrow> nat \<Rightarrow> nat \<Rightarrow> nat \<times> nat" where
  "medianAdjacent D s a swaps = sort_median D s (a - 1) a (a + 1) swaps"

definition choosePivot :: "'s Interface \<Rightarrow> 's \<Rightarrow> nat \<Rightarrow> nat \<Rightarrow> nat \<times> sortedHint" where
  "choosePivot D s a b =
     (let l = b - a;
          i = a + l div 4 * 1; j = a + l div 4 * 2; k = a + l div 4 * 3;
          (j, swaps) =
            (if 8 \<le> l then
               let (i, j, k, swaps) =
                     (if 50 \<le> l then
                        let (i, swaps) = medianAdjacent D s i 0;
                            (j, swaps) = medianAdjacent D s j swaps;
                            (k, swaps) = medianAdjacent D s k swaps in
                        (i, j, k, swaps)
                      else (i, j, k, 0)) in
               sort_median D s i j k swaps
             else (j, 0)) in
      if swaps = 0 then (j, increasingHint)
      else if swaps = 4 * 3 then (j, decreasingHint)
      else (j, unknownHint))"

function reverseRange_loop :: "'s Interface \<Rightarrow> nat \<Rightarrow> nat \<Rightarrow> 's \<Rightarrow> 's" where
  "reverseRange_loop D i j s =
     (if i < j then reverseRange_loop D (i + 1) (j - 1) (Swap D s i j) else s)"
  by pat_completeness auto
termination by (relation "measure (\<lambda>(D, i, j, s). j)") auto

declare reverseRange_loop.simps [simp del]

definition reverseRange :: "'s Interface \<Rightarrow> 's \<Rightarrow> nat \<Rightarrow> nat \<Rightarrow> 's" where
  "reverseRange D s a b = reverseRange_loop D a (b - 1) s"

section \<open>Pattern-defeating quicksort\<close>

lemma scan_up_stop: "scan_up p i j \<le> j \<Longrightarrow> \<not> p (scan_up p i j)"
proof (induction p i j rule: scan_up.induct)
  case (1 p i j)
  then show ?case by (cases "i \<le> j \<and> p i") (auto simp add: scan_up.simps [of p i j])
qed

lemma scan_down_stop: "0 < i \<Longrightarrow> i \<le> scan_down p i j \<Longrightarrow> \<not> p (scan_down p i j)"
  by (induction j) (auto split: if_splits)

lemma partition_loop_bounds:
  assumes "0 < i" and "i - 1 \<le> j"
  shows "i - 1 \<le> fst (partition_loop D a i j s) \<and> fst (partition_loop D a i j s) \<le> j"
  using assms
proof (induction D a i j s rule: partition_loop.induct)
  case (1 D a i j s)
  define i' where i': "i' = scan_up (\<lambda>i. Less D s i a) i j"
  define j' where j': "j' = scan_down (\<lambda>j. \<not> Less D s j a) i' j"
  have b: "i \<le> i'" "i' \<le> max i (j + 1)" "j' \<le> j" "min j (i' - 1) \<le> j'"
    using scan_up_bounds [of i _ j] scan_down_bounds [of _ i' j] by (auto simp: i' j')
  have eq: "partition_loop D a i j s =
      (if j' < i' then (j', s) else partition_loop D a (i' + 1) (j' - 1) (Swap D s i' j'))"
    by (subst partition_loop.simps) (simp only: i' j' Let_def)
  show ?case
  proof (cases "j' < i'")
    case True
    then show ?thesis using b "1.prems" by (auto simp: eq)
  next
    case False
    then have "i' \<noteq> j'"
      using scan_up_stop [of "\<lambda>i. Less D s i a" i j] scan_down_stop [of i' "\<lambda>j. \<not> Less D s j a" j] b "1.prems"
      by (metis dual_order.trans i' j' le_0_eq neq0_conv not_le_imp_less)
    then have "i' + 1 - 1 \<le> j' - 1" using False by simp
    then show ?thesis using "1.IH" [OF i' j' False] False b "1.prems" by (auto simp: eq)
  qed
qed

lemma sort_partition_bounds:
  assumes "a + 1 < b"
  shows "a \<le> fst (sort_partition D s a b pivot) \<and> fst (sort_partition D s a b pivot) < b"
proof -
  define s' where "s' = Swap D s a pivot"
  define i where i: "i = scan_up (\<lambda>i. Less D s' i a) (a + 1) (b - 1)"
  define j where j: "j = scan_down (\<lambda>j. \<not> Less D s' j a) i (b - 1)"
  have b: "a + 1 \<le> i" "i \<le> b" "j \<le> b - 1" "min (b - 1) (i - 1) \<le> j"
    using scan_up_bounds [of "a + 1" _ "b - 1"] scan_down_bounds [of _ i "b - 1"] assms by (auto simp: i j)
  have eq: "sort_partition D s a b pivot = (if j < i then (j, True, Swap D s' j a)
      else let (j, s) = partition_loop D a (i + 1) (j - 1) (Swap D s' i j) in (j, False, Swap D s j a))"
    by (simp only: sort_partition_def s'_def i j Let_def)
  show ?thesis
  proof (cases "j < i")
    case True
    then show ?thesis using b by (auto simp: eq)
  next
    case False
    then have "i \<noteq> j"
      using scan_up_stop [of "\<lambda>i. Less D s' i a" "a + 1" "b - 1"]
        scan_down_stop [of i "\<lambda>j. \<not> Less D s' j a" "b - 1"] b
      by (metis (no_types, lifting) Suc_eq_plus1 Suc_le_eq i j le_refl less_eq_nat.simps(1) order_le_less_trans)
    then have "i + 1 - 1 \<le> j - 1" using False by simp
    then show ?thesis using partition_loop_bounds [of "i + 1" "j - 1" D a "Swap D s' i j"] False b assms
      by (auto simp: eq split: prod.split)
  qed
qed

lemma partitionEqual_loop_bounds: "i \<le> fst (partitionEqual_loop D a i j s)"
proof (induction D a i j s rule: partitionEqual_loop.induct)
  case (1 D a i j s)
  define i' where i': "i' = scan_up (\<lambda>i. \<not> Less D s a i) i j"
  define j' where j': "j' = scan_down (\<lambda>j. Less D s a j) i' j"
  have eq: "partitionEqual_loop D a i j s =
      (if j' < i' then (i', s) else partitionEqual_loop D a (i' + 1) (j' - 1) (Swap D s i' j'))"
    by (subst partitionEqual_loop.simps) (simp only: i' j' Let_def)
  have "i \<le> i'" using scan_up_bounds [of i _ j] by (simp add: i')
  then show ?case using "1.IH" [OF i' j'] by (cases "j' < i'") (simp_all add: eq)
qed

lemma partitionEqual_bounds: "a < fst (partitionEqual D s a b pivot)"
  using partitionEqual_loop_bounds [of "a + 1"] unfolding partitionEqual_def by (metis Suc_eq_plus1 Suc_le_eq)

lemma partitionEqual_mid: "(mid, s') = partitionEqual D s a b pivot \<Longrightarrow> a < mid"
  by (metis fst_conv partitionEqual_bounds)

lemma sort_partition_mid:
  "(mid, x) = sort_partition D s a b pivot \<Longrightarrow> \<not> b - a \<le> 12 \<Longrightarrow> a \<le> mid \<and> mid < b"
  using sort_partition_bounds [of a b D s pivot] by (cases "a + 1 < b") (metis fst_conv, simp)

text \<open>
  One round of the loop up to the partition step: the result says whether the range is now
  sorted, and gives the collection, the pivot and the remaining limit.
\<close>

definition pdqsort_prepare ::
  "bool \<Rightarrow> 's Interface \<Rightarrow> 's \<Rightarrow> nat \<Rightarrow> nat \<Rightarrow> nat \<Rightarrow> bool \<Rightarrow> bool \<Rightarrow> bool \<times> 's \<times> nat \<times> nat" where
  "pdqsort_prepare w64 D s a b limit wasBalanced wasPartitioned =
     (let (s, limit) = (if wasBalanced then (s, limit) else (breakPatterns w64 D s a b, limit - 1));
          (pivot, hint) = choosePivot D s a b;
          (s, pivot, hint) =
            (if hint = decreasingHint
             then (reverseRange D s a b, (b - 1) - (pivot - a), increasingHint)
             else (s, pivot, hint));
          (sorted, s) =
            (if wasBalanced \<and> wasPartitioned \<and> hint = increasingHint
             then partialInsertionSort D s a b else (False, s)) in
      (sorted, s, pivot, limit))"

function pdqsort_loop ::
  "bool \<Rightarrow> 's Interface \<Rightarrow> 's \<Rightarrow> nat \<Rightarrow> nat \<Rightarrow> nat \<Rightarrow> bool \<Rightarrow> bool \<Rightarrow> 's option" where
  "pdqsort_loop w64 D s a b limit wasBalanced wasPartitioned =
     (let len = b - a in
      if len \<le> 12 then Some (insertionSort D s a b)
      else if limit = 0 then heapSort w64 D s a b
      else
        let (sorted, s, pivot, limit) =
              pdqsort_prepare w64 D s a b limit wasBalanced wasPartitioned in
        if sorted then Some s
        else if 0 < a \<and> \<not> Less D s (a - 1) pivot then
          let (mid, s) = partitionEqual D s a b pivot in
          pdqsort_loop w64 D s mid b limit wasBalanced wasPartitioned
        else
          let (mid, alreadyPartitioned, s) = sort_partition D s a b pivot;
              leftLen = mid - a; rightLen = b - mid; balanceThreshold = len div 8 in
          if leftLen < rightLen then
            Option.bind (pdqsort_loop w64 D s a mid limit True True) (\<lambda>s.
              pdqsort_loop w64 D s (mid + 1) b limit (balanceThreshold \<le> leftLen) alreadyPartitioned)
          else
            Option.bind (pdqsort_loop w64 D s (mid + 1) b limit True True) (\<lambda>s.
              pdqsort_loop w64 D s a mid limit (balanceThreshold \<le> rightLen) alreadyPartitioned))"
  by pat_completeness auto
termination
  by (relation "measure (\<lambda>(w64, D, s, a, b, limit, wb, wp). b - a)")
    (auto dest!: partitionEqual_mid dest: sort_partition_mid)

declare pdqsort_loop.simps [simp del]

definition pdqsort :: "bool \<Rightarrow> 's Interface \<Rightarrow> 's \<Rightarrow> nat \<Rightarrow> nat \<Rightarrow> nat \<Rightarrow> 's option" where
  "pdqsort w64 D s a b limit = pdqsort_loop w64 D s a b limit True True"

definition sort_Sort :: "bool \<Rightarrow> 's Interface \<Rightarrow> 's \<Rightarrow> 's option" where
  "sort_Sort w64 D s =
     (let n = Len D s in
      if n \<le> 1 then Some s else pdqsort w64 D s 0 n (bits_Len w64 (of_nat n)))"

fun IsSorted_loop :: "'s Interface \<Rightarrow> 's \<Rightarrow> nat \<Rightarrow> bool" where
  "IsSorted_loop D s 0 = True"
| "IsSorted_loop D s (Suc i) = (if Less D s (Suc i) i then False else IsSorted_loop D s i)"

definition sort_IsSorted :: "'s Interface \<Rightarrow> 's \<Rightarrow> bool" where
  "sort_IsSorted D s = IsSorted_loop D s (Len D s - 1)"

text \<open>
  \<open>sort.Slice\<close>, \<open>SliceStable\<close> and \<open>SliceIsSorted\<close> run the same algorithms (the generated
  \<open>_func\<close> variants) on a pair of closures; \<open>slices.Sort\<close> and its relatives run the generated
  variants for a comparison function \<open>cmp\<close>, where \<open>Less(i, j)\<close> is \<open>cmp(x[i], x[j]) < 0\<close>.
\<close>

definition sort_Slice :: "bool \<Rightarrow> 's Interface \<Rightarrow> 's \<Rightarrow> 's option" where
  "sort_Slice w64 D s =
     (let len = Len D s; limit = bits_Len w64 (of_nat len) in pdqsort w64 D s 0 len limit)"

definition sort_SliceIsSorted :: "'s Interface \<Rightarrow> 's \<Rightarrow> bool" where
  "sort_SliceIsSorted D s = (let n = Len D s in IsSorted_loop D s (n - 1))"

definition cmp_Interface :: "('a \<Rightarrow> 'a \<Rightarrow> int) \<Rightarrow> 'a list Interface" where
  "cmp_Interface cmp = slice_Interface (\<lambda>x y. cmp x y < 0)"

definition slices_SortFunc :: "bool \<Rightarrow> 'a list \<Rightarrow> ('a \<Rightarrow> 'a \<Rightarrow> int) \<Rightarrow> 'a list option" where
  "slices_SortFunc w64 x cmp =
     (let n = length x in pdqsort w64 (cmp_Interface cmp) x 0 n (bits_Len w64 (of_nat n)))"

definition slices_IsSortedFunc :: "'a list \<Rightarrow> ('a \<Rightarrow> 'a \<Rightarrow> int) \<Rightarrow> bool" where
  "slices_IsSortedFunc x cmp = IsSorted_loop (cmp_Interface cmp) x (length x - 1)"

section \<open>Binary search\<close>

text \<open>
  The loop \<open>for i < j { h := int(uint(i+j) >> 1); if p(h) { i = h + 1 } else { j = h } }\<close>, which
  \<open>Search\<close>, \<open>Find\<close> and \<open>symMerge\<close> share.
\<close>

function bsearch :: "(nat \<Rightarrow> bool) \<Rightarrow> nat \<Rightarrow> nat \<Rightarrow> nat" where
  "bsearch p i j =
     (if i < j then
        let h = (i + j) div 2 in if p h then bsearch p (h + 1) j else bsearch p i h
      else i)"
  by pat_completeness auto
termination by (relation "measure (\<lambda>(p, i, j). j - i)") auto

declare bsearch.simps [simp del]

definition sort_Search :: "nat \<Rightarrow> (nat \<Rightarrow> bool) \<Rightarrow> nat" where
  "sort_Search n f = bsearch (\<lambda>h. \<not> f h) 0 n"

definition sort_Find :: "nat \<Rightarrow> (nat \<Rightarrow> int) \<Rightarrow> nat \<times> bool" where
  "sort_Find n cmp = (let i = bsearch (\<lambda>h. 0 < cmp h) 0 n in (i, i < n \<and> cmp i = 0))"

definition SearchInts :: "int list \<Rightarrow> int \<Rightarrow> nat" where
  "SearchInts a x = sort_Search (length a) (\<lambda>i. x \<le> a ! i)"

definition slices_BinarySearchFunc :: "'a list \<Rightarrow> 't \<Rightarrow> ('a \<Rightarrow> 't \<Rightarrow> int) \<Rightarrow> nat \<times> bool" where
  "slices_BinarySearchFunc x target cmp =
     (let n = length x; i = bsearch (\<lambda>h. cmp (x ! h) target < 0) 0 n in
      (i, i < n \<and> cmp (x ! i) target = 0))"

section \<open>Stable sort\<close>

text \<open>
  \<open>rotate\<close> does not return when one of its blocks is empty, so it is a partial function with
  \<open>None\<close> for an endless loop, and so are the functions that call it.
\<close>

definition swapRange :: "'s Interface \<Rightarrow> 's \<Rightarrow> nat \<Rightarrow> nat \<Rightarrow> nat \<Rightarrow> 's" where
  "swapRange D s a b n = fold (\<lambda>i s. Swap D s (a + i) (b + i)) [0..<n] s"

partial_function (option) rotate_loop ::
  "'s Interface \<Rightarrow> nat \<Rightarrow> nat \<Rightarrow> nat \<Rightarrow> 's \<Rightarrow> 's option" where
  "rotate_loop D m i j s =
     (if i = j then Some (swapRange D s (m - i) m i)
      else if j < i then rotate_loop D m (i - j) j (swapRange D s (m - i) m j)
      else rotate_loop D m i (j - i) (swapRange D s (m - i) (m + j - i) i))"

definition sort_rotate :: "'s Interface \<Rightarrow> 's \<Rightarrow> nat \<Rightarrow> nat \<Rightarrow> nat \<Rightarrow> 's option" where
  "sort_rotate D s a m b = rotate_loop D m (m - a) (b - m) s"

text \<open>The symmetric binary search of \<open>symMerge\<close>: the start of the blocks to rotate.\<close>

definition symMerge_start :: "'s Interface \<Rightarrow> 's \<Rightarrow> nat \<Rightarrow> nat \<Rightarrow> nat \<Rightarrow> nat" where
  "symMerge_start D s a m b =
     (let mid = (a + b) div 2;
          n = mid + m;
          (start, r) = (if mid < m then (n - b, mid) else (a, m));
          p = n - 1 in
      bsearch (\<lambda>c. \<not> Less D s (p - c) c) start r)"

lemma mid_shrink:
  "a < (st::nat) \<Longrightarrow> st < (a + b) div 2 \<Longrightarrow> (a + b) div 2 - a < b - a"
  "(a + b) div 2 < (en::nat) \<Longrightarrow> en < b \<Longrightarrow> b - (a + b) div 2 < b - a"
  by linarith+

function symMerge :: "'s Interface \<Rightarrow> 's \<Rightarrow> nat \<Rightarrow> nat \<Rightarrow> nat \<Rightarrow> 's option" where
  "symMerge D s a m b =
     (if m - a = 1 then
        let i = bsearch (\<lambda>h. Less D s h a) m b in
        Some (fold (\<lambda>k s. Swap D s k (k + 1)) [a..<i - 1] s)
      else if b - m = 1 then
        let i = bsearch (\<lambda>h. \<not> Less D s m h) a m in
        Some (fold (\<lambda>k s. Swap D s k (k - 1)) (rev [i + 1..<m + 1]) s)
      else
        let mid = (a + b) div 2;
            start = symMerge_start D s a m b;
            endp = mid + m - start in
        Option.bind (if start < m \<and> m < endp then sort_rotate D s start m endp else Some s)
          (\<lambda>s. Option.bind (if a < start \<and> start < mid then symMerge D s a start mid else Some s)
            (\<lambda>s. if mid < endp \<and> endp < b then symMerge D s mid endp b else Some s)))"
  by pat_completeness auto
termination by (relation "measure (\<lambda>(D, s, a, m, b). b - a)") (auto intro: mid_shrink)

declare symMerge.simps [simp del]

function stable_blocks :: "bool \<Rightarrow> 's Interface \<Rightarrow> nat \<Rightarrow> nat \<Rightarrow> nat \<Rightarrow> 's \<Rightarrow> (nat \<times> 's) option" where
  "stable_blocks w64 D n a b s =
     (if b \<le> n then
        let s = insertionSort D s a b in
        if max_int w64 < b + 20 then None else stable_blocks w64 D n b (b + 20) s
      else Some (a, s))"
  by pat_completeness auto
termination by (relation "measure (\<lambda>(w64, D, n, a, b, s). n + 1 - b)") auto

declare stable_blocks.simps [simp del]

partial_function (option) stable_merges ::
  "bool \<Rightarrow> 's Interface \<Rightarrow> nat \<Rightarrow> nat \<Rightarrow> nat \<Rightarrow> nat \<Rightarrow> 's \<Rightarrow> (nat \<times> 's) option" where
  "stable_merges w64 D n blockSize a b s =
     (if b \<le> n then
        Option.bind (symMerge D s a (a + blockSize) b)
          (\<lambda>s. if max_int w64 < b + 2 * blockSize then None
               else stable_merges w64 D n blockSize b (b + 2 * blockSize) s)
      else Some (a, s))"

partial_function (option) stable_passes :: "bool \<Rightarrow> 's Interface \<Rightarrow> nat \<Rightarrow> nat \<Rightarrow> 's \<Rightarrow> 's option" where
  "stable_passes w64 D n blockSize s =
     (if blockSize < n then
        if max_int w64 < 2 * blockSize then None
        else
          Option.bind (stable_merges w64 D n blockSize 0 (2 * blockSize) s)
            (\<lambda>(a, s). Option.bind
               (let m = a + blockSize in
                if max_int w64 < m then None else if m < n then symMerge D s a m n else Some s)
               (\<lambda>s. stable_passes w64 D n (blockSize * 2) s))
      else Some s)"

definition stable :: "bool \<Rightarrow> 's Interface \<Rightarrow> 's \<Rightarrow> nat \<Rightarrow> 's option" where
  "stable w64 D s n =
     Option.bind (stable_blocks w64 D n 0 20 s)
       (\<lambda>(a, s). stable_passes w64 D n 20 (insertionSort D s a n))"

definition sort_Stable :: "bool \<Rightarrow> 's Interface \<Rightarrow> 's \<Rightarrow> 's option" where
  "sort_Stable w64 D s = stable w64 D s (Len D s)"

definition sort_SliceStable :: "bool \<Rightarrow> 's Interface \<Rightarrow> 's \<Rightarrow> 's option" where
  "sort_SliceStable w64 D s = stable w64 D s (Len D s)"

definition slices_SortStableFunc :: "bool \<Rightarrow> 'a list \<Rightarrow> ('a \<Rightarrow> 'a \<Rightarrow> int) \<Rightarrow> 'a list option" where
  "slices_SortStableFunc w64 x cmp = stable w64 (cmp_Interface cmp) x (length x)"

end
