(* ===== verification/Sort_Interface.thy ===== *)
theory Sort_Interface
  imports Sort Bits_Correct
begin

text \<open>
  What \<open>sort.Interface\<close> promises, as locales: \<open>strict_weak_order\<close> is the documented contract of
  \<open>Less\<close>, and \<open>sort_interface\<close> relates the three methods to the list of elements of the collection.
  Its laws constrain \<open>Less\<close> and \<open>Swap\<close> only on indices in range, so whatever is proved from them
  holds for every implementation, one that fails or corrupts the collection out of range included.
  The theory proves the specifications of \<open>insertionSort\<close> and \<open>heapSort\<close> inside the locale.
  \<open>rearr a b xs ys\<close>: \<open>ys\<close> rearranges \<open>xs\<close> within \<open>[a, b)\<close>; \<open>same_order\<close>: equivalent elements
  keep their relative order.
\<close>

section \<open>Predicates\<close>

definition sorted_rng :: "('a \<Rightarrow> 'a \<Rightarrow> bool) \<Rightarrow> nat \<Rightarrow> nat \<Rightarrow> 'a list \<Rightarrow> bool" where
  "sorted_rng lt a b xs \<longleftrightarrow> (\<forall>i j. a \<le> i \<and> i < j \<and> j < b \<longrightarrow> \<not> lt (xs ! j) (xs ! i))"

definition rearr :: "nat \<Rightarrow> nat \<Rightarrow> 'a list \<Rightarrow> 'a list \<Rightarrow> bool" where
  "rearr a b xs ys \<longleftrightarrow> length ys = length xs \<and> mset ys = mset xs \<and>
     (\<forall>i < length xs. i < a \<or> b \<le> i \<longrightarrow> ys ! i = xs ! i)"

definition eqv :: "('a \<Rightarrow> 'a \<Rightarrow> bool) \<Rightarrow> 'a \<Rightarrow> 'a \<Rightarrow> bool" where
  "eqv lt x y \<longleftrightarrow> \<not> lt x y \<and> \<not> lt y x"

definition same_order :: "('a \<Rightarrow> 'a \<Rightarrow> bool) \<Rightarrow> 'a list \<Rightarrow> 'a list \<Rightarrow> bool" where
  "same_order lt xs ys \<longleftrightarrow> (\<forall>x. filter (eqv lt x) ys = filter (eqv lt x) xs)"

definition hole :: "('a \<Rightarrow> 'a \<Rightarrow> bool) \<Rightarrow> nat \<Rightarrow> nat \<Rightarrow> nat \<Rightarrow> 'a list \<Rightarrow> bool" where
  "hole lt a i j xs \<longleftrightarrow> (\<forall>p q. a \<le> p \<and> p < q \<and> q \<le> i \<and> p \<noteq> j \<and> q \<noteq> j \<longrightarrow> \<not> lt (xs ! q) (xs ! p))
    \<and> (\<forall>q. j < q \<and> q \<le> i \<longrightarrow> \<not> lt (xs ! q) (xs ! j))"

definition heap_except :: "('a \<Rightarrow> 'a \<Rightarrow> bool) \<Rightarrow> nat \<Rightarrow> nat \<Rightarrow> nat \<Rightarrow> nat set \<Rightarrow> 'a list \<Rightarrow> bool" where
  "heap_except lt f lo hi X xs \<longleftrightarrow>
     (\<forall>i c. lo \<le> i \<and> i \<notin> X \<and> c < hi \<and> (c = 2 * i + 1 \<or> c = 2 * i + 2) \<longrightarrow> \<not> lt (xs ! (f + i)) (xs ! (f + c)))"

section \<open>Rearrangements\<close>

lemma length_list_swap [simp]: "length (list_swap xs i j) = length xs"
  by (simp add: list_swap_def)

lemma nth_list_swap:
  "i < length xs \<Longrightarrow> j < length xs \<Longrightarrow>
    list_swap xs i j ! k = (if k = j then xs ! i else if k = i then xs ! j else xs ! k)"
  by (simp add: list_swap_def nth_list_update)

lemma mset_list_swap: "i < length xs \<Longrightarrow> j < length xs \<Longrightarrow> mset (list_swap xs i j) = mset xs"
  by (simp add: list_swap_def mset_swap)

lemma rearr_refl [simp]: "rearr a b xs xs" by (simp add: rearr_def)

lemma rearr_trans: "rearr a b xs ys \<Longrightarrow> rearr a b ys zs \<Longrightarrow> rearr a b xs zs"
  by (simp add: rearr_def)

lemma rearr_mono: "rearr a b xs ys \<Longrightarrow> a' \<le> a \<Longrightarrow> b \<le> b' \<Longrightarrow> rearr a' b' xs ys"
  by (auto simp: rearr_def)

lemma rearr_length: "rearr a b xs ys \<Longrightarrow> length ys = length xs"
  by (simp add: rearr_def)

lemma rearr_nth: "rearr a b xs ys \<Longrightarrow> i < length xs \<Longrightarrow> i < a \<or> b \<le> i \<Longrightarrow> ys ! i = xs ! i"
  by (auto simp: rearr_def)

lemma rearr_swap:
  "i < length xs \<Longrightarrow> j < length xs \<Longrightarrow> a \<le> i \<Longrightarrow> i < b \<Longrightarrow> a \<le> j \<Longrightarrow> j < b \<Longrightarrow> rearr a b xs (list_swap xs i j)"
  by (auto simp: rearr_def mset_list_swap nth_list_swap)

lemma rearr_slice:
  assumes "rearr a b xs ys" "a \<le> b" "b \<le> length xs"
  shows "mset (take (b - a) (drop a ys)) = mset (take (b - a) (drop a xs))"
proof -
  have l: "length ys = length xs" using assms(1) by (simp add: rearr_def)
  have t: "take a ys = take a xs" using assms l by (intro nth_equalityI) (auto simp: rearr_def)
  have d: "drop b ys = drop b xs" using assms l by (intro nth_equalityI) (auto simp: rearr_def)
  have s: "zs = take a zs @ take (b - a) (drop a zs) @ drop b zs" for zs :: "'a list"
    by (metis append_take_drop_id assms(2) drop_drop le_add_diff_inverse2)
  have "mset xs = mset ys" using assms(1) by (simp add: rearr_def)
  then have "mset (take a xs) + mset (take (b - a) (drop a xs)) + mset (drop b xs)
    = mset (take a ys) + mset (take (b - a) (drop a ys)) + mset (drop b ys)"
    by (metis (no_types) s mset_append add.assoc)
  then show ?thesis using t d by simp
qed

lemma rearr_all:
  assumes "rearr a b xs ys" "b \<le> length xs" "\<forall>i. a \<le> i \<and> i < b \<longrightarrow> P (xs ! i)" "a \<le> i" "i < b"
  shows "P (ys ! i)"
proof -
  have "a \<le> b" using assms by simp
  then have s: "set (take (b - a) (drop a ys)) = set (take (b - a) (drop a xs))"
    using rearr_slice[OF assms(1)] assms(2) by (metis set_mset_mset)
  have "take (b - a) (drop a ys) ! (i - a) = ys ! i" using assms rearr_length[OF assms(1)] by simp
  then have "ys ! i \<in> set (take (b - a) (drop a ys))"
    using assms rearr_length[OF assms(1)] by (metis diff_less_mono length_drop length_take less_imp_le min.absorb_iff2 nth_mem diff_le_mono order_less_le_trans min_def)
  then obtain k where "k < b - a" "ys ! i = xs ! (a + k)" unfolding s using assms(2)
    by (auto simp: in_set_conv_nth)
  then show ?thesis using assms(3) by simp
qed

lemma same_order_refl [simp]: "same_order lt xs xs" by (simp add: same_order_def)

lemma same_order_trans: "same_order lt xs ys \<Longrightarrow> same_order lt ys zs \<Longrightarrow> same_order lt xs zs"
  by (simp add: same_order_def)

lemma sorted_rng_triv [simp]: "b \<le> Suc a \<Longrightarrow> sorted_rng lt a b xs"
  by (auto simp: sorted_rng_def)

lemma sorted_rngD: "sorted_rng lt a b xs \<Longrightarrow> a \<le> i \<Longrightarrow> i < j \<Longrightarrow> j < b \<Longrightarrow> \<not> lt (xs ! j) (xs ! i)"
  by (auto simp: sorted_rng_def)

lemma sorted_rng_cong: "(\<And>i. a \<le> i \<Longrightarrow> i < b \<Longrightarrow> ys ! i = xs ! i) \<Longrightarrow> sorted_rng lt a b ys = sorted_rng lt a b xs"
  by (auto simp: sorted_rng_def)

lemma sorted_rng_sub: "sorted_rng lt a b xs \<Longrightarrow> a \<le> a' \<Longrightarrow> b' \<le> b \<Longrightarrow> sorted_rng lt a' b' xs"
  by (auto simp: sorted_rng_def)

locale strict_weak_order =
  fixes lt :: "'a \<Rightarrow> 'a \<Rightarrow> bool"
  assumes asym: "lt x y \<Longrightarrow> \<not> lt y x"
    and negtrans: "\<not> lt x y \<Longrightarrow> \<not> lt y z \<Longrightarrow> \<not> lt x z"
begin

lemma irrefl [simp]: "\<not> lt x x" using asym by blast

lemma le_trans: "\<not> lt y x \<Longrightarrow> \<not> lt z y \<Longrightarrow> \<not> lt z x" using negtrans by blast

lemma lt_le_trans: "lt x y \<Longrightarrow> \<not> lt z y \<Longrightarrow> lt x z" using negtrans by blast

lemma le_lt_trans: "\<not> lt y x \<Longrightarrow> lt y z \<Longrightarrow> lt x z" using negtrans by blast

lemma same_order_adjacent:
  assumes "Suc k < length xs" "lt (xs ! Suc k) (xs ! k)"
  shows "same_order lt xs (list_swap xs k (Suc k))"
proof -
  let ?x = "xs ! k" let ?y = "xs ! Suc k"
  have e: "xs = take k xs @ ?x # ?y # drop (Suc (Suc k)) xs"
    using assms by (metis Cons_nth_drop_Suc Suc_lessD append_take_drop_id)
  have "list_swap xs k (Suc k) = take k xs @ ?y # ?x # drop (Suc (Suc k)) xs"
  proof -
    have "length (take k xs) = k" using assms(1) by simp
    then have "(take k xs @ ?x # ?y # drop (Suc (Suc k)) xs)[k := ?y, Suc k := ?x] = take k xs @ ?y # ?x # drop (Suc (Suc k)) xs"
      by (simp add: list_update_append)
    then show ?thesis using e unfolding list_swap_def by metis
  qed
  moreover have "\<not> (eqv lt z ?x \<and> eqv lt z ?y)" for z
    using assms(2) negtrans unfolding eqv_def by blast
  then have "filter (eqv lt z) (take k xs @ ?y # ?x # drop (Suc (Suc k)) xs) = filter (eqv lt z) (take k xs @ ?x # ?y # drop (Suc (Suc k)) xs)" for z
    by auto
  ultimately show ?thesis unfolding same_order_def using e by metis
qed
end

locale sort_interface = strict_weak_order lt for lt :: "'a \<Rightarrow> 'a \<Rightarrow> bool" +
  fixes D :: "'s Interface" and elems :: "'s \<Rightarrow> 'a list"
  assumes Len: "Len D s = length (elems s)"
    and Less: "i < length (elems s) \<Longrightarrow> j < length (elems s) \<Longrightarrow> Less D s i j = lt (elems s ! i) (elems s ! j)"
    and Swap: "i < length (elems s) \<Longrightarrow> j < length (elems s) \<Longrightarrow> elems (Swap D s i j) = list_swap (elems s) i j"
begin

lemma insertionSort_shift_spec:
  assumes "hole lt a i j (elems s)" "a \<le> j" "j \<le> i" "i < length (elems s)"
  shows "sorted_rng lt a (Suc i) (elems (insertionSort_shift D a j s))
    \<and> rearr a (Suc i) (elems s) (elems (insertionSort_shift D a j s))
    \<and> same_order lt (elems s) (elems (insertionSort_shift D a j s))"
  using assms
proof (induction j arbitrary: s)
  case 0
  then have "\<not> lt (elems s ! q) (elems s ! p)" if "a \<le> p" "p < q" "q < Suc i" for p q
    using that by (cases "p = 0") (auto simp: hole_def)
  then show ?case by (subst (1 2 3) insertionSort_shift.simps) (auto simp: sorted_rng_def)
next
  case (Suc j)
  show ?case
  proof (cases "a < Suc j \<and> Less D s (Suc j) j")
    case True
    then have lt: "lt (elems s ! Suc j) (elems s ! j)" using Suc.prems Less by auto
    let ?s = "Swap D s (Suc j) j"
    have e: "elems ?s = list_swap (elems s) j (Suc j)"
      using Swap[of "Suc j" s j] Suc.prems by (simp add: list_swap_def list_update_swap)
    have "hole lt a i j (elems ?s)" using Suc.prems True asym[OF lt] unfolding hole_def e
      by (auto simp: nth_list_swap)
    then have IH: "sorted_rng lt a (Suc i) (elems (insertionSort_shift D a j ?s))
      \<and> rearr a (Suc i) (elems ?s) (elems (insertionSort_shift D a j ?s))
      \<and> same_order lt (elems ?s) (elems (insertionSort_shift D a j ?s))"
      using Suc.prems True by (intro Suc.IH) (auto simp: e)
    have "rearr a (Suc i) (elems s) (elems ?s)" unfolding e using Suc.prems True by (intro rearr_swap) auto
    moreover have "same_order lt (elems s) (elems ?s)" unfolding e using Suc.prems lt by (intro same_order_adjacent) auto
    moreover have "insertionSort_shift D a (Suc j) s = insertionSort_shift D a j ?s"
      using True by (subst insertionSort_shift.simps) simp
    ultimately show ?thesis using IH rearr_trans same_order_trans by metis
  next
    case False
    then have r: "insertionSort_shift D a (Suc j) s = s" by (subst insertionSort_shift.simps) auto
    have "\<not> lt (elems s ! q) (elems s ! p)" if pq: "a \<le> p" "p < q" "q < Suc i" for p q
    proof (cases "q = Suc j")
      case True
      then have "\<not> lt (elems s ! Suc j) (elems s ! j)" using False Suc.prems pq Less[of "Suc j" s j] by auto
      moreover have "p = j \<or> \<not> lt (elems s ! j) (elems s ! p)" using Suc.prems pq True by (auto simp: hole_def)
      ultimately show ?thesis using True le_trans by blast
    next
      case F: False
      then show ?thesis using Suc.prems pq by (cases "p = Suc j") (auto simp: hole_def)
    qed
    then show ?thesis by (simp add: r sorted_rng_def)
  qed
qed

lemma hole_end: "sorted_rng lt a i xs \<Longrightarrow> hole lt a i i xs"
  by (auto simp: hole_def sorted_rng_def)

lemma insertionSort_loop_spec:
  assumes "sorted_rng lt a i (elems s)" "a \<le> i" "b \<le> length (elems s)" "i \<le> max b (Suc a)"
  shows "sorted_rng lt a b (elems (insertionSort_loop D a b i s))
    \<and> rearr a b (elems s) (elems (insertionSort_loop D a b i s))
    \<and> same_order lt (elems s) (elems (insertionSort_loop D a b i s))"
  using assms
proof (induction "b - i" arbitrary: i s)
  case 0
  then have "insertionSort_loop D a b i s = s" by (subst insertionSort_loop.simps) simp
  then show ?case using 0 by (auto intro: sorted_rng_sub)
next
  case (Suc n)
  let ?s = "insertionSort_shift D a i s"
  have i: "i < b" using Suc by simp
  have S: "sorted_rng lt a (Suc i) (elems ?s)" "rearr a (Suc i) (elems s) (elems ?s)" "same_order lt (elems s) (elems ?s)"
    using insertionSort_shift_spec[OF hole_end[OF Suc.prems(1)] Suc.prems(2)] i Suc.prems by auto
  have r: "rearr a b (elems s) (elems ?s)" using rearr_mono[OF S(2)] i by simp
  have "insertionSort_loop D a b i s = insertionSort_loop D a b (Suc i) ?s"
    using i by (subst insertionSort_loop.simps) simp
  moreover have "sorted_rng lt a b (elems (insertionSort_loop D a b (Suc i) ?s))
    \<and> rearr a b (elems ?s) (elems (insertionSort_loop D a b (Suc i) ?s))
    \<and> same_order lt (elems ?s) (elems (insertionSort_loop D a b (Suc i) ?s))"
    using Suc i S rearr_length[OF r] by (intro Suc.hyps(1)) auto
  ultimately show ?case using rearr_trans[OF r] same_order_trans[OF S(3)] by simp
qed

lemma insertionSort_spec:
  assumes "b \<le> length (elems s)"
  shows "sorted_rng lt a b (elems (insertionSort D s a b))" "rearr a b (elems s) (elems (insertionSort D s a b))"
    "same_order lt (elems s) (elems (insertionSort D s a b))"
  using insertionSort_loop_spec[of a "a + 1" s b] assms by (simp_all add: insertionSort_def)
end

section \<open>Heap sort\<close>

text \<open>Sifting down in a heap of any size; \<open>siftDown\<close> is this while twice the size is an \<open>int\<close>.\<close>

function sift :: "'s Interface \<Rightarrow> 's \<Rightarrow> nat \<Rightarrow> nat \<Rightarrow> nat \<Rightarrow> 's" where
  "sift D s root hi first =
     (let child = 2 * root + 1 in
      if hi \<le> child then s
      else
        let child = (if child + 1 < hi \<and> Less D s (first + child) (first + child + 1)
                     then child + 1 else child) in
        if \<not> Less D s (first + root) (first + child) then s
        else sift D (Swap D s (first + root) (first + child)) child hi first)"
  by pat_completeness auto
termination by (relation "measure (\<lambda>(D, s, root, hi, first). hi - root)") auto

declare sift.simps [simp del]

lemma max_int_odd: "2 * n \<le> max_int w64 \<Longrightarrow> 2 * n + 1 \<le> max_int w64"
  by (cases w64) (simp_all add: max_int_def)

lemma max_int_large: "2147483647 \<le> max_int w64"
  by (cases w64) (simp_all add: max_int_def)

lemma siftDown_sift:
  assumes "2 * hi \<le> max_int w64" and "root \<le> hi"
  shows "siftDown w64 D s root hi f = Some (sift D s root hi f)"
  using assms
proof (induction D s root hi f rule: sift.induct)
  case (1 D s root hi f)
  have "2 * root \<le> max_int w64" using "1.prems" by linarith
  from max_int_odd [OF this] have m: "\<not> max_int w64 < 2 * root + 1" by simp
  define c where "c = (if 2 * root + 1 + 1 < hi \<and> Less D s (f + (2 * root + 1)) (f + (2 * root + 1) + 1)
                     then 2 * root + 1 + 1 else 2 * root + 1)"
  show ?case
  proof (cases "hi \<le> 2 * root + 1")
    case True
    then show ?thesis using m by (simp add: siftDown.simps [of w64 D s root hi f] sift.simps [of D s root hi f] Let_def)
  next
    case False
    then have "c \<le> hi" by (simp add: c_def)
    then have IH: "\<not> \<not> Less D s (f + root) (f + c) \<Longrightarrow> siftDown w64 D (Swap D s (f + root) (f + c)) c hi f
        = Some (sift D (Swap D s (f + root) (f + c)) c hi f)"
      using "1.IH" [OF refl False c_def] "1.prems"(1) by simp
    show ?thesis
      unfolding siftDown.simps [of w64 D s root hi f] sift.simps [of D s root hi f] Let_def c_def [symmetric]
      using IH m False by simp
  qed
qed

context sort_interface
begin

lemma sift_spec:
  assumes "heap_except lt f lo hi {root} (elems s)" "lo \<le> root" "f + hi \<le> length (elems s)"
    and "\<forall>p c. lo \<le> p \<and> (root = 2 * p + 1 \<or> root = 2 * p + 2) \<and> c < hi \<and> (c = 2 * root + 1 \<or> c = 2 * root + 2)
         \<longrightarrow> \<not> lt (elems s ! (f + p)) (elems s ! (f + c))"
  shows "heap_except lt f lo hi {} (elems (sift D s root hi f))
    \<and> rearr f (f + hi) (elems s) (elems (sift D s root hi f))"
  using assms
proof (induction "hi - root" arbitrary: root s rule: less_induct)
  case less
  let ?x = "\<lambda>k. elems s ! (f + k)"
  have L: "Less D s (f + i) (f + j) = lt (?x i) (?x j)" if "i < hi" "j < hi" for i j
    using that less.prems(3) by (intro Less) auto
  define m where "m = (if 2 * root + 2 < hi \<and> Less D s (f + (2 * root + 1)) (f + (2 * root + 1) + 1) then 2 * root + 2 else 2 * root + 1)"
  show ?case
  proof (cases "hi \<le> 2 * root + 1")
    case True
    then have "sift D s root hi f = s" by (subst sift.simps) (simp add: Let_def)
    moreover have "heap_except lt f lo hi {} (elems s)"
      unfolding heap_except_def
    proof (intro allI impI, elim conjE)
      fix i c assume c: "lo \<le> i" "i \<notin> {}" "c < hi" "c = 2 * i + 1 \<or> c = 2 * i + 2"
      then have "i \<noteq> root" using True by auto
      then show "\<not> lt (?x i) (?x c)" using less.prems(1) c unfolding heap_except_def by blast
    qed
    ultimately show ?thesis by simp
  next
    case False
    have m: "m = 2 * root + 1 \<or> m = 2 * root + 2" "m < hi" "root < m" using False by (auto simp: m_def)
    have max: "\<not> lt (?x m) (?x c)" if "c < hi" "c = 2 * root + 1 \<or> c = 2 * root + 2" for c
      using that L[of "2 * root + 1" "2 * root + 2"] False asym by (auto simp: m_def)
    have eq: "sift D s root hi f = (if \<not> lt (?x root) (?x m) then s else sift D (Swap D s (f + root) (f + m)) m hi f)"
    proof -
      have "(if 2 * root + 1 + 1 < hi \<and> Less D s (f + (2 * root + 1)) (f + (2 * root + 1) + 1)
          then 2 * root + 1 + 1 else 2 * root + 1) = m" by (simp add: m_def)
      then show ?thesis using False L[of root m] m
        by (subst sift.simps) (simp only: Let_def if_False)
    qed
    show ?thesis
    proof (cases "lt (?x root) (?x m)")
      case F: False
      then have "\<not> lt (?x root) (?x c)" if "c < hi" "c = 2 * root + 1 \<or> c = 2 * root + 2" for c
        using max[OF that] le_trans by blast
      then have "heap_except lt f lo hi {} (elems s)" using less.prems(1) unfolding heap_except_def by blast
      then show ?thesis using F by (simp add: eq)
    next
      case T: True
      let ?s = "Swap D s (f + root) (f + m)"
      have e: "elems ?s = list_swap (elems s) (f + root) (f + m)" using m less.prems(3) by (intro Swap) auto
      have y: "elems ?s ! (f + k) = (if k = m then ?x root else if k = root then ?x m else ?x k)" for k
        using m less.prems(3) by (simp add: e nth_list_swap)
      have 1: "heap_except lt f lo hi {m} (elems ?s)"
        unfolding heap_except_def y
      proof (intro allI impI, elim conjE)
        fix i c assume c: "lo \<le> i" "i \<notin> {m}" "c < hi" "c = 2 * i + 1 \<or> c = 2 * i + 2"
        have cm: "c = m \<Longrightarrow> i = root" using c m by auto
        show "\<not> lt (if i = m then ?x root else if i = root then ?x m else ?x i)
            (if c = m then ?x root else if c = root then ?x m else ?x c)"
        proof (cases "i = root")
          case True
          then have "c \<noteq> root" "i \<noteq> m" using c m by auto
          then show ?thesis using True T max[OF c(3)] c(4) asym by simp
        next
          case False
          then have "c \<noteq> m" using cm by blast
          moreover have "\<not> lt (?x i) (?x m)" if "c = root" using less.prems(4) c that m by blast
          moreover have "\<not> lt (?x i) (?x c)" using less.prems(1) False c unfolding heap_except_def by blast
          ultimately show ?thesis using False c(2) by simp
        qed
      qed
      have 2: "\<forall>p c. lo \<le> p \<and> (m = 2 * p + 1 \<or> m = 2 * p + 2) \<and> c < hi \<and> (c = 2 * m + 1 \<or> c = 2 * m + 2)
         \<longrightarrow> \<not> lt (elems ?s ! (f + p)) (elems ?s ! (f + c))"
      proof (intro allI impI, elim conjE)
        fix p c assume c: "lo \<le> p" "m = 2 * p + 1 \<or> m = 2 * p + 2" "c < hi" "c = 2 * m + 1 \<or> c = 2 * m + 2"
        then have "p = root" using m by auto
        moreover have "c \<noteq> m" "c \<noteq> root" using c m by auto
        moreover have "lo \<le> m" "m \<notin> {root}" using less.prems(2) m by auto
        then have "\<not> lt (?x m) (?x c)" using less.prems(1) c unfolding heap_except_def by blast
        ultimately show "\<not> lt (elems ?s ! (f + p)) (elems ?s ! (f + c))" using m by (simp add: y)
      qed
      have r: "rearr f (f + hi) (elems s) (elems ?s)" unfolding e using m less.prems(3) by (intro rearr_swap) auto
      have "heap_except lt f lo hi {} (elems (sift D ?s m hi f)) \<and> rearr f (f + hi) (elems ?s) (elems (sift D ?s m hi f))"
        by (rule less.hyps[OF _ 1 _ _ 2]) (use m less.prems(2,3) rearr_length[OF r] in simp_all)
      then show ?thesis using T rearr_trans[OF r] by (simp add: eq)
    qed
  qed
qed

lemma heapSort_build_spec:
  assumes "heap_except lt f (Suc i) hi {} (elems s)" "f + hi \<le> length (elems s)" "2 * hi \<le> max_int w64" "i \<le> hi"
  shows "\<exists>t. heapSort_build w64 D hi f i s = Some t \<and> heap_except lt f 0 hi {} (elems t) \<and> rearr f (f + hi) (elems s) (elems t)"
  using assms
proof (induction i arbitrary: s)
  case 0
  then show ?case using sift_spec[of f 0 hi 0 s] siftDown_sift[of hi w64 0 D s f] by (auto simp: heap_except_def Suc_le_eq)
next
  case (Suc i)
  have "heap_except lt f (Suc i) hi {Suc i} (elems s)"
    using Suc.prems(1) by (auto simp: heap_except_def le_Suc_eq)
  moreover have "\<forall>p c. Suc i \<le> p \<and> (Suc i = 2 * p + 1 \<or> Suc i = 2 * p + 2) \<and> c < hi \<and> (c = 2 * Suc i + 1 \<or> c = 2 * Suc i + 2)
         \<longrightarrow> \<not> lt (elems s ! (f + p)) (elems s ! (f + c))" by auto
  ultimately have s: "heap_except lt f (Suc i) hi {} (elems (sift D s (Suc i) hi f))"
    "rearr f (f + hi) (elems s) (elems (sift D s (Suc i) hi f))"
    using sift_spec[of f "Suc i" hi "Suc i" s] Suc.prems by blast+
  have "\<exists>t. heapSort_build w64 D hi f i (sift D s (Suc i) hi f) = Some t \<and> heap_except lt f 0 hi {} (elems t)
      \<and> rearr f (f + hi) (elems (sift D s (Suc i) hi f)) (elems t)"
    by (rule Suc.IH[OF s(1)]) (use rearr_length[OF s(2)] Suc.prems in simp_all)
  then obtain t where "heapSort_build w64 D hi f i (sift D s (Suc i) hi f) = Some t" "heap_except lt f 0 hi {} (elems t)"
      "rearr f (f + hi) (elems (sift D s (Suc i) hi f)) (elems t)" by blast
  then show ?case using siftDown_sift[OF Suc.prems(3,4), of D s f] rearr_trans[OF s(2)] by simp
qed

lemma heap_max:
  assumes "heap_except lt f 0 hi {} xs" "p < hi"
  shows "\<not> lt (xs ! f) (xs ! (f + p))"
  using assms(2)
proof (induction p rule: less_induct)
  case (less p)
  show ?case
  proof (cases "p = 0")
    case False
    define q where "q = (p - 1) div 2"
    have q: "q < p" "p = 2 * q + 1 \<or> p = 2 * q + 2" using False unfolding q_def by linarith+
    then have "\<not> lt (xs ! (f + q)) (xs ! (f + p))" using assms(1) less.prems by (auto simp: heap_except_def)
    moreover have "\<not> lt (xs ! f) (xs ! (f + q))" using less.IH[of q] q less.prems by simp
    ultimately show ?thesis using le_trans by blast
  qed simp
qed

lemma heapSort_pop_spec:
  assumes "heap_except lt f 0 k {} (elems s)" "k \<le> n" "f + n \<le> length (elems s)"
    "sorted_rng lt (f + k) (f + n) (elems s)"
    "\<forall>p q. p < k \<and> k \<le> q \<and> q < n \<longrightarrow> \<not> lt (elems s ! (f + q)) (elems s ! (f + p))"
    "2 * n \<le> max_int w64"
  shows "\<exists>t. heapSort_pop w64 D f k s = Some t \<and> sorted_rng lt f (f + n) (elems t) \<and> rearr f (f + n) (elems s) (elems t)"
  using assms
proof (induction k arbitrary: s)
  case (Suc i)
  let ?s = "Swap D s f (f + i)"
  let ?t = "sift D ?s 0 i f"
  have e: "elems ?s = list_swap (elems s) f (f + i)" using Suc.prems by (intro Swap) auto
  have r1: "rearr f (f + Suc i) (elems s) (elems ?s)" unfolding e using Suc.prems by (intro rearr_swap) auto
  have y: "elems ?s ! (f + k) = (if k = i then elems s ! f else if k = 0 then elems s ! (f + i) else elems s ! (f + k))" for k
    using Suc.prems by (simp add: e nth_list_swap)
  have "heap_except lt f 0 i {0} (elems ?s)" using Suc.prems(1) unfolding heap_except_def y by auto
  then have t: "heap_except lt f 0 i {} (elems ?t)" "rearr f (f + i) (elems ?s) (elems ?t)"
    using sift_spec[of f 0 i 0 ?s] Suc.prems(2,3) rearr_length[OF r1] by simp_all
  have len: "length (elems ?t) = length (elems s)" using rearr_length[OF r1] rearr_length[OF t(2)] by simp
  have hi: "elems ?t ! (f + q) = (if q = i then elems s ! f else elems s ! (f + q))" if "i \<le> q" "q < n" for q
    using rearr_nth[OF t(2), of "f + q"] that Suc.prems rearr_length[OF r1] by (auto simp: y)
  have lo: "\<not> lt (elems s ! f) (elems ?t ! (f + p))" if "p < i" for p
  proof (rule rearr_all[OF t(2), of "\<lambda>v. \<not> lt (elems s ! f) v" "f + p"])
    show "\<forall>k. f \<le> k \<and> k < f + i \<longrightarrow> \<not> lt (elems s ! f) (elems ?s ! k)"
    proof (intro allI impI)
      fix k assume "f \<le> k \<and> k < f + i"
      then have "k = f + (k - f)" "k - f < i" by auto
      then obtain d where "k = f + d" "d < i" by blast
      then show "\<not> lt (elems s ! f) (elems ?s ! k)"
        using heap_max[OF Suc.prems(1), of d] heap_max[OF Suc.prems(1), of i] by (auto simp: y)
    qed
  qed (use that Suc.prems rearr_length[OF r1] in auto)
  have up: "\<not> lt (elems s ! (f + q)) (elems ?t ! (f + p))" if "p < i" "Suc i \<le> q" "q < n" for p q
  proof -
    have "\<not> lt (elems s ! (f + q)) (elems s ! f)" using Suc.prems(5) that by (metis add_0_right zero_less_Suc)
    then show ?thesis using lo[OF that(1)] le_trans by blast
  qed
  have srt: "sorted_rng lt (f + i) (f + n) (elems ?t)"
    unfolding sorted_rng_def
  proof (intro allI impI, elim conjE)
    fix u v assume uv: "f + i \<le> u" "u < v" "v < f + n"
    define p q where "p = u - f" and "q = v - f"
    then have pq: "u = f + p" "v = f + q" "i \<le> p" "p < q" "q < n" using uv by auto
    have "p = i \<Longrightarrow> \<not> lt (elems s ! (f + q)) (elems s ! f)"
      using Suc.prems(5) pq by (metis Suc_leI add_0_right zero_less_Suc)
    moreover have "p \<noteq> i \<Longrightarrow> \<not> lt (elems s ! (f + q)) (elems s ! (f + p))"
      using Suc.prems(4) pq by (auto simp: sorted_rng_def)
    ultimately show "\<not> lt (elems ?t ! v) (elems ?t ! u)" using pq by (simp add: hi)
  qed
  have "\<forall>p q. p < i \<and> i \<le> q \<and> q < n \<longrightarrow> \<not> lt (elems ?t ! (f + q)) (elems ?t ! (f + p))"
  proof (intro allI impI, elim conjE)
    fix p q assume "p < i" "i \<le> q" "q < n"
    then show "\<not> lt (elems ?t ! (f + q)) (elems ?t ! (f + p))"
      using lo[of p] up[of p q] by (cases "q = i") (simp_all add: hi)
  qed
  then have IH: "\<exists>u. heapSort_pop w64 D f i ?t = Some u \<and> sorted_rng lt f (f + n) (elems u) \<and> rearr f (f + n) (elems ?t) (elems u)"
    using Suc.prems len by (intro Suc.IH t srt) auto
  have "rearr f (f + n) (elems s) (elems ?t)"
    using rearr_trans[OF rearr_mono[OF r1, of f "f + n"] rearr_mono[OF t(2), of f "f + n"]] Suc.prems by simp
  then have "rearr f (f + n) (elems s) (elems u)" if "rearr f (f + n) (elems ?t) (elems u)" for u
    using that by (rule rearr_trans)
  moreover have "siftDown w64 D ?s 0 i f = Some ?t" using Suc.prems(2,6) by (intro siftDown_sift) simp_all
  ultimately show ?case using IH by auto
qed simp

lemma heapSort_spec:
  assumes "a \<le> b" "b \<le> length (elems s)" "2 * (b - a) \<le> max_int w64"
  shows "\<exists>t. heapSort w64 D s a b = Some t \<and> sorted_rng lt a b (elems t) \<and> rearr a b (elems s) (elems t)"
proof -
  define n where "n = b - a"
  have b: "b = a + n" using assms by (simp add: n_def)
  have "heap_except lt a (Suc ((n - 1) div 2)) n {} (elems s)" by (auto simp: heap_except_def)
  moreover have "(n - 1) div 2 \<le> n" by linarith
  ultimately obtain u where u: "heapSort_build w64 D n a ((n - 1) div 2) s = Some u" "heap_except lt a 0 n {} (elems u)"
      "rearr a (a + n) (elems s) (elems u)"
    using heapSort_build_spec[of a "(n - 1) div 2" n s w64] assms b by auto
  have "\<exists>t. heapSort_pop w64 D a n u = Some t \<and> sorted_rng lt a (a + n) (elems t) \<and> rearr a (a + n) (elems u) (elems t)"
    using assms b rearr_length[OF u(3)] by (intro heapSort_pop_spec u(2)) auto
  then obtain t where "heapSort_pop w64 D a n u = Some t" "sorted_rng lt a (a + n) (elems t)" "rearr a (a + n) (elems u) (elems t)"
    by blast
  then show ?thesis using u(1) rearr_trans[OF u(3)] by (simp add: heapSort_def b)
qed
end

end
