(* ===== verification/Sort_Pdq.thy ===== *)
theory Sort_Pdq
  imports Sort_Interface
begin

text \<open>
  The pattern-defeating quicksort: the scans and partitions, the partial insertion sort (its left
  shift runs down to index 1 and is stopped by the element before the range), the pivot choice, the
  pseudo-random pattern breaking, and the main loop, all for an arbitrary \<open>sort_interface\<close>.
\<close>

section \<open>Scans and partitions\<close>

lemma scan_up_all: "i \<le> k \<Longrightarrow> k < scan_up p i j \<Longrightarrow> p k"
proof (induction p i j rule: scan_up.induct)
  case (1 p i j)
  show ?case
  proof (cases "i \<le> j \<and> p i")
    case True
    then show ?thesis using 1 by (cases "i = k") (auto simp: scan_up.simps [of p i j])
  qed (use 1 in \<open>auto simp: scan_up.simps [of p i j] split: if_splits\<close>)
qed

lemma scan_down_all: "scan_down p i j < k \<Longrightarrow> k \<le> j \<Longrightarrow> p k"
  by (induction j) (auto split: if_splits simp: le_Suc_eq)

text \<open>Both scans of one round: where they stop and what they passed.\<close>

lemma scans_round:
  assumes "0 < i" "i \<le> j + 1" "i' = scan_up p i j" "j' = scan_down (\<lambda>k. \<not> p k) i' j"
  shows "i \<le> i'" "i' \<le> j + 1" "j' \<le> j" "\<And>k. i \<le> k \<Longrightarrow> k < i' \<Longrightarrow> p k" "\<And>k. j' < k \<Longrightarrow> k \<le> j \<Longrightarrow> \<not> p k"
    "j' < i' \<Longrightarrow> j' + 1 = i'" "\<not> j' < i' \<Longrightarrow> i' < j' \<and> \<not> p i' \<and> p j'"
proof -
  have b: "i \<le> i'" "i' \<le> max i (j + 1)" "j' \<le> j" "min j (i' - 1) \<le> j'"
    using scan_up_bounds [of i p j] scan_down_bounds [of "\<lambda>k. \<not> p k" i' j] assms by auto
  show "i \<le> i'" "j' \<le> j" using b by auto
  show i': "i' \<le> j + 1" using b assms by simp
  show "p k" if "i \<le> k" "k < i'" for k using scan_up_all that assms by blast
  show "\<not> p k" if "j' < k" "k \<le> j" for k using scan_down_all[of "\<lambda>k. \<not> p k"] that assms by blast
  show "j' + 1 = i'" if "j' < i'" using b i' assms that by auto
  show "i' < j' \<and> \<not> p i' \<and> p j'" if n: "\<not> j' < i'"
  proof -
    have "\<not> p i'" using scan_up_stop[of p i j] assms n b by auto
    moreover have "p j'" using scan_down_stop[of i' "\<lambda>k. \<not> p k" j] assms n b by auto
    ultimately show ?thesis using n by (metis linorder_neqE_nat)
  qed
qed

context sort_interface
begin

text \<open>Everything in \<open>[a+1, i)\<close> satisfies \<open>p\<close> and everything in \<open>(j, b)\<close> does not.\<close>

lemma partition_rounds:
  fixes F :: "nat \<Rightarrow> nat \<Rightarrow> 's \<Rightarrow> nat \<times> 's" and out :: "nat \<Rightarrow> nat \<Rightarrow> nat" and P :: "'a \<Rightarrow> 'a \<Rightarrow> bool"
  assumes F: "\<And>i j s. F i j s = (let i' = scan_up (\<lambda>k. LP s k) i j; j' = scan_down (\<lambda>k. \<not> LP s k) i' j in
      if j' < i' then (out i' j', s) else F (i' + 1) (j' - 1) (Swap D s i' j'))"
    and LP: "\<And>s k. k < length (elems s) \<Longrightarrow> a < length (elems s) \<Longrightarrow> LP s k = P (elems s ! a) (elems s ! k)"
  assumes "a < i" "i \<le> j + 1" "j < b" "b \<le> length (elems s)"
    "\<forall>k. a < k \<and> k < i \<longrightarrow> P (elems s ! a) (elems s ! k)" "\<forall>k. j < k \<and> k < b \<longrightarrow> \<not> P (elems s ! a) (elems s ! k)"
  shows "\<exists>m s'. F i j s = (out m (m - 1), s') \<and> i \<le> m \<and> m \<le> b \<and> rearr (a + 1) b (elems s) (elems s')
    \<and> (\<forall>k. a < k \<and> k < m \<longrightarrow> P (elems s' ! a) (elems s' ! k)) \<and> (\<forall>k. m \<le> k \<and> k < b \<longrightarrow> \<not> P (elems s' ! a) (elems s' ! k))"
  using assms(3-)
proof (induction "j + 1 - i" arbitrary: i j s rule: less_induct)
  case less
  define i' where i': "i' = scan_up (\<lambda>k. LP s k) i j"
  define j' where j': "j' = scan_down (\<lambda>k. \<not> LP s k) i' j"
  have "0 < i" using less.prems by simp
  note R = scans_round[OF this less.prems(2) i' j']
  have Fi: "F i j s = (if j' < i' then (out i' j', s) else F (i' + 1) (j' - 1) (Swap D s i' j'))"
    by (subst F) (simp only: i' j' Let_def)
  have P: "LP s k = P (elems s ! a) (elems s ! k)" if "k < b" for k using LP[of k s] that less.prems by simp
  have up: "P (elems s ! a) (elems s ! k)" if "a < k" "k < i'" for k
    using less.prems(5) R(4)[of k] P[of k] that R(2) less.prems(3) by (cases "k < i") auto
  have dn: "\<not> P (elems s ! a) (elems s ! k)" if "j' < k" "k < b" for k
    using less.prems(6) R(5)[of k] P[of k] that by (cases "k \<le> j") auto
  show ?case
  proof (cases "j' < i'")
    case True
    then have "F i j s = (out i' (i' - 1), s)" using Fi R(6) by (metis add_diff_cancel_right')
    moreover have "i' \<le> b" using R(2) less.prems(3) by simp
    ultimately show ?thesis using R(1) R(6)[OF True] up dn by (intro exI[of _ i'] exI[of _ s]) auto
  next
    case False
    note F' = R(7)[OF False]
    let ?s = "Swap D s i' j'"
    have lt: "i' < b" "j' < b" "a < i'" "a < j'" using F' R(1,3) less.prems by auto
    have e: "elems ?s = list_swap (elems s) i' j'" using lt less.prems by (intro Swap) auto
    have nth: "elems ?s ! k = (if k = j' then elems s ! i' else if k = i' then elems s ! j' else elems s ! k)" for k
      using lt less.prems by (simp add: e nth_list_swap)
    have r: "rearr (a + 1) b (elems s) (elems ?s)" unfolding e using lt less.prems by (intro rearr_swap) auto
    have a: "elems ?s ! a = elems s ! a" using lt by (simp add: nth)
    have "\<exists>m s'. F (i' + 1) (j' - 1) ?s = (out m (m - 1), s') \<and> i' + 1 \<le> m \<and> m \<le> b \<and> rearr (a + 1) b (elems ?s) (elems s')
      \<and> (\<forall>k. a < k \<and> k < m \<longrightarrow> P (elems s' ! a) (elems s' ! k)) \<and> (\<forall>k. m \<le> k \<and> k < b \<longrightarrow> \<not> P (elems s' ! a) (elems s' ! k))"
    proof (rule less.hyps)
      show "j' - 1 + 1 - (i' + 1) < j + 1 - i" using F' R(1,3) by linarith
      show "\<forall>k. a < k \<and> k < i' + 1 \<longrightarrow> P (elems ?s ! a) (elems ?s ! k)"
        unfolding a using up P[of j'] F' lt by (auto simp: nth less_Suc_eq)
      show "\<forall>k. j' - 1 < k \<and> k < b \<longrightarrow> \<not> P (elems ?s ! a) (elems ?s ! k)"
        unfolding a using dn P[of i'] F' lt by (auto simp: nth)
    qed (use F' lt less.prems rearr_length[OF r] in auto)
    then obtain m s' where "F (i' + 1) (j' - 1) ?s = (out m (m - 1), s')" "i' + 1 \<le> m" "m \<le> b" "rearr (a + 1) b (elems ?s) (elems s')"
      "\<forall>k. a < k \<and> k < m \<longrightarrow> P (elems s' ! a) (elems s' ! k)" "\<forall>k. m \<le> k \<and> k < b \<longrightarrow> \<not> P (elems s' ! a) (elems s' ! k)" by blast
    then show ?thesis using Fi False rearr_trans[OF r] R(1) by (intro exI[of _ m] exI[of _ s']) auto
  qed
qed

lemma partition_loop_spec:
  assumes "a < i" "i \<le> j + 1" "j < b" "b \<le> length (elems s)"
    "\<forall>k. a < k \<and> k < i \<longrightarrow> lt (elems s ! k) (elems s ! a)" "\<forall>k. j < k \<and> k < b \<longrightarrow> \<not> lt (elems s ! k) (elems s ! a)"
  shows "\<exists>m s'. partition_loop D a i j s = (m - 1, s') \<and> i \<le> m \<and> m \<le> b \<and> rearr (a + 1) b (elems s) (elems s')
    \<and> (\<forall>k. a < k \<and> k < m \<longrightarrow> lt (elems s' ! k) (elems s' ! a)) \<and> (\<forall>k. m \<le> k \<and> k < b \<longrightarrow> \<not> lt (elems s' ! k) (elems s' ! a))"
proof (rule partition_rounds[where LP = "\<lambda>s k. Less D s k a" and out = "\<lambda>i j. j" and P = "\<lambda>x y. lt y x", OF _ _ assms])
  show "partition_loop D a i j s = (let i' = scan_up (\<lambda>k. Less D s k a) i j; j' = scan_down (\<lambda>k. \<not> Less D s k a) i' j in
      if j' < i' then (j', s) else partition_loop D a (i' + 1) (j' - 1) (Swap D s i' j'))" for i j s
    by (subst partition_loop.simps) (rule refl)
qed (rule Less)

lemma partitionEqual_loop_spec:
  assumes "a < i" "i \<le> j + 1" "j < b" "b \<le> length (elems s)"
    "\<forall>k. a < k \<and> k < i \<longrightarrow> \<not> lt (elems s ! a) (elems s ! k)" "\<forall>k. j < k \<and> k < b \<longrightarrow> lt (elems s ! a) (elems s ! k)"
  shows "\<exists>m s'. partitionEqual_loop D a i j s = (m, s') \<and> i \<le> m \<and> m \<le> b \<and> rearr (a + 1) b (elems s) (elems s')
    \<and> (\<forall>k. a < k \<and> k < m \<longrightarrow> \<not> lt (elems s' ! a) (elems s' ! k)) \<and> (\<forall>k. m \<le> k \<and> k < b \<longrightarrow> lt (elems s' ! a) (elems s' ! k))"
proof -
  have "\<exists>m s'. partitionEqual_loop D a i j s = ((\<lambda>i j. i) m (m - 1), s') \<and> i \<le> m \<and> m \<le> b \<and> rearr (a + 1) b (elems s) (elems s')
    \<and> (\<forall>k. a < k \<and> k < m \<longrightarrow> \<not> lt (elems s' ! a) (elems s' ! k)) \<and> (\<forall>k. m \<le> k \<and> k < b \<longrightarrow> \<not> \<not> lt (elems s' ! a) (elems s' ! k))"
  proof (rule partition_rounds[where LP = "\<lambda>s k. \<not> Less D s a k" and P = "\<lambda>x y. \<not> lt x y"])
    show "partitionEqual_loop D a i j s = (let i' = scan_up (\<lambda>k. \<not> Less D s a k) i j; j' = scan_down (\<lambda>k. \<not> \<not> Less D s a k) i' j in
        if j' < i' then ((\<lambda>i j. i) i' j', s) else partitionEqual_loop D a (i' + 1) (j' - 1) (Swap D s i' j'))" for i j s
      by (subst partitionEqual_loop.simps) (simp only: not_not)
  qed (use assms Less in auto)
  then show ?thesis by simp
qed

lemma sort_partition_spec:
  assumes "a + 1 < b" "b \<le> length (elems s)" "a \<le> pivot" "pivot < b"
  shows "\<exists>m q s'. sort_partition D s a b pivot = (m, q, s') \<and> a \<le> m \<and> m < b \<and> rearr a b (elems s) (elems s')
    \<and> (\<forall>k. a \<le> k \<and> k < m \<longrightarrow> lt (elems s' ! k) (elems s' ! m)) \<and> (\<forall>k. m < k \<and> k < b \<longrightarrow> \<not> lt (elems s' ! k) (elems s' ! m))"
proof -
  define t where "t = Swap D s a pivot"
  have r0: "rearr a b (elems s) (elems t)" unfolding t_def using assms by (subst Swap) (auto intro: rearr_swap)
  have len: "b \<le> length (elems t)" using rearr_length[OF r0] assms by simp
  define i' where i': "i' = scan_up (\<lambda>k. Less D t k a) (a + 1) (b - 1)"
  define j' where j': "j' = scan_down (\<lambda>k. \<not> Less D t k a) i' (b - 1)"
  have eq: "sort_partition D s a b pivot = (if j' < i' then (j', True, Swap D t j' a)
      else let (j, u) = partition_loop D a (i' + 1) (j' - 1) (Swap D t i' j') in (j, False, Swap D u j a))"
    by (simp only: sort_partition_def t_def i' j' Let_def)
  have *: "0 < a + 1" "a + 1 \<le> b - 1 + 1" using assms by auto
  note R = scans_round[OF * i' j']
  have L: "Less D t k a = lt (elems t ! k) (elems t ! a)" if "k < b" for k
    using that len assms by (intro Less) auto
  have "\<exists>m q u. sort_partition D s a b pivot = (m - 1, q, Swap D u (m - 1) a) \<and> a < m \<and> m \<le> b \<and> rearr (a + 1) b (elems t) (elems u)
    \<and> (\<forall>k. a < k \<and> k < m \<longrightarrow> lt (elems u ! k) (elems u ! a)) \<and> (\<forall>k. m \<le> k \<and> k < b \<longrightarrow> \<not> lt (elems u ! k) (elems u ! a))"
  proof (cases "j' < i'")
    case True
    have "sort_partition D s a b pivot = (i' - 1, True, Swap D t (i' - 1) a)"
      using True R(6)[OF True] by (auto simp: eq)
    moreover have "i' \<le> b" using R(2) assms by simp
    moreover have "\<forall>k. a < k \<and> k < i' \<longrightarrow> lt (elems t ! k) (elems t ! a)" using R(4) L calculation(2) by auto
    moreover have "\<forall>k. i' \<le> k \<and> k < b \<longrightarrow> \<not> lt (elems t ! k) (elems t ! a)" using R(5) R(6)[OF True] L by auto
    ultimately show ?thesis using R(1) by (intro exI[of _ i'] exI[of _ True] exI[of _ t]) auto
  next
    case False
    note F = R(7)[OF False]
    let ?t = "Swap D t i' j'"
    have ij: "a < i'" "i' < b" "j' < b" using F R(1,3) assms by auto
    have e: "elems ?t = list_swap (elems t) i' j'" using ij len by (intro Swap) auto
    have nth: "elems ?t ! k = (if k = j' then elems t ! i' else if k = i' then elems t ! j' else elems t ! k)" for k
      using ij len by (simp add: e nth_list_swap)
    have r: "rearr (a + 1) b (elems t) (elems ?t)" unfolding e using ij F len by (intro rearr_swap) auto
    have "\<exists>m u. partition_loop D a (i' + 1) (j' - 1) ?t = (m - 1, u) \<and> i' + 1 \<le> m \<and> m \<le> b \<and> rearr (a + 1) b (elems ?t) (elems u)
      \<and> (\<forall>k. a < k \<and> k < m \<longrightarrow> lt (elems u ! k) (elems u ! a)) \<and> (\<forall>k. m \<le> k \<and> k < b \<longrightarrow> \<not> lt (elems u ! k) (elems u ! a))"
    proof (rule partition_loop_spec)
      show "\<forall>k. a < k \<and> k < i' + 1 \<longrightarrow> lt (elems ?t ! k) (elems ?t ! a)"
        using R(4) L F ij by (auto simp: nth less_Suc_eq)
      show "\<forall>k. j' - 1 < k \<and> k < b \<longrightarrow> \<not> lt (elems ?t ! k) (elems ?t ! a)"
        using R(5) L F ij by (auto simp: nth)
    qed (use F ij len rearr_length[OF r] in auto)
    then obtain m u where u: "partition_loop D a (i' + 1) (j' - 1) ?t = (m - 1, u)" "i' + 1 \<le> m" "m \<le> b" "rearr (a + 1) b (elems ?t) (elems u)"
      "\<forall>k. a < k \<and> k < m \<longrightarrow> lt (elems u ! k) (elems u ! a)" "\<forall>k. m \<le> k \<and> k < b \<longrightarrow> \<not> lt (elems u ! k) (elems u ! a)" by blast
    have "sort_partition D s a b pivot = (m - 1, False, Swap D u (m - 1) a)"
      using False u(1) by (simp add: eq)
    then show ?thesis using u ij rearr_trans[OF r u(4)] by (intro exI[of _ m] exI[of _ False] exI[of _ u]) auto
  qed
  then obtain m q u where u: "sort_partition D s a b pivot = (m - 1, q, Swap D u (m - 1) a)" "a < m" "m \<le> b" "rearr (a + 1) b (elems t) (elems u)"
    "\<forall>k. a < k \<and> k < m \<longrightarrow> lt (elems u ! k) (elems u ! a)" "\<forall>k. m \<le> k \<and> k < b \<longrightarrow> \<not> lt (elems u ! k) (elems u ! a)" by blast
  let ?u = "Swap D u (m - 1) a"
  have lu: "length (elems u) = length (elems t)" using rearr_length[OF u(4)] .
  have e: "elems ?u = list_swap (elems u) (m - 1) a" using u len lu by (intro Swap) auto
  have nth: "elems ?u ! k = (if k = a then elems u ! (m - 1) else if k = m - 1 then elems u ! a else elems u ! k)" for k
    unfolding e using u len lu by (subst nth_list_swap) auto
  have r: "rearr a b (elems u) (elems ?u)" unfolding e using u len lu by (intro rearr_swap) auto
  have "rearr a b (elems s) (elems ?u)"
    using rearr_trans[OF rearr_trans[OF r0 rearr_mono[OF u(4)]] r] by simp
  moreover have "\<forall>k. a \<le> k \<and> k < m - 1 \<longrightarrow> lt (elems ?u ! k) (elems ?u ! (m - 1))"
    unfolding nth using u by auto
  moreover have "\<forall>k. m - 1 < k \<and> k < b \<longrightarrow> \<not> lt (elems ?u ! k) (elems ?u ! (m - 1))"
    unfolding nth using u by auto
  ultimately show ?thesis using u by (intro exI[of _ "m - 1"] exI[of _ q] exI[of _ ?u]) auto
qed

lemma partitionEqual_spec:
  assumes "a + 1 < b" "b \<le> length (elems s)" "a \<le> pivot" "pivot < b"
    and min: "\<forall>k. a \<le> k \<and> k < b \<longrightarrow> \<not> lt (elems s ! k) (elems s ! pivot)"
  shows "\<exists>m s'. partitionEqual D s a b pivot = (m, s') \<and> a < m \<and> m \<le> b \<and> rearr a b (elems s) (elems s')
    \<and> (\<forall>k k'. a \<le> k \<and> k < m \<and> a \<le> k' \<and> k' < b \<longrightarrow> \<not> lt (elems s' ! k') (elems s' ! k))"
proof -
  define t where "t = Swap D s a pivot"
  have e: "elems t = list_swap (elems s) a pivot" unfolding t_def using assms by (intro Swap) auto
  have r0: "rearr a b (elems s) (elems t)" unfolding e using assms by (intro rearr_swap) auto
  have len: "length (elems t) = length (elems s)" using rearr_length[OF r0] .
  have ta: "elems t ! a = elems s ! pivot" using assms by (simp add: e nth_list_swap)
  have "\<exists>m u. partitionEqual_loop D a (a + 1) (b - 1) t = (m, u) \<and> a + 1 \<le> m \<and> m \<le> b \<and> rearr (a + 1) b (elems t) (elems u)
    \<and> (\<forall>k. a < k \<and> k < m \<longrightarrow> \<not> lt (elems u ! a) (elems u ! k)) \<and> (\<forall>k. m \<le> k \<and> k < b \<longrightarrow> lt (elems u ! a) (elems u ! k))"
    using assms len by (intro partitionEqual_loop_spec) auto
  then obtain m u where u: "partitionEqual_loop D a (a + 1) (b - 1) t = (m, u)" "a + 1 \<le> m" "m \<le> b" "rearr (a + 1) b (elems t) (elems u)"
    "\<forall>k. a < k \<and> k < m \<longrightarrow> \<not> lt (elems u ! a) (elems u ! k)" by blast
  have ua: "elems u ! a = elems s ! pivot" using rearr_nth[OF u(4), of a] ta assms len by simp
  have r: "rearr a b (elems s) (elems u)" using rearr_trans[OF r0 rearr_mono[OF u(4)]] by simp
  have lo: "\<not> lt (elems u ! k) (elems u ! a)" if "a \<le> k" "k < b" for k
    using rearr_all[OF r, of "\<lambda>v. \<not> lt v (elems s ! pivot)" k] assms that ua by auto
  have hi: "\<not> lt (elems u ! a) (elems u ! k)" if "a \<le> k" "k < m" for k using u(5) that by (cases "k = a") auto
  have "\<not> lt (elems u ! k') (elems u ! k)" if "a \<le> k" "k < m" "a \<le> k'" "k' < b" for k k'
    using lo[of k'] hi[of k] that le_trans by blast
  then show ?thesis using u r unfolding partitionEqual_def t_def[symmetric] by (intro exI[of _ m] exI[of _ u]) auto
qed
end

section \<open>Pivot choice and partial insertion sort\<close>

lemma sorted_rng_extend:
  assumes "sorted_rng lt a i xs" "a < i" "\<not> lt (xs ! i) (xs ! (i - 1))"
    and trans: "\<And>x y z. \<not> lt y x \<Longrightarrow> \<not> lt z y \<Longrightarrow> \<not> lt z x"
  shows "sorted_rng lt a (Suc i) xs"
  unfolding sorted_rng_def
proof (intro allI impI, elim conjE)
  fix p q assume pq: "a \<le> p" "p < q" "q < Suc i"
  show "\<not> lt (xs ! q) (xs ! p)"
  proof (cases "q = i \<and> p \<noteq> i - 1")
    case True
    then have "p < i - 1" using pq by linarith
    then have "\<not> lt (xs ! (i - 1)) (xs ! p)" using sorted_rngD[OF assms(1), of p "i - 1"] pq by simp
    then show ?thesis using True assms(3) trans by blast
  next
    case False
    then show ?thesis using assms(3) sorted_rngD[OF assms(1), of p q] pq by (cases "q = i") auto
  qed
qed

lemma sort_median_in: "fst (sort_median D s a b c n) \<in> {a, b, c}"
  by (simp add: sort_median_def order2_def Let_def)

lemma medianAdjacent_in: "fst (medianAdjacent D s a n) \<in> {a - 1, a, a + 1}"
  unfolding medianAdjacent_def by (rule sort_median_in)

lemma choosePivot_range:
  assumes "a + 8 \<le> b"
  shows "a \<le> fst (choosePivot D s a b)" "fst (choosePivot D s a b) < b"
proof -
  define l where "l = b - a"
  have l: "8 \<le> l" using assms by (simp add: l_def)
  let ?i = "a + l div 4 * 1" let ?j = "a + l div 4 * 2" let ?k = "a + l div 4 * 3"
  have "fst (choosePivot D s a b) \<in> (if 50 \<le> l then {?i - 1, ?i, ?i + 1, ?j - 1, ?j, ?j + 1, ?k - 1, ?k, ?k + 1} else {?i, ?j, ?k})"
  proof (cases "50 \<le> l")
    case True
    obtain i n where 1: "medianAdjacent D s ?i 0 = (i, n)" by fastforce
    obtain j n' where 2: "medianAdjacent D s ?j n = (j, n')" by fastforce
    obtain k n'' where 3: "medianAdjacent D s ?k n' = (k, n'')" by fastforce
    obtain r n3 where 4: "sort_median D s i j k n'' = (r, n3)" by fastforce
    have "i \<in> {?i - 1, ?i, ?i + 1}" "j \<in> {?j - 1, ?j, ?j + 1}" "k \<in> {?k - 1, ?k, ?k + 1}" "r \<in> {i, j, k}"
      using medianAdjacent_in[of D s ?i 0] medianAdjacent_in[of D s ?j n] medianAdjacent_in[of D s ?k n'] sort_median_in[of D s i j k n'']
      unfolding 1 2 3 4 fst_conv by blast+
    moreover have "fst (choosePivot D s a b) = r"
      using True l unfolding choosePivot_def Let_def l_def[symmetric] 1 2 3 4 by (simp add: 1 2 3 4)
    ultimately show ?thesis using True by auto
  next
    case False
    obtain r n3 where 4: "sort_median D s ?i ?j ?k 0 = (r, n3)" by fastforce
    have "r \<in> {?i, ?j, ?k}" using sort_median_in[of D s ?i ?j ?k 0] unfolding 4 fst_conv .
    moreover have "fst (choosePivot D s a b) = r"
      using False l unfolding choosePivot_def Let_def l_def[symmetric] by (simp add: 4[simplified])
    ultimately show ?thesis using False by auto
  qed
  moreover have "?k + 1 < b" if "50 \<le> l" using that unfolding l_def by linarith
  moreover have "?k < b" "1 \<le> l div 4" using l unfolding l_def by linarith+
  ultimately show "a \<le> fst (choosePivot D s a b)" "fst (choosePivot D s a b) < b"
    by (auto split: if_splits)
qed

context sort_interface
begin

lemma shift_left_insertion:
  assumes "a \<le> j" "j < length (elems s)" "0 < a \<Longrightarrow> \<not> lt (elems s ! j) (elems s ! (a - 1))"
  shows "shift_left D j s = insertionSort_shift D a j s"
  using assms
proof (induction j arbitrary: s)
  case 0
  then show ?case by (subst insertionSort_shift.simps) simp
next
  case (Suc j)
  show ?case
  proof (cases "a = Suc j")
    case True
    then have "\<not> Less D s (Suc j) j" using Suc.prems Less[of "Suc j" s j] by simp
    then show ?thesis by (subst insertionSort_shift.simps) (simp add: True)
  next
    case False
    let ?s = "Swap D s (Suc j) j"
    have e: "elems ?s = list_swap (elems s) (Suc j) j" using Suc.prems by (intro Swap) auto
    have "shift_left D j ?s = insertionSort_shift D a j ?s"
      using Suc.prems False by (intro Suc.IH) (auto simp: e nth_list_swap)
    then show ?thesis using False Suc.prems by (subst insertionSort_shift.simps) simp
  qed
qed

lemma shift_right_rearr:
  assumes "i < j" "b \<le> length (elems s)"
  shows "rearr i b (elems s) (elems (shift_right D b j s))"
  using assms
proof (induction "b - j" arbitrary: j s)
  case 0
  then show ?case by (subst shift_right.simps) simp
next
  case (Suc n)
  let ?s = "Swap D s j (j - 1)"
  have "rearr i b (elems s) (elems ?s)" using Suc by (subst Swap) (auto intro!: rearr_swap)
  moreover then have "rearr i b (elems ?s) (elems (shift_right D b (j + 1) ?s))"
    using Suc.hyps(2) Suc.prems rearr_length by (intro Suc.hyps(1)) (auto dest: rearr_length)
  ultimately show ?case using rearr_trans by (subst shift_right.simps) auto
qed

lemma partialInsertionSort_scan_spec:
  assumes "sorted_rng lt a i (elems s)" "a < i" "b \<le> length (elems s)" "i \<le> b"
  shows "sorted_rng lt a (partialInsertionSort_scan D s b i) (elems s)
    \<and> i \<le> partialInsertionSort_scan D s b i \<and> partialInsertionSort_scan D s b i \<le> b"
  using assms
proof (induction "b - i" arbitrary: i)
  case 0
  then show ?case by (subst (1 2 3) partialInsertionSort_scan.simps) auto
next
  case (Suc n)
  show ?case
  proof (cases "Less D s i (i - 1)")
    case True
    then show ?thesis using Suc.prems by (subst (1 2 3) partialInsertionSort_scan.simps) auto
  next
    case False
    then have "\<not> lt (elems s ! i) (elems s ! (i - 1))" using Less[of i s "i - 1"] Suc by simp
    then have "sorted_rng lt a (i + 1) (elems s)" using sorted_rng_extend[OF Suc.prems(1,2)] le_trans by auto
    then have "sorted_rng lt a (partialInsertionSort_scan D s b (i + 1)) (elems s)
      \<and> i + 1 \<le> partialInsertionSort_scan D s b (i + 1) \<and> partialInsertionSort_scan D s b (i + 1) \<le> b"
      using Suc.hyps(2) Suc.prems by (intro Suc.hyps(1)) auto
    moreover have "partialInsertionSort_scan D s b i = partialInsertionSort_scan D s b (i + 1)"
      using Suc.hyps(2) False by (subst partialInsertionSort_scan.simps) auto
    ultimately show ?thesis by simp
  qed
qed

lemma partialInsertionSort_steps_spec:
  assumes "sorted_rng lt a i (elems s)" "a < i" "i \<le> b" "b \<le> length (elems s)"
    "0 < a \<Longrightarrow> \<forall>k. a \<le> k \<and> k < b \<longrightarrow> \<not> lt (elems s ! k) (elems s ! (a - 1))"
    "partialInsertionSort_steps D a b n i s = (r, s')"
  shows "rearr a b (elems s) (elems s') \<and> (r \<longrightarrow> sorted_rng lt a b (elems s'))"
  using assms
proof (induction n arbitrary: i s)
  case (Suc n)
  define k where "k = partialInsertionSort_scan D s b i"
  have k: "sorted_rng lt a k (elems s)" "i \<le> k" "k \<le> b"
    using partialInsertionSort_scan_spec[OF Suc.prems(1,2,4,3)] by (auto simp: k_def)
  show ?case
  proof (cases "k = b \<or> b - a < 50")
    case True
    then show ?thesis using Suc.prems(6) k by (auto simp: Let_def simp flip: k_def split: if_splits)
  next
    case False
    then have kb: "k < b" "a < k" using k Suc.prems by auto
    let ?s1 = "Swap D s k (k - 1)"
    define s2 where "s2 = (if 2 \<le> k - a then shift_left D (k - 1) ?s1 else ?s1)"
    define s3 where "s3 = (if 2 \<le> b - k then shift_right D b (k + 1) s2 else s2)"
    have eq: "partialInsertionSort_steps D a b n k s3 = (r, s')"
    proof -
      have "partialInsertionSort_steps D a b (Suc n) i s = (if k = b then (True, s) else if b - a < 50 then (False, s)
          else partialInsertionSort_steps D a b n k s3)"
        by (simp only: partialInsertionSort_steps.simps Let_def k_def s2_def s3_def)
      then show ?thesis using Suc.prems(6) False by simp
    qed
    have e1: "elems ?s1 = list_swap (elems s) k (k - 1)" using kb Suc.prems by (intro Swap) auto
    have r1: "rearr a (Suc k) (elems s) (elems ?s1)" unfolding e1 using kb Suc.prems by (intro rearr_swap) auto
    have sent: "0 < a \<Longrightarrow> \<not> lt (elems s ! k) (elems s ! (a - 1))" using Suc.prems(5) kb by auto
    have nth1: "elems ?s1 ! q = (if q = k - 1 then elems s ! k else if q = k then elems s ! (k - 1) else elems s ! q)" for q
      unfolding e1 using kb Suc.prems by (subst nth_list_swap) auto
    have srt1: "sorted_rng lt a (k - 1) (elems ?s1)"
    proof -
      have "elems ?s1 ! q = elems s ! q" if "a \<le> q" "q < k - 1" for q unfolding nth1 using that by auto
      then have "sorted_rng lt a (k - 1) (elems ?s1) = sorted_rng lt a (k - 1) (elems s)" by (rule sorted_rng_cong)
      then show ?thesis using sorted_rng_sub[OF k(1), of a "k - 1"] by simp
    qed
    have s2: "sorted_rng lt a k (elems s2) \<and> rearr a k (elems ?s1) (elems s2)"
    proof (cases "2 \<le> k - a")
      case True
      have "shift_left D (k - 1) ?s1 = insertionSort_shift D a (k - 1) ?s1"
      proof (rule shift_left_insertion)
        show "\<not> lt (elems ?s1 ! (k - 1)) (elems ?s1 ! (a - 1))" if "0 < a"
        proof -
          have "elems ?s1 ! (k - 1) = elems s ! k" "elems ?s1 ! (a - 1) = elems s ! (a - 1)"
            unfolding nth1 using that kb by auto
          then show ?thesis using sent that by simp
        qed
      qed (use kb Suc.prems rearr_length[OF r1] in auto)
      then have s2: "s2 = insertionSort_shift D a (k - 1) ?s1" using True by (simp only: s2_def if_True)
      have "Suc (k - 1) = k" "a \<le> k - 1" "k - 1 < length (elems ?s1)" using kb rearr_length[OF r1] Suc.prems by auto
      then show ?thesis using insertionSort_shift_spec[OF hole_end[OF srt1]] unfolding s2 by auto
    next
      case F: False
      then have "k = Suc a" using kb by simp
      then show ?thesis using F by (simp add: s2_def)
    qed
    have l2: "length (elems s2) = length (elems s)" using s2 r1 rearr_length by metis
    have r3: "rearr k b (elems s2) (elems s3)"
      unfolding s3_def using l2 Suc.prems by (auto intro!: shift_right_rearr)
    have srt3: "sorted_rng lt a k (elems s3)"
      using s2 rearr_nth[OF r3] kb l2 Suc.prems by (subst sorted_rng_cong[of a k _ "elems s2"]) auto
    have r: "rearr a b (elems s) (elems s3)"
      using rearr_trans[OF rearr_trans[OF rearr_mono[OF r1] rearr_mono[of a k _ _ a b]] rearr_mono[OF r3]] s2 kb by auto
    have sen3: "0 < a \<Longrightarrow> \<forall>q. a \<le> q \<and> q < b \<longrightarrow> \<not> lt (elems s3 ! q) (elems s3 ! (a - 1))"
      using rearr_all[OF r, of "\<lambda>v. \<not> lt v (elems s ! (a - 1))"] rearr_nth[OF r, of "a - 1"] Suc.prems kb by auto
    have "rearr a b (elems s3) (elems s') \<and> (r \<longrightarrow> sorted_rng lt a b (elems s'))"
      by (rule Suc.IH[OF srt3]) (use kb sen3 eq rearr_length[OF r] Suc.prems in auto)
    then show ?thesis using rearr_trans[OF r] by blast
  qed
qed simp

lemma reverseRange_rearr:
  assumes "b \<le> length (elems s)" "a < b"
  shows "rearr a b (elems s) (elems (reverseRange D s a b))"
proof -
  have "rearr a b (elems s) (elems (reverseRange_loop D i j s))" if "a \<le> i" "j < b" "b \<le> length (elems s)" for i j s
    using that
  proof (induction j arbitrary: i s rule: less_induct)
    case (less j)
    show ?case
    proof (cases "i < j")
      case True
      have "rearr a b (elems s) (elems (Swap D s i j))" using True less.prems by (subst Swap) (auto intro!: rearr_swap)
      moreover then have "rearr a b (elems (Swap D s i j)) (elems (reverseRange_loop D (i + 1) (j - 1) (Swap D s i j)))"
        using True less.prems by (intro less.IH) (auto dest: rearr_length)
      ultimately show ?thesis using True rearr_trans by (subst reverseRange_loop.simps) auto
    qed (subst reverseRange_loop.simps, simp)
  qed
  then show ?thesis using assms by (simp add: reverseRange_def)
qed
end

section \<open>Breaking patterns\<close>

lemma unat_and_le: "unat (x AND y) \<le> unat y" for x y :: "'a::len word"
  using word_and_le1 by (simp add: word_le_nat_alt)

lemma nextPowerOfTwo_unat:
  assumes "len < 2 ^ (if w64 then 63 else 31)"
  shows "unat (nextPowerOfTwo w64 len) = 2 ^ blen len"
proof -
  have L: "blen len \<le> (if w64 then 63 else 31)"
    using assms unfolding blen_Least by (intro Least_le)
  have l64: "len < 2 ^ 64" using assms by (auto split: if_splits)
  have u: "unat (of_nat len :: uint64) = len" using l64 by (simp add: unat_of_nat)
  have bl: "bits_Len w64 (of_nat len) = blen len"
  proof (cases w64)
    case False
    then have "unat (ucast (of_nat len :: uint64) :: uint32) = len" using assms by (simp add: unat_ucast_mod u)
    then show ?thesis using False by (simp add: bits_Len_def Len32_blen)
  qed (simp add: bits_Len_def Len64_blen u)
  have p: "unat (push_bit (blen len) (1::uint64)) = 2 ^ blen len"
  proof -
    have "(2::nat) ^ blen len < 2 ^ 64" using L by (intro power_strict_increasing) (auto split: if_splits)
    then show ?thesis by (simp only: unat_push_bit) simp
  qed
  show ?thesis
  proof (cases w64)
    case True
    then show ?thesis unfolding nextPowerOfTwo_def Let_def bl to_uint_def by (simp only: if_True p)
  next
    case False
    have "(2::nat) ^ blen len < 2 ^ 32" using L False by (intro power_strict_increasing) auto
    then show ?thesis using False unfolding nextPowerOfTwo_def Let_def bl to_uint_def
      by (simp only: if_False unat_ucast_mod p) simp
  qed
qed

lemma other_range:
  assumes "0 < len" "len < 2 ^ (if w64 then 63 else 31)"
    and "v = unat (x AND (nextPowerOfTwo w64 len - 1))"
  shows "(if len \<le> v then v - len else v) < len"
proof -
  have "nextPowerOfTwo w64 len \<noteq> 0" using nextPowerOfTwo_unat[OF assms(2)] by (metis power_not_zero unat_0 zero_neq_numeral)
  then have "unat (nextPowerOfTwo w64 len - 1) = 2 ^ blen len - 1"
    using nextPowerOfTwo_unat[OF assms(2)] by (simp add: unat_minus_one)
  then have "v \<le> 2 ^ blen len - 1" using unat_and_le[of x "nextPowerOfTwo w64 len - 1"] assms(3) by simp
  moreover have "(2::nat) ^ blen len - 1 < 2 ^ blen len" by simp
  ultimately have "v < 2 ^ blen len" by (rule le_less_trans)
  also have "\<dots> = 2 * 2 ^ (blen len - 1)" using assms(1) by (simp add: blen_pos)
  also have "\<dots> \<le> 2 * len" using blen_bounds(2)[OF assms(1)] by simp
  finally show ?thesis by auto
qed

lemma breakPatterns_step:
  assumes "0 < len" "len < 2 ^ (if w64 then 63 else 31)" "idx \<le> bound"
  shows "\<exists>v r. v < len \<and> breakPatterns_loop w64 D a len (nextPowerOfTwo w64 len) bound idx rnd s
      = breakPatterns_loop w64 D a len (nextPowerOfTwo w64 len) bound (idx + 1) r (Swap D s idx (a + v))"
proof -
  define v where "v = unat (to_uint w64 (xorshift_Next rnd) AND (nextPowerOfTwo w64 len - 1))"
  have A: "(if len \<le> v then v - len else v) < len" by (rule other_range[OF assms(1,2) v_def])
  have B: "breakPatterns_loop w64 D a len (nextPowerOfTwo w64 len) bound idx rnd s
      = breakPatterns_loop w64 D a len (nextPowerOfTwo w64 len) bound (idx + 1) (xorshift_Next rnd)
          (Swap D s idx (a + (if len \<le> v then v - len else v)))"
    by (rule trans[OF breakPatterns_loop.simps]) (simp only: Let_def if_P[OF assms(3)] v_def)
  show ?thesis by (rule exI, rule exI, rule conjI[OF A B])
qed

context sort_interface
begin

lemma breakPatterns_rearr:
  assumes "b \<le> length (elems s)" "b - a < 2 ^ (if w64 then 63 else 31)"
  shows "rearr a b (elems s) (elems (breakPatterns w64 D s a b))"
proof (cases "8 \<le> b - a")
  case True
  define len where "len = b - a"
  have len: "8 \<le> len" "b = a + len" using True by (auto simp: len_def)
  define bound where "bound = a + len div 4 * 2 + 1"
  have bd: "bound < b" unfolding bound_def using len by linarith
  have l: "0 < len" "len < 2 ^ (if w64 then 63 else 31)" using len(1) assms(2) unfolding len_def by simp_all
  have "rearr a b (elems s) (elems (breakPatterns_loop w64 D a len (nextPowerOfTwo w64 len) bound idx rnd s))"
    if "a \<le> idx" "b \<le> length (elems s)" for idx rnd s
    using that
  proof (induction "bound + 1 - idx" arbitrary: idx rnd s)
    case 0
    then show ?case by (subst breakPatterns_loop.simps) simp
  next
    case (Suc n)
    then have i: "idx \<le> bound" by linarith
    obtain v r where v: "v < len" and eq: "breakPatterns_loop w64 D a len (nextPowerOfTwo w64 len) bound idx rnd s
      = breakPatterns_loop w64 D a len (nextPowerOfTwo w64 len) bound (idx + 1) r (Swap D s idx (a + v))"
      using breakPatterns_step[OF l i, of D a rnd s] by blast
    have r: "rearr a b (elems s) (elems (Swap D s idx (a + v)))"
      using i v Suc.prems len bd by (subst Swap) (auto intro!: rearr_swap)
    have "rearr a b (elems (Swap D s idx (a + v))) (elems (breakPatterns_loop w64 D a len (nextPowerOfTwo w64 len) bound (idx + 1) r (Swap D s idx (a + v))))"
      using Suc.hyps(2) Suc.prems rearr_length[OF r] by (intro Suc.hyps(1)) auto
    then show ?case using rearr_trans[OF r] by (simp only: eq)
  qed
  moreover have "a \<le> a + len div 4 * 2 - 1" using len by linarith
  ultimately show ?thesis using True assms unfolding breakPatterns_def Let_def len_def[symmetric] bound_def by simp
qed (simp add: breakPatterns_def Let_def)

lemma pdqsort_prepare_spec:
  assumes "a + 12 < b" "b \<le> length (elems s)" "b - a < 2 ^ (if w64 then 63 else 31)"
    "0 < a \<Longrightarrow> \<forall>k. a \<le> k \<and> k < b \<longrightarrow> \<not> lt (elems s ! k) (elems s ! (a - 1))"
    "pdqsort_prepare w64 D s a b limit wb wp = (q, s', pivot, limit')"
  shows "rearr a b (elems s) (elems s') \<and> a \<le> pivot \<and> pivot < b \<and> (q \<longrightarrow> sorted_rng lt a b (elems s'))"
proof -
  define s1 where "s1 = (if wb then s else breakPatterns w64 D s a b)"
  have r1: "rearr a b (elems s) (elems s1)" unfolding s1_def using breakPatterns_rearr assms by auto
  obtain p1 hint where p1: "choosePivot D s1 a b = (p1, hint)" by fastforce
  have p: "a \<le> p1" "p1 < b" using choosePivot_range[of a b D s1] p1 assms by auto
  define s2 where "s2 = (if hint = decreasingHint then reverseRange D s1 a b else s1)"
  define p2 where "p2 = (if hint = decreasingHint then (b - 1) - (p1 - a) else p1)"
  define h2 where "h2 = (if hint = decreasingHint then increasingHint else hint)"
  have pp: "a \<le> p2" "p2 < b" using p unfolding p2_def by auto
  have "rearr a b (elems s1) (elems s2)"
    unfolding s2_def using reverseRange_rearr[of b s1 a] rearr_length[OF r1] assms by auto
  then have r2: "rearr a b (elems s) (elems s2)" using rearr_trans[OF r1] by blast
  obtain q' s3 where s3: "(if wb \<and> wp \<and> h2 = increasingHint then partialInsertionSort D s2 a b else (False, s2)) = (q', s3)"
    by fastforce
  have sen: "0 < a \<Longrightarrow> \<forall>k. a \<le> k \<and> k < b \<longrightarrow> \<not> lt (elems s2 ! k) (elems s2 ! (a - 1))"
    using rearr_all[OF r2, of "\<lambda>v. \<not> lt v (elems s ! (a - 1))"] rearr_nth[OF r2, of "a - 1"] assms by auto
  have "rearr a b (elems s2) (elems s3) \<and> (q' \<longrightarrow> sorted_rng lt a b (elems s3))"
  proof (cases "wb \<and> wp \<and> h2 = increasingHint")
    case True
    then have "partialInsertionSort_steps D a b 5 (a + 1) s2 = (q', s3)" using s3 by (simp add: partialInsertionSort_def)
    then show ?thesis
      by (rule partialInsertionSort_steps_spec[rotated 5]) (use assms sen rearr_length[OF r2] in auto)
  qed (use s3 in auto)
  moreover have "pdqsort_prepare w64 D s a b limit wb wp = (q', s3, p2, if wb then limit else limit - 1)"
  proof -
    have e1: "(if wb then (s, limit) else (breakPatterns w64 D s a b, limit - 1)) = (s1, if wb then limit else limit - 1)"
      by (simp add: s1_def)
    have e2: "(if hint = decreasingHint then (reverseRange D s1 a b, b - 1 - (p1 - a), increasingHint) else (s1, p1, hint)) = (s2, p2, h2)"
      by (simp add: s2_def p2_def h2_def)
    show ?thesis unfolding pdqsort_prepare_def Let_def e1 prod.case p1 e2 s3 ..
  qed
  ultimately show ?thesis using assms(5) rearr_trans[OF r2] pp by auto
qed
end

section \<open>The main loop\<close>

lemma sorted_rng_join:
  assumes "sorted_rng lt a m xs" "sorted_rng lt m b xs"
    and "\<And>p q. a \<le> p \<Longrightarrow> p < m \<Longrightarrow> m \<le> q \<Longrightarrow> q < b \<Longrightarrow> \<not> lt (xs ! q) (xs ! p)"
  shows "sorted_rng lt a b xs"
  unfolding sorted_rng_def
proof (intro allI impI, elim conjE)
  fix p q assume pq: "a \<le> p" "p < q" "q < b"
  consider "q < m" | "m \<le> p" | "p < m" "m \<le> q" using pq by linarith
  then show "\<not> lt (xs ! q) (xs ! p)"
    using assms pq by cases (auto simp: sorted_rng_def)
qed

lemma rearr_sorted_rng:
  assumes "rearr c d xs ys" "b \<le> c \<or> d \<le> a" "b \<le> length xs"
  shows "sorted_rng lt a b ys = sorted_rng lt a b xs"
  using assms rearr_nth[OF assms(1)] by (intro sorted_rng_cong) auto

lemma rearr_keep:
  assumes r: "rearr c d xs ys" and P: "\<forall>k. a \<le> k \<and> k < b \<longrightarrow> P (xs ! k)" and b: "b \<le> length xs"
    and "a \<le> c \<and> d \<le> b \<or> d \<le> a \<or> b \<le> c"
  shows "\<forall>k. a \<le> k \<and> k < b \<longrightarrow> P (ys ! k)"
  using assms(4)
proof (elim disjE)
  assume "a \<le> c \<and> d \<le> b"
  then show ?thesis using rearr_all[OF rearr_mono[OF r], of a b P] b P by blast
qed (use P b rearr_nth[OF r] in auto)

context sort_interface
begin

lemma pivot_join:
  assumes "a \<le> m" "m < b" "zs ! m = p" "\<forall>k. a \<le> k \<and> k < m \<longrightarrow> lt (zs ! k) p"
    "\<forall>k. Suc m \<le> k \<and> k < b \<longrightarrow> \<not> lt (zs ! k) p" "sorted_rng lt a m zs" "sorted_rng lt (Suc m) b zs"
  shows "sorted_rng lt a b zs"
proof -
  have "sorted_rng lt m b zs"
  proof (rule sorted_rng_join[where m = "Suc m"])
    show "\<not> lt (zs ! q) (zs ! k)" if "m \<le> k" "k < Suc m" "Suc m \<le> q" "q < b" for k q
      using assms(3,5) that by (simp add: le_antisym less_Suc_eq_le)
  qed (use assms in auto)
  moreover have "\<not> lt (zs ! q) (zs ! k)" if "a \<le> k" "k < m" "m \<le> q" "q < b" for k q
  proof -
    have "\<not> lt p (zs ! k)" using assms(4) that asym by blast
    moreover have "\<not> lt (zs ! q) p" using assms(3,5) that by (cases "q = m") auto
    ultimately show ?thesis using le_trans by blast
  qed
  ultimately show ?thesis by (intro sorted_rng_join[OF assms(6)]) auto
qed

lemma pdqsort_loop_spec:
  assumes "b \<le> length (elems s)" "2 * length (elems s) \<le> max_int w64"
    "0 < a \<Longrightarrow> \<forall>k. a \<le> k \<and> k < b \<longrightarrow> \<not> lt (elems s ! k) (elems s ! (a - 1))"
  shows "\<exists>t. pdqsort_loop w64 D s a b limit wb wp = Some t \<and> sorted_rng lt a b (elems t) \<and> rearr a b (elems s) (elems t)"
  using assms
proof (induction "b - a" arbitrary: s a b limit wb wp rule: less_induct)
  case less
  show ?case
  proof (cases "b - a \<le> 12 \<or> limit = 0")
    case True
    have eq: "pdqsort_loop w64 D s a b limit wb wp = (if b - a \<le> 12 then Some (insertionSort D s a b) else heapSort w64 D s a b)"
      using True by (subst pdqsort_loop.simps) (auto simp: Let_def)
    show ?thesis
    proof (cases "b - a \<le> 12")
      case True
      then show ?thesis unfolding eq using insertionSort_spec[OF less.prems(1), of a] by simp
    next
      case False
      then have "\<exists>t. heapSort w64 D s a b = Some t \<and> sorted_rng lt a b (elems t) \<and> rearr a b (elems s) (elems t)"
        using less.prems(1,2) by (intro heapSort_spec) simp_all
      then show ?thesis unfolding eq using False by simp
    qed
  next
    case big: False
    obtain q s1 pivot limit' where P: "pdqsort_prepare w64 D s a b limit wb wp = (q, s1, pivot, limit')"
      by (metis surj_pair)
    have ab: "a + 12 < b" using big by linarith
    have S1: "rearr a b (elems s) (elems s1)" "a \<le> pivot" "pivot < b" "q \<Longrightarrow> sorted_rng lt a b (elems s1)"
    proof -
      have "b - a < 2 ^ (if w64 then 63 else 31)" using less.prems(1,2) by (cases w64) (simp_all add: max_int_def)
      from pdqsort_prepare_spec[OF ab less.prems(1) this less.prems(3) P]
      show "rearr a b (elems s) (elems s1)" "a \<le> pivot" "pivot < b" "q \<Longrightarrow> sorted_rng lt a b (elems s1)" by auto
    qed
    have l1: "length (elems s1) = length (elems s)" using rearr_length[OF S1(1)] .
    have sen: "0 < a \<Longrightarrow> \<forall>k. a \<le> k \<and> k < b \<longrightarrow> \<not> lt (elems t ! k) (elems t ! (a - 1))"
      if "rearr a b (elems s) (elems t)" for t
      using rearr_all[OF that, of "\<lambda>v. \<not> lt v (elems s ! (a - 1))"] rearr_nth[OF that, of "a - 1"] less.prems ab by auto
    note unf = pdqsort_loop.simps[of w64 D s a b limit wb wp, unfolded Let_def P prod.case]
    consider (sorted) "q" | (equal) "\<not> q" "0 < a" "\<not> Less D s1 (a - 1) pivot" | (part) "\<not> q" "\<not> (0 < a \<and> \<not> Less D s1 (a - 1) pivot)" by blast
    then show ?thesis
    proof cases
      case sorted
      then have "pdqsort_loop w64 D s a b limit wb wp = Some s1" using unf big by simp
      then show ?thesis using S1 sorted by simp
    next
      case equal
      have "\<not> lt (elems s1 ! (a - 1)) (elems s1 ! pivot)" using equal Less[of "a - 1" s1 pivot] S1 l1 less.prems(1) by simp
      then have "\<forall>k. a \<le> k \<and> k < b \<longrightarrow> \<not> lt (elems s1 ! k) (elems s1 ! pivot)"
        using sen[OF S1(1) equal(2)] le_trans by blast
      then obtain m s2 where m: "partitionEqual D s1 a b pivot = (m, s2)" "a < m" "m \<le> b" "rearr a b (elems s1) (elems s2)"
        "\<forall>k k'. a \<le> k \<and> k < m \<and> a \<le> k' \<and> k' < b \<longrightarrow> \<not> lt (elems s2 ! k') (elems s2 ! k)"
        using partitionEqual_spec[of a b s1 pivot] S1 l1 less.prems(1) ab by auto
      have eq: "pdqsort_loop w64 D s a b limit wb wp = pdqsort_loop w64 D s2 m b limit' wb wp" using unf big equal m(1) by simp
      have r2: "rearr a b (elems s) (elems s2)" using rearr_trans[OF S1(1) m(4)] .
      have l2: "length (elems s2) = length (elems s)" using rearr_length[OF r2] .
      obtain r where IH: "pdqsort_loop w64 D s2 m b limit' wb wp = Some r" "sorted_rng lt m b (elems r)" "rearr m b (elems s2) (elems r)"
        using less.hyps[of b m s2 limit' wb wp] m l2 less.prems(1,2) diff_less_mono2[of a m b] ab by auto
      have "sorted_rng lt a m (elems s2)" using m(3,5) by (auto simp: sorted_rng_def)
      then have sr: "sorted_rng lt a m (elems r)" using rearr_sorted_rng[OF IH(3)] m l2 less.prems(1) by simp
      have "\<not> lt (elems r ! y) (elems r ! x)" if "a \<le> x" "x < m" "m \<le> y" "y < b" for x y
      proof -
        have "elems r ! x = elems s2 ! x" using rearr_nth[OF IH(3), of x] that m l2 less.prems(1) by auto
        moreover have "\<not> lt (elems r ! y) (elems s2 ! x)"
          using rearr_all[OF IH(3), of "\<lambda>v. \<not> lt v (elems s2 ! x)" y] that m l2 less.prems(1) by auto
        ultimately show ?thesis by simp
      qed
      then have "sorted_rng lt a b (elems r)" by (rule sorted_rng_join[OF sr IH(2)])
      moreover have "rearr a b (elems s) (elems r)" using rearr_trans[OF r2 rearr_mono[OF IH(3)]] m(2) by simp
      ultimately show ?thesis unfolding eq using IH(1) by simp
    next
      case part
      have c: "(b - a \<le> 12) = False" "(limit = 0) = False" "q = False" "(0 < a \<and> \<not> Less D s1 (a - 1) pivot) = False"
        using part big by auto
      obtain m al s2 where m: "sort_partition D s1 a b pivot = (m, al, s2)" "a \<le> m" "m < b" "rearr a b (elems s1) (elems s2)"
        "\<forall>k. a \<le> k \<and> k < m \<longrightarrow> lt (elems s2 ! k) (elems s2 ! m)" "\<forall>k. m < k \<and> k < b \<longrightarrow> \<not> lt (elems s2 ! k) (elems s2 ! m)"
        using sort_partition_spec[of a b s1 pivot] S1 l1 less.prems(1) ab by auto
      have r2: "rearr a b (elems s) (elems s2)" using rearr_trans[OF S1(1) m(4)] .
      have l2: "length (elems s2) = length (elems s)" using rearr_length[OF r2] .
      let ?p = "elems s2 ! m"
      have L: "\<exists>u. pdqsort_loop w64 D t a m limit' w v = Some u \<and> sorted_rng lt a m (elems u) \<and> rearr a m (elems t) (elems u)"
        if "rearr a b (elems s) (elems t)" for t w v
        using less.hyps[of m a t limit' w v] m(2,3) sen[OF that] rearr_length[OF that] less.prems(1,2) by auto
      have R: "\<exists>u. pdqsort_loop w64 D t (Suc m) b limit' w v = Some u \<and> sorted_rng lt (Suc m) b (elems u) \<and> rearr (Suc m) b (elems t) (elems u)"
        if "rearr a b (elems s) (elems t)" "\<forall>k. Suc m \<le> k \<and> k < b \<longrightarrow> \<not> lt (elems t ! k) (elems t ! m)" for t w v
        using less.hyps[of b "Suc m" t limit' w v] m(2,3) that(2) rearr_length[OF that(1)] less.prems(1,2) by auto
      have hi: "\<forall>k. Suc m \<le> k \<and> k < b \<longrightarrow> \<not> lt (elems s2 ! k) ?p" using m(6) by auto
      show ?thesis
      proof (cases "m - a < b - m")
        case True
        obtain t where t: "pdqsort_loop w64 D s2 a m limit' True True = Some t" "sorted_rng lt a m (elems t)" and
          rt: "rearr a m (elems s2) (elems t)"
          using L[OF r2, of True True] by blast
        have eq: "pdqsort_loop w64 D s a b limit wb wp = pdqsort_loop w64 D t (Suc m) b limit' ((b - a) div 8 \<le> m - a) al"
          unfolding unf c if_False m(1) prod.case if_P[OF True] Suc_eq_plus1 [symmetric]
          by (simp add: t(1))
        have rt': "rearr a b (elems s) (elems t)" using rearr_trans[OF r2 rearr_mono[OF rt]] m by simp
        have tm: "elems t ! m = ?p" using rearr_nth[OF rt, of m] m l2 less.prems(1) by simp
        have thi: "\<forall>k. Suc m \<le> k \<and> k < b \<longrightarrow> \<not> lt (elems t ! k) ?p" using rearr_keep[OF rt hi] m l2 less.prems(1) by auto
        have tlo: "\<forall>k. a \<le> k \<and> k < m \<longrightarrow> lt (elems t ! k) ?p" using rearr_keep[OF rt m(5)] m l2 less.prems(1) by auto
        obtain u where u0: "pdqsort_loop w64 D t (Suc m) b limit' ((b - a) div 8 \<le> m - a) al = Some u" and
          u: "sorted_rng lt (Suc m) b (elems u)" "rearr (Suc m) b (elems t) (elems u)"
          using R[OF rt', of "(b - a) div 8 \<le> m - a" al] thi tm by auto
        have lt: "length (elems t) = length (elems s)" using rearr_length[OF rt'] .
        have "sorted_rng lt a b (elems u)"
        proof (rule pivot_join[where p = ?p and m = m])
          show "elems u ! m = ?p" using rearr_nth[OF u(2), of m] tm m lt less.prems(1) by simp
          show "\<forall>k. a \<le> k \<and> k < m \<longrightarrow> lt (elems u ! k) ?p" using rearr_keep[OF u(2) tlo] m lt less.prems(1) by auto
          show "\<forall>k. Suc m \<le> k \<and> k < b \<longrightarrow> \<not> lt (elems u ! k) ?p" using rearr_keep[OF u(2) thi] m lt less.prems(1) by auto
          show "sorted_rng lt a m (elems u)" using rearr_sorted_rng[OF u(2)] t m lt less.prems(1) by simp
        qed (use u m in auto)
        moreover have "rearr a b (elems s) (elems u)" using rearr_trans[OF rt' rearr_mono[OF u(2)]] m by simp
        ultimately show ?thesis unfolding eq u0 by simp
      next
        case False
        obtain t where t: "pdqsort_loop w64 D s2 (Suc m) b limit' True True = Some t" "sorted_rng lt (Suc m) b (elems t)" and
          rt: "rearr (Suc m) b (elems s2) (elems t)"
          using R[OF r2 hi, of True True] by blast
        have eq: "pdqsort_loop w64 D s a b limit wb wp = pdqsort_loop w64 D t a m limit' ((b - a) div 8 \<le> b - m) al"
          unfolding unf c if_False m(1) prod.case if_not_P[OF False] Suc_eq_plus1 [symmetric]
          by (simp add: t(1))
        have rt': "rearr a b (elems s) (elems t)" using rearr_trans[OF r2 rearr_mono[OF rt]] m by simp
        have tm: "elems t ! m = ?p" using rearr_nth[OF rt, of m] m l2 less.prems(1) by simp
        have thi: "\<forall>k. Suc m \<le> k \<and> k < b \<longrightarrow> \<not> lt (elems t ! k) ?p" using rearr_keep[OF rt hi] m l2 less.prems(1) by auto
        have tlo: "\<forall>k. a \<le> k \<and> k < m \<longrightarrow> lt (elems t ! k) ?p" using rearr_keep[OF rt m(5)] m l2 less.prems(1) by auto
        obtain u where u0: "pdqsort_loop w64 D t a m limit' ((b - a) div 8 \<le> b - m) al = Some u" and
          u: "sorted_rng lt a m (elems u)" "rearr a m (elems t) (elems u)" using L[OF rt'] by blast
        have lt: "length (elems t) = length (elems s)" using rearr_length[OF rt'] .
        have "sorted_rng lt a b (elems u)"
        proof (rule pivot_join[where p = ?p and m = m])
          show "elems u ! m = ?p" using rearr_nth[OF u(2), of m] tm m lt less.prems(1) by simp
          show "\<forall>k. a \<le> k \<and> k < m \<longrightarrow> lt (elems u ! k) ?p" using rearr_keep[OF u(2) tlo] m lt less.prems(1) by auto
          show "\<forall>k. Suc m \<le> k \<and> k < b \<longrightarrow> \<not> lt (elems u ! k) ?p" using rearr_keep[OF u(2) thi] m lt less.prems(1) by auto
          show "sorted_rng lt (Suc m) b (elems u)" using rearr_sorted_rng[OF u(2)] t m lt less.prems(1) by simp
        qed (use u m in auto)
        moreover have "rearr a b (elems s) (elems u)" using rearr_trans[OF rt' rearr_mono[OF u(2)]] m by simp
        ultimately show ?thesis unfolding eq u0 by simp
      qed
    qed
  qed
qed
end

section \<open>Sort, IsSorted and binary search\<close>

lemma bsearch_spec:
  assumes "i \<le> j"
  shows "i \<le> bsearch p i j \<and> bsearch p i j \<le> j \<and> (bsearch p i j < j \<longrightarrow> \<not> p (bsearch p i j))
    \<and> (i < bsearch p i j \<longrightarrow> p (bsearch p i j - 1))"
  using assms
proof (induction "j - i" arbitrary: i j rule: less_induct)
  case less
  define h where "h = (i + j) div 2"
  have eq: "bsearch p i j = (if i < j then if p h then bsearch p (h + 1) j else bsearch p i h else i)"
    by (subst bsearch.simps) (simp add: h_def Let_def)
  show ?case
  proof (cases "i < j")
    case True
    then have h: "i \<le> h" "h < j" unfolding h_def by auto
    show ?thesis
    proof (cases "p h")
      case p: True
      have "h + 1 \<le> bsearch p (h + 1) j \<and> bsearch p (h + 1) j \<le> j \<and> (bsearch p (h + 1) j < j \<longrightarrow> \<not> p (bsearch p (h + 1) j))
        \<and> (h + 1 < bsearch p (h + 1) j \<longrightarrow> p (bsearch p (h + 1) j - 1))"
        by (rule less.hyps) (use h in auto)
      then show ?thesis unfolding eq using True p h by (cases "h + 1 < bsearch p (h + 1) j") auto
    next
      case np: False
      have "i \<le> bsearch p i h \<and> bsearch p i h \<le> h \<and> (bsearch p i h < h \<longrightarrow> \<not> p (bsearch p i h)) \<and> (i < bsearch p i h \<longrightarrow> p (bsearch p i h - 1))"
        by (rule less.hyps) (use h in auto)
      then show ?thesis unfolding eq using True np h by (cases "bsearch p i h < h") auto
    qed
  next
    case False
    then show ?thesis unfolding eq using less.prems by simp
  qed
qed

lemma bsearch_mono:
  assumes "i \<le> j" and mono: "\<forall>k k'. i \<le> k \<and> k \<le> k' \<and> k' < j \<and> p k' \<longrightarrow> p k"
  shows "i \<le> bsearch p i j" "bsearch p i j \<le> j" "\<And>k. i \<le> k \<Longrightarrow> k < bsearch p i j \<Longrightarrow> p k" "\<And>k. bsearch p i j \<le> k \<Longrightarrow> k < j \<Longrightarrow> \<not> p k"
proof -
  note S = bsearch_spec[OF assms(1), of p]
  show b: "i \<le> bsearch p i j" "bsearch p i j \<le> j" using S by auto
  show "p k" if "i \<le> k" "k < bsearch p i j" for k
  proof -
    have "k \<le> bsearch p i j - 1" "bsearch p i j - 1 < j" "i < bsearch p i j" using S that by linarith+
    then show ?thesis using mono[rule_format, of k "bsearch p i j - 1"] S that by blast
  qed
  show "\<not> p k" if "bsearch p i j \<le> k" "k < j" for k
    using mono[rule_format, of "bsearch p i j" k] S that by auto
qed

context sort_interface
begin

lemma IsSorted_spec: "sort_IsSorted D s \<longleftrightarrow> sorted_rng lt 0 (length (elems s)) (elems s)"
proof -
  have "IsSorted_loop D s n \<longleftrightarrow> sorted_rng lt 0 (Suc n) (elems s)" if "n < length (elems s)" for n
    using that
  proof (induction n)
    case (Suc n)
    then have L: "Less D s (Suc n) n = lt (elems s ! Suc n) (elems s ! n)" by (intro Less) auto
    show ?case
    proof
      assume "IsSorted_loop D s (Suc n)"
      then show "sorted_rng lt 0 (Suc (Suc n)) (elems s)"
        using Suc L sorted_rng_extend[of lt 0 "Suc n" "elems s"] le_trans by (auto split: if_splits)
    next
      assume "sorted_rng lt 0 (Suc (Suc n)) (elems s)"
      then show "IsSorted_loop D s (Suc n)"
        using Suc L sorted_rngD[of lt 0 "Suc (Suc n)" "elems s" n "Suc n"] by (auto intro: sorted_rng_sub)
    qed
  qed simp
  then show ?thesis using Len[of s] by (cases "elems s") (auto simp: sort_IsSorted_def)
qed

lemma Sort_spec:
  assumes "2 * length (elems s) \<le> max_int w64"
  shows "\<exists>t. sort_Sort w64 D s = Some t \<and> sorted_rng lt 0 (length (elems s)) (elems t) \<and> mset (elems t) = mset (elems s)"
proof -
  let ?n = "length (elems s)"
  have "\<exists>t. sort_Sort w64 D s = Some t \<and> sorted_rng lt 0 ?n (elems t) \<and> rearr 0 ?n (elems s) (elems t)"
  proof (cases "?n \<le> 1")
    case False
    then have "sort_Sort w64 D s = pdqsort_loop w64 D s 0 ?n (bits_Len w64 (of_nat ?n)) True True"
      by (simp only: sort_Sort_def pdqsort_def Let_def Len if_False)
    then show ?thesis using pdqsort_loop_spec [of ?n s w64 0] assms by simp
  qed (auto simp: sort_Sort_def Len sorted_rng_def)
  then show ?thesis by (auto simp: rearr_def)
qed
end

lemma sorted_rng_wrt: "sorted_rng lt 0 (length xs) xs \<longleftrightarrow> sorted_wrt (\<lambda>x y. \<not> lt y x) xs"
  by (auto simp: sorted_rng_def sorted_wrt_iff_nth_less)

lemma slice_sort_interface:
  "strict_weak_order lt \<Longrightarrow> sort_interface lt (slice_Interface lt) (\<lambda>xs. xs)"
  unfolding sort_interface_def sort_interface_axioms_def slice_Interface_def by simp

lemma reverse_sort_interface:
  assumes "sort_interface lt D elems"
  shows "sort_interface (\<lambda>x y. lt y x) (sort_Reverse D) elems"
proof -
  have w: "\<And>x y. lt x y \<Longrightarrow> \<not> lt y x" "\<And>x y z. \<not> lt x y \<Longrightarrow> \<not> lt y z \<Longrightarrow> \<not> lt x z"
    and I: "\<And>s. Len D s = length (elems s)"
      "\<And>s i j. i < length (elems s) \<Longrightarrow> j < length (elems s) \<Longrightarrow> Less D s i j = lt (elems s ! i) (elems s ! j)"
      "\<And>s i j. i < length (elems s) \<Longrightarrow> j < length (elems s) \<Longrightarrow> elems (Swap D s i j) = list_swap (elems s) i j"
    using assms unfolding sort_interface_def sort_interface_axioms_def strict_weak_order_def by blast+
  have "strict_weak_order (\<lambda>x y. lt y x)" using w unfolding strict_weak_order_def by blast
  moreover have "sort_interface_axioms (\<lambda>x y. lt y x) (sort_Reverse D) elems"
    unfolding sort_interface_axioms_def sort_Reverse_def using I by simp
  ultimately show ?thesis by (simp add: sort_interface_def)
qed

end
