(* ===== verification/Sort_Stable.thy ===== *)
theory Sort_Stable
  imports Sort_Pdq
begin

text \<open>
  The in-place stable merge sort: \<open>rotate\<close> exchanges two adjacent blocks, \<open>symMerge\<close> refines the
  textbook stable merge \<open>stable_merge\<close>, and \<open>Stable\<close> returns, sorted, with equivalent elements in
  their original order.
\<close>

section \<open>The reference merge\<close>

fun stable_merge :: "('a \<Rightarrow> 'a \<Rightarrow> bool) \<Rightarrow> 'a list \<Rightarrow> 'a list \<Rightarrow> 'a list" where
  "stable_merge lt [] ys = ys"
| "stable_merge lt xs [] = xs"
| "stable_merge lt (x # xs) (y # ys) = (if lt y x then y # stable_merge lt (x # xs) ys else x # stable_merge lt xs (y # ys))"

definition sorted_blocks :: "('a \<Rightarrow> 'a \<Rightarrow> bool) \<Rightarrow> nat \<Rightarrow> nat \<Rightarrow> 'a list \<Rightarrow> bool" where
  "sorted_blocks lt bs n xs \<longleftrightarrow> (\<forall>k. sorted_rng lt (k * bs) (min n ((k + 1) * bs)) xs)"

lemma stable_merge_Nil [simp]: "stable_merge lt xs [] = xs" by (cases xs) auto

lemma mset_stable_merge [simp]: "mset (stable_merge lt xs ys) = mset xs + mset ys"
  by (induction lt xs ys rule: stable_merge.induct) auto

lemma set_stable_merge [simp]: "set (stable_merge lt xs ys) = set xs \<union> set ys"
  by (induction lt xs ys rule: stable_merge.induct) auto

lemma length_stable_merge [simp]: "length (stable_merge lt xs ys) = length xs + length ys"
  by (induction lt xs ys rule: stable_merge.induct) auto

lemma stable_merge_split:
  assumes "\<forall>y\<in>set B1. \<forall>x\<in>set A2. lt y x" "\<forall>x\<in>set A1. \<forall>y\<in>set B2. \<not> lt y x"
  shows "stable_merge lt (A1 @ A2) (B1 @ B2) = stable_merge lt A1 B1 @ stable_merge lt A2 B2"
  using assms
proof (induction lt A1 B1 rule: stable_merge.induct)
  case (1 lt ys)
  then show ?case
  proof (induction ys)
    case (Cons y ys)
    then show ?case by (cases A2) auto
  qed simp
next
  case (2 lt x xs)
  have "stable_merge lt ((x # xs) @ A2) B2 = (x # xs) @ stable_merge lt A2 B2" if "\<forall>x\<in>set (x # xs). \<forall>y\<in>set B2. \<not> lt y x" for x xs
    using that by (induction xs arbitrary: x) (cases B2; auto)+
  then show ?case using 2 by simp
qed auto

lemma list_swap_app: "list_swap (l1 @ x # l2 @ y # l3) (length l1) (Suc (length l1 + length l2)) = l1 @ y # l2 @ x # l3"
  by (simp add: list_swap_def nth_append list_update_append)

lemma list_swap_sym: "i < length xs \<Longrightarrow> j < length xs \<Longrightarrow> list_swap xs i j = list_swap xs j i"
  by (cases "i = j") (simp_all add: list_swap_def list_update_swap)

lemma list_split_at: "k \<le> length xs \<Longrightarrow> \<exists>u v. xs = u @ v \<and> length u = k"
  by (metis append_take_drop_id length_take min.absorb2)

lemma sorted_stable_merge:
  assumes "strict_weak_order lt" "sorted_wrt (\<lambda>x y. \<not> lt y x) xs" "sorted_wrt (\<lambda>x y. \<not> lt y x) ys"
  shows "sorted_wrt (\<lambda>x y. \<not> lt y x) (stable_merge lt xs ys)"
  using assms
proof (induction lt xs ys rule: stable_merge.induct)
  case (3 lt x xs y ys)
  note tr = strict_weak_order.le_trans[OF 3(3)] strict_weak_order.asym[OF 3(3)]
  show ?case
  proof (cases "lt y x")
    case True
    then have "\<not> lt z y" if "z \<in> set xs" for z using tr(1)[of x y z] tr(2)[OF True] 3(4) that by auto
    then show ?thesis using True 3 tr(2) by auto
  next
    case False
    then have "\<not> lt z x" if "z \<in> set ys" for z using tr(1)[of y x z] 3(5) that by auto
    then show ?thesis using False 3 by auto
  qed
qed auto

lemma filter_stable_merge:
  assumes "strict_weak_order lt" "sorted_wrt (\<lambda>x y. \<not> lt y x) xs"
  shows "filter (eqv lt z) (stable_merge lt xs ys) = filter (eqv lt z) xs @ filter (eqv lt z) ys"
  using assms
proof (induction lt xs ys rule: stable_merge.induct)
  case (3 lt x xs y ys)
  note tr = strict_weak_order.negtrans[OF 3(3)]
  show ?case
  proof (cases "lt y x \<and> eqv lt z y")
    case True
    have "\<not> eqv lt z w" if "w \<in> set (x # xs)" for w
    proof
      assume e: "eqv lt z w"
      have "\<not> lt w x" using 3(4) that strict_weak_order.irrefl[OF 3(3)] by auto
      moreover have "\<not> lt y w" using tr[of y z w] True e unfolding eqv_def by blast
      ultimately show False using True tr[of y w x] by blast
    qed
    then have n: "filter (eqv lt z) (x # xs) = []" unfolding filter_empty_conv by blast
    then show ?thesis using True 3 by simp
  next
    case False
    then show ?thesis using 3 by auto
  qed
qed auto

context sort_interface
begin

lemma swapRange_app:
  assumes "elems s = p @ u @ w @ v @ r" "length u = n" "length v = n"
  shows "elems (swapRange D s (length p) (length p + n + length w) n) = p @ v @ w @ u @ r"
  using assms
proof (induction n arbitrary: u w v r s)
  case (Suc n)
  obtain u' x where u: "u = u' @ [x]" "length u' = n" using Suc.prems(2) by (metis length_Suc_conv_rev)
  obtain v' y where v: "v = v' @ [y]" "length v' = n" using Suc.prems(3) by (metis length_Suc_conv_rev)
  have "elems s = p @ u' @ (x # w) @ v' @ (y # r)" using Suc.prems u v by simp
  from Suc.IH[OF this u(2) v(2)]
  have e: "elems (swapRange D s (length p) (length p + Suc n + length w) n) = p @ v' @ (x # w) @ u' @ (y # r)" by simp
  let ?t = "swapRange D s (length p) (length p + Suc n + length w) n"
  have "swapRange D s (length p) (length p + Suc n + length w) (Suc n) = Swap D ?t (length p + n) (length p + Suc n + length w + n)"
    by (simp add: swapRange_def)
  moreover have "elems (Swap D ?t (length p + n) (length p + Suc n + length w + n))
      = list_swap (p @ v' @ (x # w) @ u' @ (y # r)) (length p + n) (length p + Suc n + length w + n)"
    unfolding e[symmetric] using u v by (intro Swap; unfold e; simp)
  moreover have "list_swap ((p @ v') @ x # (w @ u') @ y # r) (length (p @ v')) (Suc (length (p @ v') + length (w @ u'))) = (p @ v') @ y # (w @ u') @ x # r"
    by (rule list_swap_app)
  ultimately show ?case using u v by (simp add: e add.assoc add.left_commute add.commute)
qed (simp add: swapRange_def)

lemma rotate_loop_cases:
  "rotate_loop D m i i s = Some (swapRange D s (m - i) m i)"
  "j < i \<Longrightarrow> rotate_loop D m i j s = rotate_loop D m (i - j) j (swapRange D s (m - i) m j)"
  "i < j \<Longrightarrow> rotate_loop D m i j s = rotate_loop D m i (j - i) (swapRange D s (m - i) (m + j - i) i)"
  by (simp_all add: rotate_loop.simps[of D m i])

lemma rotate_loop_app:
  assumes "elems s = p @ u @ v @ r" "m = length p + length u" "u \<noteq> []" "v \<noteq> []"
  shows "\<exists>s'. rotate_loop D m (length u) (length v) s = Some s' \<and> elems s' = p @ v @ u @ r"
  using assms
proof (induction "length u + length v" arbitrary: p u v r s rule: less_induct)
  case less
  consider (eq) "length u = length v" | (gt) "length v < length u" | (lt) "length u < length v" by linarith
  then show ?case
  proof cases
    case eq
    let ?t = "swapRange D s (length p) (length p + length u + length ([] :: 'a list)) (length u)"
    have "elems ?t = p @ v @ [] @ u @ r" by (rule swapRange_app) (use less.prems(1) eq in simp_all)
    then have e: "elems ?t = p @ v @ u @ r" by (simp only: append_Nil)
    have "m - length u = length p" "m = length p + length u + length ([] :: 'a list)" using less.prems(2) by simp_all
    then have "rotate_loop D m (length u) (length v) s = Some ?t"
      unfolding eq[symmetric] rotate_loop_cases(1) by (simp only:)
    then show ?thesis using e by blast
  next
    case gt
    then obtain u1 u2 where u: "u = u1 @ u2" "length u1 = length v" using list_split_at[OF less_imp_le[OF gt]] by blast
    let ?s = "swapRange D s (m - length u) m (length v)"
    have e: "elems ?s = (p @ v) @ u2 @ u1 @ r"
    proof -
      have ix: "m - length u = length p" "m = length p + length v + length u2" using less.prems(2) u by simp_all
      show ?thesis unfolding ix(1) unfolding ix(2) using swapRange_app[of s p u1 u2 v r "length v"] less.prems(1) u by simp
    qed
    have "\<exists>s'. rotate_loop D m (length u2) (length u1) ?s = Some s' \<and> elems s' = (p @ v) @ u1 @ u2 @ r"
      by (rule less.hyps[OF _ e]) (use less.prems(2,4) u gt in auto)
    moreover have "rotate_loop D m (length u) (length v) s = rotate_loop D m (length u2) (length u1) ?s"
    proof -
      have "length u2 = length u - length v" using u by simp
      then show ?thesis by (simp only: u(2) rotate_loop_cases(2)[OF gt])
    qed
    ultimately show ?thesis using u by auto
  next
    case lt
    then obtain v1 v2 where v: "v = v1 @ v2" "length v1 = length v - length u" using list_split_at[OF diff_le_self, of v "length u"] by blast
    have "length v = length v1 + length v2" using v(1) by simp
    then have v2: "length v2 = length u" using lt v(2) by linarith
    let ?s = "swapRange D s (m - length u) (m + length v - length u) (length u)"
    have e: "elems ?s = p @ v2 @ v1 @ (u @ r)"
    proof -
      have ix: "m - length u = length p" "m + length v - length u = length p + length u + length v1" using less.prems(2) v(2) lt by linarith+
      show ?thesis unfolding ix using swapRange_app[of s p u v1 v2 r "length u"] less.prems(1) v(1) v2 by simp
    qed
    have "\<exists>s'. rotate_loop D m (length v2) (length v1) ?s = Some s' \<and> elems s' = p @ v1 @ v2 @ (u @ r)"
      by (rule less.hyps[OF _ e]) (use less.prems(2,3) v(1) v2 lt in auto)
    moreover have "rotate_loop D m (length u) (length v) s = rotate_loop D m (length v2) (length v1) ?s"
      by (simp only: v2 v(2) rotate_loop_cases(3)[OF lt])
    ultimately show ?thesis using v(1) by auto
  qed
qed

lemma bubble_right:
  assumes "elems s = p @ x # c @ r"
  shows "elems (fold (\<lambda>k s. Swap D s k (k + 1)) [length p..<length p + length c] s) = p @ c @ x # r"
  using assms
proof (induction c arbitrary: p s)
  case (Cons y c)
  have "elems (Swap D s (length p) (length p + 1)) = list_swap (elems s) (length p) (length p + 1)"
    using Cons.prems by (intro Swap) simp_all
  then have e: "elems (Swap D s (length p) (length p + 1)) = (p @ [y]) @ x # c @ r"
    using list_swap_app[of p x "[]" y "c @ r"] Cons.prems by simp
  have "[length p..<length p + length (y # c)] = length p # [length (p @ [y])..<length (p @ [y]) + length c]"
    by (simp add: upt_conv_Cons del: upt_Suc)
  then show ?case using Cons.IH[OF e] by simp
qed simp

lemma bubble_left:
  assumes "elems s = p @ c @ x # r"
  shows "elems (fold (\<lambda>k s. Swap D s k (k - 1)) (rev [length p + 1..<length p + length c + 1]) s) = p @ x # c @ r"
  using assms
proof (induction c arbitrary: r s rule: rev_induct)
  case (snoc y c)
  let ?m = "length p + length c"
  have "elems (Swap D s (?m + 1) ?m) = list_swap (elems s) ?m (?m + 1)"
    using snoc.prems by (subst Swap) (simp_all add: list_swap_sym)
  then have e: "elems (Swap D s (?m + 1) ?m) = p @ c @ x # (y # r)"
    using list_swap_app[of "p @ c" y "[]" x r] snoc.prems by simp
  show ?case using snoc.IH[OF e] by simp
qed simp

lemma symMerge_start_props:
  assumes ab: "a < m" "m < b" "b \<le> length (elems s)" and srt: "sorted_rng lt a m (elems s)" "sorted_rng lt m b (elems s)"
  defines "mid \<equiv> (a + b) div 2"
  defines "start \<equiv> symMerge_start D s a m b"
  defines "en \<equiv> mid + m - start"
  shows "a \<le> start" "start \<le> m" "start \<le> mid" "m \<le> en" "mid \<le> en" "en \<le> b" "start + en = mid + m"
    "start < m \<Longrightarrow> m < en \<Longrightarrow> lt (elems s ! (en - 1)) (elems s ! start)"
    "a < start \<Longrightarrow> en < b \<Longrightarrow> \<not> lt (elems s ! en) (elems s ! (start - 1))"
proof -
  let ?x = "elems s"
  define st r where "st = (if mid < m then mid + m - b else a)" and "r = (if mid < m then mid else m)"
  define P where "P = mid + m - 1"
  define p where "p = (\<lambda>c. \<not> Less D s (P - c) c)"
  have start: "start = bsearch p st r"
    unfolding start_def symMerge_start_def Let_def p_def P_def st_def r_def mid_def by simp
  have mid: "2 * mid \<le> a + b" "a + b \<le> 2 * mid + 1" unfolding mid_def by linarith+
  have st: "a \<le> st" "st \<le> r" "r \<le> m" "r \<le> mid" using mid ab unfolding st_def r_def by auto
  have Pc: "m \<le> P - c" "P - c < b" "c < m" "c \<le> P" if "st \<le> c" "c < r" for c
    using that mid ab unfolding st_def r_def P_def by (auto split: if_splits)
  have pc: "p c \<longleftrightarrow> \<not> lt (?x ! (P - c)) (?x ! c)" if "st \<le> c" "c < r" for c
    unfolding p_def using Less[of "P - c" s c] Pc[OF that] ab by simp
  have mono: "p k" if k: "st \<le> k" "k \<le> k'" "k' < r" "p k'" for k k'
  proof (cases "k = k'")
    case False
    have "\<not> lt (?x ! (P - k')) (?x ! k')" using pc[of k'] k by simp
    moreover have "\<not> lt (?x ! k') (?x ! k)" using sorted_rngD[OF srt(1), of k k'] Pc[of k'] st k False by simp
    moreover have "\<not> lt (?x ! (P - k)) (?x ! (P - k'))"
      using sorted_rngD[OF srt(2), of "P - k'" "P - k"] Pc[of k'] Pc[of k] k False by (simp add: diff_less_mono2)
    ultimately have "\<not> lt (?x ! (P - k)) (?x ! k)" using le_trans by blast
    then show ?thesis using pc[of k] k by simp
  qed (use k in simp)
  have B: "st \<le> start" "start \<le> r" "\<And>k. st \<le> k \<Longrightarrow> k < start \<Longrightarrow> p k" "\<And>k. start \<le> k \<Longrightarrow> k < r \<Longrightarrow> \<not> p k"
  proof -
    have "\<forall>k k'. st \<le> k \<and> k \<le> k' \<and> k' < r \<and> p k' \<longrightarrow> p k" using mono by blast
    note bsearch_mono[OF st(2) this, folded start]
    then show "st \<le> start" "start \<le> r" "\<And>k. st \<le> k \<Longrightarrow> k < start \<Longrightarrow> p k" "\<And>k. start \<le> k \<Longrightarrow> k < r \<Longrightarrow> \<not> p k" by auto
  qed
  show 1: "a \<le> start" "start \<le> m" "start \<le> mid" using B(1,2) st by linarith+
  show 2: "m \<le> en" "mid \<le> en" "en \<le> b" "start + en = mid + m"
    using B(1,2) st mid ab 1 unfolding en_def st_def r_def by (auto split: if_splits)
  show "lt (?x ! (en - 1)) (?x ! start)" if "start < m" "m < en"
  proof -
    have "start < r" using that B(2) unfolding r_def en_def by (auto split: if_splits)
    then have "\<not> p start" using B(4)[of start] by simp
    moreover have "P - start = en - 1" unfolding P_def en_def by simp
    ultimately show ?thesis using pc[of start] B(1) \<open>start < r\<close> by simp
  qed
  show "\<not> lt (?x ! en) (?x ! (start - 1))" if "a < start" "en < b"
  proof -
    have "st < start" using that B(1) 2(4) mid unfolding st_def by (auto split: if_splits)
    then have "p (start - 1)" using B(3)[of "start - 1"] by simp
    moreover have "P - (start - 1) = en" using \<open>st < start\<close> 1 unfolding P_def en_def by simp
    ultimately show ?thesis using pc[of "start - 1"] B(2) \<open>st < start\<close> by simp
  qed
qed
end

section \<open>symMerge refines the merge\<close>

lemma nth_mid: "k < length A \<Longrightarrow> (p @ A @ r) ! (length p + k) = A ! k"
  by (simp add: nth_append)

lemma sorted_rng_mid: "sorted_rng lt (length p) (length p + length A) (p @ A @ r) \<longleftrightarrow> sorted_wrt (\<lambda>x y. \<not> lt y x) A"
proof
  assume l: "sorted_rng lt (length p) (length p + length A) (p @ A @ r)"
  show "sorted_wrt (\<lambda>x y. \<not> lt y x) A" unfolding sorted_wrt_iff_nth_less
  proof (intro allI impI)
    fix i j assume "i < j" "j < length A"
    then show "\<not> lt (A ! j) (A ! i)" using sorted_rngD[OF l, of "length p + i" "length p + j"] by (simp add: nth_mid del: nth_append_length_plus)
  qed
next
  assume r: "sorted_wrt (\<lambda>x y. \<not> lt y x) A"
  show "sorted_rng lt (length p) (length p + length A) (p @ A @ r)" unfolding sorted_rng_def
  proof (intro allI impI, elim conjE)
    fix i j assume ij: "length p \<le> i" "i < j" "j < length p + length A"
    define i' j' where "i' = i - length p" and "j' = j - length p"
    then have e: "i = length p + i'" "j = length p + j'" "i' < j'" "j' < length A" using ij by auto
    show "\<not> lt ((p @ A @ r) ! j) ((p @ A @ r) ! i)" unfolding e(1,2)
      using r e by (simp add: nth_mid sorted_wrt_iff_nth_less del: nth_append_length_plus)
  qed
qed

lemma stable_merge_below: "\<forall>y\<in>set C. \<forall>x\<in>set A. lt y x \<Longrightarrow> stable_merge lt A (C @ E) = C @ stable_merge lt A E"
  using stable_merge_split[where ?A1.0 = "[]" and ?A2.0 = A and ?B1.0 = C and ?B2.0 = E and lt = lt] by simp

lemma stable_merge_above: "\<forall>x\<in>set C. \<forall>y\<in>set B. \<not> lt y x \<Longrightarrow> stable_merge lt (C @ E) B = C @ stable_merge lt E B"
  using stable_merge_split[where ?A1.0 = C and ?A2.0 = E and ?B1.0 = "[]" and ?B2.0 = B and lt = lt] by simp

lemma symMerge_insert_left:
  "m - a = 1 \<Longrightarrow> symMerge D s a m b = Some (fold (\<lambda>k s. Swap D s k (k + 1)) [a..<bsearch (\<lambda>h. Less D s h a) m b - 1] s)"
  by (subst symMerge.simps) (simp add: Let_def)

lemma symMerge_insert_right:
  "m - a \<noteq> 1 \<Longrightarrow> b - m = 1 \<Longrightarrow> symMerge D s a m b
    = Some (fold (\<lambda>k s. Swap D s k (k - 1)) (rev [bsearch (\<lambda>h. \<not> Less D s m h) a m + 1..<m + 1]) s)"
  by (rule trans[OF symMerge.simps]) (simp only: Let_def if_False if_True simp_thms)

lemma symMerge_split:
  fixes D :: "'s Interface" and s :: 's
  assumes "m - a \<noteq> 1" "b - m \<noteq> 1"
  defines "mid \<equiv> (a + b) div 2" and "start \<equiv> symMerge_start D s a m b"
  defines "en \<equiv> mid + m - start"
  shows "symMerge D s a m b =
    Option.bind (if start < m \<and> m < en then sort_rotate D s start m en else Some s)
      (\<lambda>s. Option.bind (if a < start \<and> start < mid then symMerge D s a start mid else Some s)
        (\<lambda>s. if mid < en \<and> en < b then symMerge D s mid en b else Some s))"
  unfolding en_def start_def mid_def
  by (rule trans[OF symMerge.simps]) (simp only: assms(1,2) if_False Let_def)

context sort_interface
begin

lemma sorted_bsearch_below:
  assumes "sorted_rng lt m b (elems s)" "m \<le> b" "b \<le> length (elems s)" "a < length (elems s)"
  defines "i \<equiv> bsearch (\<lambda>h. Less D s h a) m b"
  shows "m \<le> i" "i \<le> b" "\<And>k. m \<le> k \<Longrightarrow> k < i \<Longrightarrow> lt (elems s ! k) (elems s ! a)" "\<And>k. i \<le> k \<Longrightarrow> k < b \<Longrightarrow> \<not> lt (elems s ! k) (elems s ! a)"
proof -
  have L: "Less D s k a = lt (elems s ! k) (elems s ! a)" if "k < b" for k using that assms by (intro Less) auto
  have "\<forall>k k'. m \<le> k \<and> k \<le> k' \<and> k' < b \<and> Less D s k' a \<longrightarrow> Less D s k a"
  proof (intro allI impI, elim conjE)
    fix k k' assume k: "m \<le> k" "k \<le> k'" "k' < b" "Less D s k' a"
    have "k = k' \<or> \<not> lt (elems s ! k') (elems s ! k)" using sorted_rngD[OF assms(1), of k k'] k by linarith
    then show "Less D s k a" using L[of k'] L[of k] k le_lt_trans by auto
  qed
  note B = bsearch_mono[OF assms(2) this, folded i_def]
  show "m \<le> i" "i \<le> b" using B by auto
  show "lt (elems s ! k) (elems s ! a)" if "m \<le> k" "k < i" for k using B(2,3) L[of k] that by auto
  show "\<not> lt (elems s ! k) (elems s ! a)" if "i \<le> k" "k < b" for k using B(4) L[of k] that by auto
qed

lemma sorted_bsearch_above:
  assumes "sorted_rng lt a m (elems s)" "a \<le> m" "m < length (elems s)"
  defines "i \<equiv> bsearch (\<lambda>h. \<not> Less D s m h) a m"
  shows "a \<le> i" "i \<le> m" "\<And>k. a \<le> k \<Longrightarrow> k < i \<Longrightarrow> \<not> lt (elems s ! m) (elems s ! k)" "\<And>k. i \<le> k \<Longrightarrow> k < m \<Longrightarrow> lt (elems s ! m) (elems s ! k)"
proof -
  have L: "Less D s m k = lt (elems s ! m) (elems s ! k)" if "k < m" for k using that assms by (intro Less) auto
  have "\<forall>k k'. a \<le> k \<and> k \<le> k' \<and> k' < m \<and> \<not> Less D s m k' \<longrightarrow> \<not> Less D s m k"
  proof (intro allI impI, elim conjE)
    fix k k' assume k: "a \<le> k" "k \<le> k'" "k' < m" "\<not> Less D s m k'"
    have "k = k' \<or> \<not> lt (elems s ! k') (elems s ! k)" using sorted_rngD[OF assms(1), of k k'] k by linarith
    then show "\<not> Less D s m k" using L[of k'] L[of k] k le_trans by auto
  qed
  note B = bsearch_mono[OF assms(2) this, folded i_def]
  show "a \<le> i" "i \<le> m" using B by auto
  show "\<not> lt (elems s ! m) (elems s ! k)" if "a \<le> k" "k < i" for k using B(2,3) L[of k] that by auto
  show "lt (elems s ! m) (elems s ! k)" if "i \<le> k" "k < m" for k using B(4) L[of k] that by auto
qed

lemma symMerge_app_left:
  assumes e: "elems s = p @ [x] @ B @ r" and B: "sorted_wrt (\<lambda>x y. \<not> lt y x) B"
  shows "\<exists>s'. symMerge D s (length p) (length p + 1) (length p + 1 + length B) = Some s' \<and> elems s' = p @ stable_merge lt [x] B @ r"
proof -
  let ?m = "length p + 1" let ?b = "length p + 1 + length B"
  define i where "i = bsearch (\<lambda>h. Less D s h (length p)) ?m ?b"
  have "sorted_rng lt (length (p @ [x])) (length (p @ [x]) + length B) ((p @ [x]) @ B @ r)" using B by (simp only: sorted_rng_mid)
  then have srt: "sorted_rng lt ?m ?b (elems s)" using e by simp
  have x: "elems s ! length p = x" "\<And>k. k < length B \<Longrightarrow> elems s ! (?m + k) = B ! k" by (simp_all add: e nth_append)
  have len: "?b \<le> length (elems s)" "length p < length (elems s)" by (simp_all add: e)
  note S = sorted_bsearch_below[OF srt le_add1 len, folded i_def, unfolded x]
  define C E where "C = take (i - ?m) B" and "E = drop (i - ?m) B"
  have lC: "length C = i - ?m" using S(1,2) by (simp add: C_def)
  have CE: "B = C @ E" by (simp add: C_def E_def)
  have C: "\<forall>y\<in>set C. lt y x"
  proof
    fix y assume "y \<in> set C"
    then obtain k where k: "k < i - ?m" "k < length B" "y = B ! k" unfolding C_def by (auto simp: in_set_conv_nth)
    then show "lt y x" using S(3)[of "?m + k"] x(2)[of k] by auto
  qed
  have E: "\<forall>y\<in>set E. \<not> lt y x"
  proof
    fix y assume "y \<in> set E"
    then obtain k where k: "k < length B - (i - ?m)" "y = B ! (i - ?m + k)" unfolding E_def by (auto simp: in_set_conv_nth)
    then show "\<not> lt y x" using S(1,2) S(4)[of "i + k"] x(2)[of "i - ?m + k"] by auto
  qed
  let ?t = "fold (\<lambda>k s. Swap D s k (k + 1)) [length p..<length p + length C] s"
  have "symMerge D s (length p) ?m ?b = Some ?t"
    using symMerge_insert_left[of ?m "length p" D s ?b] S(1) unfolding i_def[symmetric] lC by (simp add: Suc_diff_le)
  moreover have "elems ?t = p @ C @ x # (E @ r)" by (rule bubble_right) (simp add: e CE)
  moreover have "stable_merge lt [x] B = C @ x # E"
    unfolding CE using stable_merge_below[of C "[x]" lt E] stable_merge_above[of "[x]" E lt "[]"] C E by simp
  ultimately show ?thesis by simp
qed

lemma symMerge_app_right:
  assumes e: "elems s = p @ A @ [y] @ r" and A: "sorted_wrt (\<lambda>x y. \<not> lt y x) A" "length A \<noteq> 1"
  shows "\<exists>s'. symMerge D s (length p) (length p + length A) (length p + length A + 1) = Some s' \<and> elems s' = p @ stable_merge lt A [y] @ r"
proof -
  let ?m = "length p + length A"
  define i where "i = bsearch (\<lambda>h. \<not> Less D s ?m h) (length p) ?m"
  have srt: "sorted_rng lt (length p) ?m (elems s)" unfolding e using A(1) by (simp only: sorted_rng_mid)
  have x: "elems s ! ?m = y" "\<And>k. k < length A \<Longrightarrow> elems s ! (length p + k) = A ! k" by (simp_all add: e nth_append)
  have len: "?m < length (elems s)" by (simp add: e)
  note S = sorted_bsearch_above[OF srt le_add1 len, folded i_def, unfolded x]
  define C E where "C = take (i - length p) A" and "E = drop (i - length p) A"
  have l: "length C = i - length p" "length E = ?m - i" using S(1,2) by (simp_all add: C_def E_def)
  have CE: "A = C @ E" by (simp add: C_def E_def)
  have C: "\<forall>x\<in>set C. \<not> lt y x"
  proof
    fix x' assume "x' \<in> set C"
    then obtain k where k: "k < i - length p" "k < length A" "x' = A ! k" unfolding C_def by (auto simp: in_set_conv_nth)
    then show "\<not> lt y x'" using S(3)[of "length p + k"] x(2)[of k] by auto
  qed
  have E: "\<forall>x\<in>set E. lt y x"
  proof
    fix x' assume "x' \<in> set E"
    then obtain k where k: "k < length A - (i - length p)" "x' = A ! (i - length p + k)" unfolding E_def by (auto simp: in_set_conv_nth)
    then show "lt y x'" using S(1,2) S(4)[of "i + k"] x(2)[of "i - length p + k"] by auto
  qed
  let ?t = "fold (\<lambda>k s. Swap D s k (k - 1)) (rev [length (p @ C) + 1..<length (p @ C) + length E + 1]) s"
  have ix: "length (p @ C) = i" "i + length E = ?m" using l S(1,2) by simp_all
  have "symMerge D s (length p) ?m (?m + 1) = Some ?t"
    unfolding ix using symMerge_insert_right[of ?m "length p" "?m + 1" D s] A(2) unfolding i_def[symmetric] by simp
  moreover have "elems ?t = (p @ C) @ y # (E @ r)" by (rule bubble_left[unfolded append_assoc]) (simp add: e CE)
  moreover have "stable_merge lt A [y] = C @ y # E"
    unfolding CE using stable_merge_above[of C "[y]" lt E] stable_merge_below[of "[y]" E lt "[]"] C E by simp
  ultimately show ?thesis by simp
qed

lemma symMerge_cross:
  assumes ab: "a < m" "m < b" "b \<le> length (elems s)" and srt: "sorted_rng lt a m (elems s)" "sorted_rng lt m b (elems s)"
  defines "mid \<equiv> (a + b) div 2"
  defines "start \<equiv> symMerge_start D s a m b"
  defines "en \<equiv> mid + m - start"
  shows "m \<le> q \<Longrightarrow> q < en \<Longrightarrow> start \<le> k \<Longrightarrow> k < m \<Longrightarrow> lt (elems s ! q) (elems s ! k)"
    "a \<le> k \<Longrightarrow> k < start \<Longrightarrow> en \<le> q \<Longrightarrow> q < b \<Longrightarrow> \<not> lt (elems s ! q) (elems s ! k)"
proof -
  note S = symMerge_start_props[OF assms(1-5), folded mid_def start_def, folded en_def]
  have le: "\<not> lt (elems s ! j) (elems s ! i)" if "sorted_rng lt c d (elems s)" "c \<le> i" "i \<le> j" "j < d" for c d i j
    using sorted_rngD[OF that(1), of i j] that by (cases "i = j") auto
  show "lt (elems s ! q) (elems s ! k)" if "m \<le> q" "q < en" "start \<le> k" "k < m"
  proof -
    have "\<not> lt (elems s ! (en - 1)) (elems s ! q)" using le[OF srt(2), of q "en - 1"] that S(6) by linarith
    moreover have "\<not> lt (elems s ! k) (elems s ! start)" using le[OF srt(1), of start k] that S(1) by linarith
    moreover have "lt (elems s ! (en - 1)) (elems s ! start)" using S(8) that by linarith
    ultimately show ?thesis using le_lt_trans lt_le_trans by blast
  qed
  show "\<not> lt (elems s ! q) (elems s ! k)" if "a \<le> k" "k < start" "en \<le> q" "q < b"
  proof -
    have "\<not> lt (elems s ! q) (elems s ! en)" using le[OF srt(2), of en q] that S(4) by linarith
    moreover have "\<not> lt (elems s ! (start - 1)) (elems s ! k)" using le[OF srt(1), of k "start - 1"] that S(2) by linarith
    moreover have "\<not> lt (elems s ! en) (elems s ! (start - 1))" using S(9) that by linarith
    ultimately show ?thesis using le_trans by blast
  qed
qed

lemma symMerge_app:
  assumes "elems s = p @ A @ B @ r" "A \<noteq> []" "B \<noteq> []" "sorted_wrt (\<lambda>x y. \<not> lt y x) A" "sorted_wrt (\<lambda>x y. \<not> lt y x) B"
  shows "\<exists>s'. symMerge D s (length p) (length p + length A) (length p + length A + length B) = Some s' \<and> elems s' = p @ stable_merge lt A B @ r"
  using assms
proof (induction "length A + length B" arbitrary: p A B r s rule: less_induct)
  case less
  let ?a = "length p" let ?m = "length p + length A" let ?b = "length p + length A + length B"
  consider (l) "length A = 1" | (r) "length A \<noteq> 1" "length B = 1" | (big) "length A \<noteq> 1" "length B \<noteq> 1" by blast
  then show ?case
  proof cases
    case l
    then obtain x where "A = [x]" by (cases A) auto
    then show ?thesis using symMerge_app_left[of s p x B r] less.prems by simp
  next
    case r
    then obtain y where "B = [y]" by (cases B) auto
    then show ?thesis using symMerge_app_right[of s p A y r] less.prems r by simp
  next
    case big
    define mid start where "mid = (?a + ?b) div 2" and "start = symMerge_start D s ?a ?m ?b"
    define en where "en = mid + ?m - start"
    have srtA: "sorted_rng lt ?a ?m (elems s)" unfolding less.prems(1) using less.prems(4) by (simp only: sorted_rng_mid)
    have "sorted_rng lt (length (p @ A)) (length (p @ A) + length B) ((p @ A) @ B @ r)" using less.prems(5) by (simp only: sorted_rng_mid)
    then have srtB: "sorted_rng lt ?m ?b (elems s)" unfolding less.prems(1) by simp
    have "?a < ?m" "?m < ?b" "?b \<le> length (elems s)" using less.prems(1-3) by auto
    note S = symMerge_start_props[OF this srtA srtB, folded mid_def start_def, folded en_def]
      and X = symMerge_cross[OF this srtA srtB, folded mid_def start_def, folded en_def]
    have x: "\<And>k. k < length A \<Longrightarrow> elems s ! (?a + k) = A ! k" "\<And>k. k < length B \<Longrightarrow> elems s ! (?m + k) = B ! k"
      unfolding less.prems(1) by (simp_all add: nth_append)
    define A1 A2 where A12: "A1 = take (start - ?a) A" "A2 = drop (start - ?a) A"
    define B1 B2 where B12: "B1 = take (en - ?m) B" "B2 = drop (en - ?m) B"
    have AB: "A = A1 @ A2" "B = B1 @ B2" by (simp_all add: A12 B12)
    have lens: "?a + length A1 = start" "start + length A2 = ?m" "?m + length B1 = en" "en + length B2 = ?b"
      using S(1,2,4,6) by (simp_all add: A12 B12)
    have c1: "\<forall>y\<in>set B1. \<forall>x\<in>set A2. lt y x"
    proof (intro ballI)
      fix y x' assume "y \<in> set B1" "x' \<in> set A2"
      then obtain j k where "j < length B1" "y = B ! j" "k < length A2" "x' = A ! (start - ?a + k)"
        unfolding B12 A12 by (auto simp: in_set_conv_nth)
      then show "lt y x'" using X(1)[of "?m + j" "start + k"] x(1)[of "start - ?a + k"] x(2)[of j] lens S(1) AB(2) by auto
    qed
    have c2: "\<forall>x\<in>set A1. \<forall>y\<in>set B2. \<not> lt y x"
    proof (intro ballI)
      fix x' y assume "x' \<in> set A1" "y \<in> set B2"
      then obtain j k where "j < length A1" "x' = A ! j" "k < length B2" "y = B ! (en - ?m + k)"
        unfolding B12 A12 by (auto simp: in_set_conv_nth)
      then show "\<not> lt y x'" using X(2)[of "?a + j" "en + k"] x(1)[of j] x(2)[of "en - ?m + k"] lens S(4) AB(1) by auto
    qed
    have srt: "sorted_wrt (\<lambda>x y. \<not> lt y x) A1" "sorted_wrt (\<lambda>x y. \<not> lt y x) A2" "sorted_wrt (\<lambda>x y. \<not> lt y x) B1" "sorted_wrt (\<lambda>x y. \<not> lt y x) B2"
      using less.prems(4,5) unfolding AB by (simp_all add: sorted_wrt_append)
    have mids: "?a < mid" "mid < ?b" "?a + length A1 + length B1 = mid" "mid + length A2 = en"
      using big less.prems(2,3) lens S(7) unfolding mid_def by (cases A; cases B; simp)+
    obtain s1 where s1: "(if start < ?m \<and> ?m < en then sort_rotate D s start ?m en else Some s) = Some s1"
      "elems s1 = p @ A1 @ B1 @ A2 @ B2 @ r"
    proof (cases "start < ?m \<and> ?m < en")
      case True
      then have ne: "A2 \<noteq> []" "B1 \<noteq> []" using lens by auto
      have e: "elems s = (p @ A1) @ A2 @ B1 @ (B2 @ r)" using less.prems(1) AB by simp
      have "\<exists>s'. rotate_loop D ?m (length A2) (length B1) s = Some s' \<and> elems s' = (p @ A1) @ B1 @ A2 @ (B2 @ r)"
        by (rule rotate_loop_app[OF e _ ne]) (use lens in simp)
      moreover have "?m - start = length A2" "en - ?m = length B1" using lens by linarith+
      ultimately show ?thesis using True that unfolding sort_rotate_def by auto
    next
      case False
      then have "length A2 = 0 \<or> length B1 = 0" using lens by linarith
      then have "A2 = [] \<or> B1 = []" by simp
      then show ?thesis using that[of s] False less.prems(1) AB by auto
    qed
    obtain s2 where s2: "(if ?a < start \<and> start < mid then symMerge D s1 ?a start mid else Some s1) = Some s2"
      "elems s2 = p @ stable_merge lt A1 B1 @ A2 @ B2 @ r"
    proof (cases "?a < start \<and> start < mid")
      case True
      then have ne: "A1 \<noteq> []" "B1 \<noteq> []" using lens mids by auto
      have "\<exists>s'. symMerge D s1 ?a (?a + length A1) (?a + length A1 + length B1) = Some s' \<and> elems s' = p @ stable_merge lt A1 B1 @ (A2 @ B2 @ r)"
        by (rule less.hyps[OF _ s1(2) ne srt(1,3)]) (use mids lens in linarith)
      moreover have eqs: "?a + length A1 = start" "start + length B1 = mid" using lens mids by linarith+
      ultimately show ?thesis using True that unfolding eqs by auto
    next
      case False
      then have "length A1 = 0 \<or> length B1 = 0" using lens mids S(1,3) by linarith
      then have "A1 = [] \<or> B1 = []" by simp
      then show ?thesis using that[of s1] False s1(2) by auto
    qed
    have "\<exists>s3. (if mid < en \<and> en < ?b then symMerge D s2 mid en ?b else Some s2) = Some s3 \<and>
      elems s3 = (p @ stable_merge lt A1 B1) @ stable_merge lt A2 B2 @ r"
    proof (cases "mid < en \<and> en < ?b")
      case True
      then have ne: "A2 \<noteq> []" "B2 \<noteq> []" using lens mids by auto
      have e: "elems s2 = (p @ stable_merge lt A1 B1) @ A2 @ B2 @ r" using s2(2) by simp
      have lp: "length (p @ stable_merge lt A1 B1) = mid" using mids by simp
      have "\<exists>s'. symMerge D s2 mid (mid + length A2) (mid + length A2 + length B2) = Some s' \<and> elems s' = (p @ stable_merge lt A1 B1) @ stable_merge lt A2 B2 @ r"
        by (rule less.hyps[OF _ e ne srt(2,4), unfolded lp]) (use mids lens in linarith)
      moreover have eqs: "mid + length A2 = en" "en + length B2 = ?b" using lens mids by linarith+
      ultimately show ?thesis using True unfolding eqs by auto
    next
      case False
      then have "length A2 = 0 \<or> length B2 = 0" using lens mids S(5,6) by linarith
      then have "A2 = [] \<or> B2 = []" by simp
      then show ?thesis using False s2(2) by auto
    qed
    then obtain s3 where s3: "(if mid < en \<and> en < ?b then symMerge D s2 mid en ?b else Some s2) = Some s3"
      "elems s3 = (p @ stable_merge lt A1 B1) @ stable_merge lt A2 B2 @ r" by blast
    have "symMerge D s ?a ?m ?b = Some s3"
    proof -
      have n: "?m - ?a \<noteq> 1" "?b - ?m \<noteq> 1" using big by simp_all
      show ?thesis unfolding symMerge_split[OF n, of D s, folded mid_def start_def, folded en_def]
        by (simp only: s1(1) bind.bind_lunit s2(1) s3(1))
    qed
    moreover have "stable_merge lt A B = stable_merge lt A1 B1 @ stable_merge lt A2 B2"
      unfolding AB by (rule stable_merge_split[OF c1 c2])
    ultimately show ?thesis using s3(2) by simp
  qed
qed
end

section \<open>Passes over blocks\<close>

context sort_interface
begin

lemma symMerge_spec:
  assumes ab: "a < m" "m < b" "b \<le> length (elems s)" and srt: "sorted_rng lt a m (elems s)" "sorted_rng lt m b (elems s)"
  shows "\<exists>s'. symMerge D s a m b = Some s' \<and> sorted_rng lt a b (elems s') \<and> rearr a b (elems s) (elems s') \<and> same_order lt (elems s) (elems s')"
proof -
  let ?x = "elems s"
  define p A B r where "p = take a ?x" and "A = take (m - a) (drop a ?x)" and "B = take (b - m) (drop m ?x)" and "r = drop b ?x"
  have len: "length p = a" "length A = m - a" "length B = b - m" using ab by (simp_all add: p_def A_def B_def)
  have lens: "length p + length A = m" "length p + length A + length B = b" using len ab by simp_all
  have "drop a ?x = A @ drop m ?x" unfolding A_def using ab by (metis append_take_drop_id drop_drop le_add_diff_inverse2 less_imp_le_nat)
  moreover have "drop m ?x = B @ r" unfolding B_def r_def using ab by (metis append_take_drop_id drop_drop le_add_diff_inverse2 less_imp_le_nat)
  ultimately have e: "?x = p @ A @ B @ r" unfolding p_def by (metis append_take_drop_id)
  have sA: "sorted_wrt (\<lambda>x y. \<not> lt y x) A" using srt(1) sorted_rng_mid[of lt p A "B @ r"] unfolding e[symmetric] lens(1) unfolding len(1) by simp
  have "sorted_rng lt (length (p @ A)) (length (p @ A) + length B) ((p @ A) @ B @ r)" using srt(2) e lens by simp
  then have sB: "sorted_wrt (\<lambda>x y. \<not> lt y x) B" by (simp only: sorted_rng_mid)
  have ne: "A \<noteq> []" "B \<noteq> []" using len ab by auto
  have "\<exists>s'. symMerge D s a m b = Some s' \<and> elems s' = p @ stable_merge lt A B @ r"
  proof -
    have "m + length B = b" using lens by simp
    from symMerge_app[OF e ne sA sB, unfolded lens(1), unfolded this, unfolded len(1)] show ?thesis .
  qed
  then obtain s' where s': "symMerge D s a m b = Some s'" "elems s' = p @ stable_merge lt A B @ r" by blast
  note w = strict_weak_order_axioms
  have "sorted_rng lt (length p) (length p + length (stable_merge lt A B)) (elems s')"
    unfolding s'(2) sorted_rng_mid by (rule sorted_stable_merge[OF w sA sB])
  moreover have "length p + length (stable_merge lt A B) = b" using lens by simp
  ultimately have "sorted_rng lt a b (elems s')" using len(1) by metis
  moreover have "rearr a b ?x (elems s')"
    unfolding rearr_def
  proof (intro conjI allI impI)
    fix i assume i: "i < length ?x" "i < a \<or> b \<le> i"
    show "elems s' ! i = ?x ! i"
    proof (cases "i < a")
      case True
      then show ?thesis using len(1) by (subst e) (simp add: s'(2) nth_append)
    next
      case False
      then have "b \<le> i" using i by simp
      then have "i = length (p @ stable_merge lt A B) + (i - b)" "i = length (p @ A @ B) + (i - b)" using lens by simp_all
      then have "elems s' ! i = r ! (i - b)" "?x ! i = r ! (i - b)"
        using nth_append_length_plus[of "p @ stable_merge lt A B" r "i - b"] nth_append_length_plus[of "p @ A @ B" r "i - b"] s'(2) e by simp_all
      then show ?thesis by simp
    qed
  next
    show "length (elems s') = length ?x" "mset (elems s') = mset ?x" by (simp_all add: s'(2) e)
  qed
  moreover have "same_order lt ?x (elems s')" unfolding same_order_def
  proof
    fix z
    show "filter (eqv lt z) (elems s') = filter (eqv lt z) ?x"
      by (subst e) (simp add: s'(2) filter_stable_merge[OF w sA])
  qed
  ultimately show ?thesis using s'(1) by blast
qed

lemma stable_blocks_spec:
  assumes "a = 20 * j" "b = a + 20" "a \<le> n" "n \<le> length (elems s)" "\<forall>k < j. sorted_rng lt (k * 20) ((k + 1) * 20) (elems s)"
    "2 * n \<le> max_int w64"
  shows "\<exists>j' s'. stable_blocks w64 D n a b s = Some (20 * j', s') \<and> 20 * j' \<le> n \<and> n < 20 * j' + 20 \<and> rearr 0 n (elems s) (elems s')
    \<and> same_order lt (elems s) (elems s') \<and> (\<forall>k < j'. sorted_rng lt (k * 20) ((k + 1) * 20) (elems s'))"
  using assms
proof (induction "n + 1 - b" arbitrary: a b j s rule: less_induct)
  case less
  show ?case
  proof (cases "b \<le> n")
    case True
    let ?s = "insertionSort D s a b"
    have I: "sorted_rng lt a b (elems ?s)" "rearr a b (elems s) (elems ?s)" "same_order lt (elems s) (elems ?s)"
      using insertionSort_spec[of b s a] True less.prems by auto
    have r: "rearr 0 n (elems s) (elems ?s)" using rearr_mono[OF I(2)] True by simp
    have "\<forall>k < Suc j. sorted_rng lt (k * 20) ((k + 1) * 20) (elems ?s)"
    proof (intro allI impI)
      fix k assume "k < Suc j"
      show "sorted_rng lt (k * 20) ((k + 1) * 20) (elems ?s)"
      proof (cases "k = j")
        case T: True
        then show ?thesis using I(1) less.prems(1,2) by (simp add: mult.commute add.commute)
      next
        case False
        then have "(k + 1) * 20 \<le> a" using \<open>k < Suc j\<close> less.prems(1) by simp
        then show ?thesis using rearr_sorted_rng[OF I(2), of "(k + 1) * 20" "k * 20"] less.prems False \<open>k < Suc j\<close> by simp
      qed
    qed
    then have "\<exists>j' s'. stable_blocks w64 D n b (b + 20) ?s = Some (20 * j', s') \<and> 20 * j' \<le> n \<and> n < 20 * j' + 20 \<and> rearr 0 n (elems ?s) (elems s')
      \<and> same_order lt (elems ?s) (elems s') \<and> (\<forall>k < j'. sorted_rng lt (k * 20) ((k + 1) * 20) (elems s'))"
      using True less.prems rearr_length[OF r] by (intro less.hyps[where j = "Suc j"]) auto
    moreover have "\<not> max_int w64 < b + 20" using True less.prems(6) max_int_large [of w64] by linarith
    then have "stable_blocks w64 D n a b s = stable_blocks w64 D n b (b + 20) ?s" using True by (subst stable_blocks.simps) simp
    ultimately show ?thesis using rearr_trans[OF r] same_order_trans[OF I(3)] by metis
  next
    case False
    then have "stable_blocks w64 D n a b s = Some (20 * j, s)" using less.prems(1) by (subst stable_blocks.simps) simp
    then show ?thesis using False less.prems by (intro exI[of _ j] exI[of _ s]) auto
  qed
qed

lemma stable_merges_spec:
  assumes "0 < bs" "a = 2 * bs * j" "b = a + 2 * bs" "a \<le> n" "n \<le> length (elems s)"
    "\<forall>k < j. sorted_rng lt (k * (2 * bs)) ((k + 1) * (2 * bs)) (elems s)"
    "\<forall>k \<ge> 2 * j. sorted_rng lt (k * bs) (min n ((k + 1) * bs)) (elems s)"
    "2 * n \<le> max_int w64"
  shows "\<exists>j' s'. stable_merges w64 D n bs a b s = Some (2 * bs * j', s') \<and> 2 * bs * j' \<le> n \<and> n < 2 * bs * j' + 2 * bs \<and> rearr 0 n (elems s) (elems s')
    \<and> same_order lt (elems s) (elems s') \<and> (\<forall>k < j'. sorted_rng lt (k * (2 * bs)) ((k + 1) * (2 * bs)) (elems s'))
    \<and> (\<forall>k \<ge> 2 * j'. sorted_rng lt (k * bs) (min n ((k + 1) * bs)) (elems s'))"
  using assms
proof (induction "n + 1 - b" arbitrary: a b j s rule: less_induct)
  case less
  show ?case
  proof (cases "b \<le> n")
    case True
    have "sorted_rng lt a (a + bs) (elems s)" "sorted_rng lt (a + bs) b (elems s)"
      using less.prems(7)[rule_format, of "2 * j"] less.prems(7)[rule_format, of "2 * j + 1"] less.prems(2,3) True
      by (simp_all add: algebra_simps min_def split: if_splits)
    then obtain s1 where s1: "symMerge D s a (a + bs) b = Some s1" "sorted_rng lt a b (elems s1)" "rearr a b (elems s) (elems s1)" "same_order lt (elems s) (elems s1)"
      using symMerge_spec[of a "a + bs" b s] less.prems True by auto
    have r: "rearr 0 n (elems s) (elems s1)" using rearr_mono[OF s1(3)] True by simp
    have p1: "\<forall>k < Suc j. sorted_rng lt (k * (2 * bs)) ((k + 1) * (2 * bs)) (elems s1)"
    proof (intro allI impI)
      fix k assume k: "k < Suc j"
      show "sorted_rng lt (k * (2 * bs)) ((k + 1) * (2 * bs)) (elems s1)"
      proof (cases "k = j")
        case T: True
        then show ?thesis using s1(2) less.prems(2,3) by (simp add: algebra_simps)
      next
        case False
        then have "(k + 1) * (2 * bs) \<le> j * (2 * bs)" using k by (intro mult_right_mono) auto
        then have le: "(k + 1) * (2 * bs) \<le> a" using less.prems(2) by (simp add: algebra_simps)
        have "sorted_rng lt (k * (2 * bs)) ((k + 1) * (2 * bs)) (elems s)" using less.prems(6) False k by simp
        moreover have "(k + 1) * (2 * bs) \<le> length (elems s)" using le less.prems(4,5) by linarith
        ultimately show ?thesis using rearr_sorted_rng[OF s1(3) disjI1[OF le]] by blast
      qed
    qed
    have p2: "\<forall>k \<ge> 2 * Suc j. sorted_rng lt (k * bs) (min n ((k + 1) * bs)) (elems s1)"
    proof (intro allI impI)
      fix k assume k: "2 * Suc j \<le> k"
      then have "2 * Suc j * bs \<le> k * bs" by (rule mult_right_mono) simp
      then have ge: "b \<le> k * bs" using less.prems(2,3) by (simp add: algebra_simps)
      have "sorted_rng lt (k * bs) (min n ((k + 1) * bs)) (elems s)" using less.prems(7) k by simp
      then show "sorted_rng lt (k * bs) (min n ((k + 1) * bs)) (elems s1)"
        using rearr_sorted_rng[OF s1(3) disjI2[OF ge], of "min n ((k + 1) * bs)"] less.prems(5) by simp
    qed
    have IH: "\<exists>j' s'. stable_merges w64 D n bs b (b + 2 * bs) s1 = Some (2 * bs * j', s') \<and> 2 * bs * j' \<le> n \<and> n < 2 * bs * j' + 2 * bs \<and> rearr 0 n (elems s1) (elems s')
      \<and> same_order lt (elems s1) (elems s') \<and> (\<forall>k < j'. sorted_rng lt (k * (2 * bs)) ((k + 1) * (2 * bs)) (elems s'))
      \<and> (\<forall>k \<ge> 2 * j'. sorted_rng lt (k * bs) (min n ((k + 1) * bs)) (elems s'))"
      by (rule less.hyps[OF _ less.prems(1) _ refl _ _ p1 p2]) (use True less.prems rearr_length[OF r] in auto)
    moreover have "\<not> max_int w64 < b + 2 * bs" using True less.prems(3,8) by linarith
    then have "stable_merges w64 D n bs a b s = stable_merges w64 D n bs b (b + 2 * bs) s1"
      using True s1(1) by (subst stable_merges.simps) simp
    ultimately show ?thesis using rearr_trans[OF r] same_order_trans[OF s1(4)] by metis
  next
    case False
    then have "stable_merges w64 D n bs a b s = Some (2 * bs * j, s)" using less.prems(2) by (subst stable_merges.simps) simp
    then show ?thesis using False less.prems by (intro exI[of _ j] exI[of _ s]) auto
  qed
qed

lemma stable_passes_spec:
  assumes "0 < bs" "n \<le> length (elems s)" "sorted_blocks lt bs n (elems s)" "2 * n \<le> max_int w64"
  shows "\<exists>s'. stable_passes w64 D n bs s = Some s' \<and> sorted_rng lt 0 n (elems s') \<and> rearr 0 n (elems s) (elems s') \<and> same_order lt (elems s) (elems s')"
  using assms
proof (induction "n - bs" arbitrary: bs s rule: less_induct)
  case less
  show ?case
  proof (cases "bs < n")
    case True
    have "\<forall>k \<ge> 2 * 0. sorted_rng lt (k * bs) (min n ((k + 1) * bs)) (elems s)" using less.prems(3) by (simp add: sorted_blocks_def)
    then obtain j s1 where s1: "stable_merges w64 D n bs 0 (2 * bs) s = Some (2 * bs * j, s1)" "2 * bs * j \<le> n" "n < 2 * bs * j + 2 * bs"
      "rearr 0 n (elems s) (elems s1)" "same_order lt (elems s) (elems s1)"
      "\<forall>k < j. sorted_rng lt (k * (2 * bs)) ((k + 1) * (2 * bs)) (elems s1)"
      "\<forall>k \<ge> 2 * j. sorted_rng lt (k * bs) (min n ((k + 1) * bs)) (elems s1)"
      using stable_merges_spec[of bs 0 0 "2 * bs" n s w64] less.prems by auto
    let ?a = "2 * bs * j"
    have l1: "n \<le> length (elems s1)" using rearr_length[OF s1(4)] less.prems by simp
    have fits: "\<not> max_int w64 < ?a + bs" "\<not> max_int w64 < 2 * bs" using True s1(2) less.prems(4) by linarith+
    have "\<exists>s2. (let m = ?a + bs in if max_int w64 < m then None else if m < n then symMerge D s1 ?a m n else Some s1) = Some s2 \<and> sorted_rng lt ?a n (elems s2)
      \<and> rearr ?a n (elems s1) (elems s2) \<and> same_order lt (elems s1) (elems s2)"
    proof (cases "?a + bs < n")
      case T: True
      have "sorted_rng lt ?a (?a + bs) (elems s1)" "sorted_rng lt (?a + bs) n (elems s1)"
        using s1(7)[rule_format, of "2 * j"] s1(7)[rule_format, of "2 * j + 1"] T s1(3)
        by (simp_all add: algebra_simps min_def split: if_splits)
      then show ?thesis using symMerge_spec[of ?a "?a + bs" n s1] T fits(1) less.prems(1) l1 by (simp add: Let_def)
    next
      case False
      then have "sorted_rng lt ?a n (elems s1)"
        using s1(7)[rule_format, of "2 * j"] by (simp add: algebra_simps min_def split: if_splits)
      then show ?thesis using False fits(1) by simp
    qed
    then obtain s2 where s2: "(let m = ?a + bs in if max_int w64 < m then None else if m < n then symMerge D s1 ?a m n else Some s1) = Some s2" "sorted_rng lt ?a n (elems s2)"
      "rearr ?a n (elems s1) (elems s2)" "same_order lt (elems s1) (elems s2)" by blast
    have "sorted_blocks lt (bs * 2) n (elems s2)"
      unfolding sorted_blocks_def
    proof
      fix k
      consider "k < j" | "k = j" | "j < k" by linarith
      then show "sorted_rng lt (k * (bs * 2)) (min n ((k + 1) * (bs * 2))) (elems s2)"
      proof cases
        case 1
        then have "(k + 1) * (2 * bs) \<le> j * (2 * bs)" by (intro mult_right_mono) auto
        then have le: "(k + 1) * (2 * bs) \<le> ?a" by (simp add: algebra_simps)
        have "sorted_rng lt (k * (2 * bs)) ((k + 1) * (2 * bs)) (elems s1)" using s1(6) 1 by blast
        moreover have "(k + 1) * (2 * bs) \<le> length (elems s1)" using le s1(2) l1 by linarith
        ultimately have "sorted_rng lt (k * (2 * bs)) ((k + 1) * (2 * bs)) (elems s2)"
          using rearr_sorted_rng[OF s2(3) disjI1[OF le]] by blast
        moreover have "min n ((k + 1) * (bs * 2)) = (k + 1) * (2 * bs)" using le s1(2) by (simp add: mult.commute[of bs 2])
        ultimately show ?thesis by (simp add: mult.commute[of bs 2])
      next
        case 2
        have "min n ((k + 1) * (bs * 2)) = n" using s1(3) 2 by (simp add: algebra_simps)
        then show ?thesis using s2(2) 2 by (simp add: algebra_simps)
      next
        case 3
        then have "(j + 1) * (2 * bs) \<le> k * (2 * bs)" by (intro mult_right_mono) auto
        then have "n \<le> k * (bs * 2)" using s1(3) by (simp add: algebra_simps)
        then show ?thesis by simp
      qed
    qed
    then obtain s3 where s3: "stable_passes w64 D n (bs * 2) s2 = Some s3" "sorted_rng lt 0 n (elems s3)" "rearr 0 n (elems s2) (elems s3)" "same_order lt (elems s2) (elems s3)"
    proof -
      have "n - bs * 2 < n - bs" using True less.prems(1) by linarith
      then show ?thesis using that less.hyps[of "bs * 2" s2] less.prems(1,4) l1 rearr_length[OF s2(3)] \<open>sorted_blocks lt (bs * 2) n (elems s2)\<close> by auto
    qed
    have "stable_passes w64 D n bs s = Some s3" using True s1(1) s2(1) s3(1) fits(2) by (subst stable_passes.simps) simp
    moreover have "rearr 0 n (elems s) (elems s3)" using rearr_trans[OF rearr_trans[OF s1(4) rearr_mono[OF s2(3)]] s3(3)] by simp
    ultimately show ?thesis using s3(2) same_order_trans[OF same_order_trans[OF s1(5) s2(4)] s3(4)] by blast
  next
    case False
    then have "stable_passes w64 D n bs s = Some s" by (subst stable_passes.simps) simp
    moreover have "sorted_rng lt 0 n (elems s)" using less.prems(3)[unfolded sorted_blocks_def, rule_format, of 0] False by (simp add: min_def split: if_splits)
    ultimately show ?thesis by simp
  qed
qed

lemma Stable_spec:
  assumes "2 * length (elems s) \<le> max_int w64"
  shows "\<exists>s'. sort_Stable w64 D s = Some s' \<and> sorted_rng lt 0 (length (elems s)) (elems s') \<and> mset (elems s') = mset (elems s) \<and> same_order lt (elems s) (elems s')"
proof -
  let ?n = "length (elems s)"
  obtain j s1 where s1: "stable_blocks w64 D ?n 0 20 s = Some (20 * j, s1)" "20 * j \<le> ?n" "?n < 20 * j + 20" "rearr 0 ?n (elems s) (elems s1)"
    "same_order lt (elems s) (elems s1)" "\<forall>k < j. sorted_rng lt (k * 20) ((k + 1) * 20) (elems s1)"
    using stable_blocks_spec[of 0 0 20 ?n s w64] assms by auto
  let ?s = "insertionSort D s1 (20 * j) ?n"
  have I: "sorted_rng lt (20 * j) ?n (elems ?s)" "rearr (20 * j) ?n (elems s1) (elems ?s)" "same_order lt (elems s1) (elems ?s)"
    using insertionSort_spec[of ?n s1 "20 * j"] rearr_length[OF s1(4)] by auto
  have "sorted_blocks lt 20 ?n (elems ?s)" unfolding sorted_blocks_def
  proof
    fix k
    consider "k < j" | "k = j" | "j < k" by linarith
    then show "sorted_rng lt (k * 20) (min ?n ((k + 1) * 20)) (elems ?s)"
    proof cases
      case 1
      then have "(k + 1) * 20 \<le> 20 * j" by simp
      moreover from this have "min ?n ((k + 1) * 20) = (k + 1) * 20" using s1(2) by linarith
      ultimately show ?thesis using rearr_sorted_rng[OF I(2), of "(k + 1) * 20" "k * 20"] s1(2,6) 1 rearr_length[OF s1(4)] by simp
    qed (use I(1) s1(3) in \<open>simp_all add: min_def mult.commute\<close>)
  qed
  then obtain s2 where s2: "stable_passes w64 D ?n 20 ?s = Some s2" "sorted_rng lt 0 ?n (elems s2)" "rearr 0 ?n (elems ?s) (elems s2)" "same_order lt (elems ?s) (elems s2)"
    using stable_passes_spec[of 20 ?n ?s w64] assms rearr_length[OF s1(4)] rearr_length[OF I(2)] by auto
  have "sort_Stable w64 D s = Some s2" using s1(1) s2(1) by (simp add: sort_Stable_def stable_def Len)
  moreover have "mset (elems s2) = mset (elems s)" using s1(4) I(2) s2(3) by (simp add: rearr_def)
  ultimately show ?thesis using s2(2) same_order_trans[OF same_order_trans[OF s1(5) I(3)] s2(4)] by blast
qed
end

end
