(* ===== verification/Sort_Correct.thy ===== *)
theory Sort_Correct
  imports Sort_Stable
begin

text \<open>
  The contracts of package \<open>sort\<close> and of the sorting half of package \<open>slices\<close>, for every
  implementation of \<open>sort.Interface\<close> and, by interpretation, for slices.
\<close>

section \<open>Interpretations\<close>

sublocale strict_weak_order \<subseteq> slice: sort_interface lt "slice_Interface lt" "\<lambda>xs. xs"
  by (rule slice_sort_interface) (rule strict_weak_order_axioms)

lemma key_order: "strict_weak_order (\<lambda>x y. f x < (f y :: 'b::linorder))"
  by unfold_locales (auto intro: order_trans)

interpretation int_slice: sort_interface "(<) :: int \<Rightarrow> int \<Rightarrow> bool" IntSlice "\<lambda>xs. xs"
  unfolding IntSlice_def by (rule slice_sort_interface) (rule key_order [of "\<lambda>x. x"])

interpretation int_desc: sort_interface "\<lambda>x y :: int. y < x" "sort_Reverse IntSlice" "\<lambda>xs. xs"
  by (rule reverse_sort_interface) (rule int_slice.sort_interface_axioms)

section \<open>Library lemmas\<close>

lemma pdqsort_full:
  assumes "sort_interface lt D elems" and "2 * length (elems s) \<le> max_int w64"
  shows "\<exists>t. pdqsort w64 D s 0 (length (elems s)) limit = Some t \<and> sorted_wrt (\<lambda>x y. \<not> lt y x) (elems t)
    \<and> mset (elems t) = mset (elems s)"
proof -
  obtain t where t: "pdqsort_loop w64 D s 0 (length (elems s)) limit True True = Some t"
      "sorted_rng lt 0 (length (elems s)) (elems t)" "rearr 0 (length (elems s)) (elems s) (elems t)"
    using sort_interface.pdqsort_loop_spec [OF assms(1), of "length (elems s)" s w64 0 limit True True] assms(2) by auto
  then have "length (elems t) = length (elems s)" "mset (elems t) = mset (elems s)" by (simp_all add: rearr_def)
  then show ?thesis using t sorted_rng_wrt [of lt "elems t"] by (auto simp: pdqsort_def)
qed

lemma Stable_full:
  assumes "sort_interface lt D elems" and "2 * length (elems s) \<le> max_int w64"
  shows "\<exists>s'. stable w64 D s (length (elems s)) = Some s' \<and> sorted_wrt (\<lambda>x y. \<not> lt y x) (elems s')
    \<and> mset (elems s') = mset (elems s) \<and> same_order lt (elems s) (elems s')"
proof -
  have "Len D s = length (elems s)" by (rule sort_interface.Len [OF assms(1)])
  then have "sort_Stable w64 D s = stable w64 D s (length (elems s))" by (simp add: sort_Stable_def)
  then obtain s' where s': "stable w64 D s (length (elems s)) = Some s'"
    "sorted_rng lt 0 (length (elems s)) (elems s')" "mset (elems s') = mset (elems s)"
    "same_order lt (elems s) (elems s')"
    using sort_interface.Stable_spec [OF assms] by auto
  have "length (elems s') = length (elems s)" using s'(3) by (metis size_mset)
  then show ?thesis using s' sorted_rng_wrt [of lt "elems s'"] by auto
qed

lemma stable_sort_key:
  assumes "2 * length xs \<le> max_int w64"
  shows "stable w64 (slice_Interface (\<lambda>x y. f x < (f y :: 'b::linorder))) xs (length xs) = Some (sort_key f xs)"
proof -
  let ?lt = "\<lambda>x y. f x < f y"
  obtain ys where ys: "stable w64 (slice_Interface ?lt) xs (length xs) = Some ys"
    "sorted_wrt (\<lambda>x y. \<not> ?lt y x) ys" "mset ys = mset xs" "same_order ?lt xs ys"
    using Stable_full [OF slice_sort_interface [OF key_order [of f]] assms] by auto
  have "sort_key f xs = ys"
  proof (rule properties_for_sort_key)
    show "mset ys = mset xs" by (rule ys(3))
    show "filter (\<lambda>x. f k = f x) ys = filter (\<lambda>x. f k = f x) xs" if "k \<in> set ys" for k
    proof -
      have "eqv ?lt k = (\<lambda>x. f k = f x)" unfolding eqv_def fun_eq_iff by (metis less_irrefl linorder_less_linear)
      then show ?thesis using ys(4) unfolding same_order_def by metis
    qed
    show "sorted (map f ys)" using ys(2) by (simp add: sorted_wrt_map not_less)
  qed
  then show ?thesis using ys(1) by simp
qed

lemma pdqsort_sort:
  assumes "2 * length xs \<le> max_int w64"
  shows "pdqsort w64 IntSlice xs 0 (length xs) limit = Some (sort xs)"
proof -
  obtain ys where ys: "pdqsort w64 IntSlice xs 0 (length xs) limit = Some ys" "sorted_wrt (\<lambda>x y. \<not> y < x) ys" "mset ys = mset xs"
    using pdqsort_full [OF int_slice.sort_interface_axioms assms] by blast
  have "sort xs = ys" using ys(2,3) by (intro properties_for_sort) (simp_all add: not_less)
  then show ?thesis using ys(1) by simp
qed

lemma bsearch_Least:
  assumes "\<forall>i j. i \<le> j \<and> j < n \<and> p j \<longrightarrow> p i"
  shows "bsearch p 0 n = (LEAST i. i = n \<or> \<not> p i)"
proof (rule sym, rule Least_equality)
  note B = bsearch_mono [of 0 n p]
  have m: "\<forall>k k'. 0 \<le> k \<and> k \<le> k' \<and> k' < n \<and> p k' \<longrightarrow> p k" using assms by blast
  show "bsearch p 0 n = n \<or> \<not> p (bsearch p 0 n)" using B(2,4) [OF _ m] by fastforce
  show "bsearch p 0 n \<le> y" if "y = n \<or> \<not> p y" for y using B(2,3) [OF _ m] that by (metis le0 linorder_not_less)
qed

section \<open>Properties\<close>

text \<open>
  C10. \<open>sort.Sort\<close>: for every implementation of \<open>sort.Interface\<close> whose \<open>Less\<close> is a strict weak
  ordering of its elements, on a collection of which twice the length is an \<open>int\<close>, \<open>Sort\<close> returns without an index leaving
  the range of \<open>int\<close>; the result is sorted, has the same elements, and passes \<open>IsSorted\<close>; \<open>Sort\<close> with \<open>Reverse\<close> sorts in the
  opposite order.  The bound, fewer than \<open>2^30\<close> elements on a 32-bit target, is what keeps the \<open>2*root + 1\<close> of
  \<open>siftDown\<close> from wrapping.
\<close>

theorem sort_Sort_sorts:
  assumes "sort_interface lt D elems" and "2 * length (elems s) \<le> max_int w64"
  shows "(\<exists>t. sort_Sort w64 D s = Some t \<and> sorted_wrt (\<lambda>x y. \<not> lt y x) (elems t)
      \<and> mset (elems t) = mset (elems s) \<and> sort_IsSorted D t)
    \<and> (\<exists>t. sort_Sort w64 (sort_Reverse D) s = Some t \<and> sorted_wrt (\<lambda>x y. \<not> lt x y) (elems t)
      \<and> mset (elems t) = mset (elems s))"
proof -
  have S: "\<exists>t. sort_Sort w64 E s = Some t \<and> sorted_wrt (\<lambda>x y. \<not> l y x) (elems t)
      \<and> mset (elems t) = mset (elems s) \<and> sort_IsSorted E t" if l: "sort_interface l E elems" for l E
  proof -
    obtain t where t: "sort_Sort w64 E s = Some t" "sorted_rng l 0 (length (elems s)) (elems t)" "mset (elems t) = mset (elems s)"
      using sort_interface.Sort_spec [OF l assms(2)] by auto
    have "length (elems t) = length (elems s)" using t(3) by (metis size_mset)
    then show ?thesis
      using t sort_interface.IsSorted_spec [OF l, of t] sorted_rng_wrt [of l "elems t"] by simp
  qed
  show ?thesis using S [OF assms(1)] S [OF reverse_sort_interface [OF assms(1)]] by blast
qed

theorem sort_Sort_sorts_witness:
  "(\<exists>t. sort_Sort True IntSlice [3, 1, 2 :: int] = Some t \<and> sorted_wrt (\<lambda>x y. \<not> y < x) t)
   \<and> (\<exists>t. sort_Sort True (sort_Reverse IntSlice) [3, 1, 2 :: int] = Some t \<and> sorted_wrt (\<lambda>x y. \<not> x < y) t)"
proof -
  have "2 * length [3, 1, 2 :: int] \<le> max_int True" by (simp add: max_int_def)
  from sort_Sort_sorts [OF int_slice.sort_interface_axioms this] show ?thesis by blast
qed

text \<open>
  C11. \<open>sort.Stable\<close>, on a collection of which twice the length is an \<open>int\<close> (fewer than \<open>2^30\<close> elements on a 32-bit target),
  returns without a block size or a block end leaving the range of \<open>int\<close>; its result is the stable sort of the elements:
  sorted, a permutation, and equivalent elements in their original order.
\<close>

theorem sort_Stable_stable:
  assumes "sort_interface lt D elems" and "2 * length (elems s) \<le> max_int w64"
  shows "\<exists>s'. sort_Stable w64 D s = Some s' \<and> sorted_wrt (\<lambda>x y. \<not> lt y x) (elems s')
    \<and> mset (elems s') = mset (elems s)
    \<and> (\<forall>x. filter (\<lambda>y. \<not> lt x y \<and> \<not> lt y x) (elems s') = filter (\<lambda>y. \<not> lt x y \<and> \<not> lt y x) (elems s))"
proof -
  have "sort_Stable w64 D s = stable w64 D s (length (elems s))"
    by (simp add: sort_Stable_def sort_interface.Len [OF assms(1)])
  moreover have "eqv lt x = (\<lambda>y. \<not> lt x y \<and> \<not> lt y x)" for x by (simp add: eqv_def fun_eq_iff)
  ultimately show ?thesis using Stable_full [OF assms] by (simp add: same_order_def)
qed

theorem sort_Stable_stable_witness:
  "\<exists>s'. sort_Stable False (slice_Interface (\<lambda>x y. fst x < (fst y :: int))) [(2, 1), (1, 2), (2, 3 :: int)] = Some s'
     \<and> mset s' = {#(2, 1), (1, 2), (2, 3)#}"
proof -
  have "2 * length [(2, 1), (1, 2), (2 :: int, 3 :: int)] \<le> max_int False" by (simp add: max_int_def)
  from sort_Stable_stable [OF slice_sort_interface [OF key_order [of "fst :: int \<times> int \<Rightarrow> int"]] this]
  show ?thesis by auto
qed

lemma Stable_sort_key_cases:
  fixes f :: "'a \<Rightarrow> 'b::linorder" and g :: "'a \<Rightarrow> int"
  assumes "2 * length xs \<le> max_int w64"
  shows "sort_Stable w64 (slice_Interface (\<lambda>x y. f x < f y)) xs = Some (sort_key f xs)
    \<and> sort_SliceStable w64 (slice_Interface (\<lambda>x y. f x < f y)) xs = Some (sort_key f xs)
    \<and> slices_SortStableFunc w64 xs (\<lambda>x y. g x - g y) = Some (sort_key g xs)"
  using stable_sort_key [OF assms, of f] stable_sort_key [OF assms, of g]
  by (simp add: sort_Stable_def sort_SliceStable_def slices_SortStableFunc_def cmp_Interface_def,
      simp add: slice_Interface_def)

lemma sort_ints_cases:
  assumes "2 * length xs \<le> max_int w64"
  shows "sort_Sort w64 IntSlice xs = Some (sort xs) \<and> sort_Slice w64 IntSlice xs = Some (sort xs)
    \<and> slices_SortFunc w64 xs (\<lambda>x y. x - y) = Some (sort xs)
    \<and> sort_IsSorted IntSlice xs = sorted xs \<and> slices_IsSortedFunc xs (\<lambda>x y. x - y) = sorted xs"
proof -
  have c: "cmp_Interface (\<lambda>x y. x - y) = IntSlice" by (simp add: cmp_Interface_def IntSlice_def)
  have L: "Len IntSlice xs = length xs" by (rule int_slice.Len)
  have s: "sort xs = xs" if "length xs \<le> 1" using that by (cases xs) auto
  have i: "sort_IsSorted IntSlice xs = sorted xs"
    using int_slice.IsSorted_spec [of xs] sorted_rng_wrt [of "(<)" xs] by (simp add: not_less)
  show ?thesis
    using pdqsort_sort [OF assms] s i
    by (simp add: sort_Sort_def sort_Slice_def slices_SortFunc_def c L Let_def
        slices_IsSortedFunc_def sort_IsSorted_def)
qed

text \<open>
  C13. On slices of which twice the length is an \<open>int\<close> (fewer than \<open>2^30\<close> elements on a 32-bit target) the sorting functions
  compute the library's: ordered by a key, \<open>Stable\<close>, \<open>SliceStable\<close> and \<open>slices.SortStableFunc\<close> compute the stable
  \<open>sort_key\<close>; on integers \<open>sort.Sort\<close>, \<open>sort.Slice\<close> and \<open>slices.SortFunc\<close> compute \<open>sort\<close>, and the sortedness tests
  decide \<open>sorted\<close>.
\<close>

theorem sort_slices_equivalent:
  fixes f :: "'a \<Rightarrow> 'b::linorder" and g :: "'a \<Rightarrow> int"
  assumes "2 * length xs \<le> max_int w64" and "2 * length ns \<le> max_int w64"
  shows "sort_Stable w64 (slice_Interface (\<lambda>x y. f x < f y)) xs = Some (sort_key f xs)
    \<and> sort_SliceStable w64 (slice_Interface (\<lambda>x y. f x < f y)) xs = Some (sort_key f xs)
    \<and> slices_SortStableFunc w64 xs (\<lambda>x y. g x - g y) = Some (sort_key g xs)
    \<and> sort_Sort w64 IntSlice ns = Some (sort ns) \<and> sort_Slice w64 IntSlice ns = Some (sort ns)
    \<and> slices_SortFunc w64 ns (\<lambda>x y. x - y) = Some (sort ns)
    \<and> sort_IsSorted IntSlice ns = sorted ns \<and> slices_IsSortedFunc ns (\<lambda>x y. x - y) = sorted ns"
  using Stable_sort_key_cases [OF assms(1), of f g] sort_ints_cases [OF assms(2)] by simp

theorem sort_slices_equivalent_witness:
  "sort_Sort False IntSlice [5, -3, 5, 0] = Some [-3, 0, 5, 5]
   \<and> slices_SortFunc False [5, -3, 5, 0] (\<lambda>x y. x - y) = Some [-3, 0, 5, 5]"
proof -
  have "2 * length ([] :: int list) \<le> max_int False" "2 * length [5, -3, 5, 0 :: int] \<le> max_int False"
    by (simp_all add: max_int_def)
  from sort_slices_equivalent [OF this, of id id] show ?thesis by simp
qed

text \<open>
  C14. Binary search: for a predicate that is false and then true on \<open>[0, n)\<close>, \<open>Search\<close> returns the
  first index where it holds, or \<open>n\<close>; for a comparison that decreases through zero, \<open>Find\<close> returns
  the first index whose comparison is not positive and whether it is a match.
\<close>

theorem sort_Search_first:
  assumes "\<forall>i j. i \<le> j \<and> j < n \<and> f i \<longrightarrow> f j" and "\<forall>i j. i \<le> j \<and> j < n \<and> 0 < cmp j \<longrightarrow> 0 < cmp i"
  shows "sort_Search n f = (LEAST i. i = n \<or> f i)
    \<and> sort_Find n cmp = (let i = (LEAST i. i = n \<or> cmp i \<le> 0) in (i, i < n \<and> cmp i = 0))"
proof -
  have "\<forall>i j. i \<le> j \<and> j < n \<and> \<not> f j \<longrightarrow> \<not> f i" using assms(1) by blast
  then show ?thesis
    using bsearch_Least [of n "\<lambda>h. \<not> f h"] bsearch_Least [of n "\<lambda>h. 0 < cmp h"] assms(2)
    by (simp add: sort_Search_def sort_Find_def not_less)
qed

theorem sort_Search_first_witness:
  "sort_Search 5 (\<lambda>i. 3 \<le> i) = (LEAST i. i = 5 \<or> 3 \<le> i)
   \<and> sort_Find 5 (\<lambda>i. 2 - int i) = (let i = (LEAST i. i = 5 \<or> 2 - int i \<le> 0) in (i, i < 5 \<and> 2 - int i = 0))"
  using sort_Search_first [of 5 "\<lambda>i. 3 \<le> i" "\<lambda>i. 2 - int i"] by simp

text \<open>
  C12. \<open>symMerge\<close> refines the textbook stable merge: on two adjacent non-empty sorted runs it returns
  a collection in which they are replaced by their merge, and nothing else has moved.
\<close>

theorem symMerge_refines_merge:
  assumes "sort_interface lt D elems" and "elems s = p @ A @ B @ r" and "A \<noteq> []" and "B \<noteq> []"
    and "sorted_wrt (\<lambda>x y. \<not> lt y x) A" and "sorted_wrt (\<lambda>x y. \<not> lt y x) B"
  shows "\<exists>s'. symMerge D s (length p) (length p + length A) (length p + length A + length B) = Some s'
    \<and> elems s' = p @ stable_merge lt A B @ r"
  by (rule sort_interface.symMerge_app [OF assms])

theorem symMerge_refines_merge_witness:
  "\<exists>s'. symMerge IntSlice [9, 1, 4, 6, 2, 3, 5, 0] 1 4 7 = Some s' \<and> s' = [9, 1, 2, 3, 4, 5, 6, 0]"
  using symMerge_refines_merge [OF int_slice.sort_interface_axioms, of "[9, 1, 4, 6, 2, 3, 5, 0]" "[9]" "[1, 4, 6]" "[2, 3, 5]" "[0]"]
  by (simp add: eval_nat_numeral)

end
