(* ===== verification/Slices.thy ===== *)
theory Slices
  imports Sort
begin

text \<open>
  Package \<open>slices\<close>, with the memory its in-place operations share.  A memory is the list of the
  allocated arrays; a slice value names an array, an offset, a length and a capacity, so that two
  slices may alias.  \<open>copy\<close>, \<open>clear\<close> and \<open>append\<close> are the language's builtins (\<open>copy\<close> and
  \<open>append\<close> move memory, so they read the whole source first); \<open>growcap\<close> is the capacity
  \<open>growslice\<close> gives a slice that outgrows its array, for which \<open>nextslicecap\<close> computes the
  request.  The functions that only read slices take their contents as lists.
\<close>

section \<open>Memory\<close>

type_synonym 'a mem = "'a list list"

record slice =
  sl_arr :: nat
  sl_off :: nat
  sl_len :: nat
  sl_cap :: nat

datatype slices_panic = OutOfRange | EmptyList | NegativeCount | ResultOverflow | NeedleNotFound

definition contents :: "'a mem \<Rightarrow> slice \<Rightarrow> 'a list" where
  "contents m s = take (sl_len s) (drop (sl_off s) (m ! sl_arr s))"

definition valid_slice :: "'a mem \<Rightarrow> slice \<Rightarrow> bool" where
  "valid_slice m s \<longleftrightarrow> sl_arr s < length m \<and> sl_len s \<le> sl_cap s
     \<and> sl_off s + sl_cap s \<le> length (m ! sl_arr s)"

definition list_write :: "'a list \<Rightarrow> nat \<Rightarrow> 'a list \<Rightarrow> 'a list" where
  "list_write c p xs = take p c @ xs @ drop (p + length xs) c"

definition mem_write :: "'a mem \<Rightarrow> slice \<Rightarrow> 'a list \<Rightarrow> 'a mem" where
  "mem_write m s xs = m[sl_arr s := list_write (m ! sl_arr s) (sl_off s) xs]"

text \<open>The slice expression \<open>s[i:j]\<close>, for \<open>i <= j <= cap(s)\<close>.\<close>

definition reslice :: "slice \<Rightarrow> nat \<Rightarrow> nat \<Rightarrow> slice" where
  "reslice s i j = s\<lparr>sl_off := sl_off s + i, sl_len := j - i, sl_cap := sl_cap s - i\<rparr>"

definition go_copy :: "'a mem \<Rightarrow> slice \<Rightarrow> slice \<Rightarrow> 'a mem" where
  "go_copy m dst src = mem_write m dst (take (sl_len dst) (contents m src))"

definition go_clear :: "'a \<Rightarrow> 'a mem \<Rightarrow> slice \<Rightarrow> 'a mem" where
  "go_clear z m s = mem_write m s (replicate (sl_len s) z)"

definition go_make :: "'a \<Rightarrow> 'a mem \<Rightarrow> nat \<Rightarrow> 'a mem \<times> slice" where
  "go_make z m n = (m @ [replicate n z], \<lparr>sl_arr = length m, sl_off = 0, sl_len = n, sl_cap = n\<rparr>)"

definition append_values :: "(nat \<Rightarrow> nat \<Rightarrow> nat) \<Rightarrow> 'a \<Rightarrow> 'a mem \<Rightarrow> slice \<Rightarrow> 'a list \<Rightarrow> 'a mem \<times> slice" where
  "append_values growcap z m s xs =
     (let n = sl_len s + length xs in
      if n \<le> sl_cap s then (mem_write m (reslice s (sl_len s) n) xs, s\<lparr>sl_len := n\<rparr>)
      else
        let c = growcap n (sl_cap s) in
        (m @ [contents m s @ xs @ replicate (c - n) z],
         \<lparr>sl_arr = length m, sl_off = 0, sl_len = n, sl_cap = c\<rparr>))"

definition go_append :: "(nat \<Rightarrow> nat \<Rightarrow> nat) \<Rightarrow> 'a \<Rightarrow> 'a mem \<Rightarrow> slice \<Rightarrow> slice \<Rightarrow> 'a mem \<times> slice" where
  "go_append growcap z m s v = append_values growcap z m s (contents m v)"

text \<open>
  \<open>nextslicecap\<close> on non-negative \<open>int\<close>s below \<open>2 ^ 63 - 768\<close>: a sum of \<open>2 ^ 63\<close> or more is
  negative as an \<open>int\<close> and larger than \<open>newLen\<close> as a \<open>uint\<close>.
  Capacities are those of a 64-bit target and below \<open>2^62\<close>, so that doubling one does not wrap; the properties of \<open>slices\<close> use
  of the rule only that it gives no less than the new length.
\<close>

function nextslicecap_loop :: "nat \<Rightarrow> nat \<Rightarrow> nat" where
  "nextslicecap_loop newLen newcap =
     (let newcap = newcap + (newcap + 3 * 256) div 4 in
      if newLen \<le> newcap then if 2 ^ 63 \<le> newcap then newLen else newcap
      else nextslicecap_loop newLen newcap)"
  by pat_completeness auto
termination by (relation "measure (\<lambda>(newLen, newcap). newLen - newcap)") auto

declare nextslicecap_loop.simps [simp del]

definition nextslicecap :: "nat \<Rightarrow> nat \<Rightarrow> nat" where
  "nextslicecap newLen oldCap =
     (let doublecap = oldCap + oldCap in
      if doublecap < newLen then newLen
      else if oldCap < 256 then doublecap
      else nextslicecap_loop newLen oldCap)"

section \<open>Reading\<close>

fun slices_EqualFunc :: "'a list \<Rightarrow> 'b list \<Rightarrow> ('a \<Rightarrow> 'b \<Rightarrow> bool) \<Rightarrow> bool" where
  "slices_EqualFunc s1 s2 eq =
     (if length s1 \<noteq> length s2 then False
      else list_all (\<lambda>i. eq (s1 ! i) (s2 ! i)) [0..<length s1])"

definition slices_Equal :: "'a list \<Rightarrow> 'a list \<Rightarrow> bool" where
  "slices_Equal s1 s2 =
     (if length s1 \<noteq> length s2 then False
      else list_all (\<lambda>i. s1 ! i = s2 ! i) [0..<length s1])"

fun slices_CompareFunc :: "'a list \<Rightarrow> 'b list \<Rightarrow> ('a \<Rightarrow> 'b \<Rightarrow> int) \<Rightarrow> int" where
  "slices_CompareFunc [] s2 cmp = (if 0 < length s2 then - 1 else 0)"
| "slices_CompareFunc (v1 # s1) [] cmp = 1"
| "slices_CompareFunc (v1 # s1) (v2 # s2) cmp =
     (let c = cmp v1 v2 in if c \<noteq> 0 then c else slices_CompareFunc s1 s2 cmp)"

fun IndexFunc_from :: "nat \<Rightarrow> 'a list \<Rightarrow> ('a \<Rightarrow> bool) \<Rightarrow> int" where
  "IndexFunc_from i [] f = - 1"
| "IndexFunc_from i (x # s) f = (if f x then int i else IndexFunc_from (i + 1) s f)"

definition slices_IndexFunc :: "'a list \<Rightarrow> ('a \<Rightarrow> bool) \<Rightarrow> int" where
  "slices_IndexFunc s f = IndexFunc_from 0 s f"

definition slices_Index :: "'a list \<Rightarrow> 'a \<Rightarrow> int" where
  "slices_Index s v = IndexFunc_from 0 s (\<lambda>x. v = x)"

definition slices_Contains :: "'a list \<Rightarrow> 'a \<Rightarrow> bool" where
  "slices_Contains s v \<longleftrightarrow> 0 \<le> slices_Index s v"

definition slices_ContainsFunc :: "'a list \<Rightarrow> ('a \<Rightarrow> bool) \<Rightarrow> bool" where
  "slices_ContainsFunc s f \<longleftrightarrow> 0 \<le> slices_IndexFunc s f"

section \<open>Reversal and rotation\<close>

function Reverse_loop :: "nat \<Rightarrow> nat \<Rightarrow> 'a list \<Rightarrow> 'a list" where
  "Reverse_loop i j s = (if i < j then Reverse_loop (i + 1) (j - 1) (list_swap s i j) else s)"
  by pat_completeness auto
termination by (relation "measure (\<lambda>(i, j, s). j)") auto

declare Reverse_loop.simps [simp del]

definition slices_Reverse :: "'a mem \<Rightarrow> slice \<Rightarrow> 'a mem" where
  "slices_Reverse m s = mem_write m s (Reverse_loop 0 (sl_len s - 1) (contents m s))"

definition rotateLeft :: "'a mem \<Rightarrow> slice \<Rightarrow> nat \<Rightarrow> 'a mem" where
  "rotateLeft m s r =
     (let m = slices_Reverse m (reslice s 0 r);
          m = slices_Reverse m (reslice s r (sl_len s)) in
      slices_Reverse m s)"

definition rotateRight :: "'a mem \<Rightarrow> slice \<Rightarrow> nat \<Rightarrow> 'a mem" where
  "rotateRight m s r = rotateLeft m s (sl_len s - r)"

section \<open>Overlap\<close>

text \<open>
  Two non-empty slices of non-zero-size elements overlap in memory when they share an array and
  their index ranges meet: distinct arrays have disjoint addresses, and within an array the
  address of element \<open>i\<close> is the base plus \<open>i * elemSize\<close>.
\<close>

definition overlaps :: "slice \<Rightarrow> slice \<Rightarrow> bool" where
  "overlaps a b \<longleftrightarrow>
     \<not> (sl_len a = 0 \<or> sl_len b = 0) \<and> sl_arr a = sl_arr b
     \<and> sl_off a \<le> sl_off b + sl_len b - 1 \<and> sl_off b \<le> sl_off a + sl_len a - 1"

text \<open>The index at which the first element of \<open>needle\<close> lies in \<open>haystack\<close>.\<close>

definition startIdx :: "slice \<Rightarrow> slice \<Rightarrow> nat option" where
  "startIdx haystack needle =
     (if sl_arr haystack = sl_arr needle \<and> sl_off haystack \<le> sl_off needle
         \<and> sl_off needle < sl_off haystack + sl_len haystack
      then Some (sl_off needle - sl_off haystack) else None)"

section \<open>Insertion, deletion, replacement\<close>

definition slices_Insert ::
  "(nat \<Rightarrow> nat \<Rightarrow> nat) \<Rightarrow> 'a \<Rightarrow> 'a mem \<Rightarrow> slice \<Rightarrow> nat \<Rightarrow> slice \<Rightarrow> slices_panic + 'a mem \<times> slice" where
  "slices_Insert growcap z mem s i v =
     (if sl_len s < i then Inl OutOfRange
      else
        let m = sl_len v; n = sl_len s in
        if m = 0 then Inr (mem, s)
        else if i = n then Inr (go_append growcap z mem s v)
        else if sl_cap s < n + m then
          let (mem, s2) = append_values growcap z mem (reslice s 0 i) (replicate (n + m - i) z);
              mem = go_copy mem (reslice s2 i (n + m)) v;
              mem = go_copy mem (reslice s2 (i + m) (n + m)) (reslice s i n) in
          Inr (mem, s2)
        else
          let s = reslice s 0 (n + m) in
          if \<not> overlaps v (reslice s (i + m) (n + m)) then
            let mem = go_copy mem (reslice s (i + m) (n + m)) (reslice s i (n + m));
                mem = go_copy mem (reslice s i (n + m)) v in
            Inr (mem, s)
          else
            let mem = go_copy mem (reslice s n (n + m)) v in
            Inr (rotateRight mem (reslice s i (n + m)) m, s))"

definition slices_Delete ::
  "(nat \<Rightarrow> nat \<Rightarrow> nat) \<Rightarrow> 'a \<Rightarrow> 'a mem \<Rightarrow> slice \<Rightarrow> nat \<Rightarrow> nat \<Rightarrow> slices_panic + 'a mem \<times> slice" where
  "slices_Delete growcap z mem s i j =
     (if \<not> (i \<le> j \<and> j \<le> sl_len s) then Inl OutOfRange
      else if i = j then Inr (mem, s)
      else
        let oldlen = sl_len s;
            (mem, s) = go_append growcap z mem (reslice s 0 i) (reslice s j (sl_len s));
            mem = go_clear z mem (reslice s (sl_len s) oldlen) in
        Inr (mem, s))"

definition slices_Replace ::
  "(nat \<Rightarrow> nat \<Rightarrow> nat) \<Rightarrow> 'a \<Rightarrow> 'a mem \<Rightarrow> slice \<Rightarrow> nat \<Rightarrow> nat \<Rightarrow> slice \<Rightarrow> slices_panic + 'a mem \<times> slice" where
  "slices_Replace growcap z mem s i j v =
     (if \<not> (i \<le> j \<and> j \<le> sl_cap s) then Inl OutOfRange
      else if i = j then slices_Insert growcap z mem s i v
      else if j = sl_len s then
        let (mem, s2) = go_append growcap z mem (reslice s 0 i) v;
            mem = (if sl_len s2 < sl_len s then go_clear z mem (reslice s (sl_len s2) (sl_len s)) else mem) in
        Inr (mem, s2)
      else if sl_len s < j then Inl OutOfRange
      else
        let lv = sl_len v; tot = i + lv + (sl_len s - j) in
        if sl_cap s < tot then
          let (mem, s2) = append_values growcap z mem (reslice s 0 i) (replicate (tot - i) z);
              mem = go_copy mem (reslice s2 i tot) v;
              mem = go_copy mem (reslice s2 (i + lv) tot) (reslice s j (sl_len s)) in
          Inr (mem, s2)
        else
          let r = reslice s 0 tot in
          if i + lv \<le> j then
            let mem = go_copy mem (reslice r i tot) v;
                mem = go_copy mem (reslice r (i + lv) tot) (reslice s j (sl_len s));
                mem = go_clear z mem (reslice s tot (sl_len s)) in
            Inr (mem, r)
          else if \<not> overlaps (reslice r (i + lv) tot) v then
            let mem = go_copy mem (reslice r (i + lv) tot) (reslice s j (sl_len s));
                mem = go_copy mem (reslice r i tot) v in
            Inr (mem, r)
          else
            let y = lv - (j - i) in
            if \<not> overlaps (reslice r i j) v then
              let mem = go_copy mem (reslice r i j) (reslice v y lv);
                  mem = go_copy mem (reslice r (sl_len s) tot) (reslice v 0 y) in
              Inr (rotateRight mem (reslice r i tot) y, r)
            else if \<not> overlaps (reslice r (sl_len s) tot) v then
              let mem = go_copy mem (reslice r (sl_len s) tot) (reslice v 0 y);
                  mem = go_copy mem (reslice r i j) (reslice v y lv) in
              Inr (rotateRight mem (reslice r i tot) y, r)
            else
              case startIdx v (reslice s j (sl_len s)) of
                None \<Rightarrow> Inl NeedleNotFound
              | Some k \<Rightarrow>
                  let mem = go_copy mem (reslice r i tot) v;
                      mem = go_copy mem (reslice r (i + lv) tot) (reslice r (i + k) tot) in
                  Inr (mem, r))"

section \<open>Filtering in place\<close>

text \<open>
  \<open>DeleteFunc\<close>, \<open>Compact\<close> and \<open>CompactFunc\<close> read and write one slice only; their loops run on its
  contents, which are then stored back with the obsolete elements cleared.
\<close>

definition store_prefix :: "'a \<Rightarrow> 'a mem \<Rightarrow> slice \<Rightarrow> nat \<times> 'a list \<Rightarrow> 'a mem \<times> slice" where
  "store_prefix z mem s r =
     (let (k, xs) = r; mem = mem_write mem s xs; mem = go_clear z mem (reslice s k (sl_len s)) in
      (mem, reslice s 0 k))"

function DeleteFunc_loop :: "('a \<Rightarrow> bool) \<Rightarrow> nat \<Rightarrow> nat \<Rightarrow> 'a list \<Rightarrow> nat \<times> 'a list" where
  "DeleteFunc_loop del i j s =
     (if j < length s then
        let v = s ! j in
        if \<not> del v then DeleteFunc_loop del (i + 1) (j + 1) (s[i := v])
        else DeleteFunc_loop del i (j + 1) s
      else (i, s))"
  by pat_completeness auto
termination by (relation "measure (\<lambda>(del, i, j, s). length s - j)") auto

declare DeleteFunc_loop.simps [simp del]

definition slices_DeleteFunc :: "'a \<Rightarrow> 'a mem \<Rightarrow> slice \<Rightarrow> ('a \<Rightarrow> bool) \<Rightarrow> 'a mem \<times> slice" where
  "slices_DeleteFunc z mem s del =
     (let i = slices_IndexFunc (contents mem s) del in
      if i = - 1 then (mem, s)
      else store_prefix z mem s (DeleteFunc_loop del (nat i) (nat i + 1) (contents mem s)))"

function CompactFunc_shift :: "('a \<Rightarrow> 'a \<Rightarrow> bool) \<Rightarrow> nat \<Rightarrow> nat \<Rightarrow> nat \<Rightarrow> 'a list \<Rightarrow> nat \<times> 'a list" where
  "CompactFunc_shift eq base k k2 s =
     (if k2 < length s - base then
        if \<not> eq (s ! (base + k2)) (s ! (base + (k2 - 1)))
        then CompactFunc_shift eq base (k + 1) (k2 + 1) (s[k := s ! (base + k2)])
        else CompactFunc_shift eq base k (k2 + 1) s
      else (k, s))"
  by pat_completeness auto
termination by (relation "measure (\<lambda>(eq, base, k, k2, s). length s - base - k2)") auto

function CompactFunc_scan :: "('a \<Rightarrow> 'a \<Rightarrow> bool) \<Rightarrow> nat \<Rightarrow> 'a list \<Rightarrow> nat option" where
  "CompactFunc_scan eq k s =
     (if k < length s then
        if eq (s ! k) (s ! (k - 1)) then Some k else CompactFunc_scan eq (k + 1) s
      else None)"
  by pat_completeness auto
termination by (relation "measure (\<lambda>(eq, k, s). length s - k)") auto

declare CompactFunc_shift.simps [simp del] CompactFunc_scan.simps [simp del]

definition slices_CompactFunc :: "'a \<Rightarrow> 'a mem \<Rightarrow> slice \<Rightarrow> ('a \<Rightarrow> 'a \<Rightarrow> bool) \<Rightarrow> 'a mem \<times> slice" where
  "slices_CompactFunc z mem s eq =
     (if sl_len s < 2 then (mem, s)
      else case CompactFunc_scan eq 1 (contents mem s) of
        None \<Rightarrow> (mem, s)
      | Some k \<Rightarrow> store_prefix z mem s (CompactFunc_shift eq k k 1 (contents mem s)))"

text \<open>The \<open>==\<close> of the element type is equality of values; a floating-point NaN, which is not equal to itself, is not such a value.\<close>

definition slices_Compact :: "'a \<Rightarrow> 'a mem \<Rightarrow> slice \<Rightarrow> 'a mem \<times> slice" where
  "slices_Compact z mem s = slices_CompactFunc z mem s (\<lambda>x y. x = y)"

section \<open>Capacity, concatenation, repetition\<close>

definition slices_Grow ::
  "(nat \<Rightarrow> nat \<Rightarrow> nat) \<Rightarrow> 'a \<Rightarrow> 'a mem \<Rightarrow> slice \<Rightarrow> int \<Rightarrow> slices_panic + 'a mem \<times> slice" where
  "slices_Grow growcap z mem s n =
     (if n < 0 then Inl NegativeCount
      else
        let n = n - (int (sl_cap s) - int (sl_len s)) in
        if 0 < n then
          let (mem, s2) = append_values growcap z mem (reslice s 0 (sl_cap s)) (replicate (nat n) z) in
          Inr (mem, reslice s2 0 (sl_len s))
        else Inr (mem, s))"

definition slices_Clip :: "slice \<Rightarrow> slice" where
  "slices_Clip s = s\<lparr>sl_cap := sl_len s\<rparr>"

partial_function (option) Repeat_loop :: "nat \<Rightarrow> 'a list \<Rightarrow> 'a list option" where
  "Repeat_loop n s =
     (if n < length s then
        let c = min (length s - n) n in Repeat_loop (n + c) (list_write s n (take c s))
      else Some s)"

definition slices_Repeat :: "bool \<Rightarrow> 'a \<Rightarrow> 'a list \<Rightarrow> int \<Rightarrow> (slices_panic + 'a list) option" where
  "slices_Repeat w64 z x cnt =
     (if cnt < 0 then Some (Inl NegativeCount)
      else
        let maxInt = (if w64 then 2 ^ 63 - 1 else 2 ^ 31 - 1 :: uint64);
            (hi, lo) = bits_Mul w64 (of_nat (length x)) (word_of_int cnt) in
        if 0 < hi \<or> maxInt < lo then Some (Inl ResultOverflow)
        else
          let newslice = replicate (unat lo) z;
              n = min (length newslice) (length x);
              newslice = list_write newslice 0 (take n x) in
          map_option Inr (Repeat_loop n newslice))"

section \<open>Minimum and maximum\<close>

definition slices_MinFunc :: "'a list \<Rightarrow> ('a \<Rightarrow> 'a \<Rightarrow> int) \<Rightarrow> slices_panic + 'a" where
  "slices_MinFunc x cmp =
     (if length x < 1 then Inl EmptyList
      else Inr (fold (\<lambda>v m. if cmp v m < 0 then v else m) (tl x) (hd x)))"

definition slices_MaxFunc :: "'a list \<Rightarrow> ('a \<Rightarrow> 'a \<Rightarrow> int) \<Rightarrow> slices_panic + 'a" where
  "slices_MaxFunc x cmp =
     (if length x < 1 then Inl EmptyList
      else Inr (fold (\<lambda>v m. if 0 < cmp v m then v else m) (tl x) (hd x)))"

end
