(* ===== verification/Slices_Memory.thy ===== *)
theory Slices_Memory
  imports Slices
begin

text \<open>
  The memory of slices cell by cell, and the correctness of the package \<open>slices\<close> operations that
  splice one slice into another.  The locale \<open>slice_growth\<close> is what they rely on when a slice
  outgrows its array; it is interpreted on \<open>nextslicecap\<close>.  \<open>kept_outside\<close> is the frame of every
  operation: it writes nothing outside \<open>s[:cap(s)]\<close>.
\<close>

section \<open>Memory seen cell by cell\<close>

definition cell :: "'a mem \<Rightarrow> nat \<Rightarrow> nat \<Rightarrow> 'a" where
  "cell m a p = m ! a ! p"

definition in_range :: "'a mem \<Rightarrow> slice \<Rightarrow> bool" where
  "in_range m s \<longleftrightarrow> sl_arr s < length m \<and> sl_off s + sl_len s \<le> length (m ! sl_arr s)"

lemma valid_in_range: "valid_slice m s \<Longrightarrow> in_range m s"
  by (simp add: valid_slice_def in_range_def)

lemma length_contents [simp]: "in_range m s \<Longrightarrow> length (contents m s) = sl_len s"
  by (auto simp: contents_def in_range_def)

lemma nth_contents [simp]:
  "in_range m s \<Longrightarrow> k < sl_len s \<Longrightarrow> contents m s ! k = cell m (sl_arr s) (sl_off s + k)"
  by (simp add: contents_def in_range_def cell_def)

lemma contents_eqI:
  assumes "in_range m s" and "length xs = sl_len s"
    and "\<And>k. k < sl_len s \<Longrightarrow> cell m (sl_arr s) (sl_off s + k) = xs ! k"
  shows "contents m s = xs"
  using assms by (intro nth_equalityI) simp_all

lemma length_list_write [simp]:
  "p + length xs \<le> length c \<Longrightarrow> length (list_write c p xs) = length c"
  by (simp add: list_write_def)

lemma nth_list_write:
  "p + length xs \<le> length c \<Longrightarrow> q < length c \<Longrightarrow>
     list_write c p xs ! q = (if p \<le> q \<and> q < p + length xs then xs ! (q - p) else c ! q)"
  by (auto simp: list_write_def nth_append)

lemma length_mem_write [simp]: "length (mem_write m s xs) = length m"
  by (simp add: mem_write_def)

lemma length_mem_write_arr [simp]:
  assumes "sl_off s + length xs \<le> length (m ! sl_arr s)"
  shows "length (mem_write m s xs ! a) = length (m ! a)"
  proof (cases "sl_arr s < length m")
  case True
  with assms show ?thesis
    by (cases "a = sl_arr s") (simp_all add: mem_write_def)
qed (simp add: mem_write_def list_update_beyond)

lemma cell_mem_write:
  assumes "sl_off s + length xs \<le> length (m ! sl_arr s)" and "a < length m" and "p < length (m ! a)"
  shows "cell (mem_write m s xs) a p =
     (if a = sl_arr s \<and> sl_off s \<le> p \<and> p < sl_off s + length xs then xs ! (p - sl_off s) else cell m a p)"
  using assms by (cases "a = sl_arr s") (simp_all add: cell_def mem_write_def nth_list_write)

lemma mem_write_other [simp]: "a \<noteq> sl_arr s \<Longrightarrow> mem_write m s xs ! a = m ! a"
  by (simp add: mem_write_def)

lemma reslice_simps [simp]:
  "sl_arr (reslice s i j) = sl_arr s" "sl_off (reslice s i j) = sl_off s + i"
  "sl_len (reslice s i j) = j - i" "sl_cap (reslice s i j) = sl_cap s - i"
  by (simp_all add: reslice_def)

lemma valid_reslice: "valid_slice m s \<Longrightarrow> i \<le> j \<Longrightarrow> j \<le> sl_cap s \<Longrightarrow> valid_slice m (reslice s i j)"
  by (auto simp: valid_slice_def)

subsection \<open>copy and clear\<close>

text \<open>Memory shape: the arrays and their lengths, which no store changes.\<close>

definition same_shape :: "'a mem \<Rightarrow> 'a mem \<Rightarrow> bool" where
  "same_shape m m' \<longleftrightarrow> length m = length m' \<and> (\<forall>a. length (m ! a) = length (m' ! a))"

lemma go_copy_cell:
  assumes "in_range m dst" and "in_range m src" and "a < length m" and "p < length (m ! a)"
  shows "cell (go_copy m dst src) a p =
    (if a = sl_arr dst \<and> sl_off dst \<le> p \<and> p < sl_off dst + min (sl_len dst) (sl_len src)
     then cell m (sl_arr src) (sl_off src + (p - sl_off dst)) else cell m a p)"
proof -
  have "sl_off dst + length (take (sl_len dst) (contents m src)) \<le> length (m ! sl_arr dst)"
    using assms(1,2) by (auto simp: in_range_def)
  from cell_mem_write [OF this assms(3,4)] show ?thesis
    using assms(1,2) by (auto simp: go_copy_def min_def split: if_splits)
qed

lemma go_copy_shape [simp]:
  assumes "in_range m dst" and "in_range m src"
  shows "length (go_copy m dst src) = length m" "length (go_copy m dst src ! a) = length (m ! a)"
proof -
  have "sl_off dst + length (take (sl_len dst) (contents m src)) \<le> length (m ! sl_arr dst)"
    using assms by (auto simp: in_range_def)
  then show "length (go_copy m dst src) = length m" "length (go_copy m dst src ! a) = length (m ! a)"
    by (simp_all add: go_copy_def)
qed

lemma go_copy_other [simp]: "a \<noteq> sl_arr dst \<Longrightarrow> go_copy m dst src ! a = m ! a"
  by (simp add: go_copy_def)

lemma go_clear_cell:
  assumes "in_range m s" and "a < length m" and "p < length (m ! a)"
  shows "cell (go_clear z m s) a p =
    (if a = sl_arr s \<and> sl_off s \<le> p \<and> p < sl_off s + sl_len s then z else cell m a p)"
  using assms cell_mem_write [of s "replicate (sl_len s) z" m a p]
  by (auto simp: go_clear_def in_range_def)

lemma go_clear_shape [simp]:
  assumes "in_range m s"
  shows "length (go_clear z m s) = length m" "length (go_clear z m s ! a) = length (m ! a)"
  using assms by (simp_all add: go_clear_def in_range_def)

subsection \<open>Reverse and rotate\<close>

lemma Reverse_loop_length [simp]: "length (Reverse_loop i j s) = length s"
  by (induction i j s rule: Reverse_loop.induct) (subst Reverse_loop.simps, simp add: list_swap_def)

lemma Reverse_loop_nth:
  assumes "j < length s" and "k < length s"
  shows "Reverse_loop i j s ! k = (if i \<le> k \<and> k \<le> j then s ! (i + j - k) else s ! k)"
  using assms
proof (induction i j s rule: Reverse_loop.induct)
  case (1 i j s)
  show ?case
  proof (cases "i < j")
    case True
    with 1 have "Reverse_loop (i + 1) (j - 1) (list_swap s i j) ! k =
      (if i + 1 \<le> k \<and> k \<le> j - 1 then list_swap s i j ! (i + 1 + (j - 1) - k) else list_swap s i j ! k)"
      by (auto simp: list_swap_def)
    with True 1(2,3) show ?thesis
      by (subst Reverse_loop.simps) (auto simp: list_swap_def nth_list_update)
  next
    case False
    with 1(2,3) show ?thesis
      by (subst Reverse_loop.simps) (auto intro: arg_cong [where f = "(!) s"])
  qed
qed

lemma Reverse_loop_rev: "Reverse_loop 0 (length s - 1) s = rev s"
proof (cases "s = []")
  case True
  then show ?thesis by (subst Reverse_loop.simps) simp
next
  case False
  then show ?thesis
    by (intro nth_equalityI) (auto simp: Reverse_loop_nth rev_nth)
qed

lemma slices_Reverse_rev:
  "in_range m s \<Longrightarrow> slices_Reverse m s = mem_write m s (rev (contents m s))"
  using Reverse_loop_rev [of "contents m s"] by (simp add: slices_Reverse_def)

lemma slices_Reverse_cell:
  assumes "in_range m s" and "a < length m" and "p < length (m ! a)"
  shows "cell (slices_Reverse m s) a p =
    (if a = sl_arr s \<and> sl_off s \<le> p \<and> p < sl_off s + sl_len s
     then cell m a (2 * sl_off s + sl_len s - 1 - p) else cell m a p)"
proof -
  have "sl_off s + length (rev (contents m s)) \<le> length (m ! sl_arr s)"
    using assms(1) by (simp add: in_range_def)
  from cell_mem_write [OF this assms(2,3)] show ?thesis
    using assms(1) by (auto simp: slices_Reverse_rev rev_nth intro!: arg_cong [where f = "cell m _"])
qed

lemma slices_Reverse_shape [simp]:
  assumes "in_range m s"
  shows "length (slices_Reverse m s) = length m" "length (slices_Reverse m s ! a) = length (m ! a)"
  using assms length_contents [OF assms]
  by (simp_all add: slices_Reverse_def in_range_def del: length_contents)

lemma slices_Reverse_other [simp]: "a \<noteq> sl_arr s \<Longrightarrow> slices_Reverse m s ! a = m ! a"
  by (simp add: slices_Reverse_def)

lemma rotateLeft_shape [simp]:
  assumes "in_range m s" and "r \<le> sl_len s"
  shows "length (rotateLeft m s r) = length m" "length (rotateLeft m s r ! a) = length (m ! a)"
  using assms by (simp_all add: rotateLeft_def Let_def in_range_def)

lemma rotateLeft_other [simp]: "a \<noteq> sl_arr s \<Longrightarrow> rotateLeft m s r ! a = m ! a"
  by (simp add: rotateLeft_def Let_def)

lemma rotateLeft_cell:
  assumes "in_range m s" and "r \<le> sl_len s" and "a < length m" and "p < length (m ! a)"
  shows "cell (rotateLeft m s r) a p =
    (if a = sl_arr s \<and> sl_off s \<le> p \<and> p < sl_off s + sl_len s
     then if p - sl_off s < sl_len s - r then cell m a (p + r) else cell m a (p - (sl_len s - r))
     else cell m a p)"
proof -
  let ?s1 = "reslice s 0 r" and ?s2 = "reslice s r (sl_len s)"
  let ?m1 = "slices_Reverse m ?s1"
  let ?m2 = "slices_Reverse ?m1 ?s2"
  have r: "in_range m ?s1" "in_range ?m1 ?s2" "in_range ?m2 s"
    using assms(1,2) by (simp_all add: in_range_def)
  have c1: "cell ?m1 a q = (if a = sl_arr s \<and> sl_off s \<le> q \<and> q < sl_off s + r
      then cell m a (2 * sl_off s + r - 1 - q) else cell m a q)" if "q < length (m ! a)" for q
    using slices_Reverse_cell [OF r(1) assms(3) that] by simp
  have c2: "cell ?m2 a q = (if a = sl_arr s \<and> sl_off s + r \<le> q \<and> q < sl_off s + sl_len s
      then cell ?m1 a (2 * (sl_off s + r) + (sl_len s - r) - 1 - q) else cell ?m1 a q)"
    if "q < length (m ! a)" for q
    using slices_Reverse_cell [OF r(2), of a q] that assms r(1) by simp
  have c3: "cell (slices_Reverse ?m2 s) a p = (if a = sl_arr s \<and> sl_off s \<le> p \<and> p < sl_off s + sl_len s
      then cell ?m2 a (2 * sl_off s + sl_len s - 1 - p) else cell ?m2 a p)"
    using slices_Reverse_cell [OF r(3), of a p] assms r(1,2) by simp
  show ?thesis
  proof (cases "a = sl_arr s \<and> sl_off s \<le> p \<and> p < sl_off s + sl_len s")
    case False
    then show ?thesis
      using c3 c2 [OF assms(4)] c1 [OF assms(4)] assms(2) by (auto simp: rotateLeft_def Let_def)
  next
    case True
    let ?q = "2 * sl_off s + sl_len s - 1 - p"
    have q: "?q < length (m ! a)" "sl_off s \<le> ?q" "?q < sl_off s + sl_len s"
      using True assms(1) by (auto simp: in_range_def)
    let ?q' = "2 * (sl_off s + r) + (sl_len s - r) - 1 - ?q"
    have eq: "cell (rotateLeft m s r) a p = cell ?m2 a ?q"
      using True c3 by (simp add: rotateLeft_def Let_def)
    show ?thesis
    proof (cases "p - sl_off s < sl_len s - r")
      case less: True
      then have "?q' = p + r" "sl_off s + r \<le> ?q"
        using True assms(2) by auto
      moreover from this have "cell ?m2 a ?q = cell ?m1 a (p + r)"
        using c2 [OF q(1)] True q(3) by metis
      moreover have "p + r < length (m ! a)" "\<not> p + r < sl_off s + r"
        using True less assms(1) by (auto simp: in_range_def)
      ultimately show ?thesis
        using eq c1 [of "p + r"] True less by metis
    next
      case False
      then have "?q < sl_off s + r" "2 * sl_off s + r - 1 - ?q = p - (sl_len s - r)"
        using True assms(2) by auto
      then show ?thesis
        using eq c2 [OF q(1)] c1 [OF q(1)] True False q by auto
    qed
  qed
qed

lemma rotateRight_cell:
  assumes "in_range m s" and "r \<le> sl_len s" and "a < length m" and "p < length (m ! a)"
  shows "cell (rotateRight m s r) a p =
    (if a = sl_arr s \<and> sl_off s \<le> p \<and> p < sl_off s + sl_len s
     then if p - sl_off s < r then cell m a (p + (sl_len s - r)) else cell m a (p - r)
     else cell m a p)"
  using rotateLeft_cell [OF assms(1) _ assms(3,4), of "sl_len s - r"] assms(2)
  by (simp add: rotateRight_def)

lemma rotateRight_shape [simp]:
  assumes "in_range m s"
  shows "length (rotateRight m s r) = length m" "length (rotateRight m s r ! a) = length (m ! a)"
  using assms by (simp_all add: rotateRight_def)

lemma rotateRight_other [simp]: "a \<noteq> sl_arr s \<Longrightarrow> rotateRight m s r ! a = m ! a"
  by (simp add: rotateRight_def)

subsection \<open>Frames and splices\<close>

text \<open>Nothing outside \<open>s[:cap(s)]\<close> has changed, and no array has been resized.\<close>

definition kept_outside :: "'a mem \<Rightarrow> slice \<Rightarrow> 'a mem \<Rightarrow> bool" where
  "kept_outside m s m' \<longleftrightarrow> length m \<le> length m' \<and>
     (\<forall>a < length m. length (m' ! a) = length (m ! a) \<and>
       (\<forall>p < length (m ! a). a = sl_arr s \<and> sl_off s \<le> p \<and> p < sl_off s + sl_cap s \<or> cell m' a p = cell m a p))"

lemma kept_outside_refl [simp]: "kept_outside m s m"
  by (simp add: kept_outside_def)

lemma kept_outsideD:
  assumes "kept_outside m s m'"
  shows "length m \<le> length m'" and "a < length m \<Longrightarrow> length (m' ! a) = length (m ! a)"
    and "a < length m \<Longrightarrow> p < length (m ! a) \<Longrightarrow>
      \<not> (a = sl_arr s \<and> sl_off s \<le> p \<and> p < sl_off s + sl_cap s) \<Longrightarrow> cell m' a p = cell m a p"
  using assms unfolding kept_outside_def by (simp, simp, blast)

lemma kept_outsideI:
  assumes "length m \<le> length m'" and "\<And>a. a < length m \<Longrightarrow> length (m' ! a) = length (m ! a)"
    and "\<And>a p. a < length m \<Longrightarrow> p < length (m ! a) \<Longrightarrow>
      \<not> (a = sl_arr s \<and> sl_off s \<le> p \<and> p < sl_off s + sl_cap s) \<Longrightarrow> cell m' a p = cell m a p"
  shows "kept_outside m s m'"
  unfolding kept_outside_def using assms by simp blast

lemma kept_outside_trans:
  assumes "kept_outside m s m'" and "kept_outside m' s m''"
  shows "kept_outside m s m''"
proof (rule kept_outsideI)
  show "length m \<le> length m''"
    using kept_outsideD(1) [OF assms(1)] kept_outsideD(1) [OF assms(2)] by simp
next
  fix a assume "a < length m"
  then show "length (m'' ! a) = length (m ! a)"
    using kept_outsideD(1,2) [OF assms(1)] kept_outsideD(2) [OF assms(2)] by simp
next
  fix a p assume *: "a < length m" "p < length (m ! a)"
    "\<not> (a = sl_arr s \<and> sl_off s \<le> p \<and> p < sl_off s + sl_cap s)"
  then have "a < length m'" "p < length (m' ! a)"
    using kept_outsideD(1,2) [OF assms(1)] by simp_all
  then show "cell m'' a p = cell m a p"
    using * kept_outsideD(3) [OF assms(1)] kept_outsideD(3) [OF assms(2)] by metis
qed

lemma kept_outside_reslice:
  assumes "kept_outside m (reslice s i j) m'"
  shows "kept_outside m s m'"
proof (rule kept_outsideI)
  fix a p assume "a < length m" "p < length (m ! a)"
    "\<not> (a = sl_arr s \<and> sl_off s \<le> p \<and> p < sl_off s + sl_cap s)"
  then show "cell m' a p = cell m a p"
    by (intro kept_outsideD(3) [OF assms]) auto
qed (use kept_outsideD(1,2) [OF assms] in auto)

lemma go_copy_kept:
  assumes "in_range m dst" and "in_range m src" and "sl_arr dst = sl_arr s" and "sl_off s \<le> sl_off dst"
    and "sl_off dst + sl_len dst \<le> sl_off s + sl_cap s"
  shows "kept_outside m s (go_copy m dst src)"
  using assms by (intro kept_outsideI) (auto simp: go_copy_cell)

lemma go_clear_kept:
  assumes "in_range m dst" and "sl_arr dst = sl_arr s" and "sl_off s \<le> sl_off dst"
    and "sl_off dst + sl_len dst \<le> sl_off s + sl_cap s"
  shows "kept_outside m s (go_clear z m dst)"
  using assms by (intro kept_outsideI) (auto simp: go_clear_cell)

lemma rotateRight_kept:
  assumes "in_range m dst" and "r \<le> sl_len dst" and "sl_arr dst = sl_arr s" and "sl_off s \<le> sl_off dst"
    and "sl_off dst + sl_len dst \<le> sl_off s + sl_cap s"
  shows "kept_outside m s (rotateRight m dst r)"
  using assms by (intro kept_outsideI) (auto simp: rotateRight_cell)

lemma kept_outside_valid: "kept_outside m s m' \<Longrightarrow> valid_slice m t \<Longrightarrow> valid_slice m' t"
  using kept_outsideD(1,2) [of m s m'] by (auto simp: valid_slice_def)

lemma contents_spliceI:
  assumes "in_range m' s'" and "in_range m s" and "in_range m v"
    and "i \<le> j" and "j \<le> sl_len s" and "sl_len s' = i + sl_len v + (sl_len s - j)"
    and "\<And>k. k < i \<Longrightarrow> cell m' (sl_arr s') (sl_off s' + k) = cell m (sl_arr s) (sl_off s + k)"
    and "\<And>k. k < sl_len v \<Longrightarrow> cell m' (sl_arr s') (sl_off s' + (i + k)) = cell m (sl_arr v) (sl_off v + k)"
    and "\<And>k. k < sl_len s - j \<Longrightarrow>
           cell m' (sl_arr s') (sl_off s' + (i + sl_len v + k)) = cell m (sl_arr s) (sl_off s + (j + k))"
  shows "contents m' s' = take i (contents m s) @ contents m v @ drop j (contents m s)"
proof (rule contents_eqI)
  let ?r = "take i (contents m s) @ contents m v @ drop j (contents m s)"
  show "length ?r = sl_len s'" using assms(2-6) by simp
  fix k assume k: "k < sl_len s'"
  consider "k < i" | "i \<le> k" "k < i + sl_len v" | "i + sl_len v \<le> k" by linarith
  then show "cell m' (sl_arr s') (sl_off s' + k) = ?r ! k"
  proof cases
    case 1
    with assms(2-5) show ?thesis by (simp add: assms(7) nth_append)
  next
    case 2
    then have "k - i < sl_len v" by linarith
    with 2 assms(8) [of "k - i"] assms(2-5) show ?thesis by (simp add: nth_append)
  next
    case 3
    then obtain d where d: "k = i + sl_len v + d" by (auto simp: le_iff_add)
    with assms(4-6) k have "d < sl_len s - j" by simp
    with assms(9) [of d] assms(2-6) show ?thesis
      by (simp add: d nth_append)
  qed
qed fact

text \<open>
  The ways \<open>Insert\<close> and \<open>Replace\<close> splice \<open>v\<close> over \<open>s[i:j]\<close> within the capacity of \<open>s\<close>:
  moving the tail before the values are copied, which is right when the values do not lie where
  the tail goes, and rotating into place values stored around the tail.
\<close>

lemma splice_shift:
  assumes "valid_slice m s" and "valid_slice m v" and "i \<le> j" and "j \<le> sl_len s" and "j < i + sl_len v"
    and tot: "tot = i + sl_len v + (sl_len s - j)" and "tot \<le> sl_cap s"
    and disj: "\<not> overlaps (reslice s (i + sl_len v) tot) v"
    and src: "in_range m src" "sl_arr src = sl_arr s" "sl_off src = sl_off s + j" "sl_len s - j \<le> sl_len src"
    and m1: "m1 = go_copy m (reslice s (i + sl_len v) tot) src"
    and m2: "m2 = go_copy m1 (reslice s i tot) v"
  shows "contents m2 (reslice s 0 tot) = take i (contents m s) @ contents m v @ drop j (contents m s)"
    and "kept_outside m s m2"
proof -
  let ?d1 = "reslice s (i + sl_len v) tot" and ?d2 = "reslice s i tot"
  have r: "in_range m s" "in_range m v" "in_range m ?d1" "in_range m ?d2"
    using assms(1-7) by (auto simp: valid_slice_def in_range_def)
  have r1: "in_range m1 ?d2" "in_range m1 v"
    using r src(1) by (simp_all add: m1 in_range_def)
  have k1: "kept_outside m s m1"
    unfolding m1 using r(3) src(1) assms(3-7) by (intro go_copy_kept) auto
  moreover have "kept_outside m1 s m2"
    unfolding m2 using r1 assms(3-7) by (intro go_copy_kept) auto
  ultimately show "kept_outside m s m2" by (rule kept_outside_trans)
  have c1: "cell m1 a p = (if a = sl_arr s \<and> sl_off s + (i + sl_len v) \<le> p \<and> p < sl_off s + tot
      then cell m (sl_arr s) (sl_off s + j + (p - (sl_off s + (i + sl_len v)))) else cell m a p)"
    if "a < length m" "p < length (m ! a)" for a p
    using go_copy_cell [OF r(3) src(1) that] src(2-4) assms(3-7) by (auto simp: m1 min_def)
  have c2: "cell m2 a p = (if a = sl_arr s \<and> sl_off s + i \<le> p \<and> p < sl_off s + (i + sl_len v)
      then cell m1 (sl_arr v) (sl_off v + (p - (sl_off s + i))) else cell m1 a p)"
    if "a < length m" "p < length (m ! a)" for a p
    using go_copy_cell [OF r1, of a p] that r(3) src(1) assms(3-7) by (auto simp: m1 m2 min_def)
  have v: "cell m1 (sl_arr v) (sl_off v + k) = cell m (sl_arr v) (sl_off v + k)" if "k < sl_len v" for k
    using c1 [of "sl_arr v" "sl_off v + k"] r(2) that disj tot
    by (auto simp: in_range_def overlaps_def)
  show "contents m2 (reslice s 0 tot) = take i (contents m s) @ contents m v @ drop j (contents m s)"
  proof (rule contents_spliceI)
    show "in_range m2 (reslice s 0 tot)"
      using r1 r(3) src(1) assms(1,7) by (simp add: m1 m2 in_range_def valid_slice_def)
    fix k assume k: "k < sl_len s - j"
    let ?p = "sl_off s + (i + sl_len v + k)"
    have "?p < length (m ! sl_arr s)" "sl_arr s < length m" "k < tot - (i + sl_len v)" "?p < sl_off s + tot"
      using k assms(1,4,7) tot by (auto simp: valid_slice_def)
    then have "cell m2 (sl_arr s) ?p = cell m (sl_arr s) (sl_off s + (j + k))"
      by (simp add: c1 c2 add.assoc)
    then show "cell m2 (sl_arr (reslice s 0 tot)) (sl_off (reslice s 0 tot) + (i + sl_len v + k)) =
        cell m (sl_arr s) (sl_off s + (j + k))"
      by simp
  qed (use r assms(3-7) c1 c2 v in \<open>auto simp: in_range_def valid_slice_def\<close>)
qed

lemma splice_rotate:
  assumes s: "valid_slice m s" and v: "valid_slice m v" and ij: "i \<le> j" "j \<le> sl_len s" "j < i + sl_len v"
    and tot: "tot = i + sl_len v + (sl_len s - j)" "tot \<le> sl_cap s"
    and y: "y = sl_len v - (j - i)"
    and k1: "kept_outside m s m1"
    and left: "\<And>k. k < j - i \<Longrightarrow> cell m1 (sl_arr s) (sl_off s + (i + k)) = cell m (sl_arr v) (sl_off v + (y + k))"
    and right: "\<And>k. k < y \<Longrightarrow> cell m1 (sl_arr s) (sl_off s + (sl_len s + k)) = cell m (sl_arr v) (sl_off v + k)"
    and kept: "\<And>k. k < i \<or> j \<le> k \<and> k < sl_len s \<Longrightarrow>
      cell m1 (sl_arr s) (sl_off s + k) = cell m (sl_arr s) (sl_off s + k)"
    and m2: "m2 = rotateRight m1 (reslice s i tot) y"
  shows "contents m2 (reslice s 0 tot) = take i (contents m s) @ contents m v @ drop j (contents m s)"
    and "kept_outside m s m2"
proof -
  let ?d = "reslice s i tot"
  have r: "in_range m s" "in_range m v" "in_range m1 ?d" "sl_arr s < length m1"
      "sl_off s + tot \<le> length (m1 ! sl_arr s)"
    using s v tot kept_outside_valid [OF k1 s] by (auto simp: valid_slice_def in_range_def)
  have y': "y \<le> tot - i" "tot - i - y = sl_len s - i" "sl_len v = y + (j - i)"
    using ij y tot by auto
  have k2: "kept_outside m1 s m2"
    unfolding m2 using r(3) tot y' by (intro rotateRight_kept) auto
  from kept_outside_trans [OF k1 k2] show "kept_outside m s m2" .
  have c: "cell m2 (sl_arr s) (sl_off s + p) =
      (if i \<le> p then if p - i < y then cell m1 (sl_arr s) (sl_off s + (p + (sl_len s - i)))
        else cell m1 (sl_arr s) (sl_off s + (p - y)) else cell m1 (sl_arr s) (sl_off s + p))"
    if "p < tot" for p
    using rotateRight_cell [OF r(3), of y "sl_arr s" "sl_off s + p"] that r(4,5) y' tot
    by (auto simp: m2 add.assoc)
  show "contents m2 (reslice s 0 tot) = take i (contents m s) @ contents m v @ drop j (contents m s)"
  proof (rule contents_spliceI)
    show "in_range m2 (reslice s 0 tot)"
      using r(3-5) by (simp add: m2 in_range_def)
  next
    fix k assume k: "k < sl_len v"
    show "cell m2 (sl_arr (reslice s 0 tot)) (sl_off (reslice s 0 tot) + (i + k)) = cell m (sl_arr v) (sl_off v + k)"
    proof (cases "k < y")
      case True
      moreover have "i + k + (sl_len s - i) = sl_len s + k" "i + k < tot" using ij tot k by simp_all
      ultimately have "cell m2 (sl_arr s) (sl_off s + (i + k)) = cell m (sl_arr v) (sl_off v + k)"
        using c [of "i + k"] right [of k] by (simp only: if_True add_diff_cancel_left' le_add1)
      then show ?thesis by simp
    next
      case False
      moreover have "i + k - y = i + (k - y)" "y + (k - y) = k" "k - y < j - i"
        using False k y' by auto
      ultimately show ?thesis using k c [of "i + k"] left [of "k - y"] ij tot by simp
    qed
  next
    fix k assume k: "k < sl_len s - j"
    have "i + sl_len v + k - y = j + k" "i + sl_len v + k < tot" "\<not> sl_len v + k < y" "j + k < sl_len s"
      using y' ij tot k by auto
    then show "cell m2 (sl_arr (reslice s 0 tot)) (sl_off (reslice s 0 tot) + (i + sl_len v + k)) =
        cell m (sl_arr s) (sl_off s + (j + k))"
      using c [of "i + sl_len v + k"] kept [of "j + k"] k by (simp add: add.assoc)
  next
    fix k assume k: "k < i"
    then have "k < tot" using tot by simp
    with k show "cell m2 (sl_arr (reslice s 0 tot)) (sl_off (reslice s 0 tot) + k) = cell m (sl_arr s) (sl_off s + k)"
      using c [of k] kept [of k] by simp
  qed (use r ij tot in auto)
qed

lemma splice_self:
  assumes s: "valid_slice m s" and v: "valid_slice m v" and ij: "i < j" "j < sl_len s" "j < i + sl_len v"
    and tot: "tot = i + sl_len v + (sl_len s - j)" "tot \<le> sl_cap s"
    and ov: "overlaps (reslice s i j) v" "overlaps (reslice s (sl_len s) tot) v"
    and k: "k = sl_off s + j - sl_off v"
    and m1: "m1 = go_copy m (reslice s i tot) v"
    and m2: "m2 = go_copy m1 (reslice s (i + sl_len v) tot) (reslice s (i + k) tot)"
  shows "contents m2 (reslice s 0 tot) = take i (contents m s) @ contents m v @ drop j (contents m s)"
    and "kept_outside m s m2"
    and "startIdx v (reslice s j (sl_len s)) = Some k"
proof -
  let ?d1 = "reslice s i tot" and ?d2 = "reslice s (i + sl_len v) tot" and ?src = "reslice s (i + k) tot"
  have v': "sl_arr v = sl_arr s" "sl_off v \<le> sl_off s + j" "sl_off s + sl_len s < sl_off v + sl_len v"
    using ov ij by (auto simp: overlaps_def)
  show "startIdx v (reslice s j (sl_len s)) = Some k"
    using v' ij by (simp add: startIdx_def k)
  have r: "in_range m s" "in_range m v" "in_range m ?d1"
    using s v tot by (auto simp: valid_slice_def in_range_def)
  have "k + (sl_len s - j) < sl_len v" using v' k ij(2) by arith
  then have "i + k \<le> tot" using tot(1) by simp
  then have r1: "in_range m1 ?d2" "in_range m1 ?src"
    using r s tot by (auto simp: m1 in_range_def valid_slice_def)
  have k1: "kept_outside m s m1"
    unfolding m1 using r tot by (intro go_copy_kept) auto
  moreover have "kept_outside m1 s m2"
    unfolding m2 using r1 tot by (intro go_copy_kept) auto
  ultimately show "kept_outside m s m2" by (rule kept_outside_trans)
  have lens: "sl_arr s < length m" "sl_off s + tot \<le> length (m ! sl_arr s)"
    using s tot by (auto simp: valid_slice_def)
  have c1: "cell m1 (sl_arr s) (sl_off s + p) = (if i \<le> p \<and> p < i + sl_len v
      then cell m (sl_arr s) (sl_off v + (p - i)) else cell m (sl_arr s) (sl_off s + p))" if "p < tot" for p
    using go_copy_cell [OF r(3,2) lens(1), of "sl_off s + p"] that lens tot v'(1)
    by (auto simp: m1 min_def)
  have c2: "cell m2 (sl_arr s) (sl_off s + p) = (if i + sl_len v \<le> p
      then cell m1 (sl_arr s) (sl_off s + (i + k + (p - (i + sl_len v)))) else cell m1 (sl_arr s) (sl_off s + p))"
    if "p < tot" for p
  proof -
    have "sl_off s + p < length (m1 ! sl_arr s)" "tot - (i + sl_len v) \<le> tot - (i + k)"
      using r lens that v' k tot ij by (auto simp: m1)
    then show ?thesis
      using go_copy_cell [OF r1, of "sl_arr s" "sl_off s + p"] that lens r
      by (simp add: m2 m1 min_absorb1 add.assoc)
  qed
  show "contents m2 (reslice s 0 tot) = take i (contents m s) @ contents m v @ drop j (contents m s)"
  proof (rule contents_spliceI)
    show "in_range m2 (reslice s 0 tot)"
      using r r1 lens by (simp add: m1 m2 in_range_def)
  next
    fix q assume q: "q < sl_len s - j"
    then have "i + k + q < i + sl_len v" "sl_off v + (k + q) = sl_off s + (j + q)" "i + sl_len v + q < tot"
      using v' k tot by auto
    moreover from this have "cell m2 (sl_arr s) (sl_off s + (i + sl_len v + q)) = cell m (sl_arr s) (sl_off v + (k + q))"
      using c2 [of "i + sl_len v + q"] c1 [of "i + k + q"] by (simp add: add.assoc)
    ultimately show "cell m2 (sl_arr (reslice s 0 tot)) (sl_off (reslice s 0 tot) + (i + sl_len v + q)) =
        cell m (sl_arr s) (sl_off s + (j + q))"
      by (metis add.right_neutral reslice_simps(1,2))
  next
    fix q assume "q < sl_len v"
    then show "cell m2 (sl_arr (reslice s 0 tot)) (sl_off (reslice s 0 tot) + (i + q)) = cell m (sl_arr v) (sl_off v + q)"
      using c2 [of "i + q"] c1 [of "i + q"] tot v'(1) by simp
  next
    fix q assume "q < i"
    then show "cell m2 (sl_arr (reslice s 0 tot)) (sl_off (reslice s 0 tot) + q) = cell m (sl_arr s) (sl_off s + q)"
      using c2 [of q] c1 [of q] tot by simp
  qed (use r ij tot in auto)
qed

subsection \<open>append\<close>

text \<open>
  What the operations rely on when a slice outgrows its array: the new capacity holds the
  requested length.
\<close>

locale slice_growth =
  fixes growcap :: "nat \<Rightarrow> nat \<Rightarrow> nat"
  assumes growcap_enough: "oldCap < newLen \<Longrightarrow> newLen \<le> growcap newLen oldCap"
begin

lemma append_values_spec:
  assumes "valid_slice m s" and "append_values growcap z m s xs = (m', s')"
  shows "valid_slice m' s'" and "contents m' s' = contents m s @ xs"
    and "sl_len s' = sl_len s + length xs"
    and "length m \<le> length m'"
    and "a < length m \<Longrightarrow> length (m' ! a) = length (m ! a)"
    and "a < length m \<Longrightarrow> a \<noteq> sl_arr s \<Longrightarrow> m' ! a = m ! a"
proof -
  let ?n = "sl_len s + length xs" and ?t = "reslice s (sl_len s) (sl_len s + length xs)"
  have r: "in_range m s" using assms(1) by (rule valid_in_range)
  show "sl_len s' = sl_len s + length xs" and "length m \<le> length m'"
    using assms(2) by (auto simp: append_values_def Let_def split: if_splits)
  show "a < length m \<Longrightarrow> length (m' ! a) = length (m ! a)"
    using assms by (auto simp: append_values_def Let_def nth_append valid_slice_def split: if_splits)
  show "a < length m \<Longrightarrow> a \<noteq> sl_arr s \<Longrightarrow> m' ! a = m ! a"
    using assms by (auto simp: append_values_def Let_def nth_append split: if_splits)
  show "valid_slice m' s'"
    using assms r growcap_enough [of "sl_cap s" ?n]
    by (auto simp: append_values_def Let_def valid_slice_def split: if_splits)
  show "contents m' s' = contents m s @ xs"
  proof (cases "?n \<le> sl_cap s")
    case True
    with assms have eq: "m' = mem_write m ?t xs" "s' = s\<lparr>sl_len := ?n\<rparr>"
      by (simp_all add: append_values_def Let_def)
    have le: "sl_off ?t + length xs \<le> length (m ! sl_arr ?t)"
      using assms(1) True by (simp add: valid_slice_def)
    show ?thesis
    proof (rule contents_eqI)
      show r': "in_range m' s'"
        using assms(1) True le by (simp add: eq in_range_def valid_slice_def)
      show "length (contents m s @ xs) = sl_len s'" using r by (simp add: eq)
      fix k assume "k < sl_len s'"
      then show "cell m' (sl_arr s') (sl_off s' + k) = (contents m s @ xs) ! k"
        using r' r le cell_mem_write [OF le, of "sl_arr s" "sl_off s + k"]
        by (auto simp: eq nth_append in_range_def)
    qed
  next
    case False
    with assms r show ?thesis
      by (auto simp: append_values_def Let_def contents_def in_range_def nth_append)
  qed
qed

lemma append_values_fresh:
  assumes "sl_cap s < sl_len s + length xs" and "append_values growcap z m s xs = (m', s')"
  shows "sl_arr s' = length m" and "sl_off s' = 0" and "a < length m \<Longrightarrow> m' ! a = m ! a"
    and "length m' = Suc (length m)"
  using assms by (auto simp: append_values_def Let_def nth_append)

lemma append_values_in_place:
  assumes "sl_len s + length xs \<le> sl_cap s" and "append_values growcap z m s xs = (m', s')"
  shows "m' = mem_write m (reslice s (sl_len s) (sl_len s + length xs)) xs"
    and "s' = s\<lparr>sl_len := sl_len s + length xs\<rparr>"
  using assms by (auto simp: append_values_def Let_def)

lemma append_values_kept:
  assumes "valid_slice m s" and "append_values growcap z m s xs = (m', s')"
  shows "kept_outside m s m'"
proof (cases "sl_cap s < sl_len s + length xs")
  case True
  from append_values_fresh [OF True assms(2)] show ?thesis
    by (auto simp: kept_outside_def cell_def)
next
  case False
  then have "sl_len s + length xs \<le> sl_cap s" by simp
  from append_values_in_place [OF this assms(2)] this assms(1) show ?thesis
    by (auto simp: kept_outside_def valid_slice_def cell_mem_write)
qed

lemma splice_fresh:
  assumes s: "valid_slice m s" and v: "valid_slice m v" and ij: "i \<le> j" "j \<le> sl_len s"
    and tot: "tot = i + sl_len v + (sl_len s - j)" "sl_cap s < tot"
    and app: "append_values growcap z m (reslice s 0 i) (replicate (tot - i) z) = (m0, s2)"
    and m1: "m1 = go_copy m0 (reslice s2 i tot) v"
    and m2: "m2 = go_copy m1 (reslice s2 (i + sl_len v) tot) (reslice s j (sl_len s))"
  shows "contents m2 s2 = take i (contents m s) @ contents m v @ drop j (contents m s)"
    and "kept_outside m s m2" and "valid_slice m2 s2"
proof -
  let ?s0 = "reslice s 0 i" and ?d1 = "reslice s2 i tot" and ?d2 = "reslice s2 (i + sl_len v) tot"
    and ?src = "reslice s j (sl_len s)"
  have s0: "valid_slice m ?s0" using s ij by (intro valid_reslice) (auto simp: valid_slice_def)
  have "sl_cap ?s0 < sl_len ?s0 + length (replicate (tot - i) z)" using tot by simp
  note fresh = append_values_fresh [OF this app] and spec = append_values_spec [OF s0 app]
  have len2: "sl_len s2 = tot" "tot \<le> sl_cap s2"
    using spec(1,3) tot by (auto simp: valid_slice_def)
  have r: "in_range m s" "in_range m v" "in_range m0 ?src" "in_range m0 v" "in_range m0 ?d1" "in_range m0 ?d2"
      "in_range m0 s2"
    using s v spec(1) fresh ij len2 tot by (auto simp: valid_slice_def in_range_def)
  have r1: "in_range m1 ?src" "in_range m1 ?d2" "in_range m1 s2"
    using r by (simp_all add: m1 in_range_def)
  have old: "m2 ! a = m ! a" if "a < length m" for a
    using that fresh by (simp add: m1 m2)
  have len_m2: "length m2 = Suc (length m)" using r r1 fresh by (simp add: m1 m2)
  show "kept_outside m s m2" by (rule kept_outsideI) (simp_all add: old len_m2 cell_def)
  show "valid_slice m2 s2" using spec(1) r r1 by (simp add: valid_slice_def m1 m2)
  have lens: "sl_arr s2 < length m0" "tot \<le> length (m0 ! sl_arr s2)" "sl_arr s2 < length m1"
      "length (m1 ! sl_arr s2) = length (m0 ! sl_arr s2)"
    using r len2 fresh by (auto simp: in_range_def m1)
  have oldcell: "cell m0 a p = cell m a p" "cell m1 a p = cell m a p" if "a < length m" for a p
    using that fresh by (simp_all add: m1 cell_def)
  have c1: "cell m1 (sl_arr s2) p = (if i \<le> p \<and> p < i + sl_len v
      then cell m (sl_arr v) (sl_off v + (p - i)) else cell m0 (sl_arr s2) p)" if "p < tot" for p
    using go_copy_cell [OF r(5,4) lens(1), of p] that lens fresh r(2) tot
    by (auto simp: m1 in_range_def oldcell)
  have c2: "cell m2 (sl_arr s2) p = (if i + sl_len v \<le> p
      then cell m (sl_arr s) (sl_off s + (j + (p - (i + sl_len v)))) else cell m1 (sl_arr s2) p)" if "p < tot" for p
    using go_copy_cell [OF r1(2,1) lens(3), of p] that lens fresh r(1) tot
    by (auto simp: m2 in_range_def oldcell add.assoc)
  have head: "cell m0 (sl_arr s2) k = cell m (sl_arr s) (sl_off s + k)" if "k < i" for k
  proof -
    have "contents m0 s2 ! k = contents m ?s0 ! k"
      using spec(2) that s0 by (simp add: nth_append valid_in_range)
    then show ?thesis using that r(7) s0 len2 tot fresh by (simp add: valid_in_range)
  qed
  show "contents m2 s2 = take i (contents m s) @ contents m v @ drop j (contents m s)"
  proof (rule contents_spliceI)
    show "in_range m2 s2" using r1 by (simp add: m2 in_range_def)
  qed (use r ij len2 tot fresh c1 c2 head in simp_all)
qed

lemma append_splice:
  assumes "valid_slice m s" and "valid_slice m v" and "i \<le> sl_len s"
    and "go_append growcap z m (reslice s 0 i) v = (m', s')"
  shows "contents m' s' = take i (contents m s) @ contents m v" and "kept_outside m s m'"
    and "valid_slice m' s'" and "sl_len s' = i + sl_len v"
proof -
  have v: "valid_slice m (reslice s 0 i)"
    using assms(1,3) by (intro valid_reslice) (auto simp: valid_slice_def)
  have app: "append_values growcap z m (reslice s 0 i) (contents m v) = (m', s')"
    using assms(4) by (simp add: go_append_def)
  note spec = append_values_spec [OF v app]
  show "contents m' s' = take i (contents m s) @ contents m v"
    using spec(2) assms(3) by (simp add: contents_def)
  show "valid_slice m' s'" by (rule spec(1))
  show "kept_outside m s m'"
    by (rule kept_outside_reslice [OF append_values_kept [OF v app]])
  show "sl_len s' = i + sl_len v"
    using spec(3) assms(2) by (simp add: valid_in_range)
qed

lemma reslice_full: "reslice s 0 (sl_len s) = s"
  by (simp add: reslice_def)

lemma Insert_ok:
  assumes s: "valid_slice m s" and v: "valid_slice m v" and i: "i \<le> sl_len s"
  shows "\<exists>m' s'. slices_Insert growcap z m s i v = Inr (m', s') \<and> valid_slice m' s' \<and> kept_outside m s m'
    \<and> contents m' s' = take i (contents m s) @ contents m v @ drop i (contents m s)"
proof -
  let ?n = "sl_len s" and ?m = "sl_len v"
  let ?tot = "i + ?m + (?n - i)"
  have tot: "?n + ?m = ?tot" using i by simp
  have rs: "in_range m s" "in_range m v" using s v by (simp_all add: valid_in_range)
  consider (none) "?m = 0" | (tail) "?m \<noteq> 0" "i = ?n" | (fresh) "?m \<noteq> 0" "i < ?n" "sl_cap s < ?n + ?m"
    | (shift) "?m \<noteq> 0" "i < ?n" "?n + ?m \<le> sl_cap s" "\<not> overlaps v (reslice s (i + ?m) ?tot)"
    | (rotate) "?m \<noteq> 0" "i < ?n" "?n + ?m \<le> sl_cap s" "overlaps v (reslice s (i + ?m) ?tot)"
    using i by linarith
  then show ?thesis
  proof cases
    case none
    then have "contents m v = []" by (simp add: contents_def)
    with none i s show ?thesis by (simp add: slices_Insert_def)
  next
    case tail
    obtain m' s' where app: "go_append growcap z m (reslice s 0 i) v = (m', s')" by fastforce
    from append_splice [OF s v i app] app tail i rs show ?thesis
      by (auto simp: slices_Insert_def reslice_full)
  next
    case fresh
    obtain m0 s2 where app: "append_values growcap z m (reslice s 0 i) (replicate (?tot - i) z) = (m0, s2)"
      by fastforce
    from splice_fresh [OF s v order_refl i refl _ app refl refl] fresh i app show ?thesis
      by (auto simp: slices_Insert_def Let_def tot [symmetric])
  next
    case shift
    have src: "in_range m (reslice s i ?tot)"
      using s shift i by (auto simp: valid_slice_def in_range_def)
    have r: "reslice (reslice s 0 t) a b = reslice s a b" for t a b by (simp add: reslice_def)
    have "\<not> overlaps (reslice s (i + ?m) ?tot) v" using shift(4) by (auto simp: overlaps_def)
    note sp = splice_shift [OF s v order_refl i _ refl _ this src _ _ _ refl refl]
    have "valid_slice m (reslice s 0 ?tot)" using s shift i by (intro valid_reslice) auto
    moreover have "slices_Insert growcap z m s i v = Inr (go_copy (go_copy m (reslice s (i + ?m) ?tot)
        (reslice s i ?tot)) (reslice s i ?tot) v, reslice s 0 ?tot)"
      using shift i by (auto simp: slices_Insert_def Let_def tot [symmetric] r)
    ultimately show ?thesis
      using sp shift i kept_outside_valid [OF sp(2)] by simp
  next
    case rotate
    let ?d = "reslice s ?n ?tot"
    let ?m1 = "go_copy m ?d v"
    have rd: "in_range m ?d" using s rotate i by (auto simp: valid_slice_def in_range_def)
    have r: "reslice (reslice s 0 t) a b = reslice s a b" for t a b by (simp add: reslice_def)
    have k: "kept_outside m s ?m1" using rd rs rotate i by (intro go_copy_kept) auto
    have c: "cell ?m1 (sl_arr s) (sl_off s + p) = (if ?n \<le> p then cell m (sl_arr v) (sl_off v + (p - ?n))
        else cell m (sl_arr s) (sl_off s + p))" if "p < ?tot" for p
      using go_copy_cell [OF rd rs(2), of "sl_arr s" "sl_off s + p"] that s rotate i
      by (auto simp: valid_slice_def)
    have "valid_slice m (reslice s 0 ?tot)" using s rotate i by (intro valid_reslice) auto
    moreover have "slices_Insert growcap z m s i v =
        Inr (rotateRight ?m1 (reslice s i ?tot) (?m - (i - i)), reslice s 0 ?tot)"
      using rotate i by (auto simp: slices_Insert_def Let_def tot [symmetric] r)
    moreover have "i < i + ?m" "?tot \<le> sl_cap s" using rotate i by simp_all
    moreover have "cell ?m1 (sl_arr s) (sl_off s + (?n + q)) = cell m (sl_arr v) (sl_off v + q)" if "q < ?m" for q
      using c [of "?n + q"] that i by simp
    moreover have "cell ?m1 (sl_arr s) (sl_off s + q) = cell m (sl_arr s) (sl_off s + q)" if "q < i \<or> i \<le> q \<and> q < ?n" for q
      using c [of q] that i by auto
    ultimately show ?thesis
      using splice_rotate [OF s v order_refl i _ refl _ refl k _ _ _ refl]
        kept_outside_valid [of m s "rotateRight ?m1 (reslice s i ?tot) (?m - (i - i))" "reslice s 0 ?tot"]
      by simp
  qed
qed

lemma Delete_ok:
  assumes s: "valid_slice m s" and ij: "i \<le> j" "j \<le> sl_len s"
  shows "\<exists>m' s'. slices_Delete growcap z m s i j = Inr (m', s') \<and> valid_slice m' s' \<and> kept_outside m s m'
    \<and> contents m' s' = take i (contents m s) @ drop j (contents m s)
    \<and> contents m' s = contents m' s' @ replicate (j - i) z"
proof (cases "i = j")
  case True
  with s ij show ?thesis by (simp add: slices_Delete_def)
next
  case False
  let ?v = "reslice s j (sl_len s)" and ?n = "sl_len s" and ?k = "i + (sl_len s - j)"
  have v: "valid_slice m ?v" using s ij by (intro valid_reslice) (auto simp: valid_slice_def)
  obtain m1 s1 where app: "go_append growcap z m (reslice s 0 i) ?v = (m1, s1)" by fastforce
  have i: "i \<le> ?n" using ij by simp
  have lv: "length (contents m ?v) = ?n - j" using v by (simp add: valid_in_range)
  have "sl_len (reslice s 0 i) + length (contents m ?v) \<le> sl_cap (reslice s 0 i)"
    using s ij lv by (auto simp: valid_slice_def)
  then have s1: "s1 = reslice s 0 ?k"
    using append_values_in_place [of "reslice s 0 i" "contents m ?v" z m m1 s1] app lv
    by (simp add: go_append_def reslice_def)
  note sp = append_splice [OF s v i app]
  let ?t = "reslice s1 (sl_len s1) ?n"
  let ?m2 = "go_clear z m1 ?t"
  have k: "?k \<le> ?n" "?n - ?k = j - i" using ij by auto
  have vs: "valid_slice m1 s" "in_range m1 s" "in_range m1 s1" "in_range m1 ?t"
    using kept_outside_valid [OF sp(2) s] k sp(3) by (auto simp: in_range_def valid_slice_def s1)
  have k2: "kept_outside m1 s ?m2"
    using vs(4) s k by (intro go_clear_kept) (auto simp: s1 valid_slice_def)
  have c: "cell ?m2 (sl_arr s) (sl_off s + p) = (if ?k \<le> p then z else cell m1 (sl_arr s) (sl_off s + p))"
    if "p < ?n" for p
    using go_clear_cell [OF vs(4), of "sl_arr s" "sl_off s + p" z] vs(2) that by (auto simp: s1 in_range_def)
  have r2: "in_range ?m2 s" "in_range ?m2 s1" using vs by (simp_all add: in_range_def)
  have head: "contents ?m2 s1 = contents m1 s1"
    using r2 vs(3) k c by (intro contents_eqI) (auto simp: s1)
  have tail: "contents ?m2 s = contents ?m2 s1 @ replicate (j - i) z"
    using r2 k c by (intro contents_eqI) (auto simp: s1 nth_append)
  have val: "contents m ?v = drop j (contents m s)"
    by (simp add: contents_def drop_take)
      (metis add.commute drop_drop)
  have "slices_Delete growcap z m s i j = Inr (?m2, s1)"
    using False ij app by (simp add: slices_Delete_def Let_def)
  with kept_outside_trans [OF sp(2) k2] kept_outside_valid [OF k2 sp(3)] head tail sp(1) val show ?thesis
    by simp
qed

lemma Replace_tail_ok:
  assumes s: "valid_slice m s" and v: "valid_slice m v" and i: "i < sl_len s"
  shows "\<exists>m' s'. slices_Replace growcap z m s i (sl_len s) v = Inr (m', s') \<and> valid_slice m' s'
    \<and> kept_outside m s m' \<and> contents m' s' = take i (contents m s) @ contents m v"
proof -
  obtain m1 s1 where app: "go_append growcap z m (reslice s 0 i) v = (m1, s1)" by fastforce
  from i have i': "i \<le> sl_len s" by simp
  note sp = append_splice [OF s v i' app]
  let ?t = "reslice s (sl_len s1) (sl_len s)"
  have cap: "sl_len s \<le> sl_cap s" using s by (simp add: valid_slice_def)
  show ?thesis
  proof (cases "sl_len s1 < sl_len s")
    case False
    with i cap app sp show ?thesis by (simp add: slices_Replace_def)
  next
    case True
    have "sl_len (reslice s 0 i) + length (contents m v) \<le> sl_cap (reslice s 0 i)"
      using s v cap True sp(4) by (simp add: valid_in_range)
    then have s1: "s1 = reslice s 0 (i + sl_len v)"
      using append_values_in_place [of "reslice s 0 i" "contents m v" z m m1 s1] app v
      by (simp add: go_append_def reslice_def valid_in_range)
    have vs: "valid_slice m1 s" "in_range m1 ?t"
      using kept_outside_valid [OF sp(2) s] True by (auto simp: in_range_def valid_slice_def)
    have k2: "kept_outside m1 s (go_clear z m1 ?t)"
      using vs(2) cap True by (intro go_clear_kept) auto
    have "contents (go_clear z m1 ?t) s1 = contents m1 s1"
    proof (rule contents_eqI)
      show "in_range (go_clear z m1 ?t) s1"
        using sp(3) vs(2) by (simp add: in_range_def valid_slice_def)
    qed (use sp(3) vs True in \<open>auto simp: go_clear_cell valid_in_range s1 valid_slice_def\<close>)
    with i cap app sp True k2 kept_outside_trans [OF sp(2) k2] kept_outside_valid [OF k2 sp(3)] show ?thesis
      by (simp add: slices_Replace_def)
  qed
qed

lemma Replace_shrink_ok:
  assumes s: "valid_slice m s" and v: "valid_slice m v" and ij: "i < j" "j < sl_len s" "i + sl_len v \<le> j"
    and tot: "tot = i + sl_len v + (sl_len s - j)"
    and m1: "m1 = go_copy m (reslice s i tot) v"
    and m2: "m2 = go_copy m1 (reslice s (i + sl_len v) tot) (reslice s j (sl_len s))"
    and m3: "m3 = go_clear z m2 (reslice s tot (sl_len s))"
  shows "contents m3 (reslice s 0 tot) = take i (contents m s) @ contents m v @ drop j (contents m s)"
    and "kept_outside m s m3"
proof -
  let ?n = "sl_len s"
  let ?d1 = "reslice s i tot" and ?d2 = "reslice s (i + sl_len v) tot" and ?src = "reslice s j ?n"
    and ?d3 = "reslice s tot ?n"
  have le: "tot \<le> ?n" "?n \<le> sl_cap s" "sl_off s + sl_cap s \<le> length (m ! sl_arr s)" "sl_arr s < length m"
    using ij tot s by (auto simp: valid_slice_def)
  have r: "in_range m s" "in_range m v" "in_range m ?d1" using s v le tot by (auto simp: valid_slice_def in_range_def)
  have r1: "in_range m1 ?d2" "in_range m1 ?src" using r le tot ij by (auto simp: m1 in_range_def)
  have r2: "in_range m2 ?d3" using r r1 le by (auto simp: m1 m2 in_range_def)
  have "kept_outside m s m1" unfolding m1 using r le tot by (intro go_copy_kept) auto
  moreover have "kept_outside m1 s m2" unfolding m2 using r1 le tot by (intro go_copy_kept) auto
  moreover have "kept_outside m2 s m3" unfolding m3 using r2 le by (intro go_clear_kept) auto
  ultimately show "kept_outside m s m3" by (blast intro: kept_outside_trans)
  have c1: "cell m1 (sl_arr s) (sl_off s + p) = (if i \<le> p \<and> p < i + sl_len v
      then cell m (sl_arr v) (sl_off v + (p - i)) else cell m (sl_arr s) (sl_off s + p))" if "p < ?n" for p
    using go_copy_cell [OF r(3,2), of "sl_arr s" "sl_off s + p"] that le tot by (auto simp: m1 min_def)
  have c2: "cell m2 (sl_arr s) (sl_off s + p) = (if i + sl_len v \<le> p \<and> p < tot
      then cell m1 (sl_arr s) (sl_off s + (j + (p - (i + sl_len v)))) else cell m1 (sl_arr s) (sl_off s + p))"
    if "p < ?n" for p
    using go_copy_cell [OF r1, of "sl_arr s" "sl_off s + p"] that le tot r by (auto simp: m2 m1 min_def add.assoc)
  have c3: "cell m3 (sl_arr s) (sl_off s + p) = cell m2 (sl_arr s) (sl_off s + p)" if "p < tot" for p
    using go_clear_cell [OF r2, of "sl_arr s" "sl_off s + p"] that le r r1 by (auto simp: m3 m2 m1)
  show "contents m3 (reslice s 0 tot) = take i (contents m s) @ contents m v @ drop j (contents m s)"
  proof (rule contents_spliceI)
    show "in_range m3 (reslice s 0 tot)" using r r1 r2 le by (simp add: m1 m2 m3 in_range_def)
  next
    fix k assume k: "k < ?n - j"
    then have "i + sl_len v + k < tot" "i + sl_len v + k < ?n" "j + k < ?n" "\<not> j + k < i + sl_len v"
      using ij tot by auto
    then show "cell m3 (sl_arr (reslice s 0 tot)) (sl_off (reslice s 0 tot) + (i + sl_len v + k)) =
        cell m (sl_arr s) (sl_off s + (j + k))"
      using c3 [of "i + sl_len v + k"] c2 [of "i + sl_len v + k"] c1 [of "j + k"] by simp
  qed (use r ij le tot c1 c2 c3 in auto)
qed

lemma Replace_around_ok:
  assumes s: "valid_slice m s" and v: "valid_slice m v" and ij: "i < j" "j < sl_len s" "j < i + sl_len v"
    and tot: "tot = i + sl_len v + (sl_len s - j)" "tot \<le> sl_cap s"
    and y: "y = sl_len v - (j - i)"
    and m1: "\<not> overlaps (reslice s i j) v \<and> m1 = go_copy (go_copy m (reslice s i j) (reslice v y (sl_len v)))
               (reslice s (sl_len s) tot) (reslice v 0 y)
           \<or> \<not> overlaps (reslice s (sl_len s) tot) v \<and> m1 = go_copy (go_copy m (reslice s (sl_len s) tot) (reslice v 0 y))
               (reslice s i j) (reslice v y (sl_len v))"
    and m2: "m2 = rotateRight m1 (reslice s i tot) y"
  shows "contents m2 (reslice s 0 tot) = take i (contents m s) @ contents m v @ drop j (contents m s)"
    and "kept_outside m s m2"
proof -
  let ?n = "sl_len s" and ?lv = "sl_len v"
  let ?a = "reslice s i j" and ?b = "reslice s ?n tot" and ?va = "reslice v y ?lv" and ?vb = "reslice v 0 y"
  have le: "?n \<le> sl_cap s" "sl_off s + sl_cap s \<le> length (m ! sl_arr s)" "sl_arr s < length m"
    using s by (auto simp: valid_slice_def)
  have y': "?lv - y = j - i" "tot - ?n = y" "y \<le> ?lv" using ij y tot by auto
  have r: "in_range m ?a" "in_range m ?b" "in_range m ?va" "in_range m ?vb" "in_range m v"
    using ij le tot v y' by (auto simp: in_range_def valid_slice_def)
  have rr: "in_range (go_copy m ?a ?va) t" "in_range (go_copy m ?b ?vb) t" if "in_range m t" for t
    using that r by (simp_all add: in_range_def)
  have ca: "cell (go_copy m' ?a ?va) a p = (if a = sl_arr s \<and> sl_off s + i \<le> p \<and> p < sl_off s + j
      then cell m' (sl_arr v) (sl_off v + y + (p - (sl_off s + i))) else cell m' a p)"
    if "in_range m' ?a" "in_range m' ?va" "a < length m'" "p < length (m' ! a)" for m' a p
    using go_copy_cell [OF that] ij y' by simp
  have cb: "cell (go_copy m' ?b ?vb) a p = (if a = sl_arr s \<and> sl_off s + ?n \<le> p \<and> p < sl_off s + tot
      then cell m' (sl_arr v) (sl_off v + (p - (sl_off s + ?n))) else cell m' a p)"
    if "in_range m' ?b" "in_range m' ?vb" "a < length m'" "p < length (m' ! a)" for m' a p
    using go_copy_cell [OF that] tot ij y' by auto
  have kept: "kept_outside m s m1"
    using m1 r rr tot ij le
    by (elim disjE conjE) (auto intro!: kept_outside_trans [OF go_copy_kept go_copy_kept])
  have vl: "sl_arr v < length m" "sl_off v + ?lv \<le> length (m ! sl_arr v)"
    using r(5) by (auto simp: in_range_def)
  have va: "cell (go_copy m ?a ?va) (sl_arr v) (sl_off v + k) = cell m (sl_arr v) (sl_off v + k)"
    if "\<not> overlaps ?a v" and "k < ?lv" for k
    using that ca [OF r(1,3) vl(1), of "sl_off v + k"] vl(2) ij(1) by (auto simp: overlaps_def)
  have vb: "cell (go_copy m ?b ?vb) (sl_arr v) (sl_off v + k) = cell m (sl_arr v) (sl_off v + k)"
    if "\<not> overlaps ?b v" and "k < ?lv" for k
    using that cb [OF r(2,4) vl(1), of "sl_off v + k"] vl(2) y' by (auto simp: overlaps_def)
  have c: "cell m1 (sl_arr s) (sl_off s + p) =
      (if i \<le> p \<and> p < j then cell m (sl_arr v) (sl_off v + (y + (p - i)))
       else if ?n \<le> p then cell m (sl_arr v) (sl_off v + (p - ?n))
       else cell m (sl_arr s) (sl_off s + p))" if "p < tot" for p
  proof -
    have p: "sl_off s + p < length (m ! sl_arr s)" using that tot le by simp
    have idx: "y + (p - i) < ?lv" if "i \<le> p" "p < j" using that y' by simp
    from m1 show ?thesis
    proof (elim disjE conjE)
      assume "\<not> overlaps ?a v" and "m1 = go_copy (go_copy m ?a ?va) ?b ?vb"
      with cb [OF rr(1) [OF r(2)] rr(1) [OF r(4)], of "sl_arr s" "sl_off s + p"]
        ca [OF r(1,3) le(3) p] va [of "p - ?n"] p that r le(3) ij y' show ?thesis
        by (auto simp: add.assoc)
    next
      assume "\<not> overlaps ?b v" and "m1 = go_copy (go_copy m ?b ?vb) ?a ?va"
      with ca [OF rr(2) [OF r(1)] rr(2) [OF r(3)], of "sl_arr s" "sl_off s + p"]
        cb [OF r(2,4) le(3) p] vb [of "y + (p - i)"] idx p that r le(3) ij show ?thesis
        by (auto simp: add.assoc)
    qed
  qed
  have left: "cell m1 (sl_arr s) (sl_off s + (i + k)) = cell m (sl_arr v) (sl_off v + (y + k))"
    if "k < j - i" for k
  proof -
    have "i + k < j" "i + k < tot" using that tot ij by auto
    then show ?thesis using c [of "i + k"] by simp
  qed
  have right: "cell m1 (sl_arr s) (sl_off s + (?n + k)) = cell m (sl_arr v) (sl_off v + k)"
    if "k < y" for k using c [of "?n + k"] that y' ij by simp
  have rest: "cell m1 (sl_arr s) (sl_off s + k) = cell m (sl_arr s) (sl_off s + k)"
    if "k < i \<or> j \<le> k \<and> k < ?n" for k using c [of k] that tot ij by auto
  note sp = splice_rotate [OF s v less_imp_le [OF ij(1)] less_imp_le [OF ij(2)] ij(3) tot y kept left right rest m2]
  show "contents m2 (reslice s 0 tot) = take i (contents m s) @ contents m v @ drop j (contents m s)"
    by (rule sp(1))
  show "kept_outside m s m2" by (rule sp(2))
qed

lemma Replace_ok:
  assumes s: "valid_slice m s" and v: "valid_slice m v" and ij: "i \<le> j" "j \<le> sl_len s"
  shows "\<exists>m' s'. slices_Replace growcap z m s i j v = Inr (m', s') \<and> valid_slice m' s' \<and> kept_outside m s m'
    \<and> contents m' s' = take i (contents m s) @ contents m v @ drop j (contents m s)"
proof -
  let ?n = "sl_len s" and ?lv = "sl_len v"
  define tot where tot: "tot = i + ?lv + (?n - j)"
  define y where y: "y = ?lv - (j - i)"
  let ?r = "reslice s 0 tot"
  have cap: "?n \<le> sl_cap s" using s by (simp add: valid_slice_def)
  have rr: "reslice (reslice s 0 t) a b = reslice s a b" for t a b by (simp add: reslice_def)
  have vr: "valid_slice m ?r" if "tot \<le> sl_cap s" using s that by (intro valid_reslice) auto
  have fin: ?thesis
    if "slices_Replace growcap z m s i j v = Inr (m', ?r)" "kept_outside m s m'" "tot \<le> sl_cap s"
      "contents m' ?r = take i (contents m s) @ contents m v @ drop j (contents m s)" for m'
    using that kept_outside_valid [OF that(2) vr] by simp
  consider (ins) "i = j" | (tail) "i < j" "j = ?n"
    | (mid) "i < j" "j < ?n" using ij by linarith
  then show ?thesis
  proof cases
    case ins
    with Insert_ok [OF s v, of i z] ij cap show ?thesis by (simp add: slices_Replace_def)
  next
    case tail
    with Replace_tail_ok [OF s v, of i z] show ?thesis
      using s by (auto simp: valid_in_range)
  next
    case mid
    then have ij': "i \<noteq> j" "j \<noteq> ?n" "i \<le> j" "j \<le> sl_cap s" "\<not> ?n < j" using cap by auto
    consider (fresh) "sl_cap s < tot" | (shrink) "tot \<le> sl_cap s" "i + ?lv \<le> j"
      | (shift) "tot \<le> sl_cap s" "j < i + ?lv" "\<not> overlaps (reslice s (i + ?lv) tot) v"
      | (around) "tot \<le> sl_cap s" "j < i + ?lv" "overlaps (reslice s (i + ?lv) tot) v"
        "\<not> overlaps (reslice s i j) v \<or> \<not> overlaps (reslice s ?n tot) v"
      | (self) "tot \<le> sl_cap s" "j < i + ?lv" "overlaps (reslice s (i + ?lv) tot) v"
        "overlaps (reslice s i j) v" "overlaps (reslice s ?n tot) v"
      by linarith
    then show ?thesis
    proof cases
      case fresh
      obtain m0 s2 where app: "append_values growcap z m (reslice s 0 i) (replicate (tot - i) z) = (m0, s2)"
        by fastforce
      from splice_fresh [OF s v ij tot fresh app refl refl] fresh ij' app tot show ?thesis
        by (simp add: slices_Replace_def Let_def)
    next
      case shrink
      note sp = Replace_shrink_ok [OF s v mid shrink(2) tot refl refl refl, of z]
      show ?thesis
        by (rule fin [OF _ sp(2) shrink(1) sp(1)])
          (use shrink ij' in \<open>simp add: slices_Replace_def Let_def rr tot\<close>)
    next
      case shift
      have src: "in_range m (reslice s j ?n)" using s ij by (auto simp: valid_slice_def in_range_def)
      note sp = splice_shift [OF s v ij shift(2) tot shift(1,3) src _ _ _ refl refl, simplified]
      show ?thesis
        by (rule fin [OF _ sp(2) shift(1) sp(1)])
          (use shift ij' in \<open>simp add: slices_Replace_def Let_def rr tot\<close>)
    next
      case around
      let ?m1 = "if \<not> overlaps (reslice s i j) v
        then go_copy (go_copy m (reslice s i j) (reslice v y ?lv)) (reslice s ?n tot) (reslice v 0 y)
        else go_copy (go_copy m (reslice s ?n tot) (reslice v 0 y)) (reslice s i j) (reslice v y ?lv)"
      note sp = Replace_around_ok [OF s v mid around(2) tot around(1) y, of ?m1, OF _ refl]
      show ?thesis
        by (rule fin [OF _ sp(2) around(1) sp(1)])
          (use around ij' in \<open>auto simp: slices_Replace_def Let_def rr tot y\<close>)
    next
      case self
      note sp = splice_self [OF s v mid self(2) tot self(1,4,5) refl refl refl]
      show ?thesis
        by (rule fin [OF _ sp(2) self(1) sp(1)])
          (use self ij' sp(3) in \<open>simp add: slices_Replace_def Let_def rr tot\<close>)
    qed
  qed
qed

lemma Replace_panics:
  assumes "valid_slice m s" and "valid_slice m v" and "\<not> (i \<le> j \<and> j \<le> sl_len s)"
  shows "slices_Replace growcap z m s i j v = Inl OutOfRange"
  using assms by (auto simp: slices_Replace_def slices_Insert_def)

end

lemma nextslicecap_loop_enough: "newLen \<le> nextslicecap_loop newLen newcap"
  by (induction newLen newcap rule: nextslicecap_loop.induct)
    (subst nextslicecap_loop.simps, simp add: Let_def)

interpretation nextcap: slice_growth nextslicecap
  by unfold_locales (auto simp: nextslicecap_def Let_def nextslicecap_loop_enough)

end
