(* ===== verification/Slices_Correct.thy ===== *)
theory Slices_Correct
  imports Slices_Memory Bits_Correct
begin

text \<open>
  The filtering and repeating operations of the package \<open>slices\<close> on the contents of one slice, and
  the properties of the package.
\<close>

section \<open>Filtering in place\<close>

lemma DeleteFunc_loop_spec:
  assumes "i < j" and "j \<le> length s" and "DeleteFunc_loop del i j s = (k, s')"
  shows "take k s' = take i s @ filter (\<lambda>x. \<not> del x) (drop j s) \<and> length s' = length s \<and> k \<le> length s"
  using assms
proof (induction del i j s rule: DeleteFunc_loop.induct)
  case (1 del i j s)
  show ?case
  proof (cases "j < length s")
    case False
    with 1(3-5) show ?thesis by (subst (asm) DeleteFunc_loop.simps) auto
  next
    case True
    then have d: "drop j s = s ! j # drop (j + 1) s" by (simp add: Cons_nth_drop_Suc)
    show ?thesis
    proof (cases "del (s ! j)")
      case del: True
      with 1(5) True have "DeleteFunc_loop del i (j + 1) s = (k, s')"
        by (subst (asm) DeleteFunc_loop.simps) simp
      with 1(2) [OF True refl] del 1(3,4) True d show ?thesis by simp
    next
      case del: False
      with 1(5) True have "DeleteFunc_loop del (i + 1) (j + 1) (s[i := s ! j]) = (k, s')"
        by (subst (asm) DeleteFunc_loop.simps) simp
      moreover have "take (i + 1) (s[i := s ! j]) = take i s @ [s ! j]"
        using 1(3,4) by (simp add: take_Suc_conv_app_nth)
      ultimately show ?thesis using 1(1) [OF True refl] del 1(3,4) True d by simp
    qed
  qed
qed

lemma IndexFunc_from_spec:
  "IndexFunc_from i s f = (case find f s of None \<Rightarrow> - 1 | Some _ \<Rightarrow> int (i + length (takeWhile (\<lambda>x. \<not> f x) s)))"
  by (induction s arbitrary: i) (auto split: option.splits)

lemma find_None_filter: "find f s = None \<longleftrightarrow> filter f s = []"
  by (induction s) auto

lemma store_prefix_spec:
  assumes s: "valid_slice m s" and len: "length xs = sl_len s" and k: "k \<le> sl_len s"
    and st: "store_prefix z m s (k, xs) = (m', s')"
  shows "valid_slice m' s'" and "kept_outside m s m'" and "contents m' s' = take k xs"
    and "contents m' s = take k xs @ replicate (sl_len s - k) z"
proof -
  let ?m1 = "mem_write m s xs" and ?t = "reslice s k (sl_len s)"
  from st have m': "m' = go_clear z ?m1 ?t" and s': "s' = reslice s 0 k"
    by (simp_all add: store_prefix_def Let_def)
  have w: "sl_off s + length xs \<le> length (m ! sl_arr s)" "sl_arr s < length m"
    using s len by (auto simp: valid_slice_def)
  have v1: "valid_slice ?m1 s" using s w by (simp add: valid_slice_def)
  have r: "in_range ?m1 ?t" "in_range ?m1 s" using v1 k by (auto simp: valid_slice_def in_range_def)
  have "kept_outside m s ?m1"
    using s w len by (intro kept_outsideI) (auto simp: cell_mem_write valid_slice_def)
  moreover have "kept_outside ?m1 s m'"
    unfolding m' using r s k by (intro go_clear_kept) (auto simp: valid_slice_def)
  ultimately show kept: "kept_outside m s m'" by (rule kept_outside_trans)
  have v': "valid_slice m' s" by (rule kept_outside_valid [OF kept s])
  then show vs': "valid_slice m' s'"
    unfolding s' using k by (intro valid_reslice) (auto simp: valid_slice_def)
  have c: "cell m' (sl_arr s) (sl_off s + p) = (if k \<le> p then z else xs ! p)" if "p < sl_len s" for p
  proof -
    have p: "sl_off s + p < length (m ! sl_arr s)" using w len that by simp
    show ?thesis
      using go_clear_cell [OF r(1), of "sl_arr s" "sl_off s + p" z]
        cell_mem_write [OF w(1) w(2) p] that p w len by (auto simp: m')
  qed
  show "contents m' s' = take k xs"
    using vs' k len c by (intro contents_eqI) (auto simp: s' valid_in_range)
  show "contents m' s = take k xs @ replicate (sl_len s - k) z"
    using v' k len c by (intro contents_eqI) (auto simp: valid_in_range nth_append)
qed

lemma DeleteFunc_spec:
  assumes s: "valid_slice m s" and d: "slices_DeleteFunc z m s del = (m', s')"
  shows "valid_slice m' s'" and "kept_outside m s m'"
    and "contents m' s' = filter (\<lambda>x. \<not> del x) (contents m s)"
    and "contents m' s = contents m' s' @ replicate (sl_len s - sl_len s') z"
proof -
  let ?c = "contents m s" and ?P = "\<lambda>x. \<not> del x"
  have goal: "valid_slice m' s' \<and> kept_outside m s m' \<and> contents m' s' = filter ?P ?c
    \<and> contents m' s = contents m' s' @ replicate (sl_len s - sl_len s') z"
  proof (cases "find del ?c")
    case None
    then have "slices_IndexFunc ?c del = - 1" by (simp add: slices_IndexFunc_def IndexFunc_from_spec)
    moreover have "filter ?P ?c = ?c" using None by (simp add: find_None_filter filter_empty_conv)
    ultimately show ?thesis using s d by (auto simp: slices_DeleteFunc_def)
  next
    case (Some x)
    let ?i = "length (takeWhile ?P ?c)"
    from Some have i: "slices_IndexFunc ?c del = int ?i"
      by (simp add: slices_IndexFunc_def IndexFunc_from_spec)
    have lt: "?i < length ?c" using Some by (metis find_Some_iff nth_length_takeWhile
          takeWhile_eq_all_conv length_takeWhile_le le_neq_implies_less nth_mem takeWhile_eq_take take_all order_refl)
    obtain k xs where loop: "DeleteFunc_loop del ?i (?i + 1) ?c = (k, xs)" by fastforce
    note L = DeleteFunc_loop_spec [OF _ _ loop]
    have "?c = takeWhile ?P ?c @ ?c ! ?i # drop (?i + 1) ?c"
      using lt by (metis Suc_eq_plus1 id_take_nth_drop takeWhile_eq_take)
    then have "filter ?P ?c = filter ?P (takeWhile ?P ?c) @ filter ?P (?c ! ?i # drop (?i + 1) ?c)"
      by (metis filter_append)
    moreover have "filter ?P (takeWhile ?P ?c) = take ?i ?c"
      by (simp add: takeWhile_eq_take [symmetric] filter_id_conv) (metis set_takeWhileD)
    moreover have "del (?c ! ?i)" using lt nth_length_takeWhile by fastforce
    ultimately have f: "take k xs = filter ?P ?c" and k: "length xs = length ?c" "k \<le> length ?c"
      using L lt by simp_all
    have len: "length ?c = sl_len s" using s by (simp add: valid_in_range)
    have st: "store_prefix z m s (k, xs) = (m', s')"
      using d i loop by (simp add: slices_DeleteFunc_def)
    have "sl_len s' = k" using st by (auto simp: store_prefix_def Let_def)
    with store_prefix_spec [OF s _ _ st] k len f show ?thesis by simp
  qed
  then show "valid_slice m' s'" "kept_outside m s m'" "contents m' s' = filter ?P ?c"
    "contents m' s = contents m' s' @ replicate (sl_len s - sl_len s') z" by blast+
qed

text \<open>What \<open>CompactFunc\<close> keeps: the elements that do not equal their predecessor.\<close>

fun adj_kept :: "('a \<Rightarrow> 'a \<Rightarrow> bool) \<Rightarrow> 'a \<Rightarrow> 'a list \<Rightarrow> 'a list" where
  "adj_kept eq p [] = []"
| "adj_kept eq p (x # xs) = (if eq x p then adj_kept eq x xs else x # adj_kept eq x xs)"

fun compact_spec :: "('a \<Rightarrow> 'a \<Rightarrow> bool) \<Rightarrow> 'a list \<Rightarrow> 'a list" where
  "compact_spec eq [] = []"
| "compact_spec eq (x # xs) = x # adj_kept eq x xs"

lemma compact_spec_remdups_adj: "compact_spec (\<lambda>x y. x = y) xs = remdups_adj xs"
proof -
  have "x # adj_kept (\<lambda>x y. x = y) x xs = remdups_adj (x # xs)" for x xs
    by (induction xs arbitrary: x) auto
  then show ?thesis by (cases xs) simp_all
qed

lemma CompactFunc_shift_spec:
  assumes "k < base + k2" and "0 < k2" and "base + k2 \<le> length s"
    and "CompactFunc_shift eq base k k2 s = (k', s')"
  shows "take k' s' = take k s @ adj_kept eq (s ! (base + k2 - 1)) (drop (base + k2) s)
    \<and> length s' = length s \<and> k' \<le> length s"
  using assms
proof (induction eq base k k2 s rule: CompactFunc_shift.induct)
  case (1 eq base k k2 s)
  have idx: "base + (k2 - 1) = base + k2 - 1" using 1(4) by simp
  show ?case
  proof (cases "k2 < length s - base")
    case False
    with 1(3-6) show ?thesis by (subst (asm) CompactFunc_shift.simps) auto
  next
    case True
    then have d: "drop (base + k2) s = s ! (base + k2) # drop (base + (k2 + 1)) s"
      by (simp add: Cons_nth_drop_Suc)
    show ?thesis
    proof (cases "eq (s ! (base + k2)) (s ! (base + (k2 - 1)))")
      case e: True
      with 1(6) True have "CompactFunc_shift eq base k (k2 + 1) s = (k', s')"
        by (subst (asm) CompactFunc_shift.simps) simp
      with 1(2) [OF True] e 1(3-5) True d idx show ?thesis by simp
    next
      case e: False
      with 1(6) True have "CompactFunc_shift eq base (k + 1) (k2 + 1) (s[k := s ! (base + k2)]) = (k', s')"
        by (subst (asm) CompactFunc_shift.simps) simp
      moreover have "take (k + 1) (s[k := s ! (base + k2)]) = take k s @ [s ! (base + k2)]"
        using 1(3,5) by (simp add: take_Suc_conv_app_nth)
      ultimately show ?thesis using 1(1) [OF True] e 1(3-5) True d idx by simp
    qed
  qed
qed

lemma adj_kept_scan:
  assumes "0 < k" and "k \<le> length s"
  shows "case CompactFunc_scan eq k s of
      None \<Rightarrow> adj_kept eq (s ! (k - 1)) (drop k s) = drop k s
    | Some k' \<Rightarrow> k \<le> k' \<and> k' < length s \<and> adj_kept eq (s ! (k - 1)) (drop k s) =
        take (k' - k) (drop k s) @ adj_kept eq (s ! k') (drop (k' + 1) s)"
  using assms
proof (induction eq k s rule: CompactFunc_scan.induct)
  case (1 eq k s)
  show ?case
  proof (cases "k < length s")
    case False
    then show ?thesis by (subst CompactFunc_scan.simps) simp
  next
    case True
    then have d: "drop k s = s ! k # drop (k + 1) s" by (simp add: Cons_nth_drop_Suc)
    show ?thesis
    proof (cases "eq (s ! k) (s ! (k - 1))")
      case e: True
      with True d show ?thesis by (subst CompactFunc_scan.simps) simp
    next
      case e: False
      then have "CompactFunc_scan eq k s = CompactFunc_scan eq (k + 1) s"
        using True by (subst CompactFunc_scan.simps) simp
      with 1(1) [OF True e] True e d show ?thesis
        by (auto split: option.splits simp: take_Cons')
    qed
  qed
qed

lemma CompactFunc_spec:
  assumes s: "valid_slice m s" and d: "slices_CompactFunc z m s eq = (m', s')"
  shows "valid_slice m' s' \<and> kept_outside m s m' \<and> contents m' s' = compact_spec eq (contents m s)
    \<and> contents m' s = contents m' s' @ replicate (sl_len s - sl_len s') z"
proof -
  let ?c = "contents m s"
  have len: "length ?c = sl_len s" using s by (simp add: valid_in_range)
  show ?thesis
  proof (cases "sl_len s < 2")
    case True
    then have "?c = [] \<or> (\<exists>x. ?c = [x])" using len by (cases ?c; cases "tl ?c") auto
    with True d s show ?thesis by (auto simp: slices_CompactFunc_def)
  next
    case False
    then have c: "?c = ?c ! 0 # drop 1 ?c" using len by (cases ?c) auto
    have spec: "compact_spec eq ?c = ?c ! 0 # adj_kept eq (?c ! 0) (drop 1 ?c)" by (subst c) simp
    note scan = adj_kept_scan [of 1 ?c eq]
    show ?thesis
    proof (cases "CompactFunc_scan eq 1 ?c")
      case None
      with scan False len c spec d s show ?thesis by (auto simp: slices_CompactFunc_def)
    next
      case (Some k)
      obtain k' xs where sh: "CompactFunc_shift eq k k 1 ?c = (k', xs)" by fastforce
      have k: "1 \<le> k" "k < length ?c" and a: "adj_kept eq (?c ! 0) (drop 1 ?c) =
          take (k - 1) (drop 1 ?c) @ adj_kept eq (?c ! k) (drop (k + 1) ?c)"
        using scan Some False len by auto
      note L = CompactFunc_shift_spec [OF _ _ _ sh]
      have "take k ?c = ?c ! 0 # take (k - 1) (drop 1 ?c)"
        using k(1) by (subst c) (simp add: take_Cons')
      then have f: "take k' xs = compact_spec eq ?c" and k': "length xs = sl_len s" "k' \<le> sl_len s"
        using L k spec a len by simp_all
      have st: "store_prefix z m s (k', xs) = (m', s')"
        using d Some False sh by (simp add: slices_CompactFunc_def)
      have "sl_len s' = k'" using st by (auto simp: store_prefix_def Let_def)
      with store_prefix_spec [OF s k' st] f show ?thesis by simp
    qed
  qed
qed

section \<open>Repetition\<close>

lemma concat_replicate_add: "concat (replicate (a + b) x) = concat (replicate a x) @ concat (replicate b x)"
  by (simp add: replicate_add)

lemma length_concat_replicate [simp]: "length (concat (replicate a x)) = a * length x"
  by (induction a) simp_all

lemma Repeat_loop_returns:
  assumes "0 < a" and "a \<le> c" and "length s = c * length x" and "take (a * length x) s = concat (replicate a x)"
  shows "Repeat_loop (a * length x) s = Some (concat (replicate c x))"
  using assms
proof (induction "c - a" arbitrary: a s rule: less_induct)
  case less
  let ?l = "length x"
  show ?case
  proof (cases "a * ?l < length s")
    case False
    then have "a * ?l = c * ?l" using less(3,4) by (metis le_antisym mult_le_mono1 not_less)
    then have "c = a \<or> x = []" by auto
    moreover have "take (length s) s = s" by simp
    ultimately show ?thesis
      using False less(4,5) by (subst Repeat_loop.simps) auto
  next
    case True
    then have ac: "a < c" using less(4) by simp
    let ?d = "min (c - a) a"
    have len: "min (length s - a * ?l) (a * ?l) = ?d * ?l"
      using less(4) by (auto simp: diff_mult_distrib [symmetric] min_def)
    let ?s = "list_write s (a * ?l) (take (?d * ?l) s)"
    have d: "?d * ?l \<le> a * ?l" "a * ?l + ?d * ?l \<le> length s"
      using less(4) ac by (auto simp: add_mult_distrib [symmetric])
    have "take (?d * ?l) s = take (?d * ?l) (concat (replicate a x))"
      using less(5) d(1) by (metis min.absorb1 take_take)
    also have "replicate a x = replicate ?d x @ replicate (a - ?d) x"
      by (simp add: replicate_add [symmetric])
    finally have t: "take (?d * ?l) s = concat (replicate ?d x)" by simp
    have "take ((a + ?d) * ?l) ?s = concat (replicate (a + ?d) x)"
      using d less(5) t by (simp add: list_write_def add_mult_distrib concat_replicate_add min_def)
    moreover have "length ?s = c * ?l" using d less(4) by simp
    moreover have "c - (a + ?d) < c - a" "a + ?d \<le> c" using ac less(2) by auto
    ultimately have "Repeat_loop ((a + ?d) * ?l) ?s = Some (concat (replicate c x))"
      using less(1) [of "a + ?d" ?s] less(2) by simp
    then show ?thesis
      using True len by (subst Repeat_loop.simps) (simp add: Let_def add_mult_distrib)
  qed
qed

lemma bits_Mul_overflow:
  assumes "(hi, lo) = bits_Mul w64 a b" and "maxInt = (if w64 then 2 ^ 63 - 1 else 2 ^ 31 - 1 :: uint64)"
    and "unat a \<le> unat maxInt" and "unat b \<le> unat maxInt"
  shows "0 < hi \<or> maxInt < lo \<longleftrightarrow> unat maxInt < unat a * unat b"
    and "\<not> (0 < hi \<or> maxInt < lo) \<Longrightarrow> unat lo = unat a * unat b"
proof -
  let ?M = "unat maxInt"
  have prod: "?M < 2 ^ 64" by (metis unat64_less)
  have "\<exists>B. ?M < B \<and> unat hi * B + unat lo = unat a * unat b"
  proof (cases w64)
    case True
    then show ?thesis
      using Mul64_exact [of a b] assms(1) prod by (intro exI [of _ "2 ^ 64"]) (auto simp: bits_Mul_def split: prod.splits)
  next
    case False
    then have M: "?M = 2 ^ 31 - 1" using assms(2) by simp
    obtain h l where hl: "bits_Mul32 (ucast a) (ucast b) = (h, l)" by fastforce
    then have "hi = ucast h" "lo = ucast l" using False assms(1) by (simp_all add: bits_Mul_def)
    moreover have "unat (ucast a :: uint32) = unat a" "unat (ucast b :: uint32) = unat b"
      using assms(3,4) M by (simp_all add: unat_ucast_mod)
    ultimately show ?thesis
      using Mul32_exact [of "ucast a" "ucast b"] hl M by (intro exI [of _ "2 ^ 32"]) (simp add: unat_ucast64)
  qed
  then obtain B where B: "?M < B" "unat hi * B + unat lo = unat a * unat b" by blast
  have nz: "0 < hi \<longleftrightarrow> 0 < unat hi" by (simp add: word_less_nat_alt)
  have "?M < unat hi * B + unat lo" if "0 < unat hi"
    using that B(1) by (cases "unat hi") simp_all
  then have eq: "0 < hi \<or> maxInt < lo \<longleftrightarrow> ?M < unat hi * B + unat lo"
    unfolding nz word_less_nat_alt [of maxInt] by (cases "unat hi = 0") simp_all
  then show "0 < hi \<or> maxInt < lo \<longleftrightarrow> unat maxInt < unat a * unat b" by (simp add: B(2))
  show "unat lo = unat a * unat b" if "\<not> (0 < hi \<or> maxInt < lo)"
  proof -
    from that have "unat hi = 0" unfolding nz by simp
    with B(2) show ?thesis by simp
  qed
qed

lemma Repeat_spec:
  assumes M: "M = (if w64 then 2 ^ 63 - 1 else 2 ^ 31 - 1)" and "int (length x) \<le> M" and "cnt \<le> M"
  shows "slices_Repeat w64 z x cnt = Some
    (if cnt < 0 then Inl NegativeCount
     else if M < int (length x) * cnt then Inl ResultOverflow
     else Inr (concat (replicate (nat cnt) x)))"
proof (cases "cnt < 0")
  case True
  then show ?thesis by (simp add: slices_Repeat_def)
next
  case False
  then obtain c where c: "cnt = int c" by (metis nonneg_int_cases not_less)
  define maxInt :: uint64 where m: "maxInt = (if w64 then 2 ^ 63 - 1 else 2 ^ 31 - 1)"
  have M': "M = int (unat maxInt)" by (cases w64) (simp_all add: m M)
  have le: "length x \<le> unat maxInt" "c \<le> unat maxInt"
    using assms(2,3) unfolding c M' of_nat_le_iff by simp_all
  then have "length x < 2 ^ 64" "c < 2 ^ 64" by (metis unat64_less le_less_trans)+
  moreover have "unat (of_nat n :: uint64) = n" if "n < 2 ^ 64" for n
    using that unat_of_nat [of n, where 'a = 64] by simp
  moreover have "word_of_int cnt = (of_nat c :: uint64)" by (simp add: c)
  ultimately have u: "unat (of_nat (length x) :: uint64) = length x" "unat (word_of_int cnt :: uint64) = c"
    by metis+
  obtain hi lo where hl: "bits_Mul w64 (of_nat (length x)) (word_of_int cnt) = (hi, lo)" by fastforce
  note O = bits_Mul_overflow [OF hl [symmetric] m, unfolded u, OF le]
  have over: "M < int (length x) * cnt \<longleftrightarrow> unat maxInt < length x * c"
    unfolding M' c by (metis of_nat_less_iff of_nat_mult)
  show ?thesis
  proof (cases "0 < hi \<or> maxInt < lo")
    case True
    then show ?thesis
      using False O(1) hl over by (simp add: slices_Repeat_def m [symmetric] Let_def)
  next
    case F: False
    then have lo: "unat lo = c * length x" using O(2) by simp
    let ?n = "min (c * length x) (length x)"
    let ?s = "list_write (replicate (c * length x) z) 0 (take ?n x)"
    have "Repeat_loop ?n ?s = Some (concat (replicate c x))"
    proof (cases "c = 0 \<or> x = []")
      case True
      then show ?thesis by (subst Repeat_loop.simps) (auto simp: list_write_def)
    next
      case nz: False
      then have n: "?n = 1 * length x" by (cases c) auto
      have "length x \<le> c * length x" using nz by (cases c) auto
      then have "length ?s = c * length x" "take (1 * length x) ?s = concat (replicate 1 x)"
        unfolding n by (simp_all add: list_write_def)
      with Repeat_loop_returns [of 1 c ?s x] nz show ?thesis unfolding n by simp
    qed
    then show ?thesis
      using False F O(1) hl over lo by (simp add: slices_Repeat_def m [symmetric] Let_def c)
  qed
qed

section \<open>Properties\<close>

text \<open>
  C15. Insertion and replacement under every aliasing.  For valid slices \<open>s\<close> and \<open>v\<close>, whether or
  not the memory of \<open>v\<close> overlaps \<open>s\<close> or its spare capacity, and whatever capacity a grown slice
  gets, \<open>Replace(s, i, j, v...)\<close> panics exactly when \<open>s[i:j]\<close> is out of range and otherwise returns
  \<open>s[:i] + v + s[j:]\<close> as they were at the call, without touching memory outside \<open>s[:cap(s)]\<close>; the
  search for the tail inside \<open>v\<close> never fails.  \<open>Insert(s, i, v...)\<close> is the case \<open>j = i\<close>.
\<close>

theorem slices_Replace_splices:
  assumes "slice_growth growcap" and "valid_slice m s" and "valid_slice m v"
  shows "(case slices_Replace growcap z m s i j v of
      Inl e \<Rightarrow> e = OutOfRange \<and> \<not> (i \<le> j \<and> j \<le> sl_len s)
    | Inr (m', s') \<Rightarrow> i \<le> j \<and> j \<le> sl_len s \<and> valid_slice m' s' \<and> kept_outside m s m'
        \<and> contents m' s' = take i (contents m s) @ contents m v @ drop j (contents m s))
   \<and> (case slices_Insert growcap z m s i v of
      Inl e \<Rightarrow> e = OutOfRange \<and> sl_len s < i
    | Inr (m', s') \<Rightarrow> i \<le> sl_len s \<and> valid_slice m' s' \<and> kept_outside m s m'
        \<and> contents m' s' = take i (contents m s) @ contents m v @ drop i (contents m s))"
proof -
  note R = slice_growth.Replace_ok [OF assms, of i j z] slice_growth.Insert_ok [OF assms, of i z]
    slice_growth.Replace_panics [OF assms, of i j z]
  have "sl_len s < i \<Longrightarrow> slices_Insert growcap z m s i v = Inl OutOfRange"
    by (simp add: slices_Insert_def)
  with R show ?thesis
    by (cases "i \<le> j \<and> j \<le> sl_len s"; cases "sl_len s < i") (auto simp: not_less)
qed

theorem slices_Replace_splices_witness:
  "(case slices_Replace nextslicecap 0 [[1, 2, 3, 4, 0, 0 :: nat]] \<lparr>sl_arr = 0, sl_off = 0, sl_len = 4, sl_cap = 6\<rparr> 1 2
      \<lparr>sl_arr = 0, sl_off = 1, sl_len = 3, sl_cap = 5\<rparr> of
      Inl e \<Rightarrow> False | Inr (m', s') \<Rightarrow> contents m' s' = [1, 2, 3, 4, 3, 4])"
  using slices_Replace_splices [OF nextcap.slice_growth_axioms,
      of "[[1, 2, 3, 4, 0, 0 :: nat]]" "\<lparr>sl_arr = 0, sl_off = 0, sl_len = 4, sl_cap = 6\<rparr>"
        "\<lparr>sl_arr = 0, sl_off = 1, sl_len = 3, sl_cap = 5\<rparr>" 1 2 0]
  by (simp add: valid_slice_def contents_def split: sum.splits prod.splits)

text \<open>
  C16. Deletion clears what it drops.  \<open>Delete(s, i, j)\<close> panics exactly when \<open>s[i:j]\<close> is out of
  range; otherwise it, like \<open>DeleteFunc\<close>, keeps the elements it should in order, within the same
  array, and leaves zero values in the places of \<open>s\<close> beyond the new length, so that no dropped
  element stays reachable; memory outside \<open>s\<close> is untouched.
\<close>

theorem slices_Delete_clears:
  assumes "slice_growth growcap" and "valid_slice m s"
  shows "(case slices_Delete growcap z m s i j of
      Inl e \<Rightarrow> e = OutOfRange \<and> \<not> (i \<le> j \<and> j \<le> sl_len s)
    | Inr (m', s') \<Rightarrow> i \<le> j \<and> j \<le> sl_len s \<and> valid_slice m' s' \<and> kept_outside m s m'
        \<and> contents m' s' = take i (contents m s) @ drop j (contents m s)
        \<and> contents m' s = contents m' s' @ replicate (j - i) z)
   \<and> (case slices_DeleteFunc z m s del of (m', s') \<Rightarrow> valid_slice m' s' \<and> kept_outside m s m'
        \<and> contents m' s' = filter (\<lambda>x. \<not> del x) (contents m s)
        \<and> contents m' s = contents m' s' @ replicate (sl_len s - sl_len s') z)"
proof -
  obtain m' s' where d: "slices_DeleteFunc z m s del = (m', s')" by fastforce
  note D = slice_growth.Delete_ok [OF assms, of i j z] DeleteFunc_spec [OF assms(2) d]
  show ?thesis
    using D d by (cases "i \<le> j \<and> j \<le> sl_len s") (auto simp: slices_Delete_def)
qed

theorem slices_Delete_clears_witness:
  "(case slices_Delete nextslicecap 0 [[1, 2, 3, 4 :: nat]] \<lparr>sl_arr = 0, sl_off = 0, sl_len = 4, sl_cap = 4\<rparr> 1 3 of
      Inl e \<Rightarrow> False | Inr (m', s') \<Rightarrow> contents m' s' = [1, 4])"
  using slices_Delete_clears [OF nextcap.slice_growth_axioms,
      of "[[1, 2, 3, 4 :: nat]]" "\<lparr>sl_arr = 0, sl_off = 0, sl_len = 4, sl_cap = 4\<rparr>" 1 3 0 even]
  by (simp add: valid_slice_def contents_def split: sum.splits prod.splits)

text \<open>
  C17. \<open>CompactFunc\<close> with an arbitrary \<open>eq\<close>, overwriting the slice while it still reads it, keeps
  exactly the elements that \<open>eq\<close> does not identify with their predecessor in the original slice
  and clears the rest; \<open>Compact\<close> is \<open>remdups_adj\<close>.
\<close>

theorem slices_Compact_equivalent:
  assumes "valid_slice m s"
  shows "(case slices_CompactFunc z m s eq of (m', s') \<Rightarrow> valid_slice m' s' \<and> kept_outside m s m'
      \<and> contents m' s' = compact_spec eq (contents m s)
      \<and> contents m' s = contents m' s' @ replicate (sl_len s - sl_len s') z)
    \<and> (case slices_Compact z m s of (m', s') \<Rightarrow> contents m' s' = remdups_adj (contents m s))"
proof -
  obtain m1 s1 m2 s2 where d: "slices_CompactFunc z m s eq = (m1, s1)"
      "slices_CompactFunc z m s (\<lambda>x y. x = y) = (m2, s2)" by fastforce
  show ?thesis
    using CompactFunc_spec [OF assms d(1)] CompactFunc_spec [OF assms d(2)] d
    by (simp add: slices_Compact_def compact_spec_remdups_adj)
qed

theorem slices_Compact_equivalent_witness:
  "(case slices_Compact 0 [[7, 1, 1, 2, 2, 2 :: nat]] \<lparr>sl_arr = 0, sl_off = 1, sl_len = 5, sl_cap = 5\<rparr> of
      (m', s') \<Rightarrow> contents m' s' = [1, 2])"
  using slices_Compact_equivalent [of "[[7, 1, 1, 2, 2, 2 :: nat]]" "\<lparr>sl_arr = 0, sl_off = 1, sl_len = 5, sl_cap = 5\<rparr>" "(=)" 0]
  by (simp add: valid_slice_def contents_def split: prod.splits)

text \<open>
  C18. \<open>Repeat(x, count)\<close> always returns: it panics exactly when \<open>count\<close> is negative or the length
  of the result, computed as a two-word product, exceeds the largest \<open>int\<close> of the target, and
  otherwise its doubling copies end with \<open>count\<close> copies of \<open>x\<close>.
\<close>

theorem slices_Repeat_returns:
  assumes "M = (if w64 then 2 ^ 63 - 1 else 2 ^ 31 - 1)" and "int (length x) \<le> M" and "cnt \<le> M"
  shows "slices_Repeat w64 z x cnt = Some
    (if cnt < 0 then Inl NegativeCount
     else if M < int (length x) * cnt then Inl ResultOverflow
     else Inr (concat (replicate (nat cnt) x)))"
  by (rule Repeat_spec [OF assms])

theorem slices_Repeat_returns_witness:
  "slices_Repeat False 0 [1, 2 :: nat] 3 = Some (Inr [1, 2, 1, 2, 1, 2])
   \<and> slices_Repeat False 0 [1, 2 :: nat] 1073741824 = Some (Inl ResultOverflow)"
  using slices_Repeat_returns [OF refl, of "[1, 2 :: nat]" False 3 0]
    slices_Repeat_returns [OF refl, of "[1, 2 :: nat]" False 1073741824 0]
  by (simp add: numeral_3_eq_3)

end
