(* ===== verification/Fd_Mutex.thy ===== *)
theory Fd_Mutex
  imports Prelude
begin

text \<open>
  Package \<open>internal/poll\<close>, the descriptor lock \<open>fdMutex\<close>: one 64-bit word packing a closed flag, a
  read lock, a write lock, a reference count and two counts of waiters, updated by compare-and-swap
  loops, with a semaphore for each kind of waiter.  Each operation is modelled as one iteration of
  its loop, a function of the loaded word (\<open>attempt\<close>); the methods of \<open>FD\<close> as what they do with the
  results; and any number of threads as a step function in which the load, the compare-and-swap,
  the semaphore operations and the call of \<open>destroy\<close> are separate steps.  The semaphores are counters, as
  \<open>runtime_Semacquire\<close> and \<open>runtime_Semrelease\<close> are documented.
\<close>

section \<open>The state word\<close>

definition mutexClosed :: uint64 where "mutexClosed = push_bit 0 1"

definition mutexRLock :: uint64 where "mutexRLock = push_bit 1 1"

definition mutexWLock :: uint64 where "mutexWLock = push_bit 2 1"

definition mutexRef :: uint64 where "mutexRef = push_bit 3 1"

definition mutexRefMask :: uint64 where "mutexRefMask = push_bit 3 (push_bit 20 1 - 1)"

definition mutexRWait :: uint64 where "mutexRWait = push_bit 23 1"

definition mutexRMask :: uint64 where "mutexRMask = push_bit 23 (push_bit 20 1 - 1)"

definition mutexWWait :: uint64 where "mutexWWait = push_bit 43 1"

definition mutexWMask :: uint64 where "mutexWMask = push_bit 43 (push_bit 20 1 - 1)"

definition mutexBit :: "bool \<Rightarrow> uint64" where
  "mutexBit read = (if read then mutexRLock else mutexWLock)"

definition mutexWait :: "bool \<Rightarrow> uint64" where
  "mutexWait read = (if read then mutexRWait else mutexWWait)"

definition mutexMask :: "bool \<Rightarrow> uint64" where
  "mutexMask read = (if read then mutexRMask else mutexWMask)"

section \<open>One iteration of each operation\<close>

datatype fd_panic = Overflow | Inconsistent

datatype attempt = Return bool | Panic fd_panic | Cas uint64

definition fdMutex_incref :: "uint64 \<Rightarrow> attempt" where
  "fdMutex_incref old =
     (if old AND mutexClosed \<noteq> 0 then Return False
      else
        let new = old + mutexRef in
        if new AND mutexRefMask = 0 then Panic Overflow else Cas new)"

definition fdMutex_increfAndClose :: "uint64 \<Rightarrow> attempt" where
  "fdMutex_increfAndClose old =
     (if old AND mutexClosed \<noteq> 0 then Return False
      else
        let new = (old OR mutexClosed) + mutexRef in
        if new AND mutexRefMask = 0 then Panic Overflow
        else Cas (new AND NOT (mutexRMask OR mutexWMask)))"

definition fdMutex_decref :: "uint64 \<Rightarrow> attempt" where
  "fdMutex_decref old =
     (if old AND mutexRefMask = 0 then Panic Inconsistent else Cas (old - mutexRef))"

definition fdMutex_rwlock :: "bool \<Rightarrow> bool \<Rightarrow> uint64 \<Rightarrow> attempt" where
  "fdMutex_rwlock read wait old =
     (if old AND mutexClosed \<noteq> 0 then Return False
      else if old AND mutexBit read = 0 then
        let new = (old OR mutexBit read) + mutexRef in
        if new AND mutexRefMask = 0 then Panic Overflow else Cas new
      else if \<not> wait then Return False
      else
        let new = old + mutexWait read in
        if new AND mutexMask read = 0 then Panic Overflow else Cas new)"

definition fdMutex_rwunlock :: "bool \<Rightarrow> uint64 \<Rightarrow> attempt" where
  "fdMutex_rwunlock read old =
     (if old AND mutexBit read = 0 \<or> old AND mutexRefMask = 0 then Panic Inconsistent
      else
        let new = (old AND NOT (mutexBit read)) - mutexRef;
            new = (if old AND mutexMask read \<noteq> 0 then new - mutexWait read else new) in
        Cas new)"

definition FD_closing :: "uint64 \<Rightarrow> bool" where
  "FD_closing state \<longleftrightarrow> state AND mutexClosed \<noteq> 0"

text \<open>What a successful release returns: no reference remains and the descriptor is closed.\<close>

definition last_reference :: "uint64 \<Rightarrow> bool" where
  "last_reference new \<longleftrightarrow> new AND (mutexClosed OR mutexRefMask) = mutexClosed"

section \<open>The methods of FD\<close>

datatype fd_op = Incref | IncrefAndClose | Decref | Rwlock bool bool | Rwunlock bool | Closing

datatype fd_call =
  FD_incref | FD_decref | FD_readLock | FD_readUnlock | FD_writeLock | FD_writeUnlock
| FD_readWriteLock | FD_tryReadWriteLock | FD_readWriteUnlock | FD_Close

datatype fd_result = Ok | ErrClosing | NotAvailable

text \<open>
  What a method does after the operation it has called returned. Of \<open>FD.Close\<close> (\<open>fd_windows.go\<close>) only what it does to the lock is
  modelled: \<open>increfAndClose\<close> and then \<open>decref\<close>, without cancelling pending operations between them and waiting for
  the destruction after them.
\<close>

datatype fd_next = Finish fd_result | Call fd_op | Destroy fd_next

fun fd_first :: "fd_call \<Rightarrow> fd_op" where
  "fd_first FD_incref = Incref"
| "fd_first FD_decref = Decref"
| "fd_first FD_readLock = Rwlock True True"
| "fd_first FD_readUnlock = Rwunlock True"
| "fd_first FD_writeLock = Rwlock False True"
| "fd_first FD_writeUnlock = Rwunlock False"
| "fd_first FD_readWriteLock = Rwlock True True"
| "fd_first FD_tryReadWriteLock = Rwlock True False"
| "fd_first FD_readWriteUnlock = Rwunlock True"
| "fd_first FD_Close = IncrefAndClose"

fun fd_then :: "fd_call \<Rightarrow> fd_op \<Rightarrow> bool \<Rightarrow> fd_next" where
  "fd_then FD_readWriteLock (Rwlock read wait) b =
     (if read then if \<not> b then Finish ErrClosing else Call (Rwlock False True)
      else if \<not> b then Call (Rwunlock True) else Finish Ok)"
| "fd_then FD_readWriteLock (Rwunlock read) b = (if b then Destroy (Finish ErrClosing) else Finish ErrClosing)"
| "fd_then FD_tryReadWriteLock (Rwlock read wait) b =
     (if read then if \<not> b then Call Closing else Call (Rwlock False False)
      else if \<not> b then Call (Rwunlock True) else Finish Ok)"
| "fd_then FD_tryReadWriteLock (Rwunlock read) b = (if b then Destroy (Call Closing) else Call Closing)"
| "fd_then FD_tryReadWriteLock Closing b = Finish (if b then ErrClosing else NotAvailable)"
| "fd_then FD_readWriteUnlock (Rwunlock read) b =
     (if read then Call (Rwunlock False) else if b then Destroy (Finish Ok) else Finish Ok)"
| "fd_then FD_Close IncrefAndClose b = (if \<not> b then Finish ErrClosing else Call Decref)"
| "fd_then c Decref b = (if b then Destroy (Finish Ok) else Finish Ok)"
| "fd_then c (Rwunlock read) b = (if b then Destroy (Finish Ok) else Finish Ok)"
| "fd_then c op b = Finish (if \<not> b then ErrClosing else Ok)"

section \<open>Threads\<close>

text \<open>
  A thread is between calls (\<open>Idle\<close>, with the last result), about to load the state for an
  operation (\<open>Run\<close>), between its load and its compare-and-swap (\<open>Try\<close>), blocked in
  \<open>runtime_Semacquire\<close> (\<open>Asleep\<close>), about to release a semaphore after \<open>rwunlock\<close>'s swap
  (\<open>Signal\<close>, with the result to return), in the release loops of \<open>increfAndClose\<close> (\<open>Waking\<close>,
  with the local \<open>old\<close>), about to call \<open>destroy\<close>, or panicked.  The references and locks it owns
  are recorded beside; a thread only gives up what it owns.
\<close>

datatype fd_pc =
  Idle fd_result | Run fd_op | Try fd_op uint64 uint64 | Asleep bool | Signal bool bool
| Waking uint64 | Destroying fd_next | Panicked fd_panic

record fd_thread =
  thr_call :: fd_call
  thr_pc :: fd_pc
  thr_refs :: nat
  thr_r :: bool
  thr_w :: bool

record fd_sys =
  fdmu_state :: uint64
  fdmu_rsema :: nat
  fdmu_wsema :: nat
  fd_destroyed :: nat
  fd_threads :: "fd_thread list"

definition fd_owns :: "fd_thread \<Rightarrow> fd_call \<Rightarrow> bool" where
  "fd_owns t c = (case c of
     FD_decref \<Rightarrow> 0 < thr_refs t | FD_readUnlock \<Rightarrow> thr_r t | FD_writeUnlock \<Rightarrow> thr_w t
   | FD_readWriteUnlock \<Rightarrow> thr_r t \<and> thr_w t | _ \<Rightarrow> True)"

definition fd_goto :: "fd_next \<Rightarrow> fd_pc" where
  "fd_goto n = (case n of Finish r \<Rightarrow> Idle r | Call op \<Rightarrow> Run op | Destroy n \<Rightarrow> Destroying n)"

definition fd_attempt :: "fd_op \<Rightarrow> uint64 \<Rightarrow> attempt" where
  "fd_attempt op old = (case op of
     Incref \<Rightarrow> fdMutex_incref old
   | IncrefAndClose \<Rightarrow> fdMutex_increfAndClose old
   | Decref \<Rightarrow> fdMutex_decref old
   | Rwlock read wait \<Rightarrow> fdMutex_rwlock read wait old
   | Rwunlock read \<Rightarrow> fdMutex_rwunlock read old
   | Closing \<Rightarrow> Return (FD_closing old))"

definition fd_load :: "fd_thread \<Rightarrow> fd_op \<Rightarrow> uint64 \<Rightarrow> fd_thread" where
  "fd_load t op old = t\<lparr>thr_pc := (case fd_attempt op old of
     Return b \<Rightarrow> fd_goto (fd_then (thr_call t) op b)
   | Panic p \<Rightarrow> Panicked p
   | Cas new \<Rightarrow> Try op old new)\<rparr>"

text \<open>What an operation does once its compare-and-swap from \<open>old\<close> to \<open>new\<close> has succeeded.\<close>

definition fd_swapped :: "fd_thread \<Rightarrow> fd_op \<Rightarrow> uint64 \<Rightarrow> uint64 \<Rightarrow> fd_thread" where
  "fd_swapped t op old new = (case op of
     Incref \<Rightarrow> t\<lparr>thr_refs := thr_refs t + 1, thr_pc := fd_goto (fd_then (thr_call t) op True)\<rparr>
   | IncrefAndClose \<Rightarrow> t\<lparr>thr_refs := thr_refs t + 1, thr_pc := Waking old\<rparr>
   | Decref \<Rightarrow> t\<lparr>thr_refs := thr_refs t - 1,
       thr_pc := fd_goto (fd_then (thr_call t) op (last_reference new))\<rparr>
   | Rwlock read wait \<Rightarrow>
       (if old AND mutexBit read = 0 then
          let t = (if read then t\<lparr>thr_r := True\<rparr> else t\<lparr>thr_w := True\<rparr>) in
          t\<lparr>thr_pc := fd_goto (fd_then (thr_call t) op True)\<rparr>
        else t\<lparr>thr_pc := Asleep read\<rparr>)
   | Rwunlock read \<Rightarrow>
       let t = (if read then t\<lparr>thr_r := False\<rparr> else t\<lparr>thr_w := False\<rparr>) in
       (if old AND mutexMask read \<noteq> 0 then t\<lparr>thr_pc := Signal read (last_reference new)\<rparr>
        else t\<lparr>thr_pc := fd_goto (fd_then (thr_call t) op (last_reference new))\<rparr>)
   | Closing \<Rightarrow> t)"

definition fd_sema :: "bool \<Rightarrow> fd_sys \<Rightarrow> nat" where
  "fd_sema read s = (if read then fdmu_rsema s else fdmu_wsema s)"

definition fd_set_sema :: "bool \<Rightarrow> nat \<Rightarrow> fd_sys \<Rightarrow> fd_sys" where
  "fd_set_sema read n s = (if read then s\<lparr>fdmu_rsema := n\<rparr> else s\<lparr>fdmu_wsema := n\<rparr>)"

definition fd_put :: "nat \<Rightarrow> fd_thread \<Rightarrow> fd_sys \<Rightarrow> fd_sys" where
  "fd_put i t s = s\<lparr>fd_threads := (fd_threads s)[i := t]\<rparr>"

text \<open>
  The next step of thread \<open>i\<close>, if it has one; \<open>c\<close> is the method it calls when it is between calls.
\<close>

definition fd_sched :: "fd_call \<Rightarrow> nat \<Rightarrow> fd_sys \<Rightarrow> fd_sys option" where
  "fd_sched c i s =
     (if i < length (fd_threads s) then
        let t = fd_threads s ! i in
        case thr_pc t of
          Idle r \<Rightarrow>
            if fd_owns t c then Some (fd_put i (t\<lparr>thr_call := c, thr_pc := Run (fd_first c)\<rparr>) s) else None
        | Run op \<Rightarrow> Some (fd_put i (fd_load t op (fdmu_state s)) s)
        | Try op old new \<Rightarrow>
            Some (if fdmu_state s = old
                  then (fd_put i (fd_swapped t op old new) s)\<lparr>fdmu_state := new\<rparr>
                  else fd_put i (t\<lparr>thr_pc := Run op\<rparr>) s)
        | Asleep read \<Rightarrow>
            if 0 < fd_sema read s
            then Some (fd_set_sema read (fd_sema read s - 1) (fd_put i (t\<lparr>thr_pc := Run (Rwlock read True)\<rparr>) s))
            else None
        | Signal read b \<Rightarrow>
            Some (fd_set_sema read (fd_sema read s + 1)
              (fd_put i (t\<lparr>thr_pc := fd_goto (fd_then (thr_call t) (Rwunlock read) b)\<rparr>) s))
        | Waking old \<Rightarrow>
            Some (if old AND mutexRMask \<noteq> 0
                  then fd_set_sema True (fd_sema True s + 1) (fd_put i (t\<lparr>thr_pc := Waking (old - mutexRWait)\<rparr>) s)
                  else if old AND mutexWMask \<noteq> 0
                  then fd_set_sema False (fd_sema False s + 1) (fd_put i (t\<lparr>thr_pc := Waking (old - mutexWWait)\<rparr>) s)
                  else fd_put i (t\<lparr>thr_pc := fd_goto (fd_then (thr_call t) IncrefAndClose True)\<rparr>) s)
        | Destroying n \<Rightarrow>
            Some ((fd_put i (t\<lparr>thr_pc := fd_goto n\<rparr>) s)\<lparr>fd_destroyed := fd_destroyed s + 1\<rparr>)
        | Panicked p \<Rightarrow> None
      else None)"

definition fd_init :: "nat \<Rightarrow> fd_sys" where
  "fd_init n = \<lparr>fdmu_state = 0, fdmu_rsema = 0, fdmu_wsema = 0, fd_destroyed = 0,
     fd_threads = replicate n \<lparr>thr_call = FD_incref, thr_pc = Idle Ok, thr_refs = 0, thr_r = False, thr_w = False\<rparr>\<rparr>"

inductive fd_reach :: "nat \<Rightarrow> fd_sys \<Rightarrow> bool" where
  init: "fd_reach n (fd_init n)"
| step: "fd_reach n s \<Longrightarrow> fd_sched c i s = Some s' \<Longrightarrow> fd_reach n s'"

end
