(* ===== verification/Fd_Mutex_Word.thy ===== *)
theory Fd_Mutex_Word
  imports Fd_Mutex
begin

text \<open>
  The packed word of \<open>fdMutex\<close> read as six fields, and the effect on them of each operation's
  masking, adding and subtracting: no update of one field carries into another, because every
  increment that would is caught by the overflow test.
\<close>

section \<open>The fields of the state word\<close>

definition enc :: "bool \<Rightarrow> bool \<Rightarrow> bool \<Rightarrow> nat \<Rightarrow> nat \<Rightarrow> nat \<Rightarrow> nat" where
  "enc c r w f p q = of_bool c + 2 * (of_bool r + 2 * (of_bool w + 2 * (f + 2 ^ 20 * (p + 2 ^ 20 * q))))"

definition rep :: "uint64 \<Rightarrow> bool \<Rightarrow> bool \<Rightarrow> bool \<Rightarrow> nat \<Rightarrow> nat \<Rightarrow> nat \<Rightarrow> bool" where
  "rep s c r w f p q \<longleftrightarrow> unat s = enc c r w f p q \<and> f < 2 ^ 20 \<and> p < 2 ^ 20 \<and> q < 2 ^ 20"

lemma and_field_zero:
  fixes s :: "'a::len word"
  assumes "k + n \<le> LENGTH('a)"
  shows "s AND push_bit k (mask n) = 0 \<longleftrightarrow> unat s div 2 ^ k mod 2 ^ n = 0"
proof -
  have "s AND push_bit k (mask n) = push_bit k (take_bit n (drop_bit k s))"
    by (rule bit_word_eqI) (auto simp: bit_simps)
  moreover have "push_bit k (take_bit n (drop_bit k s)) = 0 \<longleftrightarrow> take_bit n (drop_bit k s) = 0"
  proof
    assume "push_bit k (take_bit n (drop_bit k s)) = 0"
    then have "drop_bit k (push_bit k (take_bit n (drop_bit k s))) = 0" by simp
    moreover have "drop_bit k (push_bit k (take_bit n (drop_bit k s))) = take_bit n (drop_bit k s)"
      using assms by (intro bit_word_eqI) (auto simp: bit_simps)
    ultimately show "take_bit n (drop_bit k s) = 0" by simp
  qed simp
  moreover have "take_bit n (drop_bit k s) = 0 \<longleftrightarrow> unat (take_bit n (drop_bit k s)) = 0"
    by (simp add: unat_eq_zero)
  moreover have "unat (take_bit n (drop_bit k s)) = unat s div 2 ^ k mod 2 ^ n"
    by (simp only: unsigned_take_bit_eq) (simp add: take_bit_eq_mod unat_drop_bit)
  ultimately show ?thesis by simp
qed

lemmas mutex_masks =
  mutexClosed_def mutexRLock_def mutexWLock_def mutexRefMask_def mutexRMask_def mutexWMask_def

lemma mask_eqs:
  "mutexClosed = push_bit 0 (mask 1)" "mutexRLock = push_bit 1 (mask 1)" "mutexWLock = push_bit 2 (mask 1)"
  "mutexRefMask = push_bit 3 (mask 20)" "mutexRMask = push_bit 23 (mask 20)" "mutexWMask = push_bit 43 (mask 20)"
  by (simp_all add: mutex_masks mask_eq_exp_minus_1 push_bit_eq_mult)

lemma enc_tests:
  assumes "unat s = enc c r w f p q"
  shows "s AND mutexClosed = 0 \<longleftrightarrow> \<not> c"
    and "s AND mutexRLock = 0 \<longleftrightarrow> \<not> r"
    and "s AND mutexWLock = 0 \<longleftrightarrow> \<not> w"
    and "s AND mutexRefMask = 0 \<longleftrightarrow> f mod 2 ^ 20 = 0"
    and "f < 2 ^ 20 \<Longrightarrow> s AND mutexRMask = 0 \<longleftrightarrow> p mod 2 ^ 20 = 0"
    and "f < 2 ^ 20 \<Longrightarrow> p < 2 ^ 20 \<Longrightarrow> s AND mutexWMask = 0 \<longleftrightarrow> q mod 2 ^ 20 = 0"
proof -
  have d0: "enc c r w f p q div 2 ^ 0 mod 2 ^ 1 = of_bool c"
    unfolding enc_def power_0 power_one_right div_by_1 mod_mult_self2 by simp
  have d1: "enc c r w f p q div 2 = of_bool r + 2 * (of_bool w + 2 * (f + 2 ^ 20 * (p + 2 ^ 20 * q)))"
    by (simp add: enc_def)
  have d2: "enc c r w f p q div 2 ^ 2 = of_bool w + 2 * (f + 2 ^ 20 * (p + 2 ^ 20 * q))"
    using arg_cong [OF d1, of "\<lambda>x. x div 2"] by (simp add: div_mult2_eq [symmetric])
  have d3: "enc c r w f p q div 2 ^ 3 = f + 2 ^ 20 * (p + 2 ^ 20 * q)"
    using arg_cong [OF d2, of "\<lambda>x. x div 2"] by (simp add: div_mult2_eq [symmetric])
  have d23: "enc c r w f p q div 2 ^ 23 = p + 2 ^ 20 * q" if "f < 2 ^ 20"
    using arg_cong [OF d3, of "\<lambda>x. x div 2 ^ 20"] that by (simp add: div_mult2_eq [symmetric])
  have d43: "enc c r w f p q div 2 ^ 43 = q" if "f < 2 ^ 20" "p < 2 ^ 20"
    using arg_cong [OF d23, of "\<lambda>x. x div 2 ^ 20"] that by (simp add: div_mult2_eq [symmetric])
  show "s AND mutexClosed = 0 \<longleftrightarrow> \<not> c"
    unfolding mask_eqs by (subst and_field_zero, simp, simp only: assms d0) simp
  show "s AND mutexRLock = 0 \<longleftrightarrow> \<not> r"
    unfolding mask_eqs by (subst and_field_zero, simp, simp only: assms power_one_right d1 mod_mult_self2) simp
  show "s AND mutexWLock = 0 \<longleftrightarrow> \<not> w"
    unfolding mask_eqs by (subst and_field_zero, simp, simp only: assms d2 power_one_right mod_mult_self2) simp
  show "s AND mutexRefMask = 0 \<longleftrightarrow> f mod 2 ^ 20 = 0"
    unfolding mask_eqs by (subst and_field_zero, simp, simp only: assms d3 mod_mult_self2)
  show "s AND mutexRMask = 0 \<longleftrightarrow> p mod 2 ^ 20 = 0" if "f < 2 ^ 20"
    unfolding mask_eqs by (subst and_field_zero, simp, simp only: assms d23 [OF that] mod_mult_self2)
  show "s AND mutexWMask = 0 \<longleftrightarrow> q mod 2 ^ 20 = 0" if "f < 2 ^ 20" "p < 2 ^ 20"
    unfolding mask_eqs by (subst and_field_zero, simp, simp only: assms d43 [OF that])
qed

lemma rep_ex:
  assumes "unat s < 2 ^ 63"
  obtains c r w f p q where "rep s c r w f p q"
proof
  let ?n = "unat s"
  have *: "of_bool (odd m) + 2 * (m div 2) = m" for m :: nat by (cases "even m") simp_all
  have **: "m mod 2 ^ 20 + 2 ^ 20 * (m div 2 ^ 20) = m" for m :: nat by simp
  show "rep s (odd ?n) (odd (?n div 2)) (odd (?n div 2 div 2)) (?n div 2 div 2 div 2 mod 2 ^ 20)
      (?n div 2 div 2 div 2 div 2 ^ 20 mod 2 ^ 20) (?n div 2 div 2 div 2 div 2 ^ 20 div 2 ^ 20)"
    unfolding rep_def enc_def * ** using assms by (simp add: div_mult2_eq [symmetric] less_mult_imp_div_less)
qed

lemma rep_bound: "rep s c r w f p q \<Longrightarrow> unat s < 2 ^ 63"
  unfolding rep_def enc_def by (cases c; cases r; cases w) simp_all

lemma or_add: "(a::'a::len word) AND b = 0 \<Longrightarrow> a OR b = a + b"
  by (simp add: disjunctive_add_eq_or)

lemma andnot_sub:
  assumes "(a::'a::len word) AND b = b"
  shows "a AND NOT b = a - b"
proof -
  have "(a AND NOT b) AND b = 0" by (rule bit_word_eqI) (auto simp: bit_simps)
  then have "(a AND NOT b) + b = (a AND NOT b) OR b" by (simp add: or_add)
  also have "\<dots> = a" using assms by (metis (no_types, lifting) and.commute and.right_idem bit.conj_disj_distrib2
      bit.disj_cancel_left or.commute bit.conj_one_right)
  finally show ?thesis by (simp add: algebra_simps)
qed

lemma rep_unat: "rep s c r w f p q \<Longrightarrow> unat s = enc c r w f p q"
  by (simp add: rep_def)

lemma unat_mutex_consts:
  "unat mutexClosed = 1" "unat mutexRef = 8" "unat mutexRLock = 2" "unat mutexWLock = 4"
  "unat mutexRWait = 2 ^ 23" "unat mutexWWait = 2 ^ 43"
  by (simp_all add: mutexClosed_def mutexRef_def mutexRLock_def mutexWLock_def mutexRWait_def mutexWWait_def)

lemma unat_add_small: "unat (s::uint64) < 2 ^ 63 \<Longrightarrow> unat d < 2 ^ 63 \<Longrightarrow> unat (s + d) = unat s + unat d"
  by (simp add: unat_word_ariths)

lemma unat_sub_le: "unat d \<le> unat (s::uint64) \<Longrightarrow> unat (s - d) = unat s - unat d"
  by (simp add: unat_sub word_le_nat_alt)

lemma single_bit_and: "(s::'a::len word) AND push_bit k 1 = (if bit s k then push_bit k 1 else 0)"
  by (rule bit_word_eqI) (auto simp: bit_simps)

lemma bit_set_or: "(s::uint64) AND push_bit k 1 = 0 \<Longrightarrow> s OR push_bit k 1 = s + push_bit k 1"
  by (rule or_add)

lemma bit_clear_sub: "(s::uint64) AND push_bit k 1 \<noteq> 0 \<Longrightarrow> s AND NOT (push_bit k 1) = s - push_bit k 1"
  using single_bit_and [of s k] by (intro andnot_sub) metis

lemma rep_add_ref:
  assumes "rep s c r w f p q"
  shows "unat (s + mutexRef) = enc c r w (f + 1) p q"
  using assms rep_bound [OF assms] by (simp add: unat_add_small unat_mutex_consts rep_unat enc_def)

lemma rep_add_wait:
  assumes "rep s c r w f p q"
  shows "unat (s + mutexWait rd) = (if rd then enc c r w f (p + 1) q else enc c r w f p (q + 1))"
  using assms rep_bound [OF assms]
  by (simp add: mutexWait_def unat_add_small unat_mutex_consts rep_unat enc_def)

lemma rep_set_bit:
  assumes "rep s c r w f p q" and "\<not> (if rd then r else w)"
  shows "rep (s OR mutexBit rd) c (rd \<or> r) (\<not> rd \<or> w) f p q"
proof -
  have "s AND mutexBit rd = 0"
    using enc_tests(2,3) [OF rep_unat [OF assms(1)]] assms(2) by (cases rd) (simp_all add: mutexBit_def)
  then have "s OR mutexBit rd = s + mutexBit rd" by (rule or_add)
  then show ?thesis
    using assms rep_bound [OF assms(1)]
    by (simp add: rep_def mutexBit_def unat_add_small unat_mutex_consts enc_def split: if_splits)
qed

lemma rep_set_closed:
  assumes "rep s False r w f p q"
  shows "rep (s OR mutexClosed) True r w f p q"
proof -
  have "s AND mutexClosed = 0" using enc_tests(1) [OF rep_unat [OF assms]] by simp
  then have "s OR mutexClosed = s + mutexClosed" by (rule or_add)
  then show ?thesis
    using assms rep_bound [OF assms] by (simp add: rep_def unat_add_small unat_mutex_consts enc_def)
qed

lemma rep_clear_bit:
  assumes "rep s c r w f p q" and "if rd then r else w"
  shows "rep (s AND NOT (mutexBit rd)) c (\<not> rd \<and> r) (rd \<and> w) f p q"
proof -
  have "s AND mutexBit rd \<noteq> 0"
    using enc_tests(2,3) [OF rep_unat [OF assms(1)]] assms(2) by (simp add: mutexBit_def split: if_splits)
  then have eq: "s AND NOT (mutexBit rd) = s - mutexBit rd"
    using bit_clear_sub [of s 1] bit_clear_sub [of s 2]
    by (cases rd) (simp_all only: mutexBit_def mutexRLock_def mutexWLock_def if_True if_False not_False_eq_True simp_thms)
  have "unat (mutexBit rd) \<le> unat s"
    using assms by (auto simp: mutexBit_def unat_mutex_consts rep_def enc_def split: if_splits)
  with eq assms show ?thesis
    by (auto simp: rep_def unat_sub_le mutexBit_def unat_mutex_consts enc_def split: if_splits)
qed

lemma rep_sub_ref:
  assumes "rep s c r w f p q" and "0 < f"
  shows "rep (s - mutexRef) c r w (f - 1) p q"
proof -
  have "unat mutexRef \<le> unat s" using assms by (simp add: rep_def enc_def unat_mutex_consts)
  with assms show ?thesis
    by (cases f) (simp_all add: rep_def unat_sub_le unat_mutex_consts enc_def)
qed

lemma rep_sub_wait:
  assumes "rep s c r w f p q" and "0 < (if rd then p else q)"
  shows "rep (s - mutexWait rd) c r w f (if rd then p - 1 else p) (if rd then q else q - 1)"
proof -
  have le: "unat (mutexWait rd) \<le> unat s"
    using assms by (auto simp: rep_def enc_def unat_mutex_consts mutexWait_def split: if_splits)
  show ?thesis
  proof (cases rd)
    case True
    then show ?thesis using assms le
      by (cases p) (simp_all add: rep_def unat_sub_le mutexWait_def unat_mutex_consts enc_def)
  next
    case False
    then show ?thesis using assms le
      by (cases q) (simp_all add: rep_def unat_sub_le mutexWait_def unat_mutex_consts enc_def)
  qed
qed

lemma rep_clear_waits:
  assumes "unat s = enc c r w f p q" and "f < 2 ^ 20" and "unat s < 2 ^ 63"
  shows "rep (s AND NOT (mutexRMask OR mutexWMask)) c r w f 0 0"
proof -
  have m: "mutexRMask OR mutexWMask = push_bit 23 (mask 40)"
    unfolding mask_eqs by (rule bit_word_eqI) (auto simp: bit_simps)
  have nb: "\<not> bit s 63"
    using assms(3) not_bit_above_less [of "unat s" 63 63] by (simp add: bit_unsigned_iff)
  have "bit (s AND NOT (push_bit 23 (mask 40))) n = bit (take_bit 23 s) n" if "n < 64" for n
  proof (cases "n = 63")
    case True
    with nb show ?thesis by (simp add: bit_simps)
  next
    case False
    with that have "\<not> n < 23 \<Longrightarrow> n - 23 < 40" by linarith
    with that show ?thesis by (auto simp: bit_simps)
  qed
  then have eq: "s AND NOT (push_bit 23 (mask 40)) = take_bit 23 s"
    by (intro bit_word_eqI) simp
  have "unat (take_bit 23 s) = unat s mod 2 ^ 23"
    by (simp only: unsigned_take_bit_eq) (simp add: take_bit_eq_mod)
  also have "\<dots> = (enc c r w f 0 0 + 2 ^ 23 * (p + 2 ^ 20 * q)) mod 2 ^ 23"
    unfolding assms(1) enc_def by (simp add: algebra_simps)
  also have "\<dots> = enc c r w f 0 0"
    unfolding mod_mult_self2 using assms(2) by (cases c; cases r; cases w) (simp_all add: enc_def)
  finally show ?thesis using assms(2) by (simp add: rep_def m eq)
qed

definition st_closed :: "uint64 \<Rightarrow> bool" where
  "st_closed s \<longleftrightarrow> s AND mutexClosed \<noteq> 0"

definition st_lock :: "bool \<Rightarrow> uint64 \<Rightarrow> bool" where
  "st_lock rd s \<longleftrightarrow> s AND mutexBit rd \<noteq> 0"

definition st_refs :: "uint64 \<Rightarrow> nat" where
  "st_refs s = unat s div 2 ^ 3 mod 2 ^ 20"

definition st_wait :: "bool \<Rightarrow> uint64 \<Rightarrow> nat" where
  "st_wait rd s = unat s div 2 ^ (if rd then 23 else 43) mod 2 ^ 20"

definition st_wf :: "uint64 \<Rightarrow> bool" where
  "st_wf s \<longleftrightarrow> unat s < 2 ^ 63"

lemma mask_tests:
  "s AND mutexRefMask = 0 \<longleftrightarrow> st_refs s = 0" "s AND mutexMask rd = 0 \<longleftrightarrow> st_wait rd s = 0"
  "s AND mutexRMask = 0 \<longleftrightarrow> st_wait True s = 0" "s AND mutexWMask = 0 \<longleftrightarrow> st_wait False s = 0"
  unfolding mutexMask_def mask_eqs st_refs_def st_wait_def
  by (simp_all add: and_field_zero del: push_bit_mask_eq)

lemma rep_fields:
  assumes "rep s c r w f p q"
  shows "st_closed s = c" "st_lock rd s = (if rd then r else w)" "st_refs s = f"
    "st_wait rd s = (if rd then p else q)" "st_wf s"
proof -
  note u = rep_unat [OF assms]
  have b: "f < 2 ^ 20" "p < 2 ^ 20" "q < 2 ^ 20" using assms by (auto simp: rep_def)
  show "st_closed s = c" "st_lock rd s = (if rd then r else w)"
    using enc_tests(1-3) [OF u] by (auto simp: st_closed_def st_lock_def mutexBit_def)
  show "st_wf s" using rep_bound [OF assms] by (simp add: st_wf_def)
  have d: "unat s div 2 ^ 3 = f + 2 ^ 20 * (p + 2 ^ 20 * q)"
    unfolding u enc_def by (cases c; cases r; cases w) simp_all
  have "unat s div 2 ^ 23 = unat s div 2 ^ 3 div 2 ^ 20" by (simp add: div_mult2_eq [symmetric])
  also have "\<dots> = p + 2 ^ 20 * q" using b unfolding d by simp
  finally have d23: "unat s div 2 ^ 23 = p + 2 ^ 20 * q" .
  have "unat s div 2 ^ 43 = unat s div 2 ^ 23 div 2 ^ 20" by (simp add: div_mult2_eq [symmetric])
  also have "\<dots> = q" using b unfolding d23 by simp
  finally have d43: "unat s div 2 ^ 43 = q" .
  show "st_refs s = f" using b unfolding st_refs_def d mod_mult_self2 by simp
  show "st_wait rd s = (if rd then p else q)"
    using b unfolding st_wait_def by (cases rd) (simp_all only: if_True if_False d23 d43 mod_mult_self2 mod_less)
qed

lemma wf_rep:
  assumes "st_wf s"
  shows "rep s (st_closed s) (st_lock True s) (st_lock False s) (st_refs s) (st_wait True s) (st_wait False s)"
proof -
  from assms obtain c r w f p q where "rep s c r w f p q" by (auto simp: st_wf_def intro: rep_ex)
  with rep_fields [OF this] show ?thesis by simp
qed

lemma st_bounds: "st_refs s < 2 ^ 20" "st_wait rd s < 2 ^ 20"
  by (simp_all add: st_refs_def st_wait_def)

lemma last_reference_iff: "st_wf s \<Longrightarrow> last_reference s \<longleftrightarrow> st_closed s \<and> st_refs s = 0"
proof -
  have "s AND (mutexClosed OR mutexRefMask) = (s AND mutexClosed) OR (s AND mutexRefMask)"
    by (simp add: bit.conj_disj_distrib)
  moreover have "mutexClosed AND (s AND mutexRefMask) = 0"
    unfolding mask_eqs by (rule bit_word_eqI) (auto simp: bit_simps)
  moreover have "s AND mutexClosed = mutexClosed \<or> s AND mutexClosed = 0"
    using single_bit_and [of s 0] by (auto simp: mutexClosed_def)
  moreover have "mutexClosed \<noteq> 0" by (simp add: mutexClosed_def)
  ultimately show ?thesis
    unfolding last_reference_def st_closed_def mask_tests(1) [symmetric]
    by (metis (no_types, opaque_lifting) and.right_neutral bit.conj_disj_distrib2 bit.disj_zero_right
        and.idem and.left_idem and.commute or.commute)
qed

lemma add_ref_cases:
  assumes "rep s c r w f p q"
  shows "s + mutexRef AND mutexRefMask = 0 \<longleftrightarrow> f + 1 = 2 ^ 20"
    and "s + mutexRef AND mutexRefMask \<noteq> 0 \<Longrightarrow> rep (s + mutexRef) c r w (f + 1) p q"
proof -
  have b: "f < 2 ^ 20" "p < 2 ^ 20" "q < 2 ^ 20" using assms by (auto simp: rep_def)
  show *: "s + mutexRef AND mutexRefMask = 0 \<longleftrightarrow> f + 1 = 2 ^ 20"
    using enc_tests(4) [OF rep_add_ref [OF assms]] b by (auto simp: mod_eq_0_iff_dvd dest!: dvd_imp_le)
  show "rep (s + mutexRef) c r w (f + 1) p q" if "s + mutexRef AND mutexRefMask \<noteq> 0"
    using that b rep_add_ref [OF assms] unfolding * by (simp add: rep_def)
qed

lemma add_wait_cases:
  assumes "rep s c r w f p q"
  shows "s + mutexWait rd AND mutexMask rd = 0 \<longleftrightarrow> (if rd then p else q) + 1 = 2 ^ 20"
    and "s + mutexWait rd AND mutexMask rd \<noteq> 0 \<Longrightarrow>
      rep (s + mutexWait rd) c r w f (if rd then p + 1 else p) (if rd then q else q + 1)"
proof -
  have b: "f < 2 ^ 20" "p < 2 ^ 20" "q < 2 ^ 20" using assms by (auto simp: rep_def)
  note u = rep_add_wait [OF assms, of rd]
  have "unat (s + mutexWait rd) = enc c r w f (if rd then p + 1 else p) (if rd then q else q + 1)"
    using u by (cases rd) simp_all
  note e = enc_tests(5,6) [OF this b(1)]
  show *: "s + mutexWait rd AND mutexMask rd = 0 \<longleftrightarrow> (if rd then p else q) + 1 = 2 ^ 20"
    using e b by (cases rd) (auto simp: mutexMask_def mod_eq_0_iff_dvd dest!: dvd_imp_le)
  show "rep (s + mutexWait rd) c r w f (if rd then p + 1 else p) (if rd then q else q + 1)"
    if "s + mutexWait rd AND mutexMask rd \<noteq> 0"
    using that b u unfolding * by (cases rd) (simp_all add: rep_def)
qed

section \<open>What each operation does to the fields\<close>

lemma incref_cas:
  assumes "st_wf old" and "fdMutex_incref old = Cas new"
  shows "\<not> st_closed old" and "st_wf new" and "\<not> st_closed new" and "st_lock rd new = st_lock rd old"
    and "st_refs new = st_refs old + 1" and "st_wait rd new = st_wait rd old"
proof -
  note R = wf_rep [OF assms(1)]
  have n: "\<not> st_closed old" "new = old + mutexRef" "old + mutexRef AND mutexRefMask \<noteq> 0"
    using assms(2) by (auto simp: fdMutex_incref_def st_closed_def Let_def split: if_splits)
  note N = rep_fields [OF add_ref_cases(2) [OF R n(3)], folded n(2)]
  show "\<not> st_closed old" "st_wf new" "\<not> st_closed new" "st_lock rd new = st_lock rd old"
    "st_refs new = st_refs old + 1" "st_wait rd new = st_wait rd old"
    using N n(1) by simp_all
qed

lemma increfAndClose_cas:
  assumes "st_wf old" and "fdMutex_increfAndClose old = Cas new"
  shows "\<not> st_closed old" and "st_wf new" and "st_closed new" and "st_lock rd new = st_lock rd old"
    and "st_refs new = st_refs old + 1" and "st_wait rd new = 0"
proof -
  let ?n = "(old OR mutexClosed) + mutexRef"
  have n: "\<not> st_closed old" "new = ?n AND NOT (mutexRMask OR mutexWMask)" "?n AND mutexRefMask \<noteq> 0"
    using assms(2) by (auto simp: fdMutex_increfAndClose_def st_closed_def Let_def split: if_splits)
  have "rep old False (st_lock True old) (st_lock False old) (st_refs old) (st_wait True old) (st_wait False old)"
    using wf_rep [OF assms(1)] n(1) by simp
  note A = add_ref_cases(2) [OF rep_set_closed [OF this] n(3)]
  have "st_refs old + 1 < 2 ^ 20" using A by (simp add: rep_def)
  note N = rep_fields [OF rep_clear_waits [OF rep_unat [OF A] this rep_bound [OF A]], folded n(2)]
  show "\<not> st_closed old" "st_wf new" "st_closed new" "st_lock rd new = st_lock rd old"
    "st_refs new = st_refs old + 1" "st_wait rd new = 0"
    using N n(1) by simp_all
qed

lemma decref_cas:
  assumes "st_wf old" and "fdMutex_decref old = Cas new"
  shows "0 < st_refs old" and "st_wf new" and "st_closed new = st_closed old" and "st_lock rd new = st_lock rd old"
    and "st_refs new = st_refs old - 1" and "st_wait rd new = st_wait rd old"
proof -
  have n: "0 < st_refs old" "new = old - mutexRef"
    using assms(2) by (auto simp: fdMutex_decref_def mask_tests split: if_splits)
  note N = rep_fields [OF rep_sub_ref [OF wf_rep [OF assms(1)] n(1)], folded n(2)]
  show "0 < st_refs old" "st_wf new" "st_closed new = st_closed old" "st_lock rd new = st_lock rd old"
    "st_refs new = st_refs old - 1" "st_wait rd new = st_wait rd old"
    using N n(1) by simp_all
qed

lemma rwlock_cas_free:
  assumes "st_wf old" and "fdMutex_rwlock rd wt old = Cas new" and "\<not> st_lock rd old"
  shows "\<not> st_closed old" and "st_wf new" and "\<not> st_closed new" and "st_lock x new = (x = rd \<or> st_lock x old)"
    and "st_refs new = st_refs old + 1" and "st_wait x new = st_wait x old"
proof -
  let ?n = "(old OR mutexBit rd) + mutexRef"
  have n: "\<not> st_closed old" "new = ?n" "?n AND mutexRefMask \<noteq> 0"
    using assms(2,3) by (auto simp: fdMutex_rwlock_def st_closed_def st_lock_def Let_def split: if_splits)
  have "\<not> (if rd then st_lock True old else st_lock False old)" using assms(3) by (cases rd) simp_all
  note N = rep_fields [OF add_ref_cases(2) [OF rep_set_bit [OF wf_rep [OF assms(1)] this] n(3)], folded n(2)]
  show "\<not> st_closed old" "st_wf new" "\<not> st_closed new" "st_refs new = st_refs old + 1"
    "st_wait x new = st_wait x old" "st_lock x new = (x = rd \<or> st_lock x old)"
    using N n(1) by auto
qed

lemma rwlock_cas_busy:
  assumes "st_wf old" and "fdMutex_rwlock rd wt old = Cas new" and "st_lock rd old"
  shows "\<not> st_closed old" and "wt" and "st_wf new" and "\<not> st_closed new" and "st_lock x new = st_lock x old"
    and "st_refs new = st_refs old" and "st_wait x new = (if x = rd then st_wait x old + 1 else st_wait x old)"
proof -
  have n: "\<not> st_closed old" "wt" "new = old + mutexWait rd" "old + mutexWait rd AND mutexMask rd \<noteq> 0"
    using assms(2,3) by (auto simp: fdMutex_rwlock_def st_closed_def st_lock_def Let_def split: if_splits)
  note N = rep_fields [OF add_wait_cases(2) [OF wf_rep [OF assms(1)] n(4)], folded n(3)]
  show "\<not> st_closed old" "wt" "st_wf new" "\<not> st_closed new" "st_lock x new = st_lock x old"
    "st_refs new = st_refs old" "st_wait x new = (if x = rd then st_wait x old + 1 else st_wait x old)"
    using N n(1,2) by auto
qed

lemma rwunlock_cas:
  assumes "st_wf old" and "fdMutex_rwunlock rd old = Cas new"
  shows "st_lock rd old" and "0 < st_refs old" and "st_wf new" and "st_closed new = st_closed old"
    and "st_lock x new = (x \<noteq> rd \<and> st_lock x old)" and "st_refs new = st_refs old - 1"
    and "st_wait x new = (if x = rd then st_wait x old - 1 else st_wait x old)"
proof -
  let ?n = "(old AND NOT (mutexBit rd)) - mutexRef"
  have n: "st_lock rd old" "0 < st_refs old"
    "new = (if st_wait rd old = 0 then ?n else ?n - mutexWait rd)"
    using assms(2) by (auto simp: fdMutex_rwunlock_def st_lock_def mask_tests Let_def split: if_splits)
  have "if rd then st_lock True old else st_lock False old" using n(1) by (cases rd) simp_all
  note A = rep_sub_ref [OF rep_clear_bit [OF wf_rep [OF assms(1)] this] n(2)]
  have "\<exists>p q. rep new (st_closed old) (\<not> rd \<and> st_lock True old) (rd \<and> st_lock False old) (st_refs old - 1) p q
      \<and> p = (if rd then st_wait True old - 1 else st_wait True old)
      \<and> q = (if rd then st_wait False old else st_wait False old - 1)"
  proof (cases "st_wait rd old = 0")
    case True
    with A n(3) show ?thesis by (cases rd) auto
  next
    case False
    then have "0 < (if rd then st_wait True old else st_wait False old)" by (cases rd) simp_all
    from rep_sub_wait [OF A this] False n(3) show ?thesis by auto
  qed
  then obtain p q where R: "rep new (st_closed old) (\<not> rd \<and> st_lock True old) (rd \<and> st_lock False old) (st_refs old - 1) p q"
    and pq: "p = (if rd then st_wait True old - 1 else st_wait True old)"
      "q = (if rd then st_wait False old else st_wait False old - 1)" by blast
  note N = rep_fields [OF R]
  show "st_lock rd old" "0 < st_refs old" "st_wf new" "st_closed new = st_closed old"
    "st_refs new = st_refs old - 1" using N n(1,2) by simp_all
  show "st_lock x new = (x \<noteq> rd \<and> st_lock x old)" using N(2) [of x] by (cases x; cases rd) simp_all
  show "st_wait x new = (if x = rd then st_wait x old - 1 else st_wait x old)"
    using N(4) [of x] pq by (cases x; cases rd) simp_all
qed

lemma waking_step:
  assumes "st_wf old" and "0 < st_wait rd old"
  shows "st_wf (old - mutexWait rd)" and "st_wait x (old - mutexWait rd) = (if x = rd then st_wait x old - 1 else st_wait x old)"
proof -
  have "0 < (if rd then st_wait True old else st_wait False old)" using assms(2) by (cases rd) simp_all
  note N = rep_fields [OF rep_sub_wait [OF wf_rep [OF assms(1)] this]]
  show "st_wf (old - mutexWait rd)" "st_wait x (old - mutexWait rd) = (if x = rd then st_wait x old - 1 else st_wait x old)"
    using N by (auto split: if_splits)
qed



end
