(* ===== verification/Fd_Mutex_Correct.thy ===== *)
theory Fd_Mutex_Correct
  imports Fd_Mutex_Word
begin

text \<open>
  The invariant of the descriptor lock over all interleavings, its preservation by every step, and
  the properties that follow from it.
\<close>

section \<open>The invariant\<close>

definition holds :: "bool \<Rightarrow> fd_thread \<Rightarrow> bool" where
  "holds rd t = (if rd then thr_r t else thr_w t)"

definition own :: "fd_thread \<Rightarrow> nat" where
  "own t = thr_refs t + of_bool (thr_r t) + of_bool (thr_w t)"

definition sleeping :: "bool \<Rightarrow> fd_thread \<Rightarrow> nat" where
  "sleeping rd t = of_bool (thr_pc t = Asleep rd)"

definition pending :: "bool \<Rightarrow> fd_thread \<Rightarrow> nat" where
  "pending rd t = (case thr_pc t of Signal x b \<Rightarrow> of_bool (x = rd) | Waking old \<Rightarrow> st_wait rd old | _ \<Rightarrow> 0)"

definition locking :: "bool \<Rightarrow> fd_thread \<Rightarrow> nat" where
  "locking rd t = (case thr_pc t of Run op \<Rightarrow> of_bool (op = Rwlock rd True)
     | Try op old new \<Rightarrow> of_bool (op = Rwlock rd True) | Panicked p \<Rightarrow> 1 | _ \<Rightarrow> 0)"

definition destroying :: "fd_thread \<Rightarrow> nat" where
  "destroying t = (case thr_pc t of Destroying n \<Rightarrow> 1 | Signal x b \<Rightarrow> of_bool b | _ \<Rightarrow> 0)"

definition need :: "fd_thread \<Rightarrow> fd_op \<Rightarrow> bool" where
  "need t op = (case op of
     Rwunlock rd \<Rightarrow> holds rd t \<and> (thr_call t = FD_readWriteUnlock \<and> rd \<longrightarrow> thr_w t)
   | Decref \<Rightarrow> 0 < thr_refs t
   | Rwlock rd wt \<Rightarrow> (thr_call t = FD_readWriteLock \<or> thr_call t = FD_tryReadWriteLock) \<and> \<not> rd \<longrightarrow> thr_r t
   | _ \<Rightarrow> True)"

definition thr_ok :: "fd_thread \<Rightarrow> bool" where
  "thr_ok t = (case thr_pc t of
     Idle r \<Rightarrow> True
   | Run op \<Rightarrow> need t op
   | Try op old new \<Rightarrow> need t op \<and> fd_attempt op old = Cas new
   | Asleep rd \<Rightarrow> need t (Rwlock rd True)
   | Signal rd b \<Rightarrow> thr_call t = FD_readWriteUnlock \<and> rd \<longrightarrow> thr_w t \<and> \<not> b
   | Waking old \<Rightarrow> st_wf old \<and> 0 < thr_refs t
   | Destroying n \<Rightarrow> (case n of Finish r \<Rightarrow> True | Call op \<Rightarrow> op = Closing | Destroy m \<Rightarrow> False)
   | Panicked p \<Rightarrow> p = Overflow)"

definition tally :: "(fd_thread \<Rightarrow> nat) \<Rightarrow> fd_sys \<Rightarrow> nat" where
  "tally f s = sum_list (map f (fd_threads s))"

definition gone :: "fd_sys \<Rightarrow> bool" where
  "gone s \<longleftrightarrow> st_closed (fdmu_state s) \<and> st_refs (fdmu_state s) = 0"

definition fd_inv :: "fd_sys \<Rightarrow> bool" where
  "fd_inv s \<longleftrightarrow> st_wf (fdmu_state s)
     \<and> st_refs (fdmu_state s) = tally own s
     \<and> (\<forall>rd. of_bool (st_lock rd (fdmu_state s)) = tally (\<lambda>t. of_bool (holds rd t)) s)
     \<and> (\<forall>rd. st_wait rd (fdmu_state s) + fd_sema rd s + tally (pending rd) s = tally (sleeping rd) s)
     \<and> (\<forall>rd. st_closed (fdmu_state s) \<longrightarrow> st_wait rd (fdmu_state s) = 0)
     \<and> fd_destroyed s + tally destroying s = of_bool (gone s)
     \<and> (\<forall>rd. 0 < st_wait rd (fdmu_state s) \<longrightarrow>
          0 < of_bool (st_lock rd (fdmu_state s)) + fd_sema rd s + tally (pending rd) s + tally (locking rd) s)
     \<and> list_all thr_ok (fd_threads s)"

lemma sum_list_update_nat:
  "i < length xs \<Longrightarrow> sum_list (map f (xs[i := y])) + f (xs ! i) = sum_list (map f xs) + (f y :: nat)"
  by (induction xs arbitrary: i) (auto split: nat.splits simp: nth_Cons)

lemma sum_list_member_le: "i < length xs \<Longrightarrow> f (xs ! i) \<le> sum_list (map f xs)" for f :: "'a \<Rightarrow> nat"
  using member_le_sum_list [of "f (xs ! i)" "map f xs"] by simp

lemma tally_update:
  assumes "i < length (fd_threads s)" and "fd_threads s' = (fd_threads s)[i := t']"
  shows "tally f s' + f (fd_threads s ! i) = tally f s + f t'"
  using sum_list_update_nat [OF assms(1), of f t'] assms(2) by (simp add: tally_def)

lemma tally_ge: "i < length (fd_threads s) \<Longrightarrow> f (fd_threads s ! i) \<le> tally f s"
  by (simp add: tally_def sum_list_member_le)

lemma inv_update:
  assumes inv: "fd_inv s" and i: "i < length (fd_threads s)" and t: "t = fd_threads s ! i"
    and s': "fd_threads s' = (fd_threads s)[i := t']" and ok: "thr_ok t'"
    and wf: "st_wf (fdmu_state s')"
    and refs: "st_refs (fdmu_state s') + own t = st_refs (fdmu_state s) + own t'"
    and lck: "\<And>rd. of_bool (st_lock rd (fdmu_state s')) + of_bool (holds rd t) =
        (of_bool (st_lock rd (fdmu_state s)) + of_bool (holds rd t') :: nat)"
    and wt: "\<And>rd. st_wait rd (fdmu_state s') + fd_sema rd s' + pending rd t' + sleeping rd t =
        st_wait rd (fdmu_state s) + fd_sema rd s + pending rd t + sleeping rd t'"
    and cl: "\<And>rd. st_closed (fdmu_state s') \<Longrightarrow> st_wait rd (fdmu_state s') = 0"
    and des: "fd_destroyed s' + destroying t' + of_bool (gone s) = fd_destroyed s + destroying t + of_bool (gone s')"
    and J: "\<And>rd. st_wait rd (fdmu_state s') = 0
        \<or> 0 < of_bool (st_lock rd (fdmu_state s')) + fd_sema rd s' + pending rd t' + locking rd t'
        \<or> 0 < st_wait rd (fdmu_state s) \<and> of_bool (st_lock rd (fdmu_state s)) + fd_sema rd s + pending rd t + locking rd t
            \<le> of_bool (st_lock rd (fdmu_state s')) + fd_sema rd s' + pending rd t' + locking rd t'"
  shows "fd_inv s'"
proof -
  note U = tally_update [OF i s', folded t]
  note G = tally_ge [OF i, folded t]
  have "list_all thr_ok (fd_threads s')"
    using inv ok set_update_subset_insert [of "fd_threads s" i t'] unfolding fd_inv_def s'
    by (simp add: list_all_iff) blast
  moreover have "st_refs (fdmu_state s') = tally own s'"
    using inv refs U [of own] unfolding fd_inv_def by linarith
  moreover have "of_bool (st_lock rd (fdmu_state s')) = tally (\<lambda>t. of_bool (holds rd t)) s'" for rd
  proof -
    have "of_bool (st_lock rd (fdmu_state s)) = tally (\<lambda>t. of_bool (holds rd t)) s"
      using inv unfolding fd_inv_def by blast
    with lck [of rd] U [of "\<lambda>t. of_bool (holds rd t)"] show ?thesis by linarith
  qed
  moreover have "st_wait rd (fdmu_state s') + fd_sema rd s' + tally (pending rd) s' = tally (sleeping rd) s'" for rd
  proof -
    have "st_wait rd (fdmu_state s) + fd_sema rd s + tally (pending rd) s = tally (sleeping rd) s"
      using inv unfolding fd_inv_def by blast
    with wt [of rd] U [of "pending rd"] U [of "sleeping rd"] show ?thesis by linarith
  qed
  moreover have "fd_destroyed s' + tally destroying s' = of_bool (gone s')"
  proof -
    have "fd_destroyed s + tally destroying s = of_bool (gone s)"
      using inv unfolding fd_inv_def by blast
    with des U [of destroying] show ?thesis by linarith
  qed
  moreover have "0 < of_bool (st_lock rd (fdmu_state s')) + fd_sema rd s' + tally (pending rd) s' + tally (locking rd) s'"
    if "0 < st_wait rd (fdmu_state s')" for rd
  proof -
    have "\<forall>rd. 0 < st_wait rd (fdmu_state s) \<longrightarrow>
          0 < of_bool (st_lock rd (fdmu_state s)) + fd_sema rd s + tally (pending rd) s + tally (locking rd) s"
      using inv unfolding fd_inv_def by (elim conjE)
    then have "0 < st_wait rd (fdmu_state s) \<Longrightarrow>
          0 < of_bool (st_lock rd (fdmu_state s)) + fd_sema rd s + tally (pending rd) s + tally (locking rd) s"
      by (rule allE) (erule (1) mp)
    with J [of rd] that U [of "pending rd"] U [of "locking rd"] G [of "pending rd"] G [of "locking rd"]
    show ?thesis by linarith
  qed
  ultimately show ?thesis using wf cl unfolding fd_inv_def by blast
qed

section \<open>Every step keeps the invariant\<close>

lemma thread_measures_pc [simp]:
  "own (t\<lparr>thr_pc := p\<rparr>) = own t" "holds rd (t\<lparr>thr_pc := p\<rparr>) = holds rd t"
  "own (t\<lparr>thr_call := c\<rparr>) = own t" "holds rd (t\<lparr>thr_call := c\<rparr>) = holds rd t"
  by (simp_all add: own_def holds_def)

lemma goto_measures [simp]:
  assumes "thr_pc t = fd_goto n"
  shows "sleeping rd t = 0" "pending rd t = 0"
  using assms by (simp_all add: sleeping_def pending_def fd_goto_def split: fd_next.splits)

definition releases :: "fd_call \<Rightarrow> fd_op \<Rightarrow> bool" where
  "releases c op = (case op of Decref \<Rightarrow> True | Rwunlock rd \<Rightarrow> \<not> (c = FD_readWriteUnlock \<and> rd) | _ \<Rightarrow> False)"

lemma goto_destroying:
  assumes "thr_pc t = fd_goto (fd_then c op b)"
  shows "destroying t = of_bool (b \<and> releases c op)"
  using assms by (cases c; cases op) (auto simp: destroying_def fd_goto_def releases_def)

lemma goto_ok:
  assumes "thr_pc t = fd_goto (fd_then (thr_call t) op b)"
    and "op = IncrefAndClose \<Longrightarrow> b \<Longrightarrow> 0 < thr_refs t"
    and "\<And>wt. op = Rwlock True wt \<Longrightarrow> b \<Longrightarrow> thr_r t"
    and "\<And>wt. op = Rwlock False wt \<Longrightarrow> \<not> b \<Longrightarrow>
      thr_call t = FD_readWriteLock \<or> thr_call t = FD_tryReadWriteLock \<Longrightarrow> thr_r t"
    and "op = Rwunlock True \<Longrightarrow> thr_call t = FD_readWriteUnlock \<Longrightarrow> thr_w t"
  shows "thr_ok t"
  using assms by (cases "thr_call t"; cases op) (auto simp: thr_ok_def fd_goto_def need_def holds_def)

lemmas measure_defs = sleeping_def pending_def locking_def destroying_def

lemma fd_invD:
  assumes "fd_inv s"
  shows "st_wf (fdmu_state s)" and "st_refs (fdmu_state s) = tally own s"
    and "of_bool (st_lock rd (fdmu_state s)) = tally (\<lambda>t. of_bool (holds rd t)) s"
    and "st_wait rd (fdmu_state s) + fd_sema rd s + tally (pending rd) s = tally (sleeping rd) s"
    and "st_closed (fdmu_state s) \<Longrightarrow> st_wait rd (fdmu_state s) = 0"
    and "fd_destroyed s + tally destroying s = of_bool (gone s)"
    and "i < length (fd_threads s) \<Longrightarrow> thr_ok (fd_threads s ! i)"
    and "i < length (fd_threads s) \<Longrightarrow> own (fd_threads s ! i) \<le> st_refs (fdmu_state s)"
    and "i < length (fd_threads s) \<Longrightarrow> holds rd (fd_threads s ! i) \<Longrightarrow> st_lock rd (fdmu_state s)"
proof -
  show "st_wf (fdmu_state s)" "st_refs (fdmu_state s) = tally own s"
    "of_bool (st_lock rd (fdmu_state s)) = tally (\<lambda>t. of_bool (holds rd t)) s"
    "st_wait rd (fdmu_state s) + fd_sema rd s + tally (pending rd) s = tally (sleeping rd) s"
    "st_closed (fdmu_state s) \<Longrightarrow> st_wait rd (fdmu_state s) = 0"
    "fd_destroyed s + tally destroying s = of_bool (gone s)"
    "i < length (fd_threads s) \<Longrightarrow> thr_ok (fd_threads s ! i)"
    using assms unfolding fd_inv_def by (blast | simp add: list_all_length)+
  show "i < length (fd_threads s) \<Longrightarrow> own (fd_threads s ! i) \<le> st_refs (fdmu_state s)"
    using assms tally_ge [of i s own] unfolding fd_inv_def by simp
  show "st_lock rd (fdmu_state s)" if "i < length (fd_threads s)" "holds rd (fd_threads s ! i)"
  proof (rule ccontr)
    assume "\<not> st_lock rd (fdmu_state s)"
    moreover have "of_bool (st_lock rd (fdmu_state s)) = tally (\<lambda>t. of_bool (holds rd t)) s"
      using assms unfolding fd_inv_def by blast
    ultimately show False using tally_ge [OF that(1), of "\<lambda>t. of_bool (holds rd t)"] that(2) by simp
  qed
qed

lemma inv_local:
  assumes inv: "fd_inv s" and i: "i < length (fd_threads s)" and t: "t = fd_threads s ! i"
    and s': "s' = fd_put i t' s" and ok: "thr_ok t'"
    and "own t' = own t" and "\<And>rd. holds rd t' = holds rd t" and "\<And>rd. pending rd t' = pending rd t"
    and "\<And>rd. sleeping rd t' = sleeping rd t" and "destroying t' = destroying t"
    and "\<And>rd. locking rd t \<le> locking rd t' \<or> st_closed (fdmu_state s)"
  shows "fd_inv s'"
proof (rule inv_update [OF inv i t _ ok])
  show "fd_threads s' = (fd_threads s)[i := t']" by (simp add: s' fd_put_def)
  have eq: "fdmu_state s' = fdmu_state s" "fd_destroyed s' = fd_destroyed s" "fd_sema rd s' = fd_sema rd s" for rd
    by (simp_all add: s' fd_put_def fd_sema_def)
  note D = fd_invD [OF inv]
  show "st_wf (fdmu_state s')" "st_refs (fdmu_state s') + own t = st_refs (fdmu_state s) + own t'"
    "fd_destroyed s' + destroying t' + of_bool (gone s) = fd_destroyed s + destroying t + of_bool (gone s')"
    using D(1) assms(6,10) by (simp_all add: eq gone_def)
  show "of_bool (st_lock rd (fdmu_state s')) + of_bool (holds rd t) =
        (of_bool (st_lock rd (fdmu_state s)) + of_bool (holds rd t') :: nat)"
    "st_wait rd (fdmu_state s') + fd_sema rd s' + pending rd t' + sleeping rd t =
        st_wait rd (fdmu_state s) + fd_sema rd s + pending rd t + sleeping rd t'"
    "st_closed (fdmu_state s') \<Longrightarrow> st_wait rd (fdmu_state s') = 0" for rd
    using D(5) assms(7-9) by (simp_all add: eq)
  show "st_wait rd (fdmu_state s') = 0
        \<or> 0 < of_bool (st_lock rd (fdmu_state s')) + fd_sema rd s' + pending rd t' + locking rd t'
        \<or> 0 < st_wait rd (fdmu_state s) \<and> of_bool (st_lock rd (fdmu_state s)) + fd_sema rd s + pending rd t + locking rd t
            \<le> of_bool (st_lock rd (fdmu_state s')) + fd_sema rd s' + pending rd t' + locking rd t'" for rd
    using D(5) [of rd] assms(8) [of rd] assms(11) [of rd] by (auto simp: eq)
qed

lemma inv_idle:
  assumes inv: "fd_inv s" and i: "i < length (fd_threads s)" and t: "t = fd_threads s ! i"
    and pc: "thr_pc t = Idle r" and o: "fd_owns t c"
  shows "fd_inv (fd_put i (t\<lparr>thr_call := c, thr_pc := Run (fd_first c)\<rparr>) s)"
proof (rule inv_local [OF inv i t refl])
  show "thr_ok (t\<lparr>thr_call := c, thr_pc := Run (fd_first c)\<rparr>)"
    using o by (cases c) (simp_all add: thr_ok_def need_def fd_owns_def holds_def)
qed (simp_all add: pc measure_defs)

lemmas fdMutex_defs = fd_attempt_def fdMutex_incref_def fdMutex_increfAndClose_def fdMutex_decref_def
  fdMutex_rwlock_def fdMutex_rwunlock_def Let_def

lemma attempt_return:
  assumes "fd_attempt op old = Return b"
  shows "\<not> releases c op" and "op = Rwlock rd True \<Longrightarrow> st_closed old" and "op \<noteq> Closing \<Longrightarrow> \<not> b"
    and "op \<noteq> Rwunlock rd"
  using assms by (cases op; auto simp: fdMutex_defs releases_def st_closed_def split: if_splits)+

lemma attempt_consistent:
  assumes inv: "fd_inv s" and i: "i < length (fd_threads s)" and nd: "need (fd_threads s ! i) op"
    and p: "fd_attempt op (fdmu_state s) = Panic p"
  shows "p = Overflow"
proof -
  let ?t = "fd_threads s ! i" and ?o = "fdmu_state s"
  note own = fd_invD(8) [OF inv i] and hld = fd_invD(9) [OF inv i]
  show ?thesis
  proof (cases op)
    case Decref
    with nd own have "st_refs ?o \<noteq> 0" by (simp add: need_def own_def)
    with Decref p show ?thesis by (simp add: fdMutex_defs mask_tests)
  next
    case (Rwunlock rd)
    with nd have h: "holds rd ?t" by (simp add: need_def)
    with own have "st_refs ?o \<noteq> 0" by (auto simp: holds_def own_def split: if_splits)
    with Rwunlock p hld [OF h] show ?thesis by (simp add: fdMutex_defs mask_tests st_lock_def)
  qed (use p in \<open>auto simp: fdMutex_defs split: if_splits\<close>)
qed

lemma fd_load_same [simp]:
  "own (fd_load t op old) = own t" "holds rd (fd_load t op old) = holds rd t"
  "thr_call (fd_load t op old) = thr_call t" "thr_r (fd_load t op old) = thr_r t"
  "thr_w (fd_load t op old) = thr_w t" "thr_refs (fd_load t op old) = thr_refs t"
  by (simp_all add: fd_load_def)

lemma inv_load:
  assumes inv: "fd_inv s" and i: "i < length (fd_threads s)" and t: "t = fd_threads s ! i"
    and pc: "thr_pc t = Run op"
  shows "fd_inv (fd_put i (fd_load t op (fdmu_state s)) s)"
proof (rule inv_local [OF inv i t refl])
  let ?o = "fdmu_state s" and ?t = "fd_load t op (fdmu_state s)"
  have nd: "need t op" using fd_invD(7) [OF inv i] pc by (simp add: t thr_ok_def)
  show "own ?t = own t" "holds rd ?t = holds rd t" for rd by simp_all
  have "thr_ok ?t \<and> destroying ?t = destroying t \<and> (\<forall>rd. pending rd ?t = pending rd t
      \<and> sleeping rd ?t = sleeping rd t \<and> (locking rd t \<le> locking rd ?t \<or> st_closed ?o))"
  proof (cases "fd_attempt op ?o")
    case (Return b)
    note R = attempt_return [OF Return]
    have g: "thr_pc ?t = fd_goto (fd_then (thr_call t) op b)" by (simp add: fd_load_def Return)
    have "thr_ok ?t"
      by (rule goto_ok [of ?t op b]) (use g R nd in \<open>auto simp: need_def\<close>)
    moreover have "destroying ?t = 0" using goto_destroying [OF g] R(1) by simp
    ultimately show ?thesis
      using goto_measures [OF g] R(2) by (auto simp: pc measure_defs)
  next
    case (Panic p)
    with attempt_consistent [OF inv i _ Panic] nd have "p = Overflow" by (simp add: t)
    then have "thr_pc ?t = Panicked Overflow" by (simp add: fd_load_def Panic)
    then show ?thesis by (simp add: thr_ok_def pc measure_defs)
  next
    case (Cas new)
    then have g: "thr_pc ?t = Try op ?o new" by (simp add: fd_load_def)
    have "need ?t op" using nd by (cases op) (simp_all add: need_def)
    then show ?thesis by (simp add: thr_ok_def g Cas measure_defs pc)
  qed
  then show "thr_ok ?t" "destroying ?t = destroying t" "\<And>rd. pending rd ?t = pending rd t"
    "\<And>rd. sleeping rd ?t = sleeping rd t" "\<And>rd. locking rd t \<le> locking rd ?t \<or> st_closed ?o" by blast+
qed

lemma inv_cas_fail:
  assumes inv: "fd_inv s" and i: "i < length (fd_threads s)" and t: "t = fd_threads s ! i"
    and pc: "thr_pc t = Try op old new"
  shows "fd_inv (fd_put i (t\<lparr>thr_pc := Run op\<rparr>) s)"
proof (rule inv_local [OF inv i t refl])
  have "need t op" using fd_invD(7) [OF inv i] pc by (simp add: t thr_ok_def)
  then show "thr_ok (t\<lparr>thr_pc := Run op\<rparr>)" by (simp add: thr_ok_def need_def holds_def split: fd_op.splits)
qed (simp_all add: pc measure_defs)

text \<open>A successful swap, one operation at a time.\<close>

lemma inv_swap:
  assumes inv: "fd_inv s" and i: "i < length (fd_threads s)" and t: "t = fd_threads s ! i"
    and pc: "thr_pc t = Try op (fdmu_state s) new"
    and ok: "thr_ok t'" and wf: "st_wf new"
    and refs: "st_refs new + own t = st_refs (fdmu_state s) + own t'"
    and lck: "\<And>rd. of_bool (st_lock rd new) + of_bool (holds rd t) =
        (of_bool (st_lock rd (fdmu_state s)) + of_bool (holds rd t') :: nat)"
    and wt: "\<And>rd. st_wait rd new + pending rd t' = st_wait rd (fdmu_state s) + sleeping rd t'"
    and cl: "\<And>rd. st_closed new \<Longrightarrow> st_wait rd new = 0"
    and des: "destroying t' + of_bool (gone s) = of_bool (st_closed new \<and> st_refs new = 0)"
    and J: "\<And>rd. st_wait rd new = 0 \<or> 0 < of_bool (st_lock rd new) + pending rd t'
        \<or> 0 < st_wait rd (fdmu_state s) \<and> of_bool (st_lock rd (fdmu_state s)) + locking rd t
            \<le> of_bool (st_lock rd new) + locking rd t'"
  shows "fd_inv ((fd_put i t' s)\<lparr>fdmu_state := new\<rparr>)"
proof (rule inv_update [OF inv i t _ ok])
  let ?s = "(fd_put i t' s)\<lparr>fdmu_state := new\<rparr>"
  show "fd_threads ?s = (fd_threads s)[i := t']" by (simp add: fd_put_def)
  have eq: "fd_destroyed ?s = fd_destroyed s" "fd_sema rd ?s = fd_sema rd s" "gone ?s = (st_closed new \<and> st_refs new = 0)" for rd
    by (simp_all add: fd_put_def fd_sema_def gone_def)
  have z: "pending rd t = 0" "sleeping rd t = 0" "destroying t = 0" for rd by (simp_all add: pc measure_defs)
  show "st_wf (fdmu_state ?s)" "st_refs (fdmu_state ?s) + own t = st_refs (fdmu_state s) + own t'"
    "fd_destroyed ?s + destroying t' + of_bool (gone s) = fd_destroyed s + destroying t + of_bool (gone ?s)"
    using wf refs des by (simp_all add: eq z)
  show "of_bool (st_lock rd (fdmu_state ?s)) + of_bool (holds rd t) =
        (of_bool (st_lock rd (fdmu_state s)) + of_bool (holds rd t') :: nat)"
    "st_wait rd (fdmu_state ?s) + fd_sema rd ?s + pending rd t' + sleeping rd t =
        st_wait rd (fdmu_state s) + fd_sema rd s + pending rd t + sleeping rd t'"
    "st_closed (fdmu_state ?s) \<Longrightarrow> st_wait rd (fdmu_state ?s) = 0" for rd
    using lck [of rd] wt [of rd] cl [of rd] by (simp_all add: eq z)
  show "st_wait rd (fdmu_state ?s) = 0
        \<or> 0 < of_bool (st_lock rd (fdmu_state ?s)) + fd_sema rd ?s + pending rd t' + locking rd t'
        \<or> 0 < st_wait rd (fdmu_state s) \<and> of_bool (st_lock rd (fdmu_state s)) + fd_sema rd s + pending rd t + locking rd t
            \<le> of_bool (st_lock rd (fdmu_state ?s)) + fd_sema rd ?s + pending rd t' + locking rd t'" for rd
  proof -
    have st: "fdmu_state ?s = new" by simp
    from J [of rd] show ?thesis
    proof (elim disjE)
      assume "0 < of_bool (st_lock rd new) + pending rd t'"
      then have "0 < of_bool (st_lock rd new) + fd_sema rd s + pending rd t' + locking rd t'" by linarith
      then show ?thesis unfolding eq z st by (intro disjI2 disjI1)
    next
      assume "0 < st_wait rd (fdmu_state s) \<and> of_bool (st_lock rd (fdmu_state s)) + locking rd t
          \<le> of_bool (st_lock rd new) + locking rd t'"
      then have "0 < st_wait rd (fdmu_state s) \<and> of_bool (st_lock rd (fdmu_state s)) + fd_sema rd s + 0 + locking rd t
          \<le> of_bool (st_lock rd new) + fd_sema rd s + pending rd t' + locking rd t'" by linarith
      then show ?thesis unfolding eq z st by (intro disjI2)
    next
      assume "st_wait rd new = 0"
      then show ?thesis unfolding st by (rule disjI1)
    qed
  qed
qed

lemma gone_no_refs: "gone s \<Longrightarrow> st_refs (fdmu_state s) = 0"
  by (simp add: gone_def)

lemma fd_then_own [simp]: "need (t\<lparr>thr_pc := p\<rparr>) op = need t op"
  by (cases op) (simp_all add: need_def)

lemma inv_cas_incref:
  assumes inv: "fd_inv s" and i: "i < length (fd_threads s)" and t: "t = fd_threads s ! i"
    and pc: "thr_pc t = Try op (fdmu_state s) new" and op: "op = Incref"
  shows "fd_inv ((fd_put i (fd_swapped t op (fdmu_state s) new) s)\<lparr>fdmu_state := new\<rparr>)"
proof -
  let ?o = "fdmu_state s" and ?t = "fd_swapped t op (fdmu_state s) new"
  note D = fd_invD [OF inv]
  note own = D(8) [OF i, folded t] and hld = D(9) [OF i, folded t]
  have nd: "need t op" and at: "fd_attempt op ?o = Cas new"
    using D(7) [OF i] pc by (simp_all add: t thr_ok_def)
  from at op have "fdMutex_incref ?o = Cas new" by (simp add: fd_attempt_def)
  note N = incref_cas [OF D(1) this]
  have g: "thr_pc ?t = fd_goto (fd_then (thr_call ?t) op True)" by (simp add: fd_swapped_def op)
  note G = goto_measures [OF g] goto_destroying [OF g]
  show ?thesis
  proof (rule inv_swap [OF inv i t pc])
    show "thr_ok ?t" by (rule goto_ok [OF g]) (simp_all add: op)
    show "destroying ?t + of_bool (gone s) = of_bool (st_closed new \<and> st_refs new = 0)"
      using N G by (simp add: gone_def op releases_def)
  qed (use N G D(5) in \<open>auto simp: fd_swapped_def op own_def holds_def locking_def pc\<close>)
qed

lemma inv_cas_close:
  assumes inv: "fd_inv s" and i: "i < length (fd_threads s)" and t: "t = fd_threads s ! i"
    and pc: "thr_pc t = Try op (fdmu_state s) new" and op: "op = IncrefAndClose"
  shows "fd_inv ((fd_put i (fd_swapped t op (fdmu_state s) new) s)\<lparr>fdmu_state := new\<rparr>)"
proof -
  let ?o = "fdmu_state s" and ?t = "fd_swapped t op (fdmu_state s) new"
  note D = fd_invD [OF inv]
  note own = D(8) [OF i, folded t] and hld = D(9) [OF i, folded t]
  have nd: "need t op" and at: "fd_attempt op ?o = Cas new"
    using D(7) [OF i] pc by (simp_all add: t thr_ok_def)
  from at op have "fdMutex_increfAndClose ?o = Cas new" by (simp add: fd_attempt_def)
  note N = increfAndClose_cas [OF D(1) this]
  have g: "thr_pc ?t = Waking ?o" by (simp add: fd_swapped_def op)
  show ?thesis
  proof (rule inv_swap [OF inv i t pc])
    show "thr_ok ?t" using D(1) by (simp add: thr_ok_def g) (simp add: fd_swapped_def op)
  qed (use N in \<open>auto simp: measure_defs g gone_def\<close>, auto simp: fd_swapped_def op own_def holds_def split: if_splits)
qed

lemma inv_cas_decref:
  assumes inv: "fd_inv s" and i: "i < length (fd_threads s)" and t: "t = fd_threads s ! i"
    and pc: "thr_pc t = Try op (fdmu_state s) new" and op: "op = Decref"
  shows "fd_inv ((fd_put i (fd_swapped t op (fdmu_state s) new) s)\<lparr>fdmu_state := new\<rparr>)"
proof -
  let ?o = "fdmu_state s" and ?t = "fd_swapped t op (fdmu_state s) new"
  note D = fd_invD [OF inv]
  note own = D(8) [OF i, folded t] and hld = D(9) [OF i, folded t]
  have nd: "need t op" and at: "fd_attempt op ?o = Cas new"
    using D(7) [OF i] pc by (simp_all add: t thr_ok_def)
  from at op have "fdMutex_decref ?o = Cas new" by (simp add: fd_attempt_def)
  note N = decref_cas [OF D(1) this]
  have g: "thr_pc ?t = fd_goto (fd_then (thr_call ?t) op (last_reference new))" by (simp add: fd_swapped_def op)
  note G = goto_measures [OF g] goto_destroying [OF g]
  have r: "0 < thr_refs t" using nd op by (simp add: need_def)
  show ?thesis
  proof (rule inv_swap [OF inv i t pc])
    show "thr_ok ?t" by (rule goto_ok [OF g]) (simp_all add: op)
    show "destroying ?t + of_bool (gone s) = of_bool (st_closed new \<and> st_refs new = 0)"
      using N G by (simp add: gone_def op releases_def last_reference_iff)
  qed (use N G D(5) r own in \<open>auto simp: fd_swapped_def op own_def holds_def locking_def pc\<close>)
qed

lemma inv_cas_rwlock:
  assumes inv: "fd_inv s" and i: "i < length (fd_threads s)" and t: "t = fd_threads s ! i"
    and pc: "thr_pc t = Try op (fdmu_state s) new" and op: "op = Rwlock rd wt"
  shows "fd_inv ((fd_put i (fd_swapped t op (fdmu_state s) new) s)\<lparr>fdmu_state := new\<rparr>)"
proof -
  let ?o = "fdmu_state s" and ?t = "fd_swapped t op (fdmu_state s) new"
  note D = fd_invD [OF inv]
  note own = D(8) [OF i, folded t] and hld = D(9) [OF i, folded t]
  have nd: "need t op" and at: "fd_attempt op ?o = Cas new"
    using D(7) [OF i] pc by (simp_all add: t thr_ok_def)
  have at': "fdMutex_rwlock rd wt ?o = Cas new" using at op by (simp add: fd_attempt_def)
  show ?thesis
  proof (cases "st_lock rd ?o")
    case True
    note N = rwlock_cas_busy [OF D(1) at' True]
    have eq: "?t = t\<lparr>thr_pc := Asleep rd\<rparr>" using True by (simp add: fd_swapped_def op st_lock_def)
    show ?thesis
    proof (rule inv_swap [OF inv i t pc])
      show "thr_ok ?t" using nd unfolding eq by (simp add: thr_ok_def op need_def)
      show "st_wait x new = 0 \<or> 0 < of_bool (st_lock x new) + pending x ?t
        \<or> 0 < st_wait x ?o \<and> of_bool (st_lock x ?o) + locking x t \<le> of_bool (st_lock x new) + locking x ?t" for x
        using N True by (cases "x = rd") (auto simp: locking_def eq pc op)
    qed (use N D(5) in \<open>auto simp: eq gone_def measure_defs\<close>)
  next
    case False
    note N = rwlock_cas_free [OF D(1) at' False]
    have g: "thr_pc ?t = fd_goto (fd_then (thr_call ?t) op True)"
      using False by (simp add: fd_swapped_def op st_lock_def Let_def)
    have h: "holds x ?t = (x = rd \<or> holds x t)" "thr_refs ?t = thr_refs t" for x
      using False by (auto simp: fd_swapped_def op st_lock_def Let_def holds_def)
    have nh: "\<not> holds rd t" using hld [of rd] False by blast
    have own': "own ?t = own t + 1"
      using nh h(1) [of True] h(1) [of False] h(2) by (cases rd) (auto simp: own_def holds_def)
    note G = goto_measures [OF g] goto_destroying [OF g]
    show ?thesis
    proof (rule inv_swap [OF inv i t pc])
      show "thr_ok ?t" by (rule goto_ok [OF g]) (use h(1) [of True] in \<open>simp_all add: op holds_def\<close>)
      show "destroying ?t + of_bool (gone s) = of_bool (st_closed new \<and> st_refs new = 0)"
        using N G by (simp add: gone_def op releases_def)
      show "of_bool (st_lock x new) + of_bool (holds x t) =
        (of_bool (st_lock x ?o) + of_bool (holds x ?t) :: nat)" for x
        using N(4) [of x] h(1) [of x] nh False by (cases "x = rd") simp_all
      show "st_wait x new = 0 \<or> 0 < of_bool (st_lock x new) + pending x ?t
        \<or> 0 < st_wait x ?o \<and> of_bool (st_lock x ?o) + locking x t \<le> of_bool (st_lock x new) + locking x ?t" for x
        using N(4,6) [of x] by (cases "x = rd") (auto simp: locking_def pc op)
    qed (use N G D(5) own' in auto)
  qed
qed

lemma inv_cas_rwunlock:
  assumes inv: "fd_inv s" and i: "i < length (fd_threads s)" and t: "t = fd_threads s ! i"
    and pc: "thr_pc t = Try op (fdmu_state s) new" and op: "op = Rwunlock rd"
  shows "fd_inv ((fd_put i (fd_swapped t op (fdmu_state s) new) s)\<lparr>fdmu_state := new\<rparr>)"
proof -
  let ?o = "fdmu_state s" and ?t = "fd_swapped t op (fdmu_state s) new"
  note D = fd_invD [OF inv]
  note own = D(8) [OF i, folded t] and hld = D(9) [OF i, folded t]
  have nd: "need t op" and at: "fd_attempt op ?o = Cas new"
    using D(7) [OF i] pc by (simp_all add: t thr_ok_def)
  have at': "fdMutex_rwunlock rd ?o = Cas new" using at op by (simp add: fd_attempt_def)
  note N = rwunlock_cas [OF D(1) at']
  have hr: "holds rd t" and hw: "thr_call t = FD_readWriteUnlock \<and> rd \<Longrightarrow> thr_w t"
    using nd op by (auto simp: need_def)
  have h: "holds x ?t = (x \<noteq> rd \<and> holds x t)" "thr_refs ?t = thr_refs t" "thr_call ?t = thr_call t" for x
    by (auto simp: fd_swapped_def op Let_def holds_def)
  have own': "own t = own ?t + 1"
    using hr h(1) [of True] h(1) [of False] h(2) by (cases rd) (auto simp: own_def holds_def)
  have hw': "thr_w ?t \<and> \<not> last_reference new" if "thr_call t = FD_readWriteUnlock \<and> rd"
  proof -
    have "thr_w ?t" using hw [OF that] that h(1) [of False] by (simp add: holds_def)
    then have "0 < own ?t" by (simp add: own_def)
    then have "0 < st_refs new" using own own' N(6) by linarith
    with \<open>thr_w ?t\<close> N(3) show ?thesis by (simp add: last_reference_iff)
  qed
  have lck: "of_bool (st_lock x new) + of_bool (holds x t) =
      (of_bool (st_lock x ?o) + of_bool (holds x ?t) :: nat)" for x
    using N(1) N(5) [of x] h(1) [of x] hr by (cases "x = rd") simp_all
  have rel: "of_bool (last_reference new \<and> releases (thr_call t) op) = (of_bool (st_closed new \<and> st_refs new = 0) :: nat)"
    using hw' N(3) by (auto simp: op releases_def last_reference_iff)
  have ng: "\<not> gone s" using N(2) by (simp add: gone_def)
  show ?thesis
  proof (cases "st_wait rd ?o = 0")
    case True
    have g: "thr_pc ?t = fd_goto (fd_then (thr_call ?t) op (last_reference new))"
      using True by (simp add: fd_swapped_def op mask_tests Let_def)
    note G = goto_measures [OF g] goto_destroying [OF g]
    show ?thesis
    proof (rule inv_swap [OF inv i t pc _ N(3) _ lck])
      show "thr_ok ?t" by (rule goto_ok [OF g]) (use h hw' in \<open>simp_all add: op\<close>)
      show "destroying ?t + of_bool (gone s) = of_bool (st_closed new \<and> st_refs new = 0)"
        using G(3) rel ng by (simp add: h(3))
      show "st_wait x new = 0 \<or> 0 < of_bool (st_lock x new) + pending x ?t
        \<or> 0 < st_wait x ?o \<and> of_bool (st_lock x ?o) + locking x t \<le> of_bool (st_lock x new) + locking x ?t" for x
        using N(7) [of x] N(5) [of x] True by (cases "x = rd") (auto simp: locking_def pc op)
    qed (use N G D(5) own' True in auto)
  next
    case False
    have g: "thr_pc ?t = Signal rd (last_reference new)"
      using False by (simp add: fd_swapped_def op mask_tests Let_def)
    have nc: "\<not> st_closed ?o" using D(5) False by auto
    then have nl: "\<not> last_reference new" using N(3,4) by (simp add: last_reference_iff)
    show ?thesis
    proof (rule inv_swap [OF inv i t pc _ N(3) _ lck])
      show "thr_ok ?t" using hw' by (simp add: thr_ok_def g h(3))
      show "st_wait x new = 0 \<or> 0 < of_bool (st_lock x new) + pending x ?t
        \<or> 0 < st_wait x ?o \<and> of_bool (st_lock x ?o) + locking x t \<le> of_bool (st_lock x new) + locking x ?t" for x
      proof -
        have "locking x t = 0" by (simp add: locking_def pc op)
        moreover have "pending x ?t = of_bool (rd = x)" by (simp add: pending_def g)
        ultimately show ?thesis using N(7) [of x] N(5) [of x] by (cases "x = rd") auto
      qed
    qed (use N own' False nc nl ng in \<open>auto simp: measure_defs g\<close>)
  qed
qed

lemma inv_cas:
  assumes inv: "fd_inv s" and i: "i < length (fd_threads s)" and t: "t = fd_threads s ! i"
    and pc: "thr_pc t = Try op (fdmu_state s) new"
  shows "fd_inv ((fd_put i (fd_swapped t op (fdmu_state s) new) s)\<lparr>fdmu_state := new\<rparr>)"
proof (cases op)
  case Closing
  have "fd_attempt op (fdmu_state s) = Cas new"
    using fd_invD(7) [OF inv i] pc by (simp add: t thr_ok_def)
  with Closing show ?thesis by (simp add: fd_attempt_def)
qed (fact inv_cas_incref [OF assms] inv_cas_close [OF assms] inv_cas_decref [OF assms]
    inv_cas_rwlock [OF assms] inv_cas_rwunlock [OF assms])+

lemma inv_sema:
  assumes inv: "fd_inv s" and i: "i < length (fd_threads s)" and t: "t = fd_threads s ! i"
    and ok: "thr_ok t'" and "own t' = own t" and "\<And>rd. holds rd t' = holds rd t"
    and wt: "\<And>x. (if x = rd then n else fd_sema x s) + pending x t' + sleeping x t =
        fd_sema x s + pending x t + sleeping x t'"
      "\<And>x. fd_sema x s + pending x t + locking x t \<le> (if x = rd then n else fd_sema x s) + pending x t' + locking x t'"
    and des: "destroying t' = destroying t"
  shows "fd_inv (fd_set_sema rd n (fd_put i t' s))"
proof (rule inv_update [OF inv i t _ ok])
  let ?s = "fd_set_sema rd n (fd_put i t' s)"
  have eq: "fdmu_state ?s = fdmu_state s" "fd_destroyed ?s = fd_destroyed s" "gone ?s = gone s"
    "fd_sema x ?s = (if x = rd then n else fd_sema x s)" for x
    by (auto simp: fd_put_def fd_sema_def fd_set_sema_def gone_def)
  show "fd_threads ?s = (fd_threads s)[i := t']" by (simp add: fd_put_def fd_set_sema_def)
  note D = fd_invD [OF inv]
  show "st_wf (fdmu_state ?s)" "st_refs (fdmu_state ?s) + own t = st_refs (fdmu_state s) + own t'"
    "fd_destroyed ?s + destroying t' + of_bool (gone s) = fd_destroyed s + destroying t + of_bool (gone ?s)"
    using D(1) assms(5) des by (simp_all add: eq)
  show "of_bool (st_lock x (fdmu_state ?s)) + of_bool (holds x t) =
        (of_bool (st_lock x (fdmu_state s)) + of_bool (holds x t') :: nat)"
    "st_wait x (fdmu_state ?s) + fd_sema x ?s + pending x t' + sleeping x t =
        st_wait x (fdmu_state s) + fd_sema x s + pending x t + sleeping x t'"
    "st_closed (fdmu_state ?s) \<Longrightarrow> st_wait x (fdmu_state ?s) = 0" for x
    unfolding eq using D(5) [of x] assms(6) [of x] wt(1) [of x] by (simp, linarith, simp)
  show "st_wait x (fdmu_state ?s) = 0
        \<or> 0 < of_bool (st_lock x (fdmu_state ?s)) + fd_sema x ?s + pending x t' + locking x t'
        \<or> 0 < st_wait x (fdmu_state s) \<and> of_bool (st_lock x (fdmu_state s)) + fd_sema x s + pending x t + locking x t
            \<le> of_bool (st_lock x (fdmu_state ?s)) + fd_sema x ?s + pending x t' + locking x t'" for x
  proof -
    have "of_bool (st_lock x (fdmu_state s)) + fd_sema x s + pending x t + locking x t
        \<le> of_bool (st_lock x (fdmu_state s)) + (if x = rd then n else fd_sema x s) + pending x t' + locking x t'"
      using wt(2) [of x] by linarith
    then show ?thesis
      unfolding eq by (cases "st_wait x (fdmu_state s) = 0") (rule disjI1, assumption, intro disjI2 conjI, simp)
  qed
qed

lemma inv_asleep:
  assumes inv: "fd_inv s" and i: "i < length (fd_threads s)" and t: "t = fd_threads s ! i"
    and pc: "thr_pc t = Asleep rd" and pos: "0 < fd_sema rd s"
  shows "fd_inv (fd_set_sema rd (fd_sema rd s - 1) (fd_put i (t\<lparr>thr_pc := Run (Rwlock rd True)\<rparr>) s))"
proof (rule inv_sema [OF inv i t])
  show "thr_ok (t\<lparr>thr_pc := Run (Rwlock rd True)\<rparr>)"
    using fd_invD(7) [OF inv i] by (simp add: t [symmetric] thr_ok_def pc)
qed (use pos in \<open>auto simp: measure_defs pc\<close>)

lemma inv_signal:
  assumes inv: "fd_inv s" and i: "i < length (fd_threads s)" and t: "t = fd_threads s ! i"
    and pc: "thr_pc t = Signal rd b"
  shows "fd_inv (fd_set_sema rd (fd_sema rd s + 1)
      (fd_put i (t\<lparr>thr_pc := fd_goto (fd_then (thr_call t) (Rwunlock rd) b)\<rparr>) s))"
proof -
  let ?t = "t\<lparr>thr_pc := fd_goto (fd_then (thr_call t) (Rwunlock rd) b)\<rparr>"
  have ok: "thr_call t = FD_readWriteUnlock \<and> rd \<Longrightarrow> thr_w t \<and> \<not> b"
    using fd_invD(7) [OF inv i] by (simp add: t [symmetric] thr_ok_def pc)
  have g: "thr_pc ?t = fd_goto (fd_then (thr_call ?t) (Rwunlock rd) b)" by simp
  note G = goto_measures [OF g] goto_destroying [OF g]
  show ?thesis
  proof (rule inv_sema [OF inv i t])
    show "thr_ok ?t" by (rule goto_ok [OF g]) (use ok in auto)
    show "destroying ?t = destroying t" using G(3) ok by (auto simp: destroying_def pc releases_def)
  qed (use G in \<open>auto simp: pending_def [of _ t] sleeping_def [of _ t] locking_def [of _ t] pc\<close>)
qed

lemma inv_waking:
  assumes inv: "fd_inv s" and i: "i < length (fd_threads s)" and t: "t = fd_threads s ! i"
    and pc: "thr_pc t = Waking old" and w: "0 < st_wait rd old"
  shows "fd_inv (fd_set_sema rd (fd_sema rd s + 1) (fd_put i (t\<lparr>thr_pc := Waking (old - mutexWait rd)\<rparr>) s))"
proof -
  have ok: "st_wf old" "0 < thr_refs t"
    using fd_invD(7) [OF inv i] by (simp_all add: t [symmetric] thr_ok_def pc)
  note W = waking_step [OF ok(1) w]
  show ?thesis
    by (rule inv_sema [OF inv i t]) (use ok W w in \<open>auto simp: measure_defs pc thr_ok_def\<close>)
qed

lemma inv_waked:
  assumes inv: "fd_inv s" and i: "i < length (fd_threads s)" and t: "t = fd_threads s ! i"
    and pc: "thr_pc t = Waking old" and w: "st_wait True old = 0" "st_wait False old = 0"
  shows "fd_inv (fd_put i (t\<lparr>thr_pc := fd_goto (fd_then (thr_call t) IncrefAndClose True)\<rparr>) s)"
proof -
  let ?t = "t\<lparr>thr_pc := fd_goto (fd_then (thr_call t) IncrefAndClose True)\<rparr>"
  have ok: "0 < thr_refs t" using fd_invD(7) [OF inv i] by (simp add: t [symmetric] thr_ok_def pc)
  have g: "thr_pc ?t = fd_goto (fd_then (thr_call ?t) IncrefAndClose True)" by simp
  note G = goto_measures [OF g] goto_destroying [OF g]
  have w': "st_wait rd old = 0" for rd using w by (cases rd) simp_all
  show ?thesis
  proof (rule inv_local [OF inv i t refl])
    show "thr_ok ?t" by (rule goto_ok [OF g]) (use ok in simp_all)
  qed (use G in \<open>simp_all add: pending_def [of _ t] sleeping_def [of _ t] destroying_def [of t] locking_def [of _ t] pc w' releases_def\<close>)
qed

lemma inv_destroy:
  assumes inv: "fd_inv s" and i: "i < length (fd_threads s)" and t: "t = fd_threads s ! i"
    and pc: "thr_pc t = Destroying n"
  shows "fd_inv ((fd_put i (t\<lparr>thr_pc := fd_goto n\<rparr>) s)\<lparr>fd_destroyed := fd_destroyed s + 1\<rparr>)"
proof -
  let ?t = "t\<lparr>thr_pc := fd_goto n\<rparr>"
  define s' where s': "s' = (fd_put i (t\<lparr>thr_pc := fd_goto n\<rparr>) s)\<lparr>fd_destroyed := fd_destroyed s + 1\<rparr>"
  have ok: "case n of Finish r \<Rightarrow> True | Call op \<Rightarrow> op = Closing | Destroy m \<Rightarrow> False"
    using fd_invD(7) [OF inv i] by (simp add: t [symmetric] thr_ok_def pc)
  have G: "pending rd ?t = 0" "sleeping rd ?t = 0" "destroying ?t = 0" "locking rd t = 0" "thr_ok ?t" for rd
    using ok by (auto simp: measure_defs fd_goto_def thr_ok_def need_def pc split: fd_next.splits)
  have eq: "fdmu_state s' = fdmu_state s" "fd_sema rd s' = fd_sema rd s" "gone s' = gone s" for rd
    by (simp_all add: s' fd_put_def fd_sema_def gone_def)
  have th: "fd_threads s' = (fd_threads s)[i := ?t]" "fd_destroyed s' = fd_destroyed s + 1"
    by (simp_all add: s' fd_put_def)
  show ?thesis
    unfolding s' [symmetric]
    by (rule inv_update [OF inv i t th(1) G(5)])
      (use G fd_invD(1,5) [OF inv] in \<open>auto simp: eq th(2) pending_def [of _ t] sleeping_def [of _ t] destroying_def [of t] pc\<close>)
qed

lemma inv_step:
  assumes "fd_inv s" and "fd_sched c i s = Some s'"
  shows "fd_inv s'"
proof -
  define t where t: "t = fd_threads s ! i"
  have i: "i < length (fd_threads s)" using assms(2) by (simp add: fd_sched_def split: if_splits)
  note I = assms(1) i t
  show ?thesis
  proof (cases "thr_pc t")
    case (Idle r)
    with inv_idle [OF I Idle] assms(2) i show ?thesis by (auto simp: fd_sched_def t [symmetric] Let_def split: if_splits)
  next
    case (Run op)
    with inv_load [OF I Run] assms(2) i show ?thesis by (auto simp: fd_sched_def t [symmetric] Let_def)
  next
    case (Try op old new)
    show ?thesis
    proof (cases "fdmu_state s = old")
      case True
      with Try have "thr_pc t = Try op (fdmu_state s) new" by simp
      from inv_cas [OF I this] assms(2) i Try True show ?thesis by (simp add: fd_sched_def t [symmetric] Let_def)
    next
      case False
      with inv_cas_fail [OF I Try] assms(2) i Try show ?thesis by (simp add: fd_sched_def t [symmetric] Let_def)
    qed
  next
    case (Asleep rd)
    with inv_asleep [OF I Asleep] assms(2) i show ?thesis by (auto simp: fd_sched_def t [symmetric] Let_def split: if_splits)
  next
    case (Signal rd b)
    with inv_signal [OF I Signal] assms(2) i show ?thesis by (simp add: fd_sched_def t [symmetric] Let_def)
  next
    case (Waking old)
    then show ?thesis
      using inv_waking [OF I Waking, of True] inv_waking [OF I Waking, of False] inv_waked [OF I Waking] assms(2) i
      by (auto simp: fd_sched_def t [symmetric] Let_def mask_tests mutexWait_def split: if_splits)
  next
    case (Destroying n)
    with inv_destroy [OF I Destroying] assms(2) i show ?thesis by (simp add: fd_sched_def t [symmetric] Let_def)
  next
    case (Panicked p)
    with assms(2) i show ?thesis by (simp add: fd_sched_def t [symmetric] Let_def)
  qed
qed

lemma tally_replicate: "fd_threads s = replicate n t \<Longrightarrow> f t = 0 \<Longrightarrow> tally f s = 0"
  by (simp add: tally_def sum_list_replicate)

lemma inv_init: "fd_inv (fd_init n)"
  unfolding fd_inv_def
  by (simp add: tally_def fd_init_def sum_list_replicate own_def holds_def measure_defs st_wf_def st_refs_def st_lock_def
      st_wait_def fd_sema_def gone_def st_closed_def thr_ok_def list_all_iff)

lemma reach_inv: "fd_reach n s \<Longrightarrow> fd_inv s"
  by (induction rule: fd_reach.induct) (auto intro: inv_init inv_step)

section \<open>Properties\<close>

lemma tally_zero: "tally f s = 0 \<Longrightarrow> t \<in> set (fd_threads s) \<Longrightarrow> f t = 0"
  by (auto simp: tally_def)

lemma tally_pos: "0 < tally f s \<Longrightarrow> \<exists>i < length (fd_threads s). 0 < f (fd_threads s ! i)"
  unfolding tally_def by (metis (no_types, lifting) gr0I in_set_conv_nth list.map_cong map_replicate_const
      sum_list_replicate mult_0_right map_eq_conv)

lemma tally_of_bool: "tally (\<lambda>t. of_bool (P t)) s = length (filter P (fd_threads s))"
proof -
  have "sum_list (map (\<lambda>t. of_bool (P t)) ts) = length (filter P ts)" for ts
    by (induction ts) simp_all
  then show ?thesis by (simp add: tally_def)
qed

lemma gone_iff_destroyed:
  assumes "fd_inv s"
  shows "fd_destroyed s \<le> 1" and "0 < fd_destroyed s \<Longrightarrow> gone s"
    and "gone s \<Longrightarrow> tally destroying s = 0 \<Longrightarrow> fd_destroyed s = 1"
  using fd_invD(6) [OF assms] by (auto simp: of_bool_def split: if_splits)

lemma idle_measures:
  assumes "list_all (\<lambda>t. case thr_pc t of Idle r \<Rightarrow> own t = 0 | _ \<Rightarrow> False) (fd_threads s)"
  shows "tally destroying s = 0" and "tally own s = 0"
proof -
  have "destroying t = 0 \<and> own t = 0" if "t \<in> set (fd_threads s)" for t
    using assms that by (auto simp: list_all_iff destroying_def split: fd_pc.splits)
  then show "tally destroying s = 0" "tally own s = 0"
    by (auto simp: tally_def sum_list_eq_0_iff)
qed

text \<open>
  C19. Safety of the descriptor lock in every interleaving of any number of threads calling the \<open>FD\<close>
  methods, with loads and compare-and-swaps as separate steps: at most one thread holds the read
  lock and at most one the write lock; the packed word counts exactly the references held; no
  thread meets the ``inconsistent'' panic; the descriptor is destroyed at most once, and then no
  thread holds a reference, so none operates on a destroyed descriptor; and once it is closed and
  every thread has given back what it held, it has been destroyed exactly once.
\<close>

theorem fdMutex_safe:
  assumes "fd_reach n s"
  shows "(\<forall>rd. length (filter (holds rd) (fd_threads s)) \<le> 1)
    \<and> st_refs (fdmu_state s) = sum_list (map own (fd_threads s))
    \<and> list_all (\<lambda>t. thr_pc t \<noteq> Panicked Inconsistent) (fd_threads s)
    \<and> fd_destroyed s \<le> 1
    \<and> (0 < fd_destroyed s \<longrightarrow> list_all (\<lambda>t. own t = 0) (fd_threads s))
    \<and> (st_closed (fdmu_state s)
         \<and> list_all (\<lambda>t. case thr_pc t of Idle r \<Rightarrow> own t = 0 | _ \<Rightarrow> False) (fd_threads s)
       \<longrightarrow> fd_destroyed s = 1)"
proof -
  have inv: "fd_inv s" by (rule reach_inv [OF assms])
  note D = fd_invD [OF inv] and G = gone_iff_destroyed [OF inv]
  have "length (filter (holds rd) (fd_threads s)) \<le> 1" for rd
    unfolding tally_of_bool [symmetric] D(3) [symmetric] by simp
  moreover have "list_all (\<lambda>t. thr_pc t \<noteq> Panicked Inconsistent) (fd_threads s)"
    using D(7) by (fastforce simp: list_all_length thr_ok_def)
  moreover have "list_all (\<lambda>t. own t = 0) (fd_threads s)" if "0 < fd_destroyed s"
    using G(2) [OF that] D(2) by (simp add: gone_def list_all_iff) (use tally_zero in metis)
  moreover have "fd_destroyed s = 1" if "st_closed (fdmu_state s)"
      "list_all (\<lambda>t. case thr_pc t of Idle r \<Rightarrow> own t = 0 | _ \<Rightarrow> False) (fd_threads s)"
    using G(3) idle_measures [OF that(2)] that(1) D(2) by (simp add: gone_def)
  ultimately show ?thesis using G(1) D(2) by (simp add: tally_def)
qed

fun fd_run :: "(fd_call \<times> nat) list \<Rightarrow> fd_sys \<Rightarrow> fd_sys option" where
  "fd_run [] s = Some s"
| "fd_run ((c, i) # es) s = (case fd_sched c i s of None \<Rightarrow> None | Some s' \<Rightarrow> fd_run es s')"

lemma fd_run_reach: "fd_reach n s \<Longrightarrow> fd_run es s = Some s' \<Longrightarrow> fd_reach n s'"
  by (induction es s rule: fd_run.induct) (auto split: option.splits intro: fd_reach.step)

lemma waiting_schedule:
  "fd_run [(FD_readLock, 0), (FD_readLock, 0), (FD_readLock, 0), (FD_readLock, 1), (FD_readLock, 1), (FD_readLock, 1)]
    (fd_init 2) = Some \<lparr>fdmu_state = 8388618, fdmu_rsema = 0, fdmu_wsema = 0, fd_destroyed = 0, fd_threads =
      [\<lparr>thr_call = FD_readLock, thr_pc = Idle Ok, thr_refs = 0, thr_r = True, thr_w = False\<rparr>,
       \<lparr>thr_call = FD_readLock, thr_pc = Asleep True, thr_refs = 0, thr_r = False, thr_w = False\<rparr>]\<rparr>"
  by code_simp

theorem fdMutex_safe_witness:
  "length (filter (holds True) [\<lparr>thr_call = FD_readLock, thr_pc = Idle Ok, thr_refs = 0, thr_r = True, thr_w = False\<rparr>,
     \<lparr>thr_call = FD_readLock, thr_pc = Asleep True, thr_refs = 0, thr_r = False, thr_w = False\<rparr>]) \<le> 1
   \<and> st_refs 8388618 = 1"
  using fdMutex_safe [OF fd_run_reach [OF fd_reach.init waiting_schedule]] by (simp add: own_def)

text \<open>A sleeper whose semaphore has been released goes on; the release loops get to every waiter.\<close>

lemma sched_asleep:
  assumes "i < length (fd_threads s)" and "thr_pc (fd_threads s ! i) = Asleep rd" and "0 < fd_sema rd s"
  shows "\<exists>s'. fd_sched c i s = Some s' \<and> thr_pc (fd_threads s' ! i) = Run (Rwlock rd True)"
  using assms by (simp add: fd_sched_def Let_def fd_set_sema_def fd_put_def)

lemma sched_waking:
  assumes "j < length (fd_threads s)" and "thr_pc (fd_threads s ! j) = Waking old"
    and "0 < st_wait rd old" and "rd \<or> st_wait True old = 0"
  shows "fd_sched c j s =
    Some (fd_set_sema rd (fd_sema rd s + 1) (fd_put j ((fd_threads s ! j)\<lparr>thr_pc := Waking (old - mutexWait rd)\<rparr>) s))"
  using assms by (cases rd) (simp_all add: fd_sched_def Let_def mask_tests mutexWait_def)

lemma threads_sema [simp]: "fd_threads (fd_set_sema rd n (fd_put j t s)) = (fd_threads s)[j := t]"
  by (simp add: fd_set_sema_def fd_put_def)

lemma sema_sema [simp]: "fd_sema rd (fd_set_sema rd n s) = n"
  by (simp add: fd_sema_def fd_set_sema_def)

lemma waking_releases:
  assumes "j < length (fd_threads s)" and "thr_pc (fd_threads s ! j) = Waking old" and "st_wf old" and "0 < st_wait rd old"
  shows "\<exists>m s'. fd_run (replicate m (c, j)) s = Some s' \<and> 0 < fd_sema rd s' \<and> length (fd_threads s') = length (fd_threads s)
    \<and> (\<forall>k. k \<noteq> j \<longrightarrow> fd_threads s' ! k = fd_threads s ! k)"
  using assms
proof (induction "st_wait True old" arbitrary: old s)
  case 0
  let ?s = "fd_set_sema rd (fd_sema rd s + 1) (fd_put j ((fd_threads s ! j)\<lparr>thr_pc := Waking (old - mutexWait rd)\<rparr>) s)"
  have "fd_run (replicate 1 (c, j)) s = Some ?s" using sched_waking [OF 0(2,3,5), of c] 0(1) by simp
  moreover have "0 < fd_sema rd ?s" "length (fd_threads ?s) = length (fd_threads s)"
    "\<forall>k. k \<noteq> j \<longrightarrow> fd_threads ?s ! k = fd_threads s ! k" by simp_all
  ultimately show ?case by blast
next
  case (Suc n)
  let ?old = "old - mutexWait True"
  let ?s = "fd_set_sema True (fd_sema True s + 1) (fd_put j ((fd_threads s ! j)\<lparr>thr_pc := Waking ?old\<rparr>) s)"
  have w: "0 < st_wait True old" using Suc(2) by simp
  have step: "fd_sched c j s = Some ?s" using sched_waking [OF Suc(3,4) w, of c] by simp
  note W = waking_step [OF Suc(5) w]
  show ?case
  proof (cases rd)
    case True
    have "fd_run (replicate 1 (c, j)) s = Some ?s" using step by simp
    moreover have "0 < fd_sema rd ?s" "length (fd_threads ?s) = length (fd_threads s)"
      "\<forall>k. k \<noteq> j \<longrightarrow> fd_threads ?s ! k = fd_threads s ! k" using True by simp_all
    ultimately show ?thesis by blast
  next
    case False
    have "n = st_wait True ?old" "0 < st_wait rd ?old" using W(2) [of True] W(2) [of rd] Suc(2,6) False by simp_all
    moreover have "j < length (fd_threads ?s)" "thr_pc (fd_threads ?s ! j) = Waking ?old" using Suc(3) by simp_all
    ultimately obtain m s' where m: "fd_run (replicate m (c, j)) ?s = Some s'" "0 < fd_sema rd s'"
        "length (fd_threads s') = length (fd_threads ?s)" "\<forall>k. k \<noteq> j \<longrightarrow> fd_threads s' ! k = fd_threads ?s ! k"
      using Suc(1) [of ?old ?s] W(1) by blast
    have "fd_run (replicate (Suc m) (c, j)) s = Some s'" using step m(1) by simp
    moreover have "length (fd_threads s') = length (fd_threads s)" "\<forall>k. k \<noteq> j \<longrightarrow> fd_threads s' ! k = fd_threads s ! k"
      using m(3,4) by simp_all
    ultimately show ?thesis using m(2) by blast
  qed
qed

lemma pending_releases:
  assumes "fd_inv s" and "j < length (fd_threads s)" and "0 < pending rd (fd_threads s ! j)"
  shows "\<exists>m s'. fd_run (replicate m (c, j)) s = Some s' \<and> 0 < fd_sema rd s' \<and> length (fd_threads s') = length (fd_threads s)
    \<and> (\<forall>k. k \<noteq> j \<longrightarrow> fd_threads s' ! k = fd_threads s ! k)"
proof (cases "thr_pc (fd_threads s ! j)")
  case (Signal x b)
  let ?s = "fd_set_sema rd (fd_sema rd s + 1)
    (fd_put j ((fd_threads s ! j)\<lparr>thr_pc := fd_goto (fd_then (thr_call (fd_threads s ! j)) (Rwunlock rd) b)\<rparr>) s)"
  have "x = rd" using assms(3) Signal by (simp add: pending_def split: if_splits)
  then have "fd_run (replicate 1 (c, j)) s = Some ?s" using Signal assms(2) by (simp add: fd_sched_def Let_def)
  moreover have "0 < fd_sema rd ?s" "length (fd_threads ?s) = length (fd_threads s)"
    "\<forall>k. k \<noteq> j \<longrightarrow> fd_threads ?s ! k = fd_threads s ! k" by simp_all
  ultimately show ?thesis by blast
next
  case (Waking old)
  have "st_wf old" using fd_invD(7) [OF assms(1,2)] Waking by (simp add: thr_ok_def)
  moreover have "0 < st_wait rd old" using assms(3) Waking by (simp add: pending_def)
  ultimately show ?thesis using waking_releases [OF assms(2) Waking] by blast
qed (use assms(3) in \<open>simp_all add: pending_def\<close>)

lemma fd_run_append: "fd_run (es @ fs) s = (case fd_run es s of None \<Rightarrow> None | Some s' \<Rightarrow> fd_run fs s')"
  by (induction es s rule: fd_run.induct) (auto split: option.split)

text \<open>Some thread wakes \<open>i\<close>: after \<open>m\<close> steps of it, in its release of the semaphore, \<open>i\<close> can go on.\<close>

definition fd_wakes :: "fd_call \<Rightarrow> bool \<Rightarrow> nat \<Rightarrow> fd_sys \<Rightarrow> bool" where
  "fd_wakes c rd i s \<longleftrightarrow> (\<exists>j m s'. j < length (fd_threads s)
     \<and> (m = 0 \<or> (\<exists>b. thr_pc (fd_threads s ! j) = Signal rd b) \<or> (\<exists>old. thr_pc (fd_threads s ! j) = Waking old))
     \<and> fd_run (replicate m (c, j) @ [(c, i)]) s = Some s' \<and> thr_pc (fd_threads s' ! i) = Run (Rwlock rd True))"

lemma pending_wakes:
  assumes "fd_inv s" and "i < length (fd_threads s)" and "thr_pc (fd_threads s ! i) = Asleep rd"
    and "0 < fd_sema rd s + tally (pending rd) s"
  shows "fd_wakes c rd i s"
proof (cases "0 < fd_sema rd s")
  case True
  then obtain s' where "fd_sched c i s = Some s'" "thr_pc (fd_threads s' ! i) = Run (Rwlock rd True)"
    using sched_asleep [OF assms(2,3), of c] by blast
  then show ?thesis unfolding fd_wakes_def using assms(2) by (intro exI [of _ i] exI [of _ 0] exI [of _ s']) simp
next
  case False
  then obtain j where j: "j < length (fd_threads s)" "0 < pending rd (fd_threads s ! j)"
    using tally_pos [of "pending rd" s] assms(4) by auto
  obtain m s1 where m: "fd_run (replicate m (c, j)) s = Some s1" "0 < fd_sema rd s1" "length (fd_threads s1) = length (fd_threads s)"
      "\<forall>k. k \<noteq> j \<longrightarrow> fd_threads s1 ! k = fd_threads s ! k"
    using pending_releases [OF assms(1) j, of c] by blast
  have "i \<noteq> j" using j(2) assms(3) by (auto simp: pending_def)
  then have "fd_threads s1 ! i = fd_threads s ! i" using m(4) by simp
  then obtain s' where s': "fd_sched c i s1 = Some s'" "thr_pc (fd_threads s' ! i) = Run (Rwlock rd True)"
    using sched_asleep [of i s1 rd c] m(2,3) assms(2,3) by auto
  have pc: "(\<exists>b. thr_pc (fd_threads s ! j) = Signal rd b) \<or> (\<exists>old. thr_pc (fd_threads s ! j) = Waking old)"
    using j(2) by (cases "thr_pc (fd_threads s ! j)") (auto simp: pending_def split: if_splits)
  have "fd_run (replicate m (c, j) @ [(c, i)]) s = Some s'" using m(1) s'(1) by (simp add: fd_run_append)
  then show ?thesis unfolding fd_wakes_def using j(1) pc s'(2) by blast
qed

lemma no_lost_wakeup:
  assumes inv: "fd_inv s" and i: "i < length (fd_threads s)" "thr_pc (fd_threads s ! i) = Asleep rd"
  shows "fd_wakes c rd i s \<or> \<not> st_closed (fdmu_state s) \<and> (\<exists>u \<in> set (fd_threads s).
      holds rd u \<or> thr_pc u = Run (Rwlock rd True) \<or> (\<exists>old new. thr_pc u = Try (Rwlock rd True) old new)
      \<or> thr_pc u = Panicked Overflow)"
proof (cases "0 < fd_sema rd s + tally (pending rd) s")
  case True
  then show ?thesis using pending_wakes [OF inv i True, of c] by simp
next
  case False
  note D = fd_invD [OF inv]
  have "sleeping rd (fd_threads s ! i) \<le> tally (sleeping rd) s" by (rule tally_ge [OF i(1)])
  then have w: "0 < st_wait rd (fdmu_state s)" using D(4) [of rd] i(2) False by (simp add: sleeping_def)
  then have nc: "\<not> st_closed (fdmu_state s)" using D(5) [of rd] by auto
  have "\<forall>rd. 0 < st_wait rd (fdmu_state s) \<longrightarrow>
        0 < of_bool (st_lock rd (fdmu_state s)) + fd_sema rd s + tally (pending rd) s + tally (locking rd) s"
    using inv unfolding fd_inv_def by (elim conjE)
  from this [rule_format, OF w] False
  consider "st_lock rd (fdmu_state s)" | "0 < tally (locking rd) s" by (cases "st_lock rd (fdmu_state s)") auto
  then show ?thesis
  proof cases
    case 1
    then have "0 < tally (\<lambda>t. of_bool (holds rd t)) s" using D(3) [of rd] by simp
    from tally_pos [OF this] obtain j where "j < length (fd_threads s)" "holds rd (fd_threads s ! j)" by auto
    then show ?thesis using nc by (metis nth_mem)
  next
    case 2
    from tally_pos [OF this] obtain j where j: "j < length (fd_threads s)" "0 < locking rd (fd_threads s ! j)" by blast
    let ?u = "fd_threads s ! j"
    have "thr_pc ?u = Run (Rwlock rd True) \<or> (\<exists>old new. thr_pc ?u = Try (Rwlock rd True) old new) \<or> thr_pc ?u = Panicked Overflow"
      using j(2) fd_invD(7) [OF inv j(1)] by (cases "thr_pc ?u") (auto simp: locking_def thr_ok_def split: if_splits)
    then show ?thesis using nc j(1) nth_mem by blast
  qed
qed

text \<open>
  C20. No wake-up is lost.  In every reachable state in which a thread sleeps in \<open>rwlock\<close>, its wake-up is on the way:
  its semaphore has been released, or a thread is releasing semaphores after \<open>rwunlock\<close> or \<open>increfAndClose\<close> and after some steps
  of it the sleeper goes on to try for the lock again; or else the descriptor is not closed, and a thread holds that lock, or is
  in \<open>rwlock\<close> trying for it, or has panicked because the reference count or the count of waiters overflowed.  Once the descriptor is
  closed the first is the case, so \<open>Close\<close> strands no reader or writer.
\<close>

theorem fdMutex_no_lost_wakeup:
  assumes "fd_reach n s" and "i < length (fd_threads s)" and "thr_pc (fd_threads s ! i) = Asleep rd"
  shows "fd_wakes c rd i s \<or> \<not> st_closed (fdmu_state s) \<and> (\<exists>u \<in> set (fd_threads s).
      holds rd u \<or> thr_pc u = Run (Rwlock rd True) \<or> (\<exists>old new. thr_pc u = Try (Rwlock rd True) old new)
      \<or> thr_pc u = Panicked Overflow)"
  by (rule no_lost_wakeup [OF reach_inv [OF assms(1)] assms(2,3)])

theorem fdMutex_no_lost_wakeup_witness:
  "let s = \<lparr>fdmu_state = 8388618, fdmu_rsema = 0, fdmu_wsema = 0, fd_destroyed = 0, fd_threads =
      [\<lparr>thr_call = FD_readLock, thr_pc = Idle Ok, thr_refs = 0, thr_r = True, thr_w = False\<rparr>,
       \<lparr>thr_call = FD_readLock, thr_pc = Asleep True, thr_refs = 0, thr_r = False, thr_w = False\<rparr>]\<rparr> in
   fd_wakes FD_incref True 1 s \<or> \<not> st_closed (fdmu_state s) \<and> (\<exists>u \<in> set (fd_threads s).
      holds True u \<or> thr_pc u = Run (Rwlock True True) \<or> (\<exists>old new. thr_pc u = Try (Rwlock True True) old new)
      \<or> thr_pc u = Panicked Overflow)"
  unfolding Let_def
  by (rule fdMutex_no_lost_wakeup [OF fd_run_reach [OF fd_reach.init waiting_schedule]]) simp_all

end
