(* ===== verification/Heap.thy ===== *)
theory Heap
  imports Sort
begin

text \<open>
  Package \<open>container/heap\<close>.  \<open>heap.Interface\<close> embeds \<open>sort.Interface\<close> and adds \<open>Push\<close> and \<open>Pop\<close> at the end of
  the collection; indices are natural numbers below \<open>Len\<close>, which is at most the largest \<open>int\<close>, so that
  \<open>2*i + 1\<close> does not wrap in the model and the test for a wrapped index falls under \<open>n <= j1\<close>.
\<close>

record ('s, 'x) heap_Interface =
  heap_sort :: "'s Interface"
  heap_push :: "'s \<Rightarrow> 'x \<Rightarrow> 's"
  heap_pop :: "'s \<Rightarrow> 's \<times> 'x"

abbreviation heap_Len :: "('s, 'x) heap_Interface \<Rightarrow> 's \<Rightarrow> nat" where
  "heap_Len h \<equiv> Len (heap_sort h)"

abbreviation heap_Less :: "('s, 'x) heap_Interface \<Rightarrow> 's \<Rightarrow> nat \<Rightarrow> nat \<Rightarrow> bool" where
  "heap_Less h \<equiv> Less (heap_sort h)"

abbreviation heap_Swap :: "('s, 'x) heap_Interface \<Rightarrow> 's \<Rightarrow> nat \<Rightarrow> nat \<Rightarrow> 's" where
  "heap_Swap h \<equiv> Swap (heap_sort h)"

function heap_up :: "('s, 'x) heap_Interface \<Rightarrow> 's \<Rightarrow> nat \<Rightarrow> 's" where
  "heap_up h s j =
     (let i = (j - 1) div 2 in
      if i = j \<or> \<not> heap_Less h s j i then s else heap_up h (heap_Swap h s i j) i)"
  by pat_completeness auto
termination by (relation "measure (\<lambda>(h, s, j). j)") auto

text \<open>The code also stops when \<open>j1 < 0\<close>, after an overflow of \<open>2*i + 1\<close>; here \<open>j1\<close> does not wrap and is then beyond \<open>n\<close>.\<close>

function heap_down_loop :: "('s, 'x) heap_Interface \<Rightarrow> nat \<Rightarrow> 's \<Rightarrow> nat \<Rightarrow> 's \<times> nat" where
  "heap_down_loop h n s i =
     (let j1 = 2 * i + 1 in
      if n \<le> j1 then (s, i)
      else
        let j2 = j1 + 1; j = (if j2 < n \<and> heap_Less h s j2 j1 then j2 else j1) in
        if \<not> heap_Less h s j i then (s, i) else heap_down_loop h n (heap_Swap h s i j) j)"
  by pat_completeness auto
termination by (relation "measure (\<lambda>(h, n, s, i). n - i)") auto

declare heap_up.simps [simp del] heap_down_loop.simps [simp del]

definition heap_down :: "('s, 'x) heap_Interface \<Rightarrow> 's \<Rightarrow> nat \<Rightarrow> nat \<Rightarrow> 's \<times> bool" where
  "heap_down h s i0 n = (let (s, i) = heap_down_loop h n s i0 in (s, i0 < i))"

fun heap_Init_loop :: "('s, 'x) heap_Interface \<Rightarrow> nat \<Rightarrow> nat \<Rightarrow> 's \<Rightarrow> 's" where
  "heap_Init_loop h n 0 s = s"
| "heap_Init_loop h n (Suc i) s = heap_Init_loop h n i (fst (heap_down h s i n))"

definition heap_Init :: "('s, 'x) heap_Interface \<Rightarrow> 's \<Rightarrow> 's" where
  "heap_Init h s = (let n = heap_Len h s in heap_Init_loop h n (n div 2) s)"

definition heap_Push :: "('s, 'x) heap_Interface \<Rightarrow> 's \<Rightarrow> 'x \<Rightarrow> 's" where
  "heap_Push h s x = (let s = heap_push h s x in heap_up h s (heap_Len h s - 1))"

definition heap_Pop :: "('s, 'x) heap_Interface \<Rightarrow> 's \<Rightarrow> 's \<times> 'x" where
  "heap_Pop h s =
     (let n = heap_Len h s - 1; s = heap_Swap h s 0 n; (s, b) = heap_down h s 0 n in heap_pop h s)"

definition heap_Fix :: "('s, 'x) heap_Interface \<Rightarrow> 's \<Rightarrow> nat \<Rightarrow> 's" where
  "heap_Fix h s i = (let (s, b) = heap_down h s i (heap_Len h s) in if \<not> b then heap_up h s i else s)"

definition heap_Remove :: "('s, 'x) heap_Interface \<Rightarrow> 's \<Rightarrow> nat \<Rightarrow> 's \<times> 'x" where
  "heap_Remove h s i =
     (let n = heap_Len h s - 1;
          s = (if n \<noteq> i then
                 let s = heap_Swap h s i n; (s, b) = heap_down h s i n in
                 if \<not> b then heap_up h s i else s
               else s) in
      heap_pop h s)"

text \<open>A heap stored in a slice, as \<open>IntHeap\<close> of the package's example.\<close>

definition slice_heap :: "('a \<Rightarrow> 'a \<Rightarrow> bool) \<Rightarrow> ('a list, 'a) heap_Interface" where
  "slice_heap lt = \<lparr>heap_sort = slice_Interface lt, heap_push = (\<lambda>xs x. xs @ [x]), heap_pop = (\<lambda>xs. (butlast xs, last xs))\<rparr>"

end
