(* ===== verification/Heap_Correct.thy ===== *)
theory Heap_Correct
  imports Heap Sort_Correct
begin

text \<open>
  The heap operations over any implementation of \<open>heap.Interface\<close> (locale \<open>heap_interface\<close>, an extension of
  \<open>sort_interface\<close>), the abstract priority queue they implement (locale \<open>priority_queue\<close>, of which every
  heap interface is an instance) and the properties.  Sifting down is the \<open>sift\<close> of heap sort under the
  reversed order, so its correctness is taken from there.
\<close>

section \<open>The contract\<close>

text \<open>What \<open>heap.Interface\<close> promises beyond \<open>sort.Interface\<close>: \<open>Push\<close> and \<open>Pop\<close> work at the end.\<close>

locale heap_interface = sort_interface lt "heap_sort h" elems
  for lt :: "'a \<Rightarrow> 'a \<Rightarrow> bool" and h :: "('s, 'a) heap_Interface" and elems :: "'s \<Rightarrow> 'a list" +
  assumes push: "elems (heap_push h s x) = elems s @ [x]"
    and pop: "elems s \<noteq> [] \<Longrightarrow> elems (fst (heap_pop h s)) = butlast (elems s) \<and> snd (heap_pop h s) = last (elems s)"

text \<open>The heap order on a prefix, and the order but for the pair of \<open>j\<close> and its parent.\<close>

definition heap_ordered :: "('a \<Rightarrow> 'a \<Rightarrow> bool) \<Rightarrow> nat \<Rightarrow> 'a list \<Rightarrow> bool" where
  "heap_ordered lt n xs \<longleftrightarrow> (\<forall>i c. c < n \<and> (c = 2 * i + 1 \<or> c = 2 * i + 2) \<longrightarrow> \<not> lt (xs ! c) (xs ! i))"

definition up_hole :: "('a \<Rightarrow> 'a \<Rightarrow> bool) \<Rightarrow> nat \<Rightarrow> nat \<Rightarrow> 'a list \<Rightarrow> bool" where
  "up_hole lt n j xs \<longleftrightarrow>
     (\<forall>i c. c < n \<and> (c = 2 * i + 1 \<or> c = 2 * i + 2) \<and> c \<noteq> j \<longrightarrow> \<not> lt (xs ! c) (xs ! i))
     \<and> (\<forall>c. c < n \<and> (c = 2 * j + 1 \<or> c = 2 * j + 2) \<and> 0 < j \<longrightarrow> \<not> lt (xs ! c) (xs ! ((j - 1) div 2)))"

lemma heap_ordered_except: "heap_ordered lt n xs \<longleftrightarrow> heap_except (\<lambda>x y. lt y x) 0 0 n {} xs"
  by (auto simp: heap_ordered_def heap_except_def)

lemma child_parent: "(c :: nat) = 2 * i + 1 \<or> c = 2 * i + 2 \<longleftrightarrow> 0 < c \<and> i = (c - 1) div 2"
  by auto

context heap_interface
begin

lemma rev_interface: "sort_interface (\<lambda>x y. lt y x) (sort_Reverse (heap_sort h)) elems"
proof unfold_locales
  show "\<not> lt x y" if "lt y x" for x y using that by (rule asym)
  show "\<not> lt z x" if "\<not> lt y x" "\<not> lt z y" for x y z using that(2,1) by (rule negtrans)
qed (simp_all add: sort_Reverse_def Len Less Swap)

lemma down_sift: "fst (heap_down_loop h n s i) = sift (sort_Reverse (heap_sort h)) s i n 0"
proof (induction h n s i rule: heap_down_loop.induct)
  case (1 h n s i)
  show ?case
    by (subst heap_down_loop.simps, subst sift.simps) (auto simp: Let_def sort_Reverse_def 1)
qed

lemma up_spec:
  assumes "up_hole lt n j (elems s)" and "j < n" and "n \<le> length (elems s)"
  shows "heap_ordered lt n (elems (heap_up h s j)) \<and> rearr 0 n (elems s) (elems (heap_up h s j))"
  using assms
proof (induction j arbitrary: s rule: less_induct)
  case (less j)
  let ?x = "elems s"
  define k where k: "k = (j - 1) div 2"
  have L: "heap_Less h s j k = lt (?x ! j) (?x ! k)" using less.prems by (intro Less) (auto simp: k)
  show ?case
  proof (cases "j = 0 \<or> \<not> lt (?x ! j) (?x ! k)")
    case True
    then have "heap_up h s j = s" using L by (subst heap_up.simps) (auto simp: Let_def k)
    moreover have "heap_ordered lt n ?x"
      using less.prems(1) True unfolding heap_ordered_def up_hole_def child_parent k by (metis less_numeral_extra(3))
    ultimately show ?thesis by simp
  next
    case False
    then have i: "k < j" "k \<noteq> j" by (auto simp: k)
    let ?s = "heap_Swap h s k j"
    have e: "elems ?s = list_swap ?x k j" using less.prems i by (intro Swap) auto
    have y: "elems ?s ! q = (if q = j then ?x ! k else if q = k then ?x ! j else ?x ! q)" for q
      using less.prems i by (simp add: e nth_list_swap)
    have r: "rearr 0 n ?x (elems ?s)" unfolding e using less.prems i by (intro rearr_swap) auto
    have up: "heap_up h s j = heap_up h ?s k" using False L i by (subst heap_up.simps) (simp only: k [symmetric] Let_def, simp)
    have H1: "\<not> lt (?x ! c) (?x ! ((c - 1) div 2))" if "c < n" "0 < c" "c \<noteq> j" for c
      using less.prems(1) that unfolding up_hole_def child_parent by blast
    have H2: "\<not> lt (?x ! c) (?x ! k)" if "c < n" "0 < c" "(c - 1) div 2 = j" for c
    proof -
      have "\<forall>c. c < n \<and> (0 < c \<and> j = (c - 1) div 2) \<and> 0 < j \<longrightarrow> \<not> lt (?x ! c) (?x ! k)"
        using less.prems(1) unfolding up_hole_def child_parent k by (rule conjunct2)
      from this [rule_format, of c] that False show ?thesis by auto
    qed
    have "up_hole lt n k (elems ?s)"
      unfolding up_hole_def child_parent
    proof (intro conjI allI impI; elim conjE)
      fix p c assume c: "c < n" "0 < c" "p = (c - 1) div 2" "c \<noteq> k"
      then have pc: "p \<noteq> c" by auto
      show "\<not> lt (elems ?s ! c) (elems ?s ! p)"
      proof (cases "c = j")
        case True
        then have "p = k" using c by (simp add: k)
        then show ?thesis using True i False asym [of "?x ! j" "?x ! k"] by (simp add: y)
      next
        case cj: False
        show ?thesis
        proof (cases "p = j")
          case True
          then have "\<not> lt (?x ! c) (?x ! k)" using H2 [of c] c by simp
          then show ?thesis using True cj c(4) unfolding y by simp
        next
          case pj: False
          show ?thesis
          proof (cases "p = k")
            case True
            have "\<not> lt (?x ! k) (?x ! j)" using False asym by blast
            moreover have "\<not> lt (?x ! c) (?x ! k)" using H1 [of c] c cj True by simp
            ultimately have "\<not> lt (?x ! c) (?x ! j)" using negtrans by blast
            then show ?thesis using True cj c(4) i unfolding y by simp
          next
            case False
            with H1 [of c] c cj pj have "\<not> lt (?x ! c) (?x ! p)" by simp
            then show ?thesis using False cj c(4) pj unfolding y by simp
          qed
        qed
      qed
    next
      fix c assume c: "c < n" "0 < c" "k = (c - 1) div 2" "0 < k"
      let ?g = "(k - 1) div 2"
      have "?g < k" using c(4) by auto
      moreover have "k < c" using c(2) unfolding c(3) by auto
      ultimately have g: "?g \<noteq> k" "?g \<noteq> j" "c \<noteq> k" using i by auto
      have gi: "\<not> lt (?x ! k) (?x ! ?g)" using H1 [of k] c(4) i less.prems by auto
      show "\<not> lt (elems ?s ! c) (elems ?s ! ?g)"
      proof (cases "c = j")
        case True
        with g gi i show ?thesis unfolding y by simp
      next
        case cj: False
        then have "\<not> lt (?x ! c) (?x ! k)" using H1 [of c] c by simp
        then have "\<not> lt (?x ! c) (?x ! ?g)" using gi negtrans by blast
        then show ?thesis using cj g unfolding y by simp
      qed
    qed
    from less.IH [OF i(1) this] less.prems i rearr_length [OF r]
    have "heap_ordered lt n (elems (heap_up h ?s k)) \<and> rearr 0 n (elems ?s) (elems (heap_up h ?s k))" by simp
    with up r show ?thesis by (auto intro: rearr_trans)
  qed
qed

lemma down_moved:
  "i \<le> snd (heap_down_loop h n s i) \<and> (snd (heap_down_loop h n s i) = i \<longrightarrow> fst (heap_down_loop h n s i) = s)"
proof (induction h n s i rule: heap_down_loop.induct)
  case (1 h n s i)
  define j where j: "j = (if 2 * i + 1 + 1 < n \<and> heap_Less h s (2 * i + 1 + 1) (2 * i + 1) then 2 * i + 1 + 1 else 2 * i + 1)"
  have eq: "heap_down_loop h n s i = (if n \<le> 2 * i + 1 \<or> \<not> heap_Less h s j i then (s, i)
      else heap_down_loop h n (heap_Swap h s i j) j)"
    by (subst heap_down_loop.simps) (simp only: j [symmetric] Let_def, simp)
  have "i < j" by (simp add: j)
  then show ?case using 1 [OF refl _ refl j] unfolding eq by (auto dest: order_less_le_trans)
qed

lemma down_spec:
  assumes "heap_except (\<lambda>x y. lt y x) 0 lo n {i} (elems s)" and "lo \<le> i" and "n \<le> length (elems s)"
    and "lo = i \<or> (\<forall>c. c < n \<and> (c = 2 * i + 1 \<or> c = 2 * i + 2) \<and> 0 < i \<longrightarrow> \<not> lt (elems s ! c) (elems s ! ((i - 1) div 2)))"
  shows "heap_except (\<lambda>x y. lt y x) 0 lo n {} (elems (fst (heap_down h s i n)))"
    and "rearr 0 n (elems s) (elems (fst (heap_down h s i n)))"
proof -
  have f: "fst (heap_down h s i n) = sift (sort_Reverse (heap_sort h)) s i n 0"
    using down_sift by (simp add: heap_down_def case_prod_beta Let_def)
  have "\<forall>p c. lo \<le> p \<and> (i = 2 * p + 1 \<or> i = 2 * p + 2) \<and> c < n \<and> (c = 2 * i + 1 \<or> c = 2 * i + 2)
         \<longrightarrow> \<not> lt (elems s ! (0 + c)) (elems s ! (0 + p))"
    using assms(4) unfolding child_parent [of i] by auto
  from sort_interface.sift_spec [OF rev_interface assms(1,2) _ this] assms(3)
  show "heap_except (\<lambda>x y. lt y x) 0 lo n {} (elems (fst (heap_down h s i n)))"
    "rearr 0 n (elems s) (elems (fst (heap_down h s i n)))" by (simp_all add: f)
qed

lemma heap_ordered_up_hole:
  assumes "heap_ordered lt n xs" and "j < n"
  shows "up_hole lt n j xs"
  unfolding up_hole_def
proof (intro conjI allI impI; elim conjE)
  fix c assume c: "c < n" "c = 2 * j + 1 \<or> c = 2 * j + 2" "0 < j"
  then have "\<not> lt (xs ! c) (xs ! j)" "\<not> lt (xs ! j) (xs ! ((j - 1) div 2))"
    using assms unfolding heap_ordered_def child_parent by blast+
  then show "\<not> lt (xs ! c) (xs ! ((j - 1) div 2))" by (rule negtrans)
qed (use assms in \<open>auto simp: heap_ordered_def\<close>)

lemma fix_spec:
  assumes A: "\<And>c. c < n \<Longrightarrow> 0 < c \<Longrightarrow> c \<noteq> i \<Longrightarrow> (c - 1) div 2 \<noteq> i \<Longrightarrow> \<not> lt (elems s ! c) (elems s ! ((c - 1) div 2))"
    and B: "\<And>c. c < n \<Longrightarrow> 0 < c \<Longrightarrow> (c - 1) div 2 = i \<Longrightarrow> 0 < i \<Longrightarrow> \<not> lt (elems s ! c) (elems s ! ((i - 1) div 2))"
    and i: "i < n" "n \<le> length (elems s)" and d: "heap_down h s i n = (s', b)"
    and t: "t = (if \<not> b then heap_up h s' i else s')"
  shows "heap_ordered lt n (elems t)" and "rearr 0 n (elems s) (elems t)"
proof -
  let ?x = "elems s"
  have un: "\<not> b \<Longrightarrow> s' = s"
    using d down_moved [of i n s] by (auto simp: heap_down_def case_prod_beta Let_def)
  have "heap_ordered lt n (elems t) \<and> rearr 0 n (elems s) (elems t)"
  proof (cases "0 < i \<and> lt (?x ! i) (?x ! ((i - 1) div 2))")
    case True
    have leaf: "\<not> lt (?x ! c) (?x ! i)" if "c < n" "0 < c" "(c - 1) div 2 = i" for c
      using B [OF that] True by (metis asym negtrans)
    have "heap_down_loop h n s i = (s, i)"
    proof -
      define j where j: "j = (if 2 * i + 1 + 1 < n \<and> heap_Less h s (2 * i + 1 + 1) (2 * i + 1) then 2 * i + 1 + 1 else 2 * i + 1)"
      have "\<not> heap_Less h s j i" if "\<not> n \<le> 2 * i + 1"
      proof -
        have "j < n" "0 < j" "(j - 1) div 2 = i" using that by (auto simp: j)
        with leaf [of j] Less [of j s i] i show ?thesis by simp
      qed
      then show ?thesis by (subst heap_down_loop.simps) (simp only: j [symmetric] Let_def, auto)
    qed
    with d have "b = False" "s' = s" by (simp_all add: heap_down_def)
    moreover have "up_hole lt n i ?x"
      unfolding up_hole_def child_parent
    proof (intro conjI allI impI; elim conjE)
      fix p c assume c: "c < n" "0 < c" "p = (c - 1) div 2" "c \<noteq> i"
      then show "\<not> lt (?x ! c) (?x ! p)" using A [of c] leaf [of c] by (cases "p = i") auto
    qed (use B in blast)
    ultimately show ?thesis using up_spec [OF _ i] t by simp
  next
    case False
    have "heap_except (\<lambda>x y. lt y x) 0 0 n {i} ?x"
      unfolding heap_except_def child_parent
    proof (intro allI impI; elim conjE)
      fix p c assume c: "p \<notin> {i}" "c < n" "0 < c" "p = (c - 1) div 2"
      then show "\<not> lt (?x ! (0 + c)) (?x ! (0 + p))" using A [of c] False by (cases "c = i") auto
    qed
    moreover have "\<forall>c. c < n \<and> (c = 2 * i + 1 \<or> c = 2 * i + 2) \<and> 0 < i \<longrightarrow> \<not> lt (?x ! c) (?x ! ((i - 1) div 2))"
      using B unfolding child_parent by blast
    ultimately have D: "heap_ordered lt n (elems s')" "rearr 0 n ?x (elems s')"
      using down_spec [of 0 n i s] i(2) d by (simp_all add: heap_ordered_except)
    show ?thesis
    proof (cases b)
      case True
      then show ?thesis using D t by simp
    next
      case False
      with up_spec [OF heap_ordered_up_hole [OF D(1) i(1)] i(1)] un t i(2) show ?thesis by simp
    qed
  qed
  then show "heap_ordered lt n (elems t)" "rearr 0 n (elems s) (elems t)" by blast+
qed

lemma rearr_mset: "rearr a b xs ys \<Longrightarrow> mset ys = mset xs"
  by (simp add: rearr_def)

lemma Init_loop_spec:
  assumes "heap_except (\<lambda>x y. lt y x) 0 i n {} (elems s)" and "n \<le> length (elems s)"
  shows "heap_ordered lt n (elems (heap_Init_loop h n i s)) \<and> rearr 0 n (elems s) (elems (heap_Init_loop h n i s))"
  using assms
proof (induction i arbitrary: s)
  case 0
  then show ?case by (simp add: heap_ordered_except)
next
  case (Suc i)
  let ?s = "fst (heap_down h s i n)"
  have "heap_except (\<lambda>x y. lt y x) 0 i n {i} (elems s)"
    using Suc.prems(1) unfolding heap_except_def by (metis Suc_leI le_neq_implies_less singletonI empty_iff)
  note D = down_spec [OF this order_refl Suc.prems(2) disjI1 [OF refl]]
  from Suc.IH [OF D(1)] rearr_length [OF D(2)] Suc.prems(2) D(2) show ?case
    by (auto intro: rearr_trans)
qed

lemma Init_spec:
  "heap_ordered lt (length (elems s)) (elems (heap_Init h s)) \<and> mset (elems (heap_Init h s)) = mset (elems s)"
proof -
  let ?n = "length (elems s)"
  have "heap_except (\<lambda>x y. lt y x) 0 (?n div 2) ?n {} (elems s)" by (auto simp: heap_except_def)
  from Init_loop_spec [OF this] show ?thesis by (auto simp: heap_Init_def Len Let_def dest: rearr_mset)
qed

lemma Push_spec:
  assumes "heap_ordered lt (length (elems s)) (elems s)"
  shows "heap_ordered lt (length (elems (heap_Push h s x))) (elems (heap_Push h s x))"
    and "mset (elems (heap_Push h s x)) = add_mset x (mset (elems s))"
proof -
  let ?s = "heap_push h s x" and ?n = "length (elems s)"
  have e: "elems ?s = elems s @ [x]" by (rule push)
  have "up_hole lt (Suc ?n) ?n (elems ?s)"
    using assms unfolding up_hole_def heap_ordered_def e by (auto simp: nth_append)
  from up_spec [OF this] have U: "heap_ordered lt (Suc ?n) (elems (heap_Push h s x))" "rearr 0 (Suc ?n) (elems ?s) (elems (heap_Push h s x))"
    by (simp_all add: heap_Push_def Len e)
  show "heap_ordered lt (length (elems (heap_Push h s x))) (elems (heap_Push h s x))"
    using U rearr_length [OF U(2)] by (simp add: e)
  show "mset (elems (heap_Push h s x)) = add_mset x (mset (elems s))"
    using rearr_mset [OF U(2)] by (simp add: e)
qed

lemma Fix_spec:
  assumes "heap_ordered lt (length xs) xs" and i: "i < length xs" and e: "elems s = xs[i := x]"
  shows "heap_ordered lt (length xs) (elems (heap_Fix h s i))" and "mset (elems (heap_Fix h s i)) = mset (elems s)"
proof -
  obtain s' b where d: "heap_down h s i (length xs) = (s', b)" by fastforce
  have t: "heap_Fix h s i = (if \<not> b then heap_up h s' i else s')" using d by (simp add: heap_Fix_def Len e)
  have H: "\<not> lt (xs ! c) (xs ! ((c - 1) div 2))" if "c < length xs" "0 < c" for c
    using assms(1) that unfolding heap_ordered_def child_parent by blast
  have A: "\<not> lt (elems s ! c) (elems s ! ((c - 1) div 2))" if "c < length xs" "0 < c" "c \<noteq> i" "(c - 1) div 2 \<noteq> i" for c
    using H [OF that(1,2)] that by (simp add: e)
  have B: "\<not> lt (elems s ! c) (elems s ! ((i - 1) div 2))" if "c < length xs" "0 < c" "(c - 1) div 2 = i" "0 < i" for c
  proof -
    have "c \<noteq> i" "(i - 1) div 2 \<noteq> i" using that by auto
    moreover have "\<not> lt (xs ! c) (xs ! i)" "\<not> lt (xs ! i) (xs ! ((i - 1) div 2))"
      using H [OF that(1,2)] H [OF i that(4)] that(3) by simp_all
    then have "\<not> lt (xs ! c) (xs ! ((i - 1) div 2))" by (rule negtrans)
    ultimately show ?thesis by (simp add: e)
  qed
  have le: "length xs \<le> length (elems s)" by (simp add: e)
  note F = fix_spec [OF A B i le d t]
  show "heap_ordered lt (length xs) (elems (heap_Fix h s i))" by (rule F(1))
  show "mset (elems (heap_Fix h s i)) = mset (elems s)" by (rule rearr_mset [OF F(2)])
qed

lemma pop_prefix:
  assumes "heap_ordered lt n (elems s)" and "length (elems s) = Suc n" and "heap_pop h s = (s', y)"
  shows "heap_ordered lt (length (elems s')) (elems s')" and "add_mset y (mset (elems s')) = mset (elems s)"
    and "y = elems s ! n"
proof -
  have ne: "elems s \<noteq> []" using assms(2) by auto
  have p: "elems s' = butlast (elems s)" "y = last (elems s)" using pop [OF ne] assms(3) by simp_all
  show "heap_ordered lt (length (elems s')) (elems s')"
    using assms(1,2) unfolding heap_ordered_def p by (auto simp: nth_butlast)
  show "add_mset y (mset (elems s')) = mset (elems s)"
    using append_butlast_last_id [OF ne] unfolding p by (metis add_mset_add_single mset.simps mset_append)
  show "y = elems s ! n" using p(2) ne assms(2) by (simp add: last_conv_nth)
qed

lemma Remove_spec:
  assumes H0: "heap_ordered lt (length (elems s)) (elems s)" and i: "i < length (elems s)"
    and r: "heap_Remove h s i = (s', y)"
  shows "heap_ordered lt (length (elems s')) (elems s')" and "add_mset y (mset (elems s')) = mset (elems s)"
    and "y = elems s ! i"
proof -
  let ?x = "elems s"
  define n where n: "n = length (elems s) - 1"
  have len: "length ?x = Suc n" using i by (simp add: n)
  have H: "\<not> lt (?x ! c) (?x ! ((c - 1) div 2))" if "c < length ?x" "0 < c" for c
    using H0 that unfolding heap_ordered_def child_parent by blast
  have "\<exists>t. heap_pop h t = (s', y) \<and> heap_ordered lt n (elems t) \<and> length (elems t) = Suc n
      \<and> mset (elems t) = mset ?x \<and> elems t ! n = ?x ! i"
  proof (cases "n = i")
    case True
    then show ?thesis
      using r len H0 by (intro exI [of _ s]) (auto simp: heap_Remove_def Len heap_ordered_def n [symmetric])
  next
    case False
    with i len have lt: "i < n" by simp
    let ?s = "heap_Swap h s i n"
    have e: "elems ?s = list_swap ?x i n" using i len by (intro Swap) auto
    have y: "elems ?s ! k = (if k = n then ?x ! i else if k = i then ?x ! n else ?x ! k)" for k
      unfolding e using i len by (subst nth_list_swap) auto
    obtain t b where d: "heap_down h ?s i n = (t, b)" by fastforce
    define u where u: "u = (if \<not> b then heap_up h t i else t)"
    have A: "\<not> lt (elems ?s ! c) (elems ?s ! ((c - 1) div 2))" if "c < n" "0 < c" "c \<noteq> i" "(c - 1) div 2 \<noteq> i" for c
    proof -
      have "(c - 1) div 2 < c" using that(2) by auto
      then show ?thesis using H [of c] that len unfolding y by auto
    qed
    have B: "\<not> lt (elems ?s ! c) (elems ?s ! ((i - 1) div 2))" if "c < n" "0 < c" "(c - 1) div 2 = i" "0 < i" for c
    proof -
      have "c \<noteq> i" "(i - 1) div 2 < i" using that by auto
      moreover have "\<not> lt (?x ! c) (?x ! i)" "\<not> lt (?x ! i) (?x ! ((i - 1) div 2))"
        using H [of c] H [OF i that(4)] that len by simp_all
      then have "\<not> lt (?x ! c) (?x ! ((i - 1) div 2))" by (rule negtrans)
      ultimately show ?thesis using that lt unfolding y by simp
    qed
    have le: "n \<le> length (elems ?s)" by (simp add: e len)
    note F = fix_spec [OF A B lt le d u]
    have "elems u ! n = elems ?s ! n" using rearr_nth [OF F(2), of n] len by (simp add: e)
    then have "elems u ! n = ?x ! i" unfolding y by simp
    moreover have "mset (elems u) = mset ?x" using rearr_mset [OF F(2)] i len by (simp add: e mset_list_swap)
    moreover have "heap_pop h u = (s', y)" using r False d u by (simp add: heap_Remove_def Len n)
    moreover have "length (elems u) = Suc n" using rearr_length [OF F(2)] len by (simp add: e)
    ultimately show ?thesis using F(1) by blast
  qed
  then obtain t where t: "heap_pop h t = (s', y)" "heap_ordered lt n (elems t)" "length (elems t) = Suc n"
    "mset (elems t) = mset ?x" "elems t ! n = ?x ! i" by blast
  note P = pop_prefix [OF t(2,3,1)]
  show "heap_ordered lt (length (elems s')) (elems s')" "add_mset y (mset (elems s')) = mset ?x" "y = ?x ! i"
    using P t(4,5) by simp_all
qed

lemma root_least:
  assumes "heap_ordered lt n xs" and "p < n"
  shows "\<not> lt (xs ! p) (xs ! 0)"
  using sort_interface.heap_max [OF rev_interface, of 0 n xs p] assms by (simp add: heap_ordered_except)

lemma Pop_spec:
  assumes H0: "heap_ordered lt (length (elems s)) (elems s)" and ne: "elems s \<noteq> []" and r: "heap_Pop h s = (s', y)"
  shows "heap_ordered lt (length (elems s')) (elems s')" and "add_mset y (mset (elems s')) = mset (elems s)"
    and "x \<in># mset (elems s) \<Longrightarrow> \<not> lt x y"
proof -
  let ?x = "elems s"
  define n where n: "n = length (elems s) - 1"
  have len: "length ?x = Suc n" using ne by (simp add: n)
  let ?s = "heap_Swap h s 0 n"
  have e: "elems ?s = list_swap ?x 0 n" using len by (intro Swap) auto
  have y: "elems ?s ! k = (if k = n then ?x ! 0 else if k = 0 then ?x ! n else ?x ! k)" for k
    unfolding e using len by (subst nth_list_swap) auto
  let ?t = "fst (heap_down h ?s 0 n)"
  have "heap_except (\<lambda>x y. lt y x) 0 0 n {0} (elems ?s)"
    unfolding heap_except_def y using H0 by (auto simp: heap_ordered_def len)
  note D = down_spec [OF this order_refl _ disjI1 [OF refl]]
  have le: "n \<le> length (elems ?s)" by (simp add: e len)
  note D = D [OF this]
  have p: "heap_pop h ?t = (s', y)" using r by (simp add: heap_Pop_def Len case_prod_beta Let_def n)
  have lt: "length (elems ?t) = Suc n" using rearr_length [OF D(2)] len by (simp add: e)
  have tn: "elems ?t ! n = ?x ! 0" using rearr_nth [OF D(2), of n] len y [of n] by (simp add: e)
  note P = pop_prefix [OF D(1) [folded heap_ordered_except] lt p]
  have "mset (elems ?t) = mset ?x" using rearr_mset [OF D(2)] len by (simp add: e mset_list_swap)
  then show "heap_ordered lt (length (elems s')) (elems s')" "add_mset y (mset (elems s')) = mset ?x"
    using P by simp_all
  show "\<not> lt x y" if "x \<in># mset ?x"
  proof -
    from that obtain q where "q < length ?x" "x = ?x ! q" by (auto simp: in_set_conv_nth)
    then show ?thesis using root_least [OF H0] P(3) tn by simp
  qed
qed

end

section \<open>Priority queues\<close>

text \<open>
  The abstract contract of a priority queue: a multiset of elements, of which \<open>pop\<close> removes a
  least one.  Its client takes the elements out one by one.
\<close>

locale priority_queue = strict_weak_order lt for lt :: "'a \<Rightarrow> 'a \<Rightarrow> bool" +
  fixes inv :: "'q \<Rightarrow> bool" and bag :: "'q \<Rightarrow> 'a multiset"
    and push_op :: "'q \<Rightarrow> 'a \<Rightarrow> 'q" and pop_op :: "'q \<Rightarrow> 'q \<times> 'a"
  assumes push_inv: "inv q \<Longrightarrow> inv (push_op q x)"
    and push_bag: "inv q \<Longrightarrow> bag (push_op q x) = add_mset x (bag q)"
    and pop_inv: "inv q \<Longrightarrow> bag q \<noteq> {#} \<Longrightarrow> pop_op q = (q', x) \<Longrightarrow> inv q'"
    and pop_bag: "inv q \<Longrightarrow> bag q \<noteq> {#} \<Longrightarrow> pop_op q = (q', x) \<Longrightarrow> add_mset x (bag q') = bag q"
    and pop_least: "inv q \<Longrightarrow> bag q \<noteq> {#} \<Longrightarrow> pop_op q = (q', x) \<Longrightarrow> y \<in># bag q \<Longrightarrow> \<not> lt y x"

fun drain :: "('q \<Rightarrow> 'q \<times> 'a) \<Rightarrow> nat \<Rightarrow> 'q \<Rightarrow> 'a list" where
  "drain pop_op 0 q = []"
| "drain pop_op (Suc n) q = (let (q, x) = pop_op q in x # drain pop_op n q)"

context priority_queue
begin

lemma drain_spec:
  assumes "inv q" and "size (bag q) = n"
  shows "mset (drain pop_op n q) = bag q \<and> sorted_wrt (\<lambda>x y. \<not> lt y x) (drain pop_op n q)"
  using assms
proof (induction n arbitrary: q)
  case 0
  then show ?case by simp
next
  case (Suc n)
  obtain q' x where p: "pop_op q = (q', x)" by fastforce
  have ne: "bag q \<noteq> {#}" using Suc.prems(2) by auto
  note L = pop_inv [OF Suc.prems(1) ne p] pop_bag [OF Suc.prems(1) ne p] pop_least [OF Suc.prems(1) ne p]
  have "size (bag q') = n" using L(2) Suc.prems(2) by (metis add_diff_cancel_left' plus_1_eq_Suc size_add_mset)
  from Suc.IH [OF L(1) this] have IH: "mset (drain pop_op n q') = bag q'" "sorted_wrt (\<lambda>x y. \<not> lt y x) (drain pop_op n q')"
    by simp_all
  have "\<not> lt y x" if "y \<in> set (drain pop_op n q')" for y
  proof -
    have "y \<in># bag q'" using that IH(1) by (metis set_mset_mset)
    then have "y \<in># bag q" using L(2) by (metis insert_iff set_mset_add_mset_insert)
    then show ?thesis by (rule L(3))
  qed
  then show ?case using IH L(2) by (simp add: p)
qed

end

sublocale heap_interface \<subseteq> pq: priority_queue lt
  "\<lambda>s. heap_ordered lt (length (elems s)) (elems s)" "\<lambda>s. mset (elems s)" "heap_Push h" "heap_Pop h"
proof unfold_locales
  fix s x
  assume "heap_ordered lt (length (elems s)) (elems s)"
  from Push_spec [OF this]
  show "heap_ordered lt (length (elems (heap_Push h s x))) (elems (heap_Push h s x))"
    "mset (elems (heap_Push h s x)) = add_mset x (mset (elems s))" .
next
  fix s s' x y
  assume "heap_ordered lt (length (elems s)) (elems s)" "mset (elems s) \<noteq> {#}" "heap_Pop h s = (s', x)"
  then have A: "heap_ordered lt (length (elems s)) (elems s)" "elems s \<noteq> []" "heap_Pop h s = (s', x)" by auto
  from Pop_spec [OF A] show "heap_ordered lt (length (elems s')) (elems s')" "add_mset x (mset (elems s')) = mset (elems s)" by auto
  show "y \<in># mset (elems s) \<Longrightarrow> \<not> lt y x" by (rule Pop_spec(3) [OF A])
qed

context heap_interface
begin

lemma Init_drain:
  "mset (drain (heap_Pop h) (length (elems s)) (heap_Init h s)) = mset (elems s)
    \<and> sorted_wrt (\<lambda>x y. \<not> lt y x) (drain (heap_Pop h) (length (elems s)) (heap_Init h s))"
proof -
  have len: "length (elems (heap_Init h s)) = length (elems s)" using Init_spec [of s] by (metis size_mset)
  have "heap_ordered lt (length (elems (heap_Init h s))) (elems (heap_Init h s))" using Init_spec [of s] unfolding len by blast
  from pq.drain_spec [OF this] len Init_spec [of s] show ?thesis by simp
qed

end

lemma slice_heap_interface:
  assumes "strict_weak_order lt"
  shows "heap_interface lt (slice_heap lt) (\<lambda>xs. xs)"
proof -
  have s: "sort_interface lt (slice_Interface lt) (\<lambda>xs. xs)"
    by (rule slice_sort_interface [OF assms])
  then show ?thesis
    by (intro heap_interface.intro heap_interface_axioms.intro) (simp_all add: slice_heap_def)
qed

interpretation int_heap: heap_interface "(<) :: int \<Rightarrow> int \<Rightarrow> bool" "slice_heap (<)" "\<lambda>xs. xs"
  by (rule slice_heap_interface) (rule key_order [of "\<lambda>x. x"])

section \<open>Properties\<close>

text \<open>
  C21. The heap invariant.  For every \<open>heap.Interface\<close> whose \<open>Less\<close> is a strict weak ordering and whose
  \<open>Push\<close> and \<open>Pop\<close> work at the end, \<open>Init\<close> establishes the heap order and \<open>Push\<close>, \<open>Pop\<close>, \<open>Remove\<close> and
  \<open>Fix\<close> (after one element changed) keep it; \<open>Push\<close> adds exactly the new element, \<open>Pop\<close> takes out a least one,
  \<open>Remove\<close> the one at its index, and \<open>Init\<close> and \<open>Fix\<close> only rearrange.
\<close>

theorem heap_operations_keep_order:
  assumes "heap_interface lt h elems" and "heap_ordered lt (length (elems s)) (elems s)" and "i < length (elems s)"
    and "elems t = (elems s)[i := y]"
  shows "(let u = heap_Init h r in heap_ordered lt (length (elems u)) (elems u) \<and> mset (elems u) = mset (elems r))
    \<and> (let u = heap_Push h s x in heap_ordered lt (length (elems u)) (elems u) \<and> mset (elems u) = add_mset x (mset (elems s)))
    \<and> (case heap_Pop h s of (u, m) \<Rightarrow> heap_ordered lt (length (elems u)) (elems u)
         \<and> add_mset m (mset (elems u)) = mset (elems s) \<and> list_all (\<lambda>z. \<not> lt z m) (elems s))
    \<and> (case heap_Remove h s i of (u, m) \<Rightarrow> heap_ordered lt (length (elems u)) (elems u)
         \<and> add_mset m (mset (elems u)) = mset (elems s) \<and> m = elems s ! i)
    \<and> (let u = heap_Fix h t i in heap_ordered lt (length (elems u)) (elems u) \<and> mset (elems u) = mset (elems t))"
proof -
  obtain p m q k where pq: "heap_Pop h s = (p, m)" "heap_Remove h s i = (q, k)" by fastforce
  have ne: "elems s \<noteq> []" using assms(3) by auto
  note I = heap_interface.Init_spec [OF assms(1), of r]
  have lenI: "length (elems (heap_Init h r)) = length (elems r)" using I by (metis size_mset)
  note F = heap_interface.Fix_spec [OF assms(1-4)]
  have lenF: "length (elems (heap_Fix h t i)) = length (elems s)" using F(2) assms(4) by (metis length_list_update size_mset)
  have "heap_ordered lt (length (elems (heap_Init h r))) (elems (heap_Init h r))"
    "heap_ordered lt (length (elems (heap_Fix h t i))) (elems (heap_Fix h t i))"
    using I F(1) unfolding lenI lenF by blast+
  then show ?thesis
    using I F(2) heap_interface.Push_spec [OF assms(1,2), of x] heap_interface.Pop_spec [OF assms(1,2) ne pq(1)]
      heap_interface.Remove_spec [OF assms(1-3) pq(2)]
    by (simp add: pq Let_def list_all_iff)
qed

theorem heap_operations_keep_order_witness:
  "(case heap_Pop (slice_heap (<)) [1, 4, 2, 5 :: int] of (u, m) \<Rightarrow> heap_ordered (<) (length u) u
      \<and> add_mset m (mset u) = mset [1, 4, 2, 5] \<and> list_all (\<lambda>z. \<not> z < m) [1, 4, 2, 5])"
proof -
  have "heap_ordered (<) (length [1, 4, 2, 5 :: int]) ([1, 4, 2, 5] :: int list)"
    unfolding heap_ordered_def by (auto simp: nth_Cons')
  from heap_operations_keep_order [OF int_heap.heap_interface_axioms this, of 1 "[1, 0, 2, 5]" 0 "[]" 7]
  show ?thesis by (simp split: prod.splits)
qed

text \<open>
  C22. A heap refines a priority queue: initialising a heap and popping until it is empty delivers
  the elements in ascending order, a permutation of the input, for every implementation of the
  interface; on a slice of integers it computes \<open>sort\<close>.
\<close>

theorem heap_drain_sorts:
  assumes "heap_interface lt h elems"
  shows "mset (drain (heap_Pop h) (length (elems s)) (heap_Init h s)) = mset (elems s)
    \<and> sorted_wrt (\<lambda>x y. \<not> lt y x) (drain (heap_Pop h) (length (elems s)) (heap_Init h s))
    \<and> drain (heap_Pop (slice_heap (<))) (length xs) (heap_Init (slice_heap (<)) xs) = sort (xs :: int list)"
proof -
  have "mset (drain (heap_Pop (slice_heap (<))) (length xs) (heap_Init (slice_heap (<)) xs)) = mset xs"
    "sorted (drain (heap_Pop (slice_heap (<))) (length xs) (heap_Init (slice_heap (<)) xs))"
    using int_heap.Init_drain [of xs] by (simp_all add: not_less)
  then have "drain (heap_Pop (slice_heap (<))) (length xs) (heap_Init (slice_heap (<)) xs) = sort xs"
    by (metis properties_for_sort)
  then show ?thesis using heap_interface.Init_drain [OF assms, of s] by simp
qed

theorem heap_drain_sorts_witness:
  "drain (heap_Pop (slice_heap (<))) 3 (heap_Init (slice_heap (<)) [2, 3, 1 :: int]) = [1, 2, 3]"
  using heap_drain_sorts [OF int_heap.heap_interface_axioms, of "[]" "[2, 3, 1]"]
  by (simp add: numeral_3_eq_3)

end
