(* ===== verification/Strconv.thy ===== *)
theory Strconv
  imports Bits
begin

text \<open>
  The integer conversions of \<open>internal/strconv\<close>: \<open>atoi.go\<close> and \<open>itoa.go\<close>. A string is its list of bytes, an
  \<open>int64\<close> its two's complement in a 64-bit word. \<open>w64\<close> says whether \<open>int\<close> has 64 bits. An index out of
  range and an explicit panic are \<open>None\<close>.
\<close>

section \<open>Parsing\<close>

datatype strconv_Error = ErrRange | ErrSyntax | ErrBase | ErrBitSize

definition lower :: "byte \<Rightarrow> byte" where
  "lower c = c OR (120 - 88)"

definition IntSize :: "bool \<Rightarrow> int" where
  "IntSize w64 = (if w64 then 64 else 32)"

definition digit_value :: "byte \<Rightarrow> byte option" where
  "digit_value c =
     (if 48 \<le> c \<and> c \<le> 57 then Some (c - 48)
      else if 97 \<le> lower c \<and> lower c \<le> 122 then Some (lower c - 97 + 10)
      else None)"

fun ParseUint_loop ::
  "bool \<Rightarrow> uint64 \<Rightarrow> uint64 \<Rightarrow> uint64 \<Rightarrow> byte list \<Rightarrow> uint64 \<Rightarrow> bool \<Rightarrow> (uint64 \<times> strconv_Error) + (uint64 \<times> bool)" where
  "ParseUint_loop base0 base cutoff maxVal [] n underscores = Inr (n, underscores)"
| "ParseUint_loop base0 base cutoff maxVal (c # s) n underscores =
     (if c = 95 \<and> base0 then ParseUint_loop base0 base cutoff maxVal s n True
      else case digit_value c of
        None \<Rightarrow> Inl (0, ErrSyntax)
      | Some d \<Rightarrow>
          if ucast base \<le> d then Inl (0, ErrSyntax)
          else if cutoff \<le> n then Inl (maxVal, ErrRange)
          else
            let n = n * base; n1 = n + ucast d in
            if n1 < n \<or> maxVal < n1 then Inl (maxVal, ErrRange)
            else ParseUint_loop base0 base cutoff maxVal s n1 underscores)"

text \<open>
  The last character class seen: the beginning, a digit or base prefix, an underscore, another.
\<close>

datatype saw = SawStart | SawDigit | SawUnderscore | SawOther

fun underscoreOK_loop :: "bool \<Rightarrow> saw \<Rightarrow> byte list \<Rightarrow> bool" where
  "underscoreOK_loop hex sw [] = (sw \<noteq> SawUnderscore)"
| "underscoreOK_loop hex sw (c # s) =
     (if 48 \<le> c \<and> c \<le> 57 \<or> hex \<and> 97 \<le> lower c \<and> lower c \<le> 102 then underscoreOK_loop hex SawDigit s
      else if c = 95 then if sw \<noteq> SawDigit then False else underscoreOK_loop hex SawUnderscore s
      else if sw = SawUnderscore then False
      else underscoreOK_loop hex SawOther s)"

definition underscoreOK :: "byte list \<Rightarrow> bool" where
  "underscoreOK s =
     (let s = (if 1 \<le> length s \<and> (s ! 0 = 45 \<or> s ! 0 = 43) then drop 1 s else s) in
      if 2 \<le> length s \<and> s ! 0 = 48 \<and> (lower (s ! 1) = 98 \<or> lower (s ! 1) = 111 \<or> lower (s ! 1) = 120)
      then underscoreOK_loop (lower (s ! 1) = 120) SawDigit (drop 2 s)
      else underscoreOK_loop False SawStart s)"

definition ParseUint_base :: "byte list \<Rightarrow> int \<Rightarrow> (int \<times> byte list) option" where
  "ParseUint_base s base =
     (if 2 \<le> base \<and> base \<le> 36 then Some (base, s)
      else if base = 0 then
        if s ! 0 = 48 then
          if 3 \<le> length s \<and> lower (s ! 1) = 98 then Some (2, drop 2 s)
          else if 3 \<le> length s \<and> lower (s ! 1) = 111 then Some (8, drop 2 s)
          else if 3 \<le> length s \<and> lower (s ! 1) = 120 then Some (16, drop 2 s)
          else Some (8, drop 1 s)
        else Some (10, s)
      else None)"

definition strconv_ParseUint :: "bool \<Rightarrow> byte list \<Rightarrow> int \<Rightarrow> int \<Rightarrow> uint64 \<times> strconv_Error option" where
  "strconv_ParseUint w64 s base bitSize =
     (if s = [] then (0, Some ErrSyntax)
      else
        let base0 = (base = 0); s0 = s in
        case ParseUint_base s base of
          None \<Rightarrow> (0, Some ErrBase)
        | Some (base, s) \<Rightarrow>
            if bitSize \<noteq> 0 \<and> (bitSize < 0 \<or> 64 < bitSize) then (0, Some ErrBitSize)
            else
              let bitSize = (if bitSize = 0 then IntSize w64 else bitSize);
                  base = word_of_int base :: uint64;
                  maxUint64 = - 1;
                  cutoff = maxUint64 div base + 1;
                  maxVal = push_bit (nat bitSize) 1 - 1 in
              case ParseUint_loop base0 base cutoff maxVal s 0 False of
                Inl (n, e) \<Rightarrow> (n, Some e)
              | Inr (n, underscores) \<Rightarrow>
                  if underscores \<and> \<not> underscoreOK s0 then (0, Some ErrSyntax) else (n, None))"

definition strconv_ParseInt :: "bool \<Rightarrow> byte list \<Rightarrow> int \<Rightarrow> int \<Rightarrow> uint64 \<times> strconv_Error option" where
  "strconv_ParseInt w64 s base bitSize =
     (if s = [] then (0, Some ErrSyntax)
      else
        let neg = (s ! 0 = 45);
            s = (if s ! 0 = 43 \<or> s ! 0 = 45 then drop 1 s else s);
            (un, err) = strconv_ParseUint w64 s base bitSize in
        if err \<noteq> None \<and> err \<noteq> Some ErrRange then (0, err)
        else
          let bitSize = (if bitSize = 0 then IntSize w64 else bitSize);
              cutoff = push_bit (nat (bitSize - 1)) 1 in
          if \<not> neg \<and> cutoff \<le> un then (cutoff - 1, Some ErrRange)
          else if neg \<and> cutoff < un then (- cutoff, Some ErrRange)
          else (if neg then - un else un, None))"

text \<open>An \<open>int\<close> held in 64 bits: on a 32-bit target the low half, sign-extended.\<close>

definition to_int :: "bool \<Rightarrow> uint64 \<Rightarrow> uint64" where
  "to_int w64 x = (if w64 then x else scast (ucast x :: 32 word))"

fun Atoi_loop :: "bool \<Rightarrow> byte list \<Rightarrow> uint64 \<Rightarrow> uint64 option" where
  "Atoi_loop w64 [] n = Some n"
| "Atoi_loop w64 (ch # s) n =
     (let ch = ch - 48 in if 9 < ch then None else Atoi_loop w64 s (to_int w64 (n * 10 + ucast ch)))"

definition strconv_Atoi :: "bool \<Rightarrow> byte list \<Rightarrow> uint64 \<times> strconv_Error option" where
  "strconv_Atoi w64 s =
     (let sLen = length s in
      if IntSize w64 = 32 \<and> 0 < sLen \<and> sLen < 10 \<or> IntSize w64 = 64 \<and> 0 < sLen \<and> sLen < 19 then
        let s0 = s; s = (if s ! 0 = 45 \<or> s ! 0 = 43 then drop 1 s else s) in
        if (s0 ! 0 = 45 \<or> s0 ! 0 = 43) \<and> length s < 1 then (0, Some ErrSyntax)
        else case Atoi_loop w64 s 0 of
          None \<Rightarrow> (0, Some ErrSyntax)
        | Some n \<Rightarrow> (if s0 ! 0 = 45 then to_int w64 (- n) else n, None)
      else
        let (i64, err) = strconv_ParseInt w64 s 10 0 in (to_int w64 i64, err))"

section \<open>Formatting\<close>

definition strconv_digits :: "byte list" where
  "strconv_digits = map (\<lambda>i. 48 + of_nat i) [0..<10] @ map (\<lambda>i. 97 + of_nat i) [0..<26]"

definition smalls :: "byte list" where
  "smalls = concat (map (\<lambda>i. [48 + of_nat (i div 10), 48 + of_nat (i mod 10)]) [0..<100])"

definition small :: "nat \<Rightarrow> byte list" where
  "small i = (if i < 10 then go_slice strconv_digits i (i + 1) else go_slice smalls (i * 2) (i * 2 + 2))"

definition log10Pow2 :: "nat \<Rightarrow> nat" where
  "log10Pow2 x = drop_bit 18 (x * 78913)"

definition uint64pow10 :: "uint64 list" where
  "uint64pow10 = map (\<lambda>i. 10 ^ i) [0..<20]"

definition numDigits :: "uint64 \<Rightarrow> nat" where
  "numDigits d = (let nd = log10Pow2 (bits_Len64 d) in nd + of_bool (uint64pow10 ! nd \<le> d))"

definition put_pair :: "byte list \<Rightarrow> nat \<Rightarrow> nat \<Rightarrow> byte list" where
  "put_pair a nd x = a[nd - 1 := smalls ! (x + 1), nd - 2 := smalls ! x]"

function formatBase10_loop :: "nat \<Rightarrow> uint64 \<Rightarrow> byte list \<Rightarrow> nat \<times> uint64 \<times> byte list" where
  "formatBase10_loop nd u a =
     (if 8 \<le> nd then
        let x3210 = ucast (u mod 100000000) :: uint32;
            u = u div 100000000;
            x32 = x3210 div 10000; x10 = x3210 mod 10000;
            x1 = (x10 div 100) * 2; x0 = (x10 mod 100) * 2;
            x3 = (x32 div 100) * 2; x2 = (x32 mod 100) * 2;
            a = put_pair a nd (unat x0);
            a = put_pair a (nd - 2) (unat x1);
            a = put_pair a (nd - 4) (unat x2);
            a = put_pair a (nd - 6) (unat x3) in
        formatBase10_loop (nd - 8) u a
      else (nd, u, a))"
  by pat_completeness auto
termination by (relation "measure (\<lambda>(nd, u, a). nd)") auto

declare formatBase10_loop.simps [simp del]

definition formatBase10 :: "byte list \<Rightarrow> uint64 \<Rightarrow> byte list" where
  "formatBase10 a u =
     (let (nd, u, a) = formatBase10_loop (length a) u a;
          x = ucast u :: uint32;
          (nd, x, a) =
            (if 4 \<le> nd then
               let x10 = x mod 10000; x = x div 10000;
                   x1 = (x10 div 100) * 2; x0 = (x10 mod 100) * 2;
                   a = put_pair a nd (unat x0);
                   a = put_pair a (nd - 2) (unat x1) in
               (nd - 4, x, a)
             else (nd, x, a));
          (nd, x, a) =
            (if 2 \<le> nd then
               let x0 = (x mod 100) * 2; x = x div 100 in (nd - 2, x, put_pair a nd (unat x0))
             else (nd, x, a)) in
      if 0 < nd then a[0 := 48 + ucast x] else a)"

definition RuntimeFormatBase10 :: "byte list \<Rightarrow> uint64 \<Rightarrow> byte list \<times> nat" where
  "RuntimeFormatBase10 a u =
     (let i = length a - numDigits (u OR 1) in (take i a @ formatBase10 (drop i a) u, i))"

definition isPowerOfTwo :: "uint64 \<Rightarrow> bool" where
  "isPowerOfTwo x \<longleftrightarrow> x AND (x - 1) = 0"

text \<open>The loops of \<open>formatBits\<close>; \<open>None\<close> is the panic of a store below the array.\<close>

fun formatBits_shift :: "nat \<Rightarrow> uint64 \<Rightarrow> uint64 \<Rightarrow> nat \<Rightarrow> uint64 \<Rightarrow> byte list \<Rightarrow> (nat \<times> uint64 \<times> byte list) option" where
  "formatBits_shift shift b m 0 u a = (if b \<le> u then None else Some (0, u, a))"
| "formatBits_shift shift b m (Suc i) u a =
     (if b \<le> u then formatBits_shift shift b m i (drop_bit shift u) (a[i := strconv_digits ! unat (u AND m)])
      else Some (Suc i, u, a))"

fun formatBits_div :: "uint64 \<Rightarrow> nat \<Rightarrow> uint64 \<Rightarrow> byte list \<Rightarrow> (nat \<times> uint64 \<times> byte list) option" where
  "formatBits_div b 0 u a = (if b \<le> u then None else Some (0, u, a))"
| "formatBits_div b (Suc i) u a =
     (if b \<le> u then let q = u div b in formatBits_div b i q (a[i := strconv_digits ! unat (u - q * b)])
      else Some (Suc i, u, a))"

definition put_before :: "byte list \<Rightarrow> nat \<Rightarrow> byte \<Rightarrow> (nat \<times> byte list) option" where
  "put_before a i c = (if i = 0 then None else Some (i - 1, a[i - 1 := c]))"

definition formatBits :: "bool \<Rightarrow> byte list \<Rightarrow> uint64 \<Rightarrow> int \<Rightarrow> bool \<Rightarrow> bool \<Rightarrow> (byte list \<times> byte list) option" where
  "formatBits w64 dst u base neg append_to =
     (if base < 2 \<or> base = 10 \<or> int (length strconv_digits) < base then None
      else
        let a = replicate (64 + 1) 0; u = (if neg then - u else u); b = word_of_int base;
            r = (if isPowerOfTwo b then formatBits_shift (bits_TrailingZeros w64 b) b (b - 1) (length a) u a
                 else formatBits_div b (length a) u a) in
        case r of
          None \<Rightarrow> None
        | Some (i, u, a) \<Rightarrow>
            (case put_before a i (strconv_digits ! unat u) of
               None \<Rightarrow> None
             | Some (i, a) \<Rightarrow>
                 (case (if neg then put_before a i 45 else Some (i, a)) of
                    None \<Rightarrow> None
                  | Some (i, a) \<Rightarrow> Some (if append_to then (dst @ drop i a, []) else ([], drop i a)))))"

definition strconv_FormatUint :: "bool \<Rightarrow> uint64 \<Rightarrow> int \<Rightarrow> byte list option" where
  "strconv_FormatUint w64 i base =
     (if base = 10 then
        if i < 100 then Some (small (unat i))
        else let nd = numDigits i in Some (formatBase10 (replicate nd 0) i)
      else map_option snd (formatBits w64 [] i base False False))"

definition strconv_FormatInt :: "bool \<Rightarrow> uint64 \<Rightarrow> int \<Rightarrow> byte list option" where
  "strconv_FormatInt w64 i base =
     (if base = 10 then
        if 0 \<le> sint i \<and> sint i < 100 then Some (small (unat i))
        else
          let u = (if sint i < 0 then - i else i); nd = numDigits u; a = formatBase10 (replicate nd 0) u in
          Some (if sint i < 0 then 45 # a else a)
      else map_option snd (formatBits w64 [] i base (sint i < 0) False))"

definition strconv_Itoa :: "bool \<Rightarrow> uint64 \<Rightarrow> byte list option" where
  "strconv_Itoa w64 i = strconv_FormatInt w64 (to_int w64 i) 10"

definition strconv_AppendUint :: "bool \<Rightarrow> byte list \<Rightarrow> uint64 \<Rightarrow> int \<Rightarrow> byte list option" where
  "strconv_AppendUint w64 dst i base =
     (if base = 10 then
        if i < 100 then Some (dst @ small (unat i))
        else let nd = numDigits i in Some (dst @ formatBase10 (replicate nd 0) i)
      else map_option fst (formatBits w64 dst i base False True))"

definition strconv_AppendInt :: "bool \<Rightarrow> byte list \<Rightarrow> uint64 \<Rightarrow> int \<Rightarrow> byte list option" where
  "strconv_AppendInt w64 dst i base =
     (let u = (if sint i < 0 then - i else i); dst = (if sint i < 0 then dst @ [45] else dst) in
      strconv_AppendUint w64 dst u base)"

end
