(* ===== verification/Strconv_Parse.thy ===== *)
theory Strconv_Parse
  imports Strconv Bits_Correct
begin

text \<open>
  What the parsers compute: the digit loop detects overflow exactly, \<open>ParseUint\<close> and \<open>ParseInt\<close> return the
  positional value or the error of their documentation, and the fast path of \<open>Atoi\<close> agrees with
  \<open>ParseInt\<close>.
\<close>

section \<open>Digits and values\<close>

text \<open>The value of a character as a digit: a decimal digit, or a letter of either case; 36 for any other.\<close>

definition dvalue :: "byte \<Rightarrow> nat" where
  "dvalue c =
     (let n = unat c in
      if 48 \<le> n \<and> n \<le> 57 then n - 48
      else if 97 \<le> n \<and> n \<le> 122 then n - 97 + 10
      else if 65 \<le> n \<and> n \<le> 90 then n - 65 + 10
      else 36)"

definition value_of :: "nat \<Rightarrow> byte list \<Rightarrow> nat" where
  "value_of base s = foldl (\<lambda>n c. n * base + dvalue c) 0 s"

lemma all_bytes: "list_all (\<lambda>i. P (of_nat i)) [0..<256] \<Longrightarrow> P (c :: byte)"
proof -
  assume "list_all (\<lambda>i. P (of_nat i)) [0..<256]"
  then have "\<forall>i < 256. P (of_nat i)" by (simp add: list_all_iff)
  moreover have "unat c < 256" using unsigned_less [of c, where 'a = nat] by simp
  ultimately have "P (of_nat (unat c))" by blast
  then show "P c" by simp
qed

lemma dvalue_digit_value: "dvalue c = (case digit_value c of None \<Rightarrow> 36 | Some d \<Rightarrow> unat d)"
  by (rule all_bytes [of "\<lambda>c. dvalue c = (case digit_value c of None \<Rightarrow> 36 | Some d \<Rightarrow> unat d)"]) code_simp

lemma digit_value_less: "digit_value c = Some d \<Longrightarrow> unat d < 36"
proof -
  have "list_all (\<lambda>i. case digit_value (of_nat i) of None \<Rightarrow> True | Some d \<Rightarrow> unat d < 36) [0..<256]"
    by code_simp
  then have "\<forall>i < 256. case digit_value (of_nat i) of None \<Rightarrow> True | Some d \<Rightarrow> unat d < 36"
    by (simp add: list_all_iff)
  moreover have "unat c < 256" "of_nat (unat c) = c" using unsigned_less [of c] by simp_all
  ultimately show "digit_value c = Some d \<Longrightarrow> unat d < 36" by (metis option.simps(5))
qed

lemma dvalue_less: "base \<le> 36 \<Longrightarrow> dvalue c < base \<longleftrightarrow> (\<exists>d. digit_value c = Some d \<and> unat d < base)"
  by (auto simp: dvalue_digit_value split: option.splits)

lemma foldl_value_mono:
  assumes "0 < base"
  shows "n \<le> foldl (\<lambda>n c. n * base + dvalue c) n s"
proof (induction s arbitrary: n)
  case (Cons c s)
  have "n \<le> n * base + dvalue c" using assms by (cases base) auto
  also have "\<dots> \<le> foldl (\<lambda>n c. n * base + dvalue c) (n * base + dvalue c) s" by (rule Cons)
  finally show ?case by simp
qed simp

section \<open>The digit loop\<close>

lemma cutoff_exact:
  fixes n b :: uint64
  assumes "2 \<le> unat b"
  shows "- 1 div b + 1 \<le> n \<longleftrightarrow> 2 ^ 64 \<le> unat n * unat b"
proof -
  let ?M = "2 ^ 64 - 1 :: nat"
  have m: "unat (- 1 :: uint64) = ?M" by (simp add: unsigned_minus_1_eq_mask mask_eq_exp_minus_1)
  have q: "unat (- 1 div b) = ?M div unat b" by (simp only: unat_div m)
  have "?M div unat b \<le> ?M div 2" using assms by (intro div_le_mono2) auto
  then have "?M div unat b + 1 < 2 ^ 64" by simp
  then have "unat (- 1 div b + 1) = ?M div unat b + 1"
    using unat_add_no_wrap [of "- 1 div b" 1] by (simp only: q unat_1) simp
  then have "- 1 div b + 1 \<le> n \<longleftrightarrow> ?M div unat b < unat n"
    by (simp only: word_le_nat_alt) linarith
  also have "\<dots> \<longleftrightarrow> ?M < unat n * unat b" using assms by (intro div_less_iff_less_mult) simp
  finally show ?thesis by auto
qed

lemma ParseUint_loop_value:
  assumes "2 \<le> unat base" and "unat base \<le> 36" and "unat n \<le> unat maxVal" and "t = (if base0 then filter (\<lambda>c. c \<noteq> 95) s else s)"
    and "p = takeWhile (\<lambda>c. dvalue c < unat base) t"
    and "v = foldl (\<lambda>n c. n * unat base + dvalue c) (unat n) p"
  shows "ParseUint_loop base0 base (- 1 div base + 1) maxVal s n us =
    (if unat maxVal < v then Inl (maxVal, ErrRange)
     else if p \<noteq> t then Inl (0, ErrSyntax)
     else Inr (of_nat v, us \<or> base0 \<and> 95 \<in> set s))"
  using assms(3-)
proof (induction s arbitrary: n us t p v)
  case Nil
  then show ?case by simp
next
  case (Cons c s)
  let ?b = "unat base"
  show ?case
  proof (cases "c = 95 \<and> base0")
    case True
    then have "t = (if base0 then filter (\<lambda>c. c \<noteq> 95) s else s)" using Cons.prems(2) by simp
    from Cons.IH [OF Cons.prems(1) this Cons.prems(3,4), of True] True show ?thesis by simp
  next
    case False
    then have t: "t = c # (if base0 then filter (\<lambda>c. c \<noteq> 95) s else s)" using Cons.prems(2) by auto
    have u8: "unat (ucast base :: byte) = ?b" using assms(2) by (simp add: unat_ucast_mod)
    show ?thesis
    proof (cases "dvalue c < ?b")
      case bad: False
      then have "p = []" using Cons.prems(3) t by simp
      moreover have "case digit_value c of None \<Rightarrow> True | Some d \<Rightarrow> ucast base \<le> d"
        using bad by (auto simp: dvalue_digit_value word_le_nat_alt u8 split: option.splits)
      ultimately show ?thesis
        using False Cons.prems t by (auto split: option.splits)
    next
      case good: True
      then obtain d where d: "digit_value c = Some d" "unat d < ?b" "dvalue c = unat d"
        using dvalue_less [OF assms(2), of c] by (auto simp: dvalue_digit_value)
      have nb: "\<not> ucast base \<le> d" using d(2) by (simp add: word_le_nat_alt u8)
      let ?t = "if base0 then filter (\<lambda>c. c \<noteq> 95) s else s"
      let ?p = "takeWhile (\<lambda>c. dvalue c < ?b) ?t"
      have p: "p = c # ?p" using Cons.prems(3) t good by simp
      define k where k: "k = unat n * ?b + unat d"
      have v: "v = foldl (\<lambda>n c. n * ?b + dvalue c) k ?p" using Cons.prems(4) p d(3) by (simp add: k)
      have kv: "k \<le> v" unfolding v using assms(1) by (intro foldl_value_mono) simp
      note cut = cutoff_exact [OF assms(1), of n]
      let ?n1 = "n * base + ucast d"
      have d256: "unat d < 256" using unsigned_less [of d] by simp
      then have ud: "unat (ucast d :: uint64) = unat d" by (simp add: unat_ucast_mod)
      have nw: "unat ?n1 = k" "\<not> ?n1 < n * base" if "k < 2 ^ 64"
      proof -
        have m: "unat (n * base) = unat n * ?b" using that by (intro unat_mult_no_wrap) (simp add: k)
        then show u: "unat ?n1 = k" using that by (subst unat_add_no_wrap) (simp_all add: ud k)
        show "\<not> ?n1 < n * base" by (simp add: word_less_nat_alt u m) (simp add: k)
      qed
      have max: "unat maxVal < 2 ^ 64" by (rule unat64_less)
      have step: "(if - 1 div base + 1 \<le> n then Inl (maxVal, ErrRange)
          else if ?n1 < n * base \<or> maxVal < ?n1 then Inl (maxVal, ErrRange) else r) =
          (if unat maxVal < k then Inl (maxVal, ErrRange) else r)" for r :: "(uint64 \<times> strconv_Error) + (uint64 \<times> bool)"
      proof (cases "k < 2 ^ 64")
        case True
        then have "\<not> 2 ^ 64 \<le> unat n * ?b" by (simp add: k)
        then show ?thesis unfolding cut word_less_nat_alt [of maxVal] using nw [OF True] by simp
      next
        case over: False
        then have "unat maxVal < k" using max by linarith
        moreover have "?n1 < n * base" if "\<not> 2 ^ 64 \<le> unat n * ?b"
        proof -
          have m: "unat (n * base) = unat n * ?b" using that by (intro unat_mult_no_wrap) simp
          have "unat ?n1 = k - 2 ^ 64"
            using that over d256 by (simp add: unat_word_ariths m ud k) (simp add: mod_if)
          then show ?thesis using over that d256 by (simp add: word_less_nat_alt m k)
        qed
        ultimately show ?thesis unfolding cut by auto
      qed
      have "ParseUint_loop base0 base (- 1 div base + 1) maxVal (c # s) n us =
        (if unat maxVal < k then Inl (maxVal, ErrRange) else ParseUint_loop base0 base (- 1 div base + 1) maxVal s ?n1 us)"
        unfolding ParseUint_loop.simps(2) d(1) option.case Let_def using False nb step by (simp only: if_False)
      moreover have "ParseUint_loop base0 base (- 1 div base + 1) maxVal s ?n1 us =
          (if unat maxVal < v then Inl (maxVal, ErrRange) else if ?p \<noteq> ?t then Inl (0, ErrSyntax)
           else Inr (of_nat v, us \<or> base0 \<and> 95 \<in> set s))" if "\<not> unat maxVal < k"
      proof -
        have "unat ?n1 = k" using nw(1) that max by linarith
        then show ?thesis using Cons.IH [OF _ refl refl refl, of ?n1 us] that v by simp
      qed
      ultimately show ?thesis using kv p t False by auto
    qed
  qed
qed


section \<open>ParseUint and ParseInt\<close>

definition width :: "bool \<Rightarrow> int \<Rightarrow> nat" where
  "width w64 bitSize = nat (if bitSize = 0 then IntSize w64 else bitSize)"

lemma width_range: "0 \<le> bitSize \<Longrightarrow> bitSize \<le> 64 \<Longrightarrow> 1 \<le> width w64 bitSize \<and> width w64 bitSize \<le> 64"
  by (auto simp: width_def IntSize_def)

lemma unat_bit: "k < 64 \<Longrightarrow> unat (push_bit k 1 :: uint64) = 2 ^ k"
  using unat_push_bit [of k "1 :: uint64"] power_strict_increasing [of k 64 "2 :: nat"]
  by (simp del: push_bit_of_1 add: mod_less)

lemma unat_maxVal:
  assumes "k \<le> 64"
  shows "unat (push_bit k 1 - 1 :: uint64) = 2 ^ k - 1"
proof (cases "k = 64")
  case True
  have "push_bit 64 1 = (0 :: uint64)" by simp
  then show ?thesis unfolding True by (simp add: unsigned_minus_1_eq_mask mask_eq_exp_minus_1)
next
  case False
  with assms have u: "unat (push_bit k 1 :: uint64) = 2 ^ k" by (simp add: unat_bit del: push_bit_of_1)
  then have "push_bit k 1 \<noteq> (0 :: uint64)" by (metis power_not_zero unat_0 zero_neq_numeral)
  from unat_minus_one [OF this] show ?thesis by (simp only: u)
qed

lemma ParseUint_value:
  assumes "2 \<le> base" and "base \<le> 36" and "0 \<le> bitSize" and "bitSize \<le> 64"
    and p: "p = takeWhile (\<lambda>c. dvalue c < nat base) s" and k: "k = width w64 bitSize"
  shows "strconv_ParseUint w64 s base bitSize =
    (if s = [] then (0, Some ErrSyntax)
     else if 2 ^ k - 1 < value_of (nat base) p then (push_bit k 1 - 1, Some ErrRange)
     else if p \<noteq> s then (0, Some ErrSyntax)
     else (of_nat (value_of (nat base) s), None))"
proof -
  let ?b = "word_of_int base :: uint64"
  have ub: "unat ?b = nat base" using assms(1,2) by (simp add: unat_eq_nat_uint word_uint_eq_iff take_bit_int_eq_self uint_word_of_int)
  have k64: "k \<le> 64" using width_range [OF assms(3,4)] k by simp
  define m :: uint64 where m: "m = push_bit k 1 - 1"
  have um: "unat m = 2 ^ k - 1" unfolding m by (rule unat_maxVal [OF k64])
  have L: "ParseUint_loop False ?b (- 1 div ?b + 1) m s 0 False =
    (if 2 ^ k - 1 < value_of (nat base) p then Inl (m, ErrRange)
     else if p \<noteq> s then Inl (0, ErrSyntax) else Inr (of_nat (value_of (nat base) p), False))"
    using ParseUint_loop_value [of ?b 0 m s False s p "value_of (nat base) p" False, unfolded ub um] assms(1,2) p
    by (simp add: value_of_def)
  have w: "nat (if bitSize = 0 then IntSize w64 else bitSize) = k" by (simp add: k width_def)
  have b0: "ParseUint_base s base = Some (base, s)" "base \<noteq> 0" "\<not> (bitSize \<noteq> 0 \<and> (bitSize < 0 \<or> 64 < bitSize))"
    using assms(1-4) by (auto simp: ParseUint_base_def)
  show ?thesis
    unfolding strconv_ParseUint_def Let_def b0(1) option.case prod.case w m [symmetric] using b0(2,3) L by auto
qed

lemma ParseInt_value:
  assumes "2 \<le> base" and "base \<le> 36" and "0 \<le> bitSize" and "bitSize \<le> 64" and "bitSize \<noteq> 1"
    and neg: "neg \<longleftrightarrow> s \<noteq> [] \<and> s ! 0 = 45" and t: "t = (if s \<noteq> [] \<and> (s ! 0 = 43 \<or> s ! 0 = 45) then drop 1 s else s)"
    and p: "p = takeWhile (\<lambda>c. dvalue c < nat base) t" and v: "v = value_of (nat base) p" and k: "k = width w64 bitSize"
  shows "strconv_ParseInt w64 s base bitSize =
    (if t = [] \<or> p \<noteq> t \<and> v < 2 ^ k then (0, Some ErrSyntax)
     else if \<not> neg \<and> 2 ^ (k - 1) \<le> v then (2 ^ (k - 1) - 1, Some ErrRange)
     else if neg \<and> 2 ^ (k - 1) < v then (- (2 ^ (k - 1)), Some ErrRange)
     else (if neg then - of_nat v else of_nat v, None))"
proof (cases "s = []")
  case True
  then show ?thesis using t by (simp add: strconv_ParseInt_def)
next
  case False
  have kr: "2 \<le> k" "k \<le> 64" using width_range [OF assms(3,4), of w64] assms(5) by (auto simp: k width_def IntSize_def)
  obtain un err where r: "strconv_ParseUint w64 t base bitSize = (un, err)" by fastforce
  note U = ParseUint_value [OF assms(1-4) p k, folded v, unfolded r]
  let ?c = "push_bit (k - 1) 1 :: uint64"
  have c: "unat ?c = 2 ^ (k - 1)" "?c = 2 ^ (k - 1)" using kr unat_bit [of "k - 1"] by simp_all
  have w: "nat ((if bitSize = 0 then IntSize w64 else bitSize) - 1) = k - 1"
    using kr(1) by (simp add: k width_def split: if_splits)
  have P: "strconv_ParseInt w64 s base bitSize =
    (if err \<noteq> None \<and> err \<noteq> Some ErrRange then (0, err)
     else if \<not> neg \<and> 2 ^ (k - 1) \<le> unat un then (2 ^ (k - 1) - 1, Some ErrRange)
     else if neg \<and> 2 ^ (k - 1) < unat un then (- (2 ^ (k - 1)), Some ErrRange)
     else (if neg then - un else un, None))"
  proof -
    have cmp: "?c \<le> un \<longleftrightarrow> 2 ^ (k - 1) \<le> unat un" "?c < un \<longleftrightarrow> 2 ^ (k - 1) < unat un"
      by (simp_all only: word_le_nat_alt word_less_nat_alt c(1))
    have t': "(if s ! 0 = 43 \<or> s ! 0 = 45 then drop 1 s else s) = t" using False t by simp
    have n': "(s ! 0 = 45) = neg" using False neg by simp
    show ?thesis
      unfolding strconv_ParseInt_def Let_def t' unfolding n' r prod.case w cmp unfolding c(2) using False by simp
  qed
  have half: "2 ^ k = 2 * (2 ^ (k - 1) :: nat)" "(2::nat) \<le> 2 ^ (k - 1)"
    using kr(1) power_increasing [of 1 "k - 1" "2 :: nat"] by (auto simp: power_eq_if)
  consider "t = []" | "t \<noteq> []" "2 ^ k - 1 < v" | "t \<noteq> []" "\<not> 2 ^ k - 1 < v" "p \<noteq> t" | "t \<noteq> []" "\<not> 2 ^ k - 1 < v" "p = t" by blast
  then show ?thesis
  proof cases
    case 2
    then have "un = push_bit k 1 - 1" "err = Some ErrRange" using U by simp_all
    then show ?thesis using P 2 half unat_maxVal [OF kr(2)] by auto
  next
    case 4
    then have e: "un = of_nat v" "err = None" using U v by auto
    have "(2::nat) ^ k \<le> 2 ^ 64" by (rule power_increasing [OF kr(2)]) simp
    then have "v < 2 ^ 64" using 4(2) half by linarith
    then have "unat un = v" using unat_of_nat [of v, where 'a = 64] e by simp
    then show ?thesis using P 4 half e by auto
  qed (use U P half in auto)
qed


section \<open>Atoi\<close>

lemma decimal_digit: "dvalue c < 10 \<longleftrightarrow> \<not> 9 < c - 48" "dvalue c < 10 \<Longrightarrow> dvalue c = unat (c - 48)"
proof -
  have "list_all (\<lambda>i. (dvalue (of_nat i) < 10 \<longleftrightarrow> \<not> (9 :: byte) < of_nat i - 48)
      \<and> (dvalue (of_nat i) < 10 \<longrightarrow> dvalue (of_nat i) = unat (of_nat i - 48 :: byte))) [0..<256]"
    by code_simp
  then have "\<forall>i < 256. (dvalue (of_nat i) < 10 \<longleftrightarrow> \<not> (9 :: byte) < of_nat i - 48)
      \<and> (dvalue (of_nat i) < 10 \<longrightarrow> dvalue (of_nat i) = unat (of_nat i - 48 :: byte))"
    by (simp add: list_all_iff)
  moreover have "unat c < 256" "of_nat (unat c) = c" using unsigned_less [of c] by simp_all
  ultimately show "dvalue c < 10 \<longleftrightarrow> \<not> 9 < c - 48" "dvalue c < 10 \<Longrightarrow> dvalue c = unat (c - 48)" by metis+
qed

lemma to_int_small:
  assumes "unat x < 2 ^ (if w64 then 63 else 31)"
  shows "to_int w64 x = x"
proof (cases w64)
  case False
  then have "unat (ucast x :: uint32) = unat x" "unat x < 2 ^ 31" using assms by (simp_all add: unat_ucast_mod)
  then have s: "sint (ucast x :: uint32) = int (unat x)" by (simp add: sint_unat)
  have "scast (ucast x :: uint32) = (word_of_int (sint (ucast x :: uint32)) :: uint64)" by simp
  also have "\<dots> = x" unfolding s by simp
  finally show ?thesis using False by (simp add: to_int_def)
qed (simp add: to_int_def)

lemma foldl_value_bound:
  assumes "list_all (\<lambda>c. dvalue c < b) s" and "n < b ^ k"
  shows "foldl (\<lambda>n c. n * b + dvalue c) n s < b ^ (k + length s)"
  using assms
proof (induction s arbitrary: n k)
  case (Cons c s)
  have "n * b + dvalue c < b ^ Suc k"
  proof -
    have "n * b + dvalue c < n * b + b" using Cons.prems(1) by simp
    also have "\<dots> = Suc n * b" by simp
    also have "\<dots> \<le> b ^ k * b" using Cons.prems(2) by (intro mult_le_mono1) simp
    finally show ?thesis by (simp add: mult.commute)
  qed
  from Cons.IH [OF _ this] Cons.prems(1) show ?case by simp
qed simp

lemma value_of_bound: "list_all (\<lambda>c. dvalue c < b) s \<Longrightarrow> value_of b s < b ^ length s"
  using foldl_value_bound [of b s 0 0] by (simp add: value_of_def)

lemma Atoi_loop_value:
  assumes "unat n < 10 ^ j" and "j + length s \<le> (if w64 then 18 else 9)"
  shows "Atoi_loop w64 s n =
    (if list_all (\<lambda>c. dvalue c < 10) s then Some (of_nat (foldl (\<lambda>n c. n * 10 + dvalue c) (unat n) s)) else None)"
  using assms
proof (induction s arbitrary: n j)
  case (Cons c s)
  show ?case
  proof (cases "dvalue c < 10")
    case False
    then show ?thesis using decimal_digit(1) [of c] by (simp add: Let_def)
  next
    case True
    let ?k = "unat n * 10 + dvalue c"
    have d: "unat (ucast (c - 48) :: uint64) = dvalue c"
      using decimal_digit(2) [OF True] True by (simp add: unat_ucast_mod)
    have k: "?k < 10 ^ Suc j" using Cons.prems(1) True by simp
    have "(10::nat) ^ Suc j \<le> 10 ^ (if w64 then 18 else 9)" using Cons.prems(2) by (intro power_increasing) auto
    then have kb: "?k < 2 ^ (if w64 then 63 else 31)" using k by (cases w64) simp_all
    have k64: "?k < 2 ^ 64" using kb by (cases w64) simp_all
    have m: "unat (n * 10) = unat n * 10" using k64 by (subst unat_mult_no_wrap) simp_all
    then have u: "unat (n * 10 + ucast (c - 48)) = ?k" using k64 by (subst unat_add_no_wrap) (simp_all add: d)
    then have t: "to_int w64 (n * 10 + ucast (c - 48)) = n * 10 + ucast (c - 48)" using kb by (intro to_int_small) simp
    have "Suc j + length s \<le> (if w64 then 18 else 9)" using Cons.prems(2) by simp
    from Cons.IH [of "n * 10 + ucast (c - 48)" "Suc j", unfolded u, OF k this] True decimal_digit(1) [of c] t show ?thesis
      by (simp add: Let_def)
  qed
qed simp

lemma Atoi_ParseInt: "strconv_Atoi w64 s = (case strconv_ParseInt w64 s 10 0 of (i, e) \<Rightarrow> (to_int w64 i, e))"
proof (cases "IntSize w64 = 32 \<and> 0 < length s \<and> length s < 10 \<or> IntSize w64 = 64 \<and> 0 < length s \<and> length s < 19")
  case False
  then show ?thesis by (auto simp: strconv_Atoi_def Let_def)
next
  case True
  define t where t: "t = (if s \<noteq> [] \<and> (s ! 0 = 43 \<or> s ! 0 = 45) then drop 1 s else s)"
  define neg where neg: "neg \<longleftrightarrow> s \<noteq> [] \<and> s ! 0 = 45"
  define p where p: "p = takeWhile (\<lambda>c. dvalue c < nat 10) t"
  define v where v: "v = value_of (nat 10) p"
  define K :: nat where K: "K = (if w64 then 64 else 32)"
  have ne: "s \<noteq> []" using True by auto
  have len: "length s \<le> (if w64 then 18 else 9)" using True by (auto simp: IntSize_def split: if_splits)
  have lt: "length t \<le> (if w64 then 18 else 9)" using len by (auto simp: t split: if_splits)
  have P: "strconv_ParseInt w64 s 10 0 =
    (if t = [] \<or> p \<noteq> t \<and> v < 2 ^ K then (0, Some ErrSyntax)
     else if \<not> neg \<and> 2 ^ (K - 1) \<le> v then (2 ^ (K - 1) - 1, Some ErrRange)
     else if neg \<and> 2 ^ (K - 1) < v then (- (2 ^ (K - 1)), Some ErrRange)
     else (if neg then - of_nat v else of_nat v, None))"
    by (rule ParseInt_value [OF _ _ _ _ _ neg t p v]) (simp_all add: K width_def IntSize_def)
  have all: "list_all (\<lambda>c. dvalue c < 10) p" using p by (auto simp: list_all_iff dest: set_takeWhileD)
  have "length p \<le> (if w64 then 18 else 9)" using lt length_takeWhile_le [of "\<lambda>c. dvalue c < nat 10" t] unfolding p by linarith
  then have "(10::nat) ^ length p \<le> 10 ^ (if w64 then 18 else 9)" by (intro power_increasing) simp_all
  then have vb: "v < 2 ^ (K - 1)" using value_of_bound [OF all] by (cases w64) (simp_all add: v K)
  then have vK: "v < 2 ^ K" by (cases w64) (simp_all add: K)
  have L: "Atoi_loop w64 t 0 = (if p = t then Some (of_nat v) else None)"
  proof -
    have "list_all (\<lambda>c. dvalue c < 10) t \<longleftrightarrow> p = t" by (auto simp: p list_all_iff takeWhile_eq_all_conv)
    then show ?thesis using Atoi_loop_value [of 0 0 t w64] lt by (auto simp: v value_of_def)
  qed
  have A: "strconv_Atoi w64 s = (if t = [] \<or> p \<noteq> t then (0, Some ErrSyntax)
      else (if neg then to_int w64 (- of_nat v) else of_nat v, None))"
  proof -
    have t': "(if s ! 0 = 45 \<or> s ! 0 = 43 then drop 1 s else s) = t" using ne t by auto
    have n': "(s ! 0 = 45) = neg" using ne neg by simp
    have e: "(s ! 0 = 45 \<or> s ! 0 = 43) \<and> length t < 1 \<longleftrightarrow> t = []"
    proof
      assume "t = []"
      moreover from this have "s ! 0 = 43 \<or> s ! 0 = 45" using ne t by (auto split: if_splits)
      ultimately show "(s ! 0 = 45 \<or> s ! 0 = 43) \<and> length t < 1" by auto
    qed simp
    show ?thesis
      unfolding strconv_Atoi_def Let_def t' e L unfolding n' using True by (simp split: if_splits)
  qed
  have tn: "to_int w64 (of_nat v) = of_nat v"
  proof (rule to_int_small)
    have "v < 2 ^ 64" using vK by (cases w64) (simp_all add: K)
    then show "unat (of_nat v :: uint64) < 2 ^ (if w64 then 63 else 31)"
      using vb unat_of_nat [of v, where 'a = 64] by (cases w64) (simp_all add: K)
  qed
  have t0: "to_int w64 0 = 0" by (rule to_int_small) simp
  show ?thesis unfolding A P using vb vK tn t0 by auto
qed

end
