(* ===== verification/Strconv_Format.thy ===== *)
theory Strconv_Format
  imports Strconv_Parse
begin

text \<open>
  What the formatters compute. \<open>digits_of b n\<close> is the positional notation of \<open>n\<close>; the shift and division loops of
  \<open>formatBits\<close>, the table-driven \<open>formatBase10\<close> and the digit count \<open>numDigits\<close> produce it exactly.
\<close>

section \<open>Positional notation\<close>

function digits_of :: "nat \<Rightarrow> nat \<Rightarrow> byte list" where
  "digits_of b n = (if 2 \<le> b \<and> b \<le> n then digits_of b (n div b) @ [strconv_digits ! (n mod b)] else [strconv_digits ! n])"
  by pat_completeness auto
termination by (relation "measure (\<lambda>(b, n). n)") (auto intro: div_less_dividend)

declare digits_of.simps [simp del]

lemma dvalue_digit: "i < 36 \<Longrightarrow> dvalue (strconv_digits ! i) = i"
proof -
  have "list_all (\<lambda>i. dvalue (strconv_digits ! i) = i) [0..<36]" by code_simp
  then show "i < 36 \<Longrightarrow> dvalue (strconv_digits ! i) = i" by (simp add: list_all_iff)
qed

lemma value_of_append: "value_of b (s @ [c]) = value_of b s * b + dvalue c"
  by (simp add: value_of_def)

lemma digits_of_value:
  assumes "2 \<le> b" and "b \<le> 36"
  shows "value_of b (digits_of b n) = n \<and> list_all (\<lambda>c. dvalue c < b) (digits_of b n) \<and> digits_of b n \<noteq> []"
proof (induction n rule: less_induct)
  case (less n)
  show ?case
  proof (cases "b \<le> n")
    case True
    have "n div b < n" using True assms(1) by (intro div_less_dividend) auto
    note IH = less [OF this]
    have m: "n mod b < b" using assms(1) by simp
    then have d: "dvalue (strconv_digits ! (n mod b)) = n mod b" using assms(2) by (intro dvalue_digit) simp
    have "digits_of b n = digits_of b (n div b) @ [strconv_digits ! (n mod b)]"
      using True assms(1) by (subst digits_of.simps) simp
    then show ?thesis using IH m d by (simp add: value_of_append)
  next
    case False
    then have "digits_of b n = [strconv_digits ! n]" "dvalue (strconv_digits ! n) = n"
      using assms(2) by (subst digits_of.simps, simp, simp add: dvalue_digit)
    then show ?thesis using False by (simp add: value_of_def)
  qed
qed

section \<open>formatBits\<close>

lemma digits_of_length: "2 \<le> b \<Longrightarrow> n < b ^ Suc k \<Longrightarrow> length (digits_of b n) \<le> Suc k"
proof (induction k arbitrary: n)
  case 0
  then show ?case by (subst digits_of.simps) simp
next
  case (Suc k)
  show ?case
  proof (cases "b \<le> n")
    case True
    have "n div b < b ^ Suc k" using Suc.prems by (simp add: less_mult_imp_div_less mult.commute)
    with Suc.IH [OF Suc.prems(1) this] True Suc.prems(1) show ?thesis by (subst digits_of.simps) simp
  next
    case False
    then show ?thesis by (subst digits_of.simps) simp
  qed
qed

text \<open>Both loops store the low digits of \<open>u\<close> from the right.\<close>

lemma store_prefix_digit:
  assumes "i < length a"
  shows "drop i (a[i := c]) = c # drop (Suc i) a"
  using assms by (metis Cons_nth_drop_Suc length_list_update nth_list_update_eq drop_update_cancel lessI)

definition fmt_result :: "nat \<Rightarrow> nat \<Rightarrow> uint64 \<Rightarrow> byte list \<Rightarrow> (nat \<times> uint64 \<times> byte list) option \<Rightarrow> bool" where
  "fmt_result b i u a r = (case r of None \<Rightarrow> False | Some (j, w, a') \<Rightarrow> 0 < j \<and> j \<le> length a' \<and> length a' = length a
     \<and> unat w < b \<and> strconv_digits ! unat w # drop j a' = digits_of b (unat u) @ drop i a)"

lemma formatBits_div_result:
  assumes "2 \<le> unat b" and "unat u < unat b ^ i" and "i \<le> length a" and "0 < i"
  shows "fmt_result (unat b) i u a (formatBits_div b i u a)"
  using assms(2-)
proof (induction i arbitrary: u a)
  case (Suc i)
  show ?case
  proof (cases "b \<le> u")
    case False
    then have "unat u < unat b" by (simp add: word_le_nat_alt)
    then have "digits_of (unat b) (unat u) = [strconv_digits ! unat u]" by (subst digits_of.simps) simp
    then show ?thesis using False Suc.prems \<open>unat u < unat b\<close> by (simp add: fmt_result_def)
  next
    case True
    let ?q = "u div b"
    have q: "unat ?q = unat u div unat b" by (simp add: unat_div)
    have "unat u div unat b * unat b \<le> unat u" by simp
    then have "unat u div unat b * unat b < 2 ^ 64" using unat64_less [of u] by (rule le_less_trans)
    then have "unat (?q * b) = unat u div unat b * unat b" using unat_mult_no_wrap [of ?q b] by (simp only: q) simp
    then have r: "unat (u - ?q * b) = unat u mod unat b"
      by (subst unat_sub) (simp_all add: word_le_nat_alt minus_div_mult_eq_mod)
    let ?a = "a[i := strconv_digits ! (unat u mod unat b)]"
    have lt: "unat ?q < unat b ^ i" using Suc.prems(1) q by (simp add: less_mult_imp_div_less mult.commute)
    have "i \<noteq> 0" using True Suc.prems(1) by (cases i) (simp_all add: word_le_nat_alt)
    then have "fmt_result (unat b) i ?q ?a (formatBits_div b i ?q ?a)" using Suc.prems(2) lt by (intro Suc.IH) simp_all
    moreover have "formatBits_div b (Suc i) u a = formatBits_div b i ?q ?a" using True r by (simp add: Let_def)
    moreover have "digits_of (unat b) (unat u) = digits_of (unat b) (unat ?q) @ [strconv_digits ! (unat u mod unat b)]"
      using True assms(1) by (subst digits_of.simps) (simp add: word_le_nat_alt q)
    moreover have "drop i ?a = (strconv_digits ! (unat u mod unat b)) # drop (Suc i) a"
      using Suc.prems(2) by (intro store_prefix_digit) simp
    ultimately show ?thesis by (simp add: fmt_result_def split: option.splits prod.splits)
  qed
qed simp

lemma formatBits_shift_div:
  assumes "k < 64" and "b = 2 ^ k"
  shows "formatBits_shift k b (b - 1) i u a = formatBits_div b i u a"
proof -
  have q: "drop_bit k u = u div b" for u :: uint64 using assms by (simp add: drop_bit_eq_div)
  have "b - 1 = mask k" using assms(2) by (simp add: mask_eq_exp_minus_1)
  then have r: "u AND (b - 1) = u - u div b * b" for u :: uint64
    using assms(2) by (simp add: take_bit_eq_mask [symmetric] take_bit_eq_mod minus_div_mult_eq_mod)
  show ?thesis by (induction i arbitrary: u a) (simp_all add: q r Let_def)
qed

lemma power_of_two_base:
  assumes "2 \<le> base" and "base \<le> 36" and "isPowerOfTwo (word_of_int base)"
  shows "\<exists>k < 64. bits_TrailingZeros w64 (word_of_int base) = k \<and> (word_of_int base :: uint64) = 2 ^ k"
proof -
  have "list_all (\<lambda>i. isPowerOfTwo (word_of_int (int i)) \<longrightarrow> i < 2 \<or>
      bits_TrailingZeros w64 (word_of_int (int i)) < 64 \<and>
      (word_of_int (int i) :: uint64) = 2 ^ bits_TrailingZeros w64 (word_of_int (int i))) [0..<37]" for w64
    by (cases w64; simp only:; code_simp)
  then have "\<forall>i < 37. isPowerOfTwo (word_of_int (int i)) \<longrightarrow> i < 2 \<or>
      bits_TrailingZeros w64 (word_of_int (int i)) < 64 \<and>
      (word_of_int (int i) :: uint64) = 2 ^ bits_TrailingZeros w64 (word_of_int (int i))"
    unfolding list_all_iff by simp
  then show ?thesis using assms by (auto dest: spec [of _ "nat base"])
qed

text \<open>In every base the digits of a 64-bit value and a sign fit the 65 bytes of the buffer.\<close>

lemma put_before_drop:
  assumes "0 < i" and "i \<le> length a"
  shows "put_before a i c = Some (i - 1, a[i - 1 := c])" and "drop (i - 1) (a[i - 1 := c]) = c # drop i a"
  using assms store_prefix_digit [of "i - 1" a c] by (simp_all add: put_before_def)

lemma formatBits_exact:
  assumes "2 \<le> base" and "base \<le> 36" and "base \<noteq> 10"
  shows "formatBits w64 dst u base neg append_to =
    (let d = (if neg then 45 # digits_of (nat base) (unat (- u)) else digits_of (nat base) (unat u)) in
     Some (if append_to then (dst @ d, []) else ([], d)))"
proof -
  let ?b = "word_of_int base :: uint64" and ?a = "replicate (64 + 1) 0 :: byte list"
  define v where v: "v = (if neg then - u else u)"
  have ub: "unat ?b = nat base" using assms(1,2) by (simp add: unat_eq_nat_uint word_uint_eq_iff take_bit_int_eq_self uint_word_of_int)
  have "(2::nat) ^ 64 \<le> nat base ^ 64" using assms(1) by (intro power_mono) simp_all
  then have v64: "unat v < nat base ^ Suc 63" using unat64_less [of v] by simp
  also have "\<dots> \<le> nat base ^ length ?a" using assms(1) by (intro power_increasing) simp_all
  finally have R: "fmt_result (nat base) 65 v ?a (formatBits_div ?b (length ?a) v ?a)"
    using formatBits_div_result [of ?b v 65 ?a] assms(1) by (simp add: ub)
  have "(if isPowerOfTwo ?b then formatBits_shift (bits_TrailingZeros w64 ?b) ?b (?b - 1) (length ?a) v ?a
      else formatBits_div ?b (length ?a) v ?a) = formatBits_div ?b (length ?a) v ?a"
  proof (cases "isPowerOfTwo ?b")
    case True
    from power_of_two_base [OF assms(1,2) this, of w64] obtain k where "k < 64" "bits_TrailingZeros w64 ?b = k" "?b = 2 ^ k" by auto
    then show ?thesis using formatBits_shift_div [of k ?b "length ?a" v ?a] by (simp only: if_True simp_thms split: if_split)
  qed (simp only: if_False)
  moreover obtain i w a where i: "formatBits_div ?b (length ?a) v ?a = Some (i, w, a)" "i \<le> length a" "length a = 65"
    and D: "strconv_digits ! unat w # drop i a = digits_of (nat base) (unat v)"
    using R by (auto simp: fmt_result_def split: option.splits)
  moreover have "length (digits_of (nat base) (unat v)) \<le> Suc 63" using assms(1) v64 by (intro digits_of_length) simp_all
  then have i2: "2 \<le> i" using i(2,3) arg_cong [OF D, of length] by simp
  define a1 where a1: "a1 = a[i - 1 := strconv_digits ! unat w]"
  have p1: "put_before a i (strconv_digits ! unat w) = Some (i - 1, a1)" "drop (i - 1) a1 = digits_of (nat base) (unat v)"
    using put_before_drop [of i a] i i2 D by (simp_all add: a1)
  define a2 where a2: "a2 = a1[i - 1 - 1 := 45]"
  have p2: "put_before a1 (i - 1) 45 = Some (i - 1 - 1, a2)" "drop (i - 1 - 1) a2 = 45 # digits_of (nat base) (unat v)"
    unfolding a2 p1(2) [symmetric] using i i2 by (intro put_before_drop; simp add: a1)+
  moreover have "\<not> (base < 2 \<or> base = 10 \<or> int (length strconv_digits) < base)"
    using assms by (simp add: strconv_digits_def)
  ultimately show ?thesis
    unfolding formatBits_def Let_def v [symmetric] using p1 by (simp add: v Let_def)
qed

section \<open>Base ten\<close>

fun dec :: "nat \<Rightarrow> nat \<Rightarrow> byte list" where
  "dec 0 n = []"
| "dec (Suc k) n = dec k (n div 10) @ [48 + of_nat (n mod 10)]"

lemma length_dec [simp]: "length (dec k n) = k"
  by (induction k n rule: dec.induct) simp_all

lemma dec_add: "dec (j + k) n = dec j (n div 10 ^ k) @ dec k n"
  by (induction k arbitrary: n) (simp_all add: div_mult2_eq)

lemma digit_char: "d < 10 \<Longrightarrow> strconv_digits ! d = 48 + of_nat d"
  by (simp add: strconv_digits_def nth_append)

lemma dec_digits_of:
  assumes "n < 10 ^ Suc k" and "k = 0 \<or> 10 ^ k \<le> n"
  shows "dec (Suc k) n = digits_of 10 n"
  using assms
proof (induction k arbitrary: n)
  case 0
  then show ?case by (subst digits_of.simps) (simp add: digit_char)
next
  case (Suc k)
  have "10 ^ k \<le> n div 10" using Suc.prems(2) by (simp add: less_eq_div_iff_mult_less_eq mult.commute)
  moreover have "n div 10 < 10 ^ Suc k" using Suc.prems(1) by (simp add: less_mult_imp_div_less mult.commute)
  ultimately have "dec (Suc k) (n div 10) = digits_of 10 (n div 10)" by (intro Suc.IH) simp_all
  moreover have "10 \<le> n"
    using Suc.prems(2) power_increasing [of 1 "Suc k" "10 :: nat"] by (simp only: power_one_right) linarith
  ultimately show ?case
    unfolding dec.simps(2) [of "Suc k"] by (subst digits_of.simps) (simp add: digit_char del: dec.simps)
qed

lemma smalls_pair: "y < 100 \<Longrightarrow> [smalls ! (y * 2), smalls ! (y * 2 + 1)] = dec 2 y"
proof -
  have "list_all (\<lambda>y. [smalls ! (y * 2), smalls ! (y * 2 + 1)] = dec 2 y) [0..<100]" by code_simp
  then show "y < 100 \<Longrightarrow> ?thesis" by (simp add: list_all_iff)
qed

lemma dec_mod: "k \<le> j \<Longrightarrow> dec k (n mod 10 ^ j) = dec k n"
proof (induction k arbitrary: j n)
  case (Suc k)
  then obtain i where j: "j = Suc i" "k \<le> i" by (cases j) auto
  have m: "n mod 10 ^ j = 10 * (n div 10 mod 10 ^ i) + n mod 10" unfolding j(1) power_Suc by (rule mod_mult2_eq)
  then have "n mod 10 ^ j div 10 = n div 10 mod 10 ^ i" "n mod 10 ^ j mod 10 = n mod 10" by simp_all
  then show ?case using Suc.IH [OF j(2)] by simp
qed simp

lemmas dec_2_mod = dec_mod [of 2 2, simplified]

lemma put_pair_dec:
  assumes "2 \<le> nd" and "nd \<le> length a" and "x = n mod 100 * 2"
  shows "drop (nd - 2) (put_pair a nd x) = dec 2 n @ drop nd a" and "length (put_pair a nd x) = length a"
proof -
  show "length (put_pair a nd x) = length a" by (simp add: put_pair_def)
  obtain k where nd: "nd = Suc (Suc k)" using assms(1) by (metis add_2_eq_Suc le_Suc_ex)
  let ?c = "smalls ! (x + 1)" and ?d = "smalls ! x"
  have "drop k (a[Suc k := ?c, k := ?d]) = ?d # drop (Suc k) (a[Suc k := ?c])"
    using assms(2) nd by (intro store_prefix_digit) simp
  also have "drop (Suc k) (a[Suc k := ?c]) = ?c # drop (Suc (Suc k)) a"
    using assms(2) nd by (intro store_prefix_digit) simp
  finally have "drop (nd - 2) (put_pair a nd x) = [?d, ?c] @ drop nd a" by (simp add: put_pair_def nd)
  also have "[?d, ?c] = dec 2 (n mod 100)" using smalls_pair [of "n mod 100"] assms(3) by simp
  finally show "drop (nd - 2) (put_pair a nd x) = dec 2 n @ drop nd a" by (simp only: dec_2_mod)
qed

text \<open>The two-digit groups of a 32-bit value, and the positions of their digits in \<open>smalls\<close>.\<close>

lemma unat_double: "unat (x :: uint32) < 2 ^ 31 \<Longrightarrow> unat (x * 2) = unat x * 2"
  using unat_mult_no_wrap [of x 2] by simp

lemma mod_less_bound: "0 < k \<Longrightarrow> k \<le> m \<Longrightarrow> n mod k < (m :: nat)"
  by (rule less_le_trans [OF mod_less_divisor])

lemma digit_groups:
  fixes n :: nat
  shows "n mod 10000 mod 100 = n mod 100" and "n mod 10000 div 100 = n div 100 mod 100"
  using mod_mult2_eq [of n 100 100] by (simp_all add: mod_mod_cancel)

lemma pair_positions:
  fixes x :: uint32
  shows "unat ((x mod 100) * 2) = unat x mod 100 * 2"
    and "unat ((x mod 10000 mod 100) * 2) = unat x mod 100 * 2"
    and "unat ((x mod 10000 div 100) * 2) = unat x div 100 mod 100 * 2"
  by (subst unat_double; simp add: unat_mod unat_div digit_groups mod_less_bound)+

lemma put_group_4:
  assumes "4 \<le> nd" and "nd \<le> length a" and "x = unat (y :: uint32)"
  shows "drop (nd - 4) (put_pair (put_pair a nd (unat ((y mod 10000 mod 100) * 2))) (nd - 2) (unat ((y mod 10000 div 100) * 2))) =
      dec 4 x @ drop nd a"
    and "length (put_pair (put_pair a nd (unat ((y mod 10000 mod 100) * 2))) (nd - 2) (unat ((y mod 10000 div 100) * 2))) = length a"
proof -
  let ?a1 = "put_pair a nd (unat ((y mod 10000 mod 100) * 2))"
  let ?a2 = "put_pair ?a1 (nd - 2) (unat ((y mod 10000 div 100) * 2))"
  note 1 = put_pair_dec [of nd a _ x, OF _ assms(2) pair_positions(2) [of y, folded assms(3)]]
  note 2 = put_pair_dec [of "nd - 2" ?a1 _ "x div 100", OF _ _ pair_positions(3) [of y, folded assms(3)]]
  have len: "length ?a1 = length a" using 1(2) assms(1) by simp
  show "length ?a2 = length a" using 2(2) len assms(1,2) by simp
  have "drop (nd - 2 - 2) ?a2 = dec 2 (x div 100) @ dec 2 x @ drop nd a"
    using 1(1) 2(1) len assms(1,2) by simp
  moreover have "nd - 2 - 2 = nd - 4" by simp
  ultimately show "drop (nd - 4) ?a2 = dec 4 x @ drop nd a" using dec_add [of 2 2 x] by simp
qed

lemma formatBase10_loop_dec:
  assumes "formatBase10_loop nd u a = (nd', u', a')" and "nd \<le> length a"
  shows "nd' \<le> nd \<and> nd' < 8 \<and> length a' = length a \<and> unat u' = unat u div 10 ^ (nd - nd')
    \<and> drop nd' a' = dec (nd - nd') (unat u) @ drop nd a"
  using assms
proof (induction nd arbitrary: u a rule: less_induct)
  case (less nd)
  show ?case
  proof (cases "8 \<le> nd")
    case False
    then show ?thesis using less.prems by (subst (asm) formatBase10_loop.simps) simp
  next
    case True
    define x :: uint32 where x: "x = ucast (u mod 100000000)"
    have ux: "unat x = unat u mod 100000000"
      unfolding x unat_ucast_mod unat_mod by (simp add: mod_less_bound)
    define a4 where a4: "a4 = put_pair (put_pair a nd (unat ((x mod 10000 mod 100) * 2))) (nd - 2) (unat ((x mod 10000 div 100) * 2))"
    define y where y: "y = x div 10000"
    have uy: "unat y = unat u mod 100000000 div 10000" by (simp add: y unat_div ux)
    then have y4: "unat y < 10000" using less_mult_imp_div_less [of "unat u mod 100000000" 10000 10000] by simp
    then have ym: "y mod 10000 = y" by (intro mod_word_less) (simp add: word_less_nat_alt)
    define a8 where a8: "a8 = put_pair (put_pair a4 (nd - 4) (unat ((y mod 100) * 2))) (nd - 6) (unat ((y div 100) * 2))"
    have 4: "drop (nd - 4) a4 = dec 4 (unat x) @ drop nd a" "length a4 = length a"
      unfolding a4 using True less.prems(2) by (intro put_group_4; simp)+
    have "nd - 4 - 2 = nd - 6" "nd - 4 - 4 = nd - 8" by simp_all
    then have 8: "drop (nd - 8) a8 = dec 4 (unat y) @ drop (nd - 4) a4" "length a8 = length a"
      using put_group_4 [of "nd - 4" a4 "unat y" y, unfolded ym] True less.prems(2) 4(2) by (simp_all add: a8)
    have S: "formatBase10_loop (nd - 8) (u div 100000000) a8 = (nd', u', a')"
      using less.prems(1) True by (subst (asm) formatBase10_loop.simps) (simp add: Let_def x [symmetric] y a4 a8)
    have d8: "dec 4 (unat y) @ dec 4 (unat x) = dec 8 (unat u)"
    proof -
      have "unat u mod 100000000 = 10000 * (unat u div 10000 mod 10000) + unat u mod 10000"
        using mod_mult2_eq [of "unat u" 10000 10000] by simp
      then have "unat y = unat u div 10000 mod 10 ^ 4" unfolding uy by simp
      then have "dec 4 (unat y) = dec 4 (unat u div 10 ^ 4)" using dec_mod [of 4 4 "unat u div 10 ^ 4"] by simp
      moreover have "dec 4 (unat x) = dec 4 (unat u)" using dec_mod [of 4 8 "unat u"] ux by simp
      ultimately show ?thesis using dec_add [of 4 4 "unat u"] by simp
    qed
    have IH: "nd' \<le> nd - 8" "nd' < 8" "length a' = length a8" "unat u' = unat u div 100000000 div 10 ^ (nd - 8 - nd')"
        "drop nd' a' = dec (nd - 8 - nd') (unat u div 100000000) @ drop (nd - 8) a8"
      using less.IH [OF _ S] True less.prems(2) 8(2) by (simp_all add: unat_div)
    have e: "nd - 8 - nd' + 8 = nd - nd'" using IH(1) True by simp
    have "unat u' = unat u div 10 ^ (nd - nd')"
      unfolding IH(4) e [symmetric] power_add by (simp add: div_mult2_eq [symmetric] mult.commute)
    moreover have "drop nd' a' = dec (nd - nd') (unat u) @ drop nd a"
      using IH(5) 4(1) 8(1) d8 dec_add [of "nd - 8 - nd'" 8 "unat u"] unfolding e by simp
    ultimately show ?thesis using IH(1-3) True 8(2) by simp
  qed
qed

lemma formatBase10_dec:
  assumes "unat u < 10 ^ length a"
  shows "formatBase10 a u = dec (length a) (unat u)"
proof -
  obtain n1 u1 a1 where 1: "formatBase10_loop (length a) u a = (n1, u1, a1)" by (metis prod_cases3)
  note L = formatBase10_loop_dec [OF 1 order_refl]
  define m where m: "m = unat u div 10 ^ (length a - n1)"
  have m7: "m < 10 ^ n1"
    using assms L unfolding m by (intro less_mult_imp_div_less) (simp add: power_add [symmetric])
  also have "\<dots> \<le> 10 ^ 7" using L by (intro power_increasing) simp_all
  finally have x1: "unat (ucast u1 :: uint32) = m" using L by (simp add: unat_ucast_mod m)
  define x :: uint32 where x: "x = ucast u1"
  define r where r: "r = (if 4 \<le> n1 then
      (n1 - 4, x div 10000, put_pair (put_pair a1 n1 (unat ((x mod 10000 mod 100) * 2))) (n1 - 2) (unat ((x mod 10000 div 100) * 2)))
    else (n1, x, a1))"
  obtain n2 x2 a2 where 2: "r = (n2, x2, a2)" by (metis prod_cases3)
  have M: "n2 \<le> n1 \<and> n2 < 4 \<and> length a2 = length a1 \<and> unat x2 = m div 10 ^ (n1 - n2)
      \<and> drop n2 a2 = dec (n1 - n2) m @ drop n1 a1"
  proof (cases "4 \<le> n1")
    case True
    with 2 show ?thesis using put_group_4 [OF True _ refl, of a1 x] L x1 by (auto simp: r x unat_div)
  qed (use 2 L x1 in \<open>auto simp: r x\<close>)
  define q where q: "q = (if 2 \<le> n2 then (n2 - 2, x2 div 100, put_pair a2 n2 (unat ((x2 mod 100) * 2))) else (n2, x2, a2))"
  obtain n3 x3 a3 where 3: "q = (n3, x3, a3)" by (metis prod_cases3)
  let ?k = "m div 10 ^ (n1 - n2)"
  have N: "n3 \<le> n2 \<and> n3 < 2 \<and> length a3 = length a2 \<and> unat x3 = ?k div 10 ^ (n2 - n3)
      \<and> drop n3 a3 = dec (n2 - n3) ?k @ drop n2 a2"
  proof (cases "2 \<le> n2")
    case True
    with 3 show ?thesis using put_pair_dec [OF True _ pair_positions(1), of a2 x2] L M by (auto simp: q unat_div)
  qed (use 3 M in \<open>auto simp: q\<close>)
  have F: "formatBase10 a u = (if 0 < n3 then a3[0 := 48 + ucast x3] else a3)"
    unfolding formatBase10_def Let_def 1 prod.case x [symmetric] r [symmetric] 2 q [symmetric] 3 ..
  have "dec (length a) (unat u) = dec n1 m @ dec (length a - n1) (unat u)"
    using dec_add [of n1 "length a - n1" "unat u"] L by (simp add: m)
  also have "dec n1 m = dec n2 ?k @ dec (n1 - n2) m" using dec_add [of n2 "n1 - n2" m] M by simp
  also have "dec n2 ?k = dec n3 (unat x3) @ dec (n2 - n3) ?k" using dec_add [of n3 "n2 - n3" ?k] N by simp
  finally have D: "dec (length a) (unat u) = dec n3 (unat x3) @ drop n3 a3" using L M N by simp
  show ?thesis
  proof (cases "n3 = 0")
    case False
    then have n3: "n3 = Suc 0" using N by simp
    have "?k < 10 ^ n2" using m7 M by (intro less_mult_imp_div_less) (simp add: power_add [symmetric])
    then have "?k < 10 * 10 ^ (n2 - n3)" using N n3 by (cases n2) simp_all
    then have "unat x3 < 10" using N by (simp add: less_mult_imp_div_less)
    then have "dec n3 (unat x3) = [48 + ucast x3]" by (simp add: n3)
    moreover have "0 < length a3" using L M N n3 by linarith
    then have "a3[0 := 48 + ucast x3] = (48 + ucast x3) # drop n3 a3"
      using store_prefix_digit [of 0 a3 "48 + ucast x3"] n3 by simp
    ultimately show ?thesis using F D n3 by simp
  qed (use F D in simp)
qed

lemma log10Pow2_bounds:
  assumes "0 < l" and "l \<le> 64"
  shows "log10Pow2 l < 20 \<and> 10 ^ log10Pow2 l \<le> (2 ^ l :: nat) \<and> (2 ^ l :: nat) < 10 ^ Suc (log10Pow2 l)"
proof (cases "l = 1")
  case False
  have "list_all (\<lambda>l. log10Pow2 l < 20 \<and> 10 ^ log10Pow2 l \<le> (2 ^ l :: nat) \<and> (2 ^ l :: nat) < 10 ^ Suc (log10Pow2 l)) [2..<65]"
    by (simp add: upt_rec_numeral log10Pow2_def drop_bit_eq_div)
  then have "\<forall>l \<in> set [2..<65]. log10Pow2 l < 20 \<and> 10 ^ log10Pow2 l \<le> (2 ^ l :: nat) \<and> (2 ^ l :: nat) < 10 ^ Suc (log10Pow2 l)"
    by (simp only: list_all_iff)
  moreover have "l \<in> set [2..<65]" using assms False by (simp del: upt_rec_numeral)
  ultimately show ?thesis by (rule bspec)
qed (simp add: log10Pow2_def drop_bit_eq_div)

lemma unat_pow10:
  assumes "i < 20"
  shows "unat (uint64pow10 ! i) = 10 ^ i"
proof -
  have "(10::nat) ^ i \<le> 10 ^ 19" using assms by (intro power_increasing) simp_all
  then have "(10::nat) ^ i < 2 ^ LENGTH(64)" by simp
  then have "unat (of_nat (10 ^ i) :: uint64) = 10 ^ i" using unat_of_nat [of "10 ^ i", where 'a = 64] by simp
  then show ?thesis using assms by (simp add: uint64pow10_def)
qed

lemma numDigits_exact:
  assumes "u \<noteq> 0"
  obtains k where "numDigits u = Suc k" and "10 ^ k \<le> unat u" and "unat u < 10 ^ Suc k"
proof -
  have u: "0 < unat u" using assms by (simp add: unat_gt_0)
  define l where l: "l = bits_Len64 u"
  have lb: "unat u < 2 ^ l" "2 ^ (l - 1) \<le> unat u" using blen_bounds [of "unat u"] u by (simp_all add: l Len64_blen)
  have l0: "0 < l" using lb(1) u by (cases l) simp_all
  have "(2::nat) ^ (l - 1) < 2 ^ 64" using lb(2) unat64_less [of u] by (rule le_less_trans)
  then have "l \<le> 64" using power_less_imp_less_exp [of "2 :: nat" "l - 1" 64] by simp
  note T = log10Pow2_bounds [OF l0 this]
  define t where t: "t = log10Pow2 l"
  have c: "uint64pow10 ! t \<le> u \<longleftrightarrow> 10 ^ t \<le> unat u" using T by (simp add: word_le_nat_alt unat_pow10 t)
  have half: "2 ^ l = 2 * (2 :: nat) ^ (l - 1)" using l0 by (cases l) simp_all
  show ?thesis
  proof (cases "10 ^ t \<le> unat u")
    case True
    then show ?thesis using T lb(1) c by (intro that [of t]) (simp_all add: numDigits_def l [symmetric] t [symmetric])
  next
    case False
    then have "t \<noteq> 0" using u by (cases t) simp_all
    then obtain k where k: "t = Suc k" by (cases t) auto
    have "10 * 10 ^ k \<le> 2 * unat u" using T lb(2) half by (simp add: t [symmetric] k)
    then have "10 ^ k \<le> unat u" by linarith
    then show ?thesis using False c by (intro that [of k]) (simp_all add: numDigits_def l [symmetric] t [symmetric] k not_le)
  qed
qed

lemma base10_digits:
  assumes "u \<noteq> 0"
  shows "formatBase10 (replicate (numDigits u) 0) u = digits_of 10 (unat u)"
  using assms by (elim numDigits_exact) (simp add: formatBase10_dec dec_digits_of del: dec.simps)

lemma length_strconv_digits [simp]: "length strconv_digits = 36"
  by (simp add: strconv_digits_def)

lemma small_digits:
  assumes "n < 100"
  shows "small n = digits_of 10 n"
proof (cases "n < 10")
  case True
  then have "small n = [strconv_digits ! n]"
    by (simp add: small_def go_slice_def take_Suc_conv_app_nth length_strconv_digits)
  then show ?thesis using True by (subst digits_of.simps) simp
next
  case False
  have "length smalls = 200" by (simp add: smalls_def length_concat comp_def sum_list_triv)
  then have "small n = [smalls ! (n * 2), smalls ! (n * 2 + 1)]"
    using False assms by (simp add: small_def go_slice_def take_Suc_conv_app_nth numeral_2_eq_2)
  also have "\<dots> = dec (Suc 1) n" using smalls_pair [OF assms] by (simp only: numeral_2_eq_2 One_nat_def)
  also have "\<dots> = digits_of 10 n" using False assms by (intro dec_digits_of) simp_all
  finally show ?thesis .
qed

section \<open>The exported formatters\<close>

lemma strconv_FormatUint_exact:
  assumes "2 \<le> base" and "base \<le> 36"
  shows "strconv_FormatUint w64 u base = Some (digits_of (nat base) (unat u))"
proof (cases "base = 10")
  case True
  show ?thesis
  proof (cases "u < 100")
    case False
    then have "u \<noteq> 0" by auto
    then show ?thesis using True False by (simp add: strconv_FormatUint_def base10_digits Let_def)
  qed (use True in \<open>simp add: strconv_FormatUint_def small_digits word_less_nat_alt\<close>)
qed (use assms in \<open>simp add: strconv_FormatUint_def formatBits_exact Let_def\<close>)

definition signed_digits :: "nat \<Rightarrow> int \<Rightarrow> byte list" where
  "signed_digits b z = (if z < 0 then 45 # digits_of b (nat (- z)) else digits_of b (nat z))"

lemma unat_uminus:
  fixes u :: uint64
  assumes "u \<noteq> 0"
  shows "unat (- u) = 2 ^ 64 - unat u"
proof -
  have "- u = of_nat (2 ^ 64 - unat u)" using unat64_less [of u] by (simp add: of_nat_diff)
  moreover have "2 ^ 64 - unat u < 2 ^ 64" using assms by (simp add: unat_gt_0)
  ultimately show ?thesis using unat_of_nat [of "2 ^ 64 - unat u", where 'a = 64] by simp
qed

lemma unat_abs: "nat \<bar>sint (u :: uint64)\<bar> = (if sint u < 0 then unat (- u) else unat u)"
proof (cases "sint u < 0")
  case True
  then have "sint u = int (unat u) - 2 ^ 64" "u \<noteq> 0" by (auto simp: sint_unat split: if_splits)
  then have "\<bar>sint u\<bar> = int (2 ^ 64 - unat u)" using True unat64_less [of u] by (subst of_nat_diff) simp_all
  then have "nat \<bar>sint u\<bar> = 2 ^ 64 - unat u" by (simp only: nat_int)
  then show ?thesis using True unat_uminus [OF \<open>u \<noteq> 0\<close>] by simp
next
  case False
  have "int (unat u) < 2 ^ 64" using unat64_less [of u] by (simp only: of_nat_less_numeral_power_cancel_iff)
  then have "sint u = int (unat u)" using False by (simp add: sint_unat split: if_splits)
  then show ?thesis using False by simp
qed

lemma signed_digits_sint:
  "signed_digits b (sint (u :: uint64)) = (if sint u < 0 then 45 # digits_of b (unat (- u)) else digits_of b (unat u))"
  using unat_abs [of u] by (simp add: signed_digits_def split: if_splits)

lemma strconv_FormatInt_exact:
  assumes "2 \<le> base" and "base \<le> 36"
  shows "strconv_FormatInt w64 u base = Some (signed_digits (nat base) (sint u))"
proof (cases "base = 10")
  case True
  show ?thesis
  proof (cases "0 \<le> sint u \<and> sint u < 100")
    case small: True
    then have "unat u < 100" using unat_abs [of u] by (simp split: if_splits) linarith
    then show ?thesis using small True by (simp add: strconv_FormatInt_def small_digits signed_digits_sint)
  next
    case False
    then have "u \<noteq> 0" by auto
    then show ?thesis
      using False True base10_digits [of u] base10_digits [of "- u"] by (simp add: strconv_FormatInt_def signed_digits_sint Let_def)
  qed
qed (use assms in \<open>simp add: strconv_FormatInt_def formatBits_exact Let_def signed_digits_sint\<close>)

lemma strconv_AppendUint_exact:
  assumes "2 \<le> base" and "base \<le> 36"
  shows "strconv_AppendUint w64 dst u base = Some (dst @ digits_of (nat base) (unat u))"
proof (cases "base = 10")
  case True
  show ?thesis
  proof (cases "u < 100")
    case False
    then have "u \<noteq> 0" by auto
    then show ?thesis using True False by (simp add: strconv_AppendUint_def base10_digits Let_def)
  qed (use True in \<open>simp add: strconv_AppendUint_def small_digits word_less_nat_alt\<close>)
qed (use assms in \<open>simp add: strconv_AppendUint_def formatBits_exact Let_def\<close>)

lemma strconv_AppendInt_exact:
  assumes "2 \<le> base" and "base \<le> 36"
  shows "strconv_AppendInt w64 dst u base = Some (dst @ signed_digits (nat base) (sint u))"
  using assms by (simp add: strconv_AppendInt_def strconv_AppendUint_exact signed_digits_sint Let_def)

lemma RuntimeFormatBase10_exact:
  assumes "20 \<le> length a" and k: "k = length (digits_of 10 (unat u))"
  shows "RuntimeFormatBase10 a u = (take (length a - k) a @ digits_of 10 (unat u), length a - k)"
proof -
  have odd: "unat (u OR 1) = unat u + of_bool (even (unat u))"
    using or_one_eq [of "unat u"] by (metis unsigned_or_eq unat_1)
  then have "u OR 1 \<noteq> 0" by (metis add_is_0 even_zero of_bool_eq(2) unat_0 zero_neq_one)
  then obtain j where j: "numDigits (u OR 1) = Suc j" "10 ^ j \<le> unat (u OR 1)" "unat (u OR 1) < 10 ^ Suc j"
    by (rule numDigits_exact)
  have "j = 0 \<or> 10 ^ j \<le> unat u"
  proof (rule disjCI)
    assume "\<not> 10 ^ j \<le> unat u"
    then have "even (unat u)" "unat u + 1 = 10 ^ j" using j(2) odd by (cases "even (unat u)"; simp)+
    then show "j = 0" by (metis even_add even_power odd_one even_numeral neq0_conv)
  qed
  then have d: "dec (Suc j) (unat u) = digits_of 10 (unat u)" using j(3) odd by (intro dec_digits_of) simp_all
  then have kj: "k = Suc j" using k by (metis length_dec)
  have "(10::nat) ^ j < 10 ^ 20" using j(2) unat64_less [of "u OR 1"] by (rule le_less_trans [OF _ less_le_trans]) simp
  then have "Suc j \<le> 20" by (metis Suc_leI one_less_numeral_iff power_less_imp_less_exp semiring_norm(76))
  then have "formatBase10 (drop (length a - Suc j) a) u = dec (Suc j) (unat u)"
    using assms(1) j(3) odd by (subst formatBase10_dec) simp_all
  then show ?thesis using j(1) d kj by (simp add: RuntimeFormatBase10_def Let_def)
qed

end
