(* ===== verification/Strconv_Correct.thy ===== *)
theory Strconv_Correct
  imports Strconv_Format
begin

text \<open>
  The properties of the integer conversions: parsing on every input, formatting in every base, the round trips
  between them, and two places where the code departs from its documentation.
\<close>

section \<open>Parsing, in full\<close>
















definition int_range :: "nat \<Rightarrow> int set" where
  "int_range k = {- (2 ^ (k - 1))..<2 ^ (k - 1)}"

lemma sint_small:
  fixes z :: int
  assumes "- (2 ^ 63) \<le> z" and "z < 2 ^ 63"
  shows "sint (word_of_int z :: uint64) = z"
  using assms by (simp add: sint_sbintrunc' signed_take_bit_int_eq_self)




section \<open>Formatting\<close>

text \<open>
  C25. The formatters return, in every base from 2 to 36, exactly the digits of the positional notation with a minus
  sign for a negative value (the least \<open>int64\<close> included) and no superfluous zero; the appending variants put
  the same text after the destination, and the runtime's variant puts it at the tail of a buffer of 20 bytes or more.
\<close>

theorem Format_exact:
  assumes "2 \<le> base" and "base \<le> 36" and "20 \<le> length a"
  shows "strconv_FormatUint w64 u base = Some (digits_of (nat base) (unat u))
    \<and> strconv_FormatInt w64 u base = Some (signed_digits (nat base) (sint u))
    \<and> strconv_AppendUint w64 dst u base = Some (dst @ digits_of (nat base) (unat u))
    \<and> strconv_AppendInt w64 dst u base = Some (dst @ signed_digits (nat base) (sint u))
    \<and> (let d = digits_of 10 (unat u); i = length a - length d in RuntimeFormatBase10 a u = (take i a @ d, i))"
  using assms
  by (simp add: strconv_FormatUint_exact strconv_FormatInt_exact strconv_AppendUint_exact strconv_AppendInt_exact
      RuntimeFormatBase10_exact)

theorem Format_exact_witness:
  "strconv_FormatInt True (- 300) 7 = Some (signed_digits 7 (sint (- 300 :: uint64)))
   \<and> strconv_FormatUint True 1000 10 = Some (digits_of 10 (unat (1000 :: uint64)))"
  using Format_exact [of 7 "replicate 20 0" True "- 300"] Format_exact [of 10 "replicate 20 0" True 1000] by simp

section \<open>Round trips\<close>

lemma digits_of_parse:
  assumes "2 \<le> b" and "b \<le> 36"
  shows "takeWhile (\<lambda>c. dvalue c < b) (digits_of b n) = digits_of b n"
  using digits_of_value [OF assms, of n] by (simp add: takeWhile_eq_all_conv list_all_iff)

lemma digits_of_no_sign:
  assumes "2 \<le> b" and "b \<le> 36"
  shows "digits_of b n ! 0 \<noteq> 43 \<and> digits_of b n ! 0 \<noteq> 45 \<and> digits_of b n \<noteq> []"
proof -
  have "\<not> dvalue 43 < 36" "\<not> dvalue 45 < 36" by code_simp+
  moreover have "digits_of b n \<noteq> []" "dvalue (digits_of b n ! 0) < b"
    using digits_of_value [OF assms, of n] by (auto simp: list_all_length)
  ultimately show ?thesis using assms(2) by (metis less_le_trans)
qed

lemma ParseUint_digits_of:
  assumes "2 \<le> base" and "base \<le> 36"
  shows "strconv_ParseUint w64 (digits_of (nat base) (unat u)) base 64 = (u, None)"
proof -
  have b: "2 \<le> nat base" "nat base \<le> 36" using assms by simp_all
  have w: "width w64 64 = 64" by (simp add: width_def)
  have "\<not> 2 ^ 64 - 1 < unat u" using unat64_less [of u] by simp
  then show ?thesis
    using digits_of_no_sign [OF b, of "unat u"] digits_of_value [OF b, of "unat u"]
    by (subst ParseUint_value [OF assms _ _ digits_of_parse [OF b, symmetric] refl]) (simp_all add: w)
qed

lemma ParseInt_signed_digits:
  assumes "2 \<le> base" and "base \<le> 36" and "0 \<le> bitSize" and "bitSize \<le> 64" and "bitSize \<noteq> 1"
    and "sint i \<in> int_range (width w64 bitSize)"
  shows "strconv_ParseInt w64 (signed_digits (nat base) (sint i)) base bitSize = (i, None)"
proof -
  have b: "2 \<le> nat base" "nat base \<le> 36" using assms(1,2) by simp_all
  let ?s = "signed_digits (nat base) (sint i)" and ?n = "nat \<bar>sint i\<bar>" and ?k = "width w64 bitSize"
  note ns = digits_of_no_sign [OF b, of ?n]
  have D: "digits_of (nat base) ?n = (if ?s \<noteq> [] \<and> (?s ! 0 = 43 \<or> ?s ! 0 = 45) then drop 1 ?s else ?s)"
    using ns by (auto simp: signed_digits_def)
  have N: "sint i < 0 \<longleftrightarrow> ?s \<noteq> [] \<and> ?s ! 0 = 45" using ns by (auto simp: signed_digits_def)
  note P = ParseInt_value [OF assms(1-5) N D digits_of_parse [OF b, symmetric] refl refl]
  have r: "- (2 ^ (?k - 1)) \<le> sint i" "sint i < 2 ^ (?k - 1)" using assms(6) by (simp_all add: int_range_def)
  have "\<not> (\<not> sint i < 0 \<and> 2 ^ (?k - 1) \<le> ?n)" "\<not> (sint i < 0 \<and> 2 ^ (?k - 1) < ?n)"
    using r by (auto simp: nat_le_iff le_nat_iff zless_nat_eq_int_zless)
  moreover have "(if sint i < 0 then - of_nat ?n else of_nat ?n) = i" by (simp add: unat_abs)
  ultimately show ?thesis unfolding P using digits_of_value [OF b, of ?n] by auto
qed

lemma to_int_range: "sint (to_int w64 u) \<in> int_range (width w64 0)" and to_int_idem: "to_int w64 (to_int w64 u) = to_int w64 u"
proof -
  define z where z: "z = sint (ucast u :: uint32)"
  have t: "to_int False u = word_of_int z" by (simp add: to_int_def z)
  have r: "- (2 ^ 31) \<le> z" "z < 2 ^ 31" using sint_ge [of "ucast u :: uint32"] sint_lt [of "ucast u :: uint32"] by (simp_all add: z)
  then have s: "sint (to_int False u) = z" unfolding t by (intro sint_small) simp_all
  have "(ucast (word_of_int z :: uint64) :: uint32) = word_of_int z" by (rule bit_word_eqI) (simp add: bit_simps)
  also have "\<dots> = ucast u" by (simp add: z)
  finally have "to_int False (to_int False u) = to_int False u" unfolding t by (simp add: to_int_def z)
  then show "to_int w64 (to_int w64 u) = to_int w64 u" by (cases w64) (simp_all add: to_int_def)
  show "sint (to_int w64 u) \<in> int_range (width w64 0)"
    using r s sint_ge [of u] sint_lt [of u] by (cases w64) (simp_all add: int_range_def width_def IntSize_def, simp_all add: to_int_def)
qed

text \<open>
  C26. Formatting then parsing is the identity, in every base: \<open>ParseUint\<close> after \<open>FormatUint\<close> for every
  \<open>uint64\<close>, \<open>ParseInt\<close> after \<open>FormatInt\<close> for every \<open>int64\<close>, and \<open>Atoi\<close> after \<open>Itoa\<close> for every \<open>int\<close> of either
  width.
\<close>

theorem strconv_roundtrip:
  assumes "2 \<le> base" and "base \<le> 36"
  shows "map_option (\<lambda>s. strconv_ParseUint w64 s base 64) (strconv_FormatUint w64 u base) = Some (u, None)
    \<and> map_option (\<lambda>s. strconv_ParseInt w64 s base 64) (strconv_FormatInt w64 u base) = Some (u, None)
    \<and> map_option (strconv_Atoi w64) (strconv_Itoa w64 u) = Some (to_int w64 u, None)"
proof -
  have "sint u \<in> int_range (width w64 64)"
    using sint_ge [of u] sint_lt [of u] by (simp add: int_range_def width_def)
  moreover note to_int_range [of w64 u]
  ultimately show ?thesis
    using assms by (simp add: strconv_FormatUint_exact strconv_FormatInt_exact ParseUint_digits_of ParseInt_signed_digits
        strconv_Itoa_def Atoi_ParseInt to_int_idem ParseInt_signed_digits [of 10, simplified])
qed

theorem strconv_roundtrip_witness:
  "map_option (\<lambda>s. strconv_ParseInt True s 36 64) (strconv_FormatInt True (2 ^ 63) 36) = Some (2 ^ 63, None)"
  using strconv_roundtrip [of 36 True "2 ^ 63"] by simp

section \<open>Where the code departs from its documentation\<close>

text \<open>
  With bit size 1 the range is \<open>{-1, 0}\<close>, but the value that \<open>ParseUint\<close> returns with its range error does not exceed
  the cutoff of \<open>ParseInt\<close>, so \<open>-5\<close> is parsed as \<open>-1\<close> without an error.
\<close>

lemma ParseInt_bitSize_1: "strconv_ParseInt w64 [45, 53] 10 1 = (- 1, None)"
  by (cases w64; simp only:; code_simp)

text \<open>
  Digits whose value is out of range hide an invalid character after them: the error is \<open>ErrRange\<close>, not the
  documented \<open>ErrSyntax\<close>.
\<close>

lemma ParseUint_range_hides_syntax: "strconv_ParseUint w64 [50, 53, 54, 120] 10 8 = (255, Some ErrRange)"
  by (cases w64; simp only:; code_simp)

end
