(* ===== verification/Linked_List.thy ===== *)
theory Linked_List
  imports Prelude
begin

text \<open>
  The doubly linked lists of \<open>container/list\<close> over an explicit store. A pointer names the sentinel inside a list
  value or an allocated element; each field is a map from pointers, so that lists that share elements by mistake can
  be expressed. A nil pointer that is dereferenced makes the operation \<open>None\<close>.
\<close>

section \<open>The store\<close>

datatype ptr = Root nat | Elem nat

record 'a list_store =
  el_next :: "ptr \<Rightarrow> ptr option"
  el_prev :: "ptr \<Rightarrow> ptr option"
  el_list :: "ptr \<Rightarrow> nat option"
  el_Value :: "ptr \<Rightarrow> 'a"
  list_len :: "nat \<Rightarrow> int"
  el_alloc :: nat

definition set_next :: "ptr \<Rightarrow> ptr option \<Rightarrow> 'a list_store \<Rightarrow> 'a list_store" where
  "set_next e p s = s\<lparr>el_next := (el_next s)(e := p)\<rparr>"

definition set_prev :: "ptr \<Rightarrow> ptr option \<Rightarrow> 'a list_store \<Rightarrow> 'a list_store" where
  "set_prev e p s = s\<lparr>el_prev := (el_prev s)(e := p)\<rparr>"

definition set_list :: "ptr \<Rightarrow> nat option \<Rightarrow> 'a list_store \<Rightarrow> 'a list_store" where
  "set_list e l s = s\<lparr>el_list := (el_list s)(e := l)\<rparr>"

definition add_len :: "nat \<Rightarrow> int \<Rightarrow> 'a list_store \<Rightarrow> 'a list_store" where
  "add_len l d s = s\<lparr>list_len := (list_len s)(l := list_len s l + d)\<rparr>"

section \<open>Reading\<close>

definition el_Next :: "ptr \<Rightarrow> 'a list_store \<Rightarrow> ptr option" where
  "el_Next e s = (let p = el_next s e in
     case el_list s e of Some l \<Rightarrow> if p \<noteq> Some (Root l) then p else None | None \<Rightarrow> None)"

definition el_Prev :: "ptr \<Rightarrow> 'a list_store \<Rightarrow> ptr option" where
  "el_Prev e s = (let p = el_prev s e in
     case el_list s e of Some l \<Rightarrow> if p \<noteq> Some (Root l) then p else None | None \<Rightarrow> None)"

definition list_Len :: "nat \<Rightarrow> 'a list_store \<Rightarrow> int" where
  "list_Len l s = list_len s l"

definition list_Front :: "nat \<Rightarrow> 'a list_store \<Rightarrow> ptr option" where
  "list_Front l s = (if list_len s l = 0 then None else el_next s (Root l))"

definition list_Back :: "nat \<Rightarrow> 'a list_store \<Rightarrow> ptr option" where
  "list_Back l s = (if list_len s l = 0 then None else el_prev s (Root l))"

section \<open>Changing\<close>

definition list_Init :: "nat \<Rightarrow> 'a list_store \<Rightarrow> 'a list_store" where
  "list_Init l s =
     (let s = set_next (Root l) (Some (Root l)) s;
          s = set_prev (Root l) (Some (Root l)) s in
      s\<lparr>list_len := (list_len s)(l := 0)\<rparr>)"

definition lazyInit :: "nat \<Rightarrow> 'a list_store \<Rightarrow> 'a list_store" where
  "lazyInit l s = (if el_next s (Root l) = None then list_Init l s else s)"

text \<open>A nil pointer that the code dereferences makes the operation panic: the result \<open>None\<close>.\<close>

definition insert_el :: "nat \<Rightarrow> ptr \<Rightarrow> ptr option \<Rightarrow> 'a list_store \<Rightarrow> 'a list_store option" where
  "insert_el l e at s =
     (let s = set_prev e at s in
      case at of
        None \<Rightarrow> None
      | Some a \<Rightarrow>
          let s = set_next e (el_next s a) s in
          (case el_prev s e of
             None \<Rightarrow> None
           | Some p \<Rightarrow>
               let s = set_next p (Some e) s in
               (case el_next s e of
                  None \<Rightarrow> None
                | Some n \<Rightarrow>
                    let s = set_prev n (Some e) s; s = set_list e (Some l) s in Some (add_len l 1 s))))"

definition new_Element :: "'a \<Rightarrow> 'a list_store \<Rightarrow> ptr \<times> 'a list_store" where
  "new_Element v s =
     (let e = Elem (el_alloc s);
          s = s\<lparr>el_Value := (el_Value s)(e := v), el_alloc := Suc (el_alloc s)\<rparr> in
      (e, set_list e None (set_prev e None (set_next e None s))))"

definition insertValue :: "nat \<Rightarrow> 'a \<Rightarrow> ptr option \<Rightarrow> 'a list_store \<Rightarrow> (ptr \<times> 'a list_store) option" where
  "insertValue l v at s = (let (e, s) = new_Element v s in map_option (Pair e) (insert_el l e at s))"

definition remove_el :: "nat \<Rightarrow> ptr \<Rightarrow> 'a list_store \<Rightarrow> 'a list_store option" where
  "remove_el l e s =
     (case el_prev s e of
        None \<Rightarrow> None
      | Some p \<Rightarrow>
          let s = set_next p (el_next s e) s in
          (case el_next s e of
             None \<Rightarrow> None
           | Some n \<Rightarrow>
               let s = set_prev n (el_prev s e) s;
                   s = set_next e None s;
                   s = set_prev e None s;
                   s = set_list e None s in
               Some (add_len l (- 1) s)))"

definition move_el :: "ptr \<Rightarrow> ptr option \<Rightarrow> 'a list_store \<Rightarrow> 'a list_store option" where
  "move_el e at s =
     (if Some e = at then Some s
      else case el_prev s e of
        None \<Rightarrow> None
      | Some p \<Rightarrow>
          let s = set_next p (el_next s e) s in
          (case el_next s e of
             None \<Rightarrow> None
           | Some n \<Rightarrow>
               let s = set_prev n (el_prev s e) s;
                   s = set_prev e at s in
               (case at of
                  None \<Rightarrow> None
                | Some a \<Rightarrow>
                    let s = set_next e (el_next s a) s in
                    (case el_prev s e of
                       None \<Rightarrow> None
                     | Some p \<Rightarrow>
                         let s = set_next p (Some e) s in
                         (case el_next s e of
                            None \<Rightarrow> None
                          | Some n \<Rightarrow> Some (set_prev n (Some e) s))))))"

definition list_Remove :: "nat \<Rightarrow> ptr \<Rightarrow> 'a list_store \<Rightarrow> ('a \<times> 'a list_store) option" where
  "list_Remove l e s =
     (case (if el_list s e = Some l then remove_el l e s else Some s) of
        None \<Rightarrow> None
      | Some s \<Rightarrow> Some (el_Value s e, s))"

definition list_PushFront :: "nat \<Rightarrow> 'a \<Rightarrow> 'a list_store \<Rightarrow> (ptr \<times> 'a list_store) option" where
  "list_PushFront l v s = insertValue l v (Some (Root l)) (lazyInit l s)"

definition list_PushBack :: "nat \<Rightarrow> 'a \<Rightarrow> 'a list_store \<Rightarrow> (ptr \<times> 'a list_store) option" where
  "list_PushBack l v s = (let s = lazyInit l s in insertValue l v (el_prev s (Root l)) s)"

definition list_InsertBefore :: "nat \<Rightarrow> 'a \<Rightarrow> ptr \<Rightarrow> 'a list_store \<Rightarrow> (ptr option \<times> 'a list_store) option" where
  "list_InsertBefore l v mark s =
     (if el_list s mark \<noteq> Some l then Some (None, s)
      else map_option (apfst Some) (insertValue l v (el_prev s mark) s))"

definition list_InsertAfter :: "nat \<Rightarrow> 'a \<Rightarrow> ptr \<Rightarrow> 'a list_store \<Rightarrow> (ptr option \<times> 'a list_store) option" where
  "list_InsertAfter l v mark s =
     (if el_list s mark \<noteq> Some l then Some (None, s)
      else map_option (apfst Some) (insertValue l v (Some mark) s))"

definition list_MoveToFront :: "nat \<Rightarrow> ptr \<Rightarrow> 'a list_store \<Rightarrow> 'a list_store option" where
  "list_MoveToFront l e s =
     (if el_list s e \<noteq> Some l \<or> el_next s (Root l) = Some e then Some s else move_el e (Some (Root l)) s)"

definition list_MoveToBack :: "nat \<Rightarrow> ptr \<Rightarrow> 'a list_store \<Rightarrow> 'a list_store option" where
  "list_MoveToBack l e s =
     (if el_list s e \<noteq> Some l \<or> el_prev s (Root l) = Some e then Some s else move_el e (el_prev s (Root l)) s)"

definition list_MoveBefore :: "nat \<Rightarrow> ptr \<Rightarrow> ptr \<Rightarrow> 'a list_store \<Rightarrow> 'a list_store option" where
  "list_MoveBefore l e mark s =
     (if el_list s e \<noteq> Some l \<or> e = mark \<or> el_list s mark \<noteq> Some l then Some s
      else move_el e (el_prev s mark) s)"

definition list_MoveAfter :: "nat \<Rightarrow> ptr \<Rightarrow> ptr \<Rightarrow> 'a list_store \<Rightarrow> 'a list_store option" where
  "list_MoveAfter l e mark s =
     (if el_list s e \<noteq> Some l \<or> e = mark \<or> el_list s mark \<noteq> Some l then Some s else move_el e (Some mark) s)"

text \<open>The copying loops count down from the length that the other list had at the start.\<close>

fun PushBackList_loop :: "nat \<Rightarrow> nat \<Rightarrow> ptr option \<Rightarrow> 'a list_store \<Rightarrow> 'a list_store option" where
  "PushBackList_loop l 0 e s = Some s"
| "PushBackList_loop l (Suc i) None s = None"
| "PushBackList_loop l (Suc i) (Some e) s =
     (case insertValue l (el_Value s e) (el_prev s (Root l)) s of
        None \<Rightarrow> None
      | Some (_, s) \<Rightarrow> PushBackList_loop l i (el_Next e s) s)"

definition list_PushBackList :: "nat \<Rightarrow> nat \<Rightarrow> 'a list_store \<Rightarrow> 'a list_store option" where
  "list_PushBackList l other s =
     (let s = lazyInit l s in PushBackList_loop l (nat (list_Len other s)) (list_Front other s) s)"

fun PushFrontList_loop :: "nat \<Rightarrow> nat \<Rightarrow> ptr option \<Rightarrow> 'a list_store \<Rightarrow> 'a list_store option" where
  "PushFrontList_loop l 0 e s = Some s"
| "PushFrontList_loop l (Suc i) None s = None"
| "PushFrontList_loop l (Suc i) (Some e) s =
     (case insertValue l (el_Value s e) (Some (Root l)) s of
        None \<Rightarrow> None
      | Some (_, s) \<Rightarrow> PushFrontList_loop l i (el_Prev e s) s)"

definition list_PushFrontList :: "nat \<Rightarrow> nat \<Rightarrow> 'a list_store \<Rightarrow> 'a list_store option" where
  "list_PushFrontList l other s =
     (let s = lazyInit l s in PushFrontList_loop l (nat (list_Len other s)) (list_Back other s) s)"

definition list_New :: "nat \<Rightarrow> 'a list_store \<Rightarrow> 'a list_store" where
  "list_New l s = list_Init l s"

end
