(* ===== verification/Linked_List_Rings.thy ===== *)
theory Linked_List_Rings
  imports Linked_List
begin

text \<open>
  The shape of the store: chains of links, the invariant that every list is a ring of its own elements, and the effect of
  the three pointer operations \<open>insert\<close>, \<open>remove\<close> and \<open>move\<close> on it.
\<close>

lemmas setter_defs = set_next_def set_prev_def set_list_def add_len_def

section \<open>Chains of links\<close>

fun chain :: "(ptr \<Rightarrow> ptr option) \<Rightarrow> (ptr \<Rightarrow> ptr option) \<Rightarrow> ptr list \<Rightarrow> bool" where
  "chain n p (u # v # zs) \<longleftrightarrow> n u = Some v \<and> p v = Some u \<and> chain n p (v # zs)"
| "chain n p _ \<longleftrightarrow> True"

lemma chain_app: "chain n p (xs @ a # ys) \<longleftrightarrow> chain n p (xs @ [a]) \<and> chain n p (a # ys)"
proof (induction xs)
  case (Cons x xs)
  then show ?case by (cases xs) auto
qed simp

lemma chain_cong:
  assumes "\<And>x. x \<in> set (butlast zs) \<Longrightarrow> n x = n' x" and "\<And>x. x \<in> set (tl zs) \<Longrightarrow> p x = p' x"
  shows "chain n p zs = chain n' p' zs"
  using assms
proof (induction zs rule: induct_list012)
  case (3 u v zs)
  have "chain n p (v # zs) = chain n' p' (v # zs)"
  proof (rule 3(2))
    show "n x = n' x" if "x \<in> set (butlast (v # zs))" for x using that by (intro "3.prems"(1)) simp
    show "p x = p' x" if "x \<in> set (tl (v # zs))" for x using that by (intro "3.prems"(2)) (simp add: list.set_sel(2))
  qed
  then show ?case using "3.prems"(1) [of u] "3.prems"(2) [of v] by auto
qed simp_all

lemma around:
  obtains us a b vs where "r # xs = us @ [a]" and "ys @ [r] = b # vs"
    and "a = last (r # xs)" and "b = hd (ys @ [r])"
  by (metis append_butlast_last_id list.distinct(1) list.exhaust_sel snoc_eq_iff_butlast)

lemma chain_around:
  assumes "r # xs = us @ [a]" and "ys @ [r] = b # vs"
  shows "chain n p (r # (xs @ ys) @ [r]) \<longleftrightarrow> chain n p (us @ [a]) \<and> n a = Some b \<and> p b = Some a \<and> chain n p (b # vs)"
    and "chain n p (r # (xs @ e # ys) @ [r]) \<longleftrightarrow>
      chain n p (us @ [a]) \<and> n a = Some e \<and> p e = Some a \<and> n e = Some b \<and> p b = Some e \<and> chain n p (b # vs)"
proof -
  have "r # (xs @ ys) @ [r] = us @ a # b # vs" using assms by (metis append.assoc append_Cons append_Nil)
  then show "chain n p (r # (xs @ ys) @ [r]) \<longleftrightarrow> chain n p (us @ [a]) \<and> n a = Some b \<and> p b = Some a \<and> chain n p (b # vs)"
    using chain_app [of n p us a "b # vs"] by simp
  have "r # (xs @ e # ys) @ [r] = us @ a # e # b # vs" using assms by (metis append.assoc append_Cons append_Nil)
  then show "chain n p (r # (xs @ e # ys) @ [r]) \<longleftrightarrow>
      chain n p (us @ [a]) \<and> n a = Some e \<and> p e = Some a \<and> n e = Some b \<and> p b = Some e \<and> chain n p (b # vs)"
    using chain_app [of n p us a "e # b # vs"] by simp
qed

text \<open>The two stretches beside a position are not touched by changes to the ends that face it and to \<open>e\<close>.\<close>

lemma stretches_cong:
  assumes 1: "r # xs = us @ [a]" and 2: "ys @ [r] = b # vs" and d: "distinct (r # xs @ ys)"
    and e: "e \<notin> set (r # xs @ ys)"
    and n: "\<And>x. x \<noteq> a \<Longrightarrow> x \<noteq> e \<Longrightarrow> n' x = n x" and p: "\<And>x. x \<noteq> b \<Longrightarrow> x \<noteq> e \<Longrightarrow> p' x = p x"
  shows "chain n' p' (us @ [a]) = chain n p (us @ [a])" and "chain n' p' (b # vs) = chain n p (b # vs)"
proof -
  have a: "a \<in> set (r # xs)" "set us \<subseteq> set (r # xs)" unfolding 1 by auto
  have b: "b \<in> set (ys @ [r])" "set vs \<subseteq> set (ys @ [r])" unfolding 2 by auto
  have t: "tl (us @ [a]) = xs" "butlast (b # vs) = ys" unfolding 1 [symmetric] 2 [symmetric] by simp_all
  have "distinct (r # xs)" "distinct (ys @ [r])" using d by auto
  then have ab: "a \<notin> set us" "b \<notin> set vs" unfolding 1 2 by simp_all
  show "chain n' p' (us @ [a]) = chain n p (us @ [a])"
  proof (rule chain_cong)
    show "n' x = n x" if "x \<in> set (butlast (us @ [a]))" for x
    proof (rule n)
      have x: "x \<in> set us" using that by simp
      then show "x \<noteq> a" using ab by blast
      show "x \<noteq> e" using x a(2) e by auto
    qed
    show "p' x = p x" if "x \<in> set (tl (us @ [a]))" for x using that b(1) d e unfolding t by (intro p) auto
  qed
  show "chain n' p' (b # vs) = chain n p (b # vs)"
  proof (rule chain_cong)
    show "n' x = n x" if "x \<in> set (butlast (b # vs))" for x using that a(1) d e unfolding t by (intro n) auto
    show "p' x = p x" if "x \<in> set (tl (b # vs))" for x
    proof (rule p)
      have x: "x \<in> set vs" using that by simp
      then show "x \<noteq> b" using ab by blast
      show "x \<noteq> e" using x b(2) e by auto
    qed
  qed
qed

section \<open>The invariant of a store of lists\<close>

definition ring :: "'a list_store \<Rightarrow> nat \<Rightarrow> ptr list \<Rightarrow> bool" where
  "ring s l es = chain (el_next s) (el_prev s) (Root l # es @ [Root l])"

text \<open>
  \<open>S l\<close> are the stale elements of list \<open>l\<close>: those that \<open>Init\<close> dropped from it and that still name it as
  their list. Every other element that names a list is in it.
\<close>

definition lists_inv :: "(nat \<Rightarrow> ptr set) \<Rightarrow> 'a list_store \<Rightarrow> (nat \<Rightarrow> ptr list) \<Rightarrow> bool" where
  "lists_inv S s L \<longleftrightarrow>
     (\<forall>l. list_len s l = int (length (L l)) \<and> distinct (L l) \<and> set (L l) \<inter> S l = {}
        \<and> (ring s l (L l) \<or> L l = [] \<and> el_next s (Root l) = None \<and> el_prev s (Root l) = None)) \<and>
     (\<forall>e l. el_list s e = Some l \<longleftrightarrow> e \<in> set (L l) \<union> S l) \<and>
     (\<forall>e l. e \<in> set (L l) \<union> S l \<longrightarrow> (\<exists>n < el_alloc s. e = Elem n))"

lemma lists_invD:
  assumes "lists_inv S s L"
  shows "list_len s l = int (length (L l))" and "distinct (L l)"
    and "el_list s e = Some l \<longleftrightarrow> e \<in> set (L l) \<or> e \<in> S l"
    and "e \<in> set (L l) \<Longrightarrow> \<exists>n < el_alloc s. e = Elem n"
    and "ring s l (L l) \<or> L l = [] \<and> el_next s (Root l) = None \<and> el_prev s (Root l) = None"
    and "Root k \<notin> set (L l)" and "Elem (el_alloc s) \<notin> set (L l)"
    and "set (L l) \<inter> S l = {}" and "e \<in> S l \<Longrightarrow> \<exists>n < el_alloc s. e = Elem n" and "Elem (el_alloc s) \<notin> S l"
  using assms unfolding lists_inv_def by blast+

lemma lists_inv_owner: "lists_inv S s L \<Longrightarrow> e \<notin> S l \<Longrightarrow> el_list s e = Some l \<longleftrightarrow> e \<in> set (L l)"
  using lists_invD(3) [of S s L e l] by simp

lemma lists_inv_change:
  assumes inv: "lists_inv S s L" and ch: "ring s' l es" and d: "distinct es" "set es \<inter> T = {}"
    and len: "list_len s' = (list_len s)(l := int (length es))"
    and own: "\<And>x. el_list s' x = Some l \<longleftrightarrow> x \<in> set es \<or> x \<in> T"
    and other: "\<And>x k. k \<noteq> l \<Longrightarrow> el_list s' x = Some k \<longleftrightarrow> el_list s x = Some k"
    and frame: "\<And>x. x \<notin> set (Root l # L l @ es) \<Longrightarrow> el_next s' x = el_next s x \<and> el_prev s' x = el_prev s x"
    and alloc: "\<And>e. e \<in> set es \<or> e \<in> T \<Longrightarrow> \<exists>n < el_alloc s'. e = Elem n" "el_alloc s \<le> el_alloc s'"
  shows "lists_inv (S(l := T)) s' (L(l := es))"
proof -
  note I = lists_invD [OF inv]
  have dis: "x \<notin> set (Root l # L l @ es)" if "k \<noteq> l" "x \<in> set (Root k # L k @ [Root k])" for k x
  proof (cases "x = Root k")
    case True
    then show ?thesis using I(6) [of k l] alloc(1) [of x] that(1) by auto
  next
    case False
    then have "x \<in> set (L k)" using that(2) by simp
    then have "el_list s x = Some k" "el_list s' x = Some k" using I(3) [of x k] other [OF that(1), of x] by simp_all
    then show ?thesis using I(3) [of x l] own [of x] that(1) I(6) [of l k] \<open>x \<in> set (L k)\<close> by auto
  qed
  have ring: "ring s' k (L k) = ring s k (L k)" "el_next s' (Root k) = el_next s (Root k)" "el_prev s' (Root k) = el_prev s (Root k)"
    if "k \<noteq> l" for k
  proof -
    show "ring s' k (L k) = ring s k (L k)" unfolding ring_def
    proof (rule chain_cong)
      show "el_next s' x = el_next s x" if "x \<in> set (butlast (Root k # L k @ [Root k]))" for x
        using that in_set_butlastD frame [OF dis [OF \<open>k \<noteq> l\<close>]] by fast
      show "el_prev s' x = el_prev s x" if "x \<in> set (tl (Root k # L k @ [Root k]))" for x
        using that frame [OF dis [OF \<open>k \<noteq> l\<close>], of x] by simp
    qed
    show "el_next s' (Root k) = el_next s (Root k)" "el_prev s' (Root k) = el_prev s (Root k)"
      using frame [OF dis [OF that], of "Root k"] by simp_all
  qed
  have old: "\<exists>n < el_alloc s'. e = Elem n" if "e \<in> set (L k) \<or> e \<in> S k" for e k
    using that I(4) [of e k] I(9) [of e k] alloc(2) by (meson order_less_le_trans)
  show ?thesis
    unfolding lists_inv_def
  proof (intro conjI allI impI)
    fix k e
    show "list_len s' k = int (length ((L(l := es)) k))" "distinct ((L(l := es)) k)" using I(1,2) d(1) len by simp_all
    show "set ((L(l := es)) k) \<inter> (S(l := T)) k = {}" using I(8) d(2) by simp
    show "ring s' k ((L(l := es)) k) \<or> (L(l := es)) k = [] \<and> el_next s' (Root k) = None \<and> el_prev s' (Root k) = None"
      using I(5) [of k] ch ring [of k] by auto
    show "el_list s' e = Some k \<longleftrightarrow> e \<in> set ((L(l := es)) k) \<union> (S(l := T)) k" using I(3) [of e k] own [of e] other [of k e] by simp
    show "\<exists>n < el_alloc s'. e = Elem n" if "e \<in> set ((L(l := es)) k) \<union> (S(l := T)) k"
      using that old [of e k] alloc(1) [of e] by (auto split: if_splits)
  qed
qed

lemma lists_inv_update:
  assumes inv: "lists_inv S s L" and ch: "ring s' l es" and d: "distinct es" "set es \<inter> S l = {}"
    and len: "list_len s' = (list_len s)(l := int (length es))"
    and own: "\<And>x. el_list s' x = Some l \<longleftrightarrow> x \<in> set es \<or> x \<in> S l"
    and other: "\<And>x k. k \<noteq> l \<Longrightarrow> el_list s' x = Some k \<longleftrightarrow> el_list s x = Some k"
    and frame: "\<And>x. x \<notin> set (Root l # L l @ es) \<Longrightarrow> el_next s' x = el_next s x \<and> el_prev s' x = el_prev s x"
    and alloc: "\<And>e. e \<in> set es \<Longrightarrow> \<exists>n < el_alloc s'. e = Elem n" "el_alloc s \<le> el_alloc s'"
  shows "lists_inv S s' (L(l := es))"
proof -
  have "\<exists>n < el_alloc s'. e = Elem n" if "e \<in> set es \<or> e \<in> S l" for e
    using that alloc(1) [of e] lists_invD(9) [OF inv, of e l] alloc(2) by (meson order_less_le_trans)
  then have "lists_inv (S(l := S l)) s' (L(l := es))"
    by (intro lists_inv_change [OF inv ch d len own other frame _ alloc(2)])
  then show ?thesis by simp
qed

section \<open>The three pointer operations\<close>

lemma insertValue_ok:
  assumes inv: "lists_inv S s L" and r: "ring s l (L l)" and L: "L l = xs @ ys" and a: "a = last (Root l # xs)"
    and e: "e = Elem (el_alloc s)"
  shows "\<exists>s'. insertValue l v (Some a) s = Some (e, s') \<and> lists_inv S s' (L(l := xs @ e # ys)) \<and> ring s' l (xs @ e # ys)
    \<and> el_Value s' = (el_Value s)(e := v) \<and> el_alloc s' = Suc (el_alloc s)"
proof -
  note I = lists_invD [OF inv]
  obtain us b vs where 1: "Root l # xs = us @ [a]" and 2: "ys @ [Root l] = b # vs" using around a by metis
  have d: "distinct (Root l # xs @ ys)" and ne: "e \<notin> set (Root l # xs @ ys)"
    using I(2) [of l] I(6) [of l l] I(7) [of l] L e by auto
  have ab: "a \<in> set (Root l # xs)" "b \<in> set (ys @ [Root l])" unfolding 1 2 by simp_all
  then have ae: "a \<noteq> e" "b \<noteq> e" using ne by auto
  note R = r [unfolded ring_def L, unfolded chain_around(1) [OF 1 2]]
  define s' where s': "s' = s\<lparr>el_next := (el_next s)(e := Some b, a := Some e), el_prev := (el_prev s)(e := Some a, b := Some e),
      el_list := (el_list s)(e := Some l), el_Value := (el_Value s)(e := v), list_len := (list_len s)(l := list_len s l + 1),
      el_alloc := Suc (el_alloc s)\<rparr>"
  have "insertValue l v (Some a) s = Some (e, s')"
    using R ae by (simp add: insertValue_def new_Element_def insert_el_def Let_def setter_defs e [symmetric] s' fun_upd_twist)
  moreover have ring': "ring s' l (xs @ e # ys)"
    unfolding ring_def chain_around(2) [OF 1 2]
    using R ae stretches_cong [OF 1 2 d ne, of "el_next s'" "el_next s" "el_prev s'" "el_prev s"] by (simp add: s')
  moreover have "lists_inv S s' (L(l := xs @ e # ys))"
  proof (rule lists_inv_update [OF inv ring'])
    show "distinct (xs @ e # ys)" using d ne by auto
    show "set (xs @ e # ys) \<inter> S l = {}" using I(8) [of l] I(10) [of l] L e by auto
    show "list_len s' = (list_len s)(l := int (length (xs @ e # ys)))" using I(1) [of l] L by (simp add: s' add.commute)
    show "el_list s' x = Some l \<longleftrightarrow> x \<in> set (xs @ e # ys) \<or> x \<in> S l" for x using I(3) [of x l] L by (auto simp: s')
    show "el_list s' x = Some k \<longleftrightarrow> el_list s x = Some k" if "k \<noteq> l" for x k
      using I(3) [of x k] I(7) [of k] I(10) [of k] that e by (auto simp: s')
    show "el_next s' x = el_next s x \<and> el_prev s' x = el_prev s x" if "x \<notin> set (Root l # L l @ xs @ e # ys)" for x
      using that ab by (auto simp: s')
    show "\<exists>n < el_alloc s'. x = Elem n" if "x \<in> set (xs @ e # ys)" for x
      using that I(4) [of x l] L e by (auto simp: s' intro: less_SucI)
  qed (simp add: s')
  ultimately show ?thesis by (auto simp: s')
qed

lemma remove_el_ok:
  assumes inv: "lists_inv S s L" and L: "L l = xs @ e # ys"
  shows "\<exists>s'. remove_el l e s = Some s' \<and> lists_inv S s' (L(l := xs @ ys)) \<and> el_Value s' = el_Value s \<and> el_alloc s' = el_alloc s"
proof -
  note I = lists_invD [OF inv]
  have r: "ring s l (L l)" using I(5) [of l] L by auto
  obtain us a b vs where 1: "Root l # xs = us @ [a]" and 2: "ys @ [Root l] = b # vs" using around by metis
  have d: "distinct (Root l # xs @ ys)" and ne: "e \<notin> set (Root l # xs @ ys)"
    using I(2) [of l] I(6) [of l l] L by auto
  have ab: "a \<in> set (Root l # xs)" "b \<in> set (ys @ [Root l])" unfolding 1 2 by simp_all
  then have ae: "a \<noteq> e" "b \<noteq> e" using ne by auto
  note R = r [unfolded ring_def L, unfolded chain_around(2) [OF 1 2]]
  define s' where s': "s' = s\<lparr>el_next := (el_next s)(a := Some b, e := None), el_prev := (el_prev s)(b := Some a, e := None),
      el_list := (el_list s)(e := None), list_len := (list_len s)(l := list_len s l - 1)\<rparr>"
  have "remove_el l e s = Some s'"
    using R ae by (simp add: remove_el_def Let_def setter_defs s')
  moreover have ring': "ring s' l (xs @ ys)"
    unfolding ring_def chain_around(1) [OF 1 2]
    using R ae stretches_cong [OF 1 2 d ne, of "el_next s'" "el_next s" "el_prev s'" "el_prev s"] by (simp add: s')
  moreover have "lists_inv S s' (L(l := xs @ ys))"
  proof (rule lists_inv_update [OF inv ring'])
    show "distinct (xs @ ys)" using d by auto
    show "set (xs @ ys) \<inter> S l = {}" using I(8) [of l] L by auto
    show "list_len s' = (list_len s)(l := int (length (xs @ ys)))" using I(1) [of l] L by (simp add: s')
    show "el_list s' x = Some l \<longleftrightarrow> x \<in> set (xs @ ys) \<or> x \<in> S l" for x using I(3) [of x l] I(8) [of l] L ne by (auto simp: s')
    show "el_list s' x = Some k \<longleftrightarrow> el_list s x = Some k" if "k \<noteq> l" for x k
      using I(3) [of x k] I(3) [of e l] L that by (auto simp: s')
    show "el_next s' x = el_next s x \<and> el_prev s' x = el_prev s x" if "x \<notin> set (Root l # L l @ xs @ ys)" for x
      using that ab L by (auto simp: s')
    show "\<exists>n < el_alloc s'. x = Elem n" if "x \<in> set (xs @ ys)" for x
      using that I(4) [of x l] L by (auto simp: s')
  qed (simp add: s')
  ultimately show ?thesis by (auto simp: s')
qed

lemma move_el_ok:
  assumes inv: "lists_inv S s L" and L: "L l = xs @ e # ys" and uv: "xs @ ys = us @ vs" and a: "a = last (Root l # us)"
  shows "\<exists>s'. move_el e (Some a) s = Some s' \<and> lists_inv S s' (L(l := us @ e # vs)) \<and> el_Value s' = el_Value s \<and> el_alloc s' = el_alloc s"
proof -
  note I = lists_invD [OF inv]
  have r: "ring s l (L l)" using I(5) [of l] L by auto
  obtain ps p n ns where 1: "Root l # xs = ps @ [p]" and 2: "ys @ [Root l] = n # ns" using around by metis
  obtain qs b ws where 3: "Root l # us = qs @ [a]" and 4: "vs @ [Root l] = b # ws" using around a by metis
  have d: "distinct (Root l # xs @ ys)" and ne: "e \<notin> set (Root l # xs @ ys)"
    using I(2) [of l] I(6) [of l l] L by auto
  then have d': "distinct (Root l # us @ vs)" and ne': "e \<notin> set (Root l # us @ vs)" using uv by auto
  have ab: "p \<in> set (Root l # xs)" "n \<in> set (ys @ [Root l])" "a \<in> set (Root l # us)" "b \<in> set (vs @ [Root l])"
    unfolding 1 2 3 4 by simp_all
  then have ae: "p \<noteq> e" "n \<noteq> e" "a \<noteq> e" "b \<noteq> e" using ne ne' by auto
  note R = r [unfolded ring_def L, unfolded chain_around(2) [OF 1 2]]
  define m where m: "m = s\<lparr>el_next := (el_next s)(p := Some n), el_prev := (el_prev s)(n := Some p)\<rparr>"
  have "chain (el_next m) (el_prev m) (Root l # (xs @ ys) @ [Root l])"
    unfolding chain_around(1) [OF 1 2]
    using R ae stretches_cong [OF 1 2 d ne, of "el_next m" "el_next s" "el_prev m" "el_prev s"] by (simp add: m)
  note M = this [unfolded uv, unfolded chain_around(1) [OF 3 4]]
  define s' where s': "s' = m\<lparr>el_next := (el_next m)(e := Some b, a := Some e), el_prev := (el_prev m)(e := Some a, b := Some e)\<rparr>"
  have "move_el e (Some a) s = Some s'"
    using R M ae by (simp add: move_el_def Let_def setter_defs s' m)
  moreover have ring': "ring s' l (us @ e # vs)"
    unfolding ring_def chain_around(2) [OF 3 4]
    using M ae stretches_cong [OF 3 4 d' ne', of "el_next s'" "el_next m" "el_prev s'" "el_prev m"] by (simp add: s')
  have U: "set (xs @ ys) = set us \<union> set vs" "length (xs @ ys) = length us + length vs" unfolding uv by simp_all
  moreover have "lists_inv S s' (L(l := us @ e # vs))"
  proof (rule lists_inv_update [OF inv ring'])
    show "distinct (us @ e # vs)" using d' ne' by auto
    show "set (us @ e # vs) \<inter> S l = {}" using I(8) [of l] L U(1) by auto
    have "list_len s l = int (length (us @ e # vs))" using I(1) [of l] L U(2) by simp
    then show "list_len s' = (list_len s)(l := int (length (us @ e # vs)))" by (simp add: s' m fun_upd_idem)
    show "el_list s' x = Some l \<longleftrightarrow> x \<in> set (us @ e # vs) \<or> x \<in> S l" for x using I(3) [of x l] L U by (auto simp: s' m)
    show "el_next s' x = el_next s x \<and> el_prev s' x = el_prev s x" if "x \<notin> set (Root l # L l @ us @ e # vs)" for x
      using that ab L by (auto simp: s' m)
    show "\<exists>n < el_alloc s'. x = Elem n" if "x \<in> set (us @ e # vs)" for x
      using that I(4) [of x l] L U by (auto simp: s' m)
  qed (simp_all add: s' m)
  ultimately show ?thesis by (auto simp: s' m)
qed

end
