(* ===== verification/Linked_List_Correct.thy ===== *)
theory Linked_List_Correct
  imports Linked_List_Rings
begin

text \<open>
  Linked lists as sequences: what the readers return, the specification of every operation on sequences of elements, the
  simulation, and the properties of the package.
\<close>

section \<open>Reading a list\<close>

lemma ring_next:
  assumes "ring s l (xs @ e # ys)"
  shows "el_next s e = Some (hd (ys @ [Root l]))" and "el_prev s e = Some (last (Root l # xs))"
proof -
  obtain us a b vs where 1: "Root l # xs = us @ [a]" and 2: "ys @ [Root l] = b # vs"
    and ab: "a = last (Root l # xs)" "b = hd (ys @ [Root l])" by (rule around)
  show "el_next s e = Some (hd (ys @ [Root l]))" "el_prev s e = Some (last (Root l # xs))"
    using assms unfolding ring_def chain_around(2) [OF 1 2] ab [symmetric] by simp_all
qed

lemma ring_root:
  assumes "ring s l es"
  shows "el_next s (Root l) = Some (hd (es @ [Root l]))" and "el_prev s (Root l) = Some (last (Root l # es))"
proof -
  obtain us a b vs where 1: "Root l # [] = us @ [a]" and 2: "es @ [Root l] = b # vs" and "b = hd (es @ [Root l])"
    by (rule around) blast
  then show "el_next s (Root l) = Some (hd (es @ [Root l]))"
    using assms chain_around(1) [OF 1 2] unfolding ring_def by simp
  obtain us a b vs where 1: "Root l # es = us @ [a]" and 2: "[] @ [Root l] = b # vs" and "a = last (Root l # es)"
    by (rule around) blast
  then show "el_prev s (Root l) = Some (last (Root l # es))"
    using assms chain_around(1) [OF 1 2] unfolding ring_def by simp
qed

lemma member_ring: "lists_inv S s L \<Longrightarrow> L l = xs @ e # ys \<Longrightarrow> ring s l (xs @ e # ys)"
  using lists_invD(5) [of S s L l] by auto

lemma el_Next_ok:
  assumes inv: "lists_inv S s L" and L: "L l = xs @ e # ys"
  shows "el_Next e s = (case ys of [] \<Rightarrow> None | y # _ \<Rightarrow> Some y)"
    and "el_Prev e s = (if xs = [] then None else Some (last xs))"
proof -
  note r = ring_next [OF member_ring [OF inv L]]
  have R: "Root l \<notin> set (L l)" by (rule lists_invD(6) [OF inv])
  have "el_list s e = Some l" using lists_invD(3) [OF inv] L by simp
  then show "el_Next e s = (case ys of [] \<Rightarrow> None | y # _ \<Rightarrow> Some y)"
    using r(1) R L by (auto simp: el_Next_def Let_def split: list.splits)
  show "el_Prev e s = (if xs = [] then None else Some (last xs))"
  proof (cases "xs = []")
    case False
    then have "last xs \<in> set (L l)" using L by simp
    then have "last xs \<noteq> Root l" using R by metis
    then show ?thesis using r(2) False \<open>el_list s e = Some l\<close> by (simp add: el_Prev_def)
  qed (use r(2) \<open>el_list s e = Some l\<close> in \<open>simp add: el_Prev_def\<close>)
qed

lemma list_ends:
  assumes inv: "lists_inv S s L"
  shows "list_Len l s = int (length (L l))" and "list_Front l s = (case L l of [] \<Rightarrow> None | e # _ \<Rightarrow> Some e)"
    and "list_Back l s = (if L l = [] then None else Some (last (L l)))"
proof -
  note I = lists_invD [OF inv]
  show "list_Len l s = int (length (L l))" by (simp add: list_Len_def I(1))
  show "list_Front l s = (case L l of [] \<Rightarrow> None | e # _ \<Rightarrow> Some e)"
    using I(5) [of l] ring_root(1) [of s l "L l"] by (cases "L l") (auto simp: list_Front_def I(1))
  show "list_Back l s = (if L l = [] then None else Some (last (L l)))"
    using I(5) [of l] ring_root(2) [of s l "L l"] by (auto simp: list_Back_def I(1))
qed

lemma lazyInit_ok:
  assumes inv: "lists_inv S s L"
  shows "lists_inv S (lazyInit l s) L \<and> ring (lazyInit l s) l (L l)
    \<and> el_Value (lazyInit l s) = el_Value s \<and> el_alloc (lazyInit l s) = el_alloc s"
proof (cases "el_next s (Root l) = None")
  case False
  then show ?thesis using inv lists_invD(5) [OF inv, of l] by (auto simp: lazyInit_def)
next
  case True
  note I = lists_invD [OF inv]
  have e: "L l = []" using I(5) [of l] ring_root(1) [of s l "L l"] True by auto
  have r: "ring (lazyInit l s) l []" using True by (simp add: lazyInit_def list_Init_def ring_def Let_def setter_defs)
  have "lists_inv S (lazyInit l s) (L(l := []))"
    by (rule lists_inv_update [OF inv r]) (use True I(3) [of _ l] e in \<open>auto simp: lazyInit_def list_Init_def Let_def setter_defs\<close>)
  then have "lists_inv S (lazyInit l s) L" using e by (simp add: fun_upd_idem)
  then show ?thesis using True e r by (simp add: lazyInit_def list_Init_def Let_def setter_defs)
qed

section \<open>Sequences as the specification\<close>

fun ins_before :: "'p \<Rightarrow> 'p \<Rightarrow> 'p list \<Rightarrow> 'p list" where
  "ins_before m x [] = []"
| "ins_before m x (y # ys) = (if y = m then x # y # ys else y # ins_before m x ys)"

fun ins_after :: "'p \<Rightarrow> 'p \<Rightarrow> 'p list \<Rightarrow> 'p list" where
  "ins_after m x [] = []"
| "ins_after m x (y # ys) = (if y = m then y # x # ys else y # ins_after m x ys)"

lemma ins_split:
  assumes "m \<notin> set xs"
  shows "ins_before m x (xs @ m # ys) = xs @ x # m # ys" and "ins_after m x (xs @ m # ys) = (xs @ [m]) @ x # ys"
  using assms by (induction xs) auto

datatype 'a list_op =
    OpPushFront nat 'a
  | OpPushBack nat 'a
  | OpInsertBefore nat 'a ptr
  | OpInsertAfter nat 'a ptr
  | OpRemove nat ptr
  | OpMoveToFront nat ptr
  | OpMoveToBack nat ptr
  | OpMoveBefore nat ptr ptr
  | OpMoveAfter nat ptr ptr
  | OpPushBackList nat nat
  | OpPushFrontList nat nat
  | OpInit nat

fun list_exec :: "'a list_op \<Rightarrow> 'a list_store \<Rightarrow> 'a list_store option" where
  "list_exec (OpPushFront l v) s = map_option snd (list_PushFront l v s)"
| "list_exec (OpPushBack l v) s = map_option snd (list_PushBack l v s)"
| "list_exec (OpInsertBefore l v m) s = map_option snd (list_InsertBefore l v m s)"
| "list_exec (OpInsertAfter l v m) s = map_option snd (list_InsertAfter l v m s)"
| "list_exec (OpRemove l e) s = map_option snd (list_Remove l e s)"
| "list_exec (OpMoveToFront l e) s = list_MoveToFront l e s"
| "list_exec (OpMoveToBack l e) s = list_MoveToBack l e s"
| "list_exec (OpMoveBefore l e m) s = list_MoveBefore l e m s"
| "list_exec (OpMoveAfter l e m) s = list_MoveAfter l e m s"
| "list_exec (OpPushBackList l k) s = list_PushBackList l k s"
| "list_exec (OpPushFrontList l k) s = list_PushFrontList l k s"
| "list_exec (OpInit l) s = Some (list_Init l s)"

text \<open>
  The abstract state: the elements of each list in order, the values, the next element to be allocated, and for each
  list the stale elements that \<open>Init\<close> dropped from it.
\<close>

type_synonym 'a lists = "(nat \<Rightarrow> ptr list) \<times> (ptr \<Rightarrow> 'a) \<times> nat \<times> (nat \<Rightarrow> ptr set)"

fun spec_new :: "nat \<Rightarrow> (ptr \<Rightarrow> ptr list \<Rightarrow> ptr list) \<Rightarrow> 'a \<Rightarrow> 'a lists \<Rightarrow> 'a lists" where
  "spec_new l f v (L, V, k, S) = (L(l := f (Elem k) (L l)), V(Elem k := v), Suc k, S)"

fun list_spec :: "'a list_op \<Rightarrow> 'a lists \<Rightarrow> 'a lists" where
  "list_spec (OpPushFront l v) a = spec_new l (\<lambda>e es. e # es) v a"
| "list_spec (OpPushBack l v) a = spec_new l (\<lambda>e es. es @ [e]) v a"
| "list_spec (OpInsertBefore l v m) a = (if m \<in> set (fst a l) then spec_new l (ins_before m) v a else a)"
| "list_spec (OpInsertAfter l v m) a = (if m \<in> set (fst a l) then spec_new l (ins_after m) v a else a)"
| "list_spec (OpRemove l e) (L, V, k, S) = (L(l := remove1 e (L l)), V, k, S)"
| "list_spec (OpMoveToFront l e) (L, V, k, S) =
     (if e \<in> set (L l) then L(l := e # remove1 e (L l)) else L, V, k, S)"
| "list_spec (OpMoveToBack l e) (L, V, k, S) =
     (if e \<in> set (L l) then L(l := remove1 e (L l) @ [e]) else L, V, k, S)"
| "list_spec (OpMoveBefore l e m) (L, V, k, S) =
     (if e \<in> set (L l) \<and> m \<in> set (L l) \<and> e \<noteq> m then L(l := ins_before m e (remove1 e (L l))) else L, V, k, S)"
| "list_spec (OpMoveAfter l e m) (L, V, k, S) =
     (if e \<in> set (L l) \<and> m \<in> set (L l) \<and> e \<noteq> m then L(l := ins_after m e (remove1 e (L l))) else L, V, k, S)"
| "list_spec (OpPushBackList l other) (L, V, k, S) =
     fold (spec_new l (\<lambda>e es. es @ [e])) (map V (L other)) (L, V, k, S)"
| "list_spec (OpPushFrontList l other) (L, V, k, S) =
     fold (spec_new l (\<lambda>e es. e # es)) (rev (map V (L other))) (L, V, k, S)"
| "list_spec (OpInit l) (L, V, k, S) = (L(l := []), V, k, S(l := S l \<union> set (L l)))"

text \<open>
  An element that \<open>Init\<close> dropped from a list still names that list, so the list takes it for one of its own. The
  operations are specified as long as no stale element of the list is passed to them.
\<close>

fun op_ok :: "'a list_op \<Rightarrow> 'a lists \<Rightarrow> bool" where
  "op_ok (OpInsertBefore l v m) (L, V, k, S) \<longleftrightarrow> m \<notin> S l"
| "op_ok (OpInsertAfter l v m) (L, V, k, S) \<longleftrightarrow> m \<notin> S l"
| "op_ok (OpRemove l e) (L, V, k, S) \<longleftrightarrow> e \<notin> S l"
| "op_ok (OpMoveToFront l e) (L, V, k, S) \<longleftrightarrow> e \<notin> S l"
| "op_ok (OpMoveToBack l e) (L, V, k, S) \<longleftrightarrow> e \<notin> S l"
| "op_ok (OpMoveBefore l e m) (L, V, k, S) \<longleftrightarrow> e \<notin> S l \<and> m \<notin> S l"
| "op_ok (OpMoveAfter l e m) (L, V, k, S) \<longleftrightarrow> e \<notin> S l \<and> m \<notin> S l"
| "op_ok _ a \<longleftrightarrow> True"

definition represents :: "'a list_store \<Rightarrow> 'a lists \<Rightarrow> bool" where
  "represents s a \<longleftrightarrow>
     lists_inv (snd (snd (snd a))) s (fst a) \<and> el_Value s = fst (snd a) \<and> el_alloc s = fst (snd (snd a))"

section \<open>Simulation\<close>

lemma representsI: "lists_inv S s L \<Longrightarrow> el_Value s = V \<Longrightarrow> el_alloc s = k \<Longrightarrow> represents s (L, V, k, S)"
  by (simp add: represents_def)

lemma new_ok:
  assumes "lists_inv S s L" and "ring s l (L l)" and "L l = xs @ ys" and "a = last (Root l # xs)"
    and "f (Elem (el_alloc s)) (L l) = xs @ Elem (el_alloc s) # ys"
  shows "\<exists>s'. insertValue l v (Some a) s = Some (Elem (el_alloc s), s')
    \<and> represents s' (spec_new l f v (L, el_Value s, el_alloc s, S)) \<and> ring s' l (f (Elem (el_alloc s)) (L l))"
  using insertValue_ok [OF assms(1-4) refl, of v] assms(5) by (auto simp: represents_def)

lemma split_member:
  assumes "lists_inv S s L" and "e \<in> set (L l)"
  obtains xs ys where "L l = xs @ e # ys" and "e \<notin> set xs" and "e \<notin> set ys" and "remove1 e (L l) = xs @ ys"
proof -
  from assms(2) obtain xs ys where "L l = xs @ e # ys" by (meson split_list)
  moreover have "distinct (L l)" by (rule lists_invD(2) [OF assms(1)])
  ultimately show ?thesis by (intro that [of xs ys]) (simp_all add: remove1_append)
qed

lemma PushFront_ok:
  assumes "lists_inv S s L"
  shows "\<exists>s'. list_PushFront l v s = Some (Elem (el_alloc s), s')
    \<and> represents s' (list_spec (OpPushFront l v) (L, el_Value s, el_alloc s, S))"
  using new_ok [of S "lazyInit l s" L l "[]" "L l" "Root l" "\<lambda>e es. e # es" v] lazyInit_ok [OF assms, of l]
  by (auto simp: list_PushFront_def)

lemma PushBack_ok:
  assumes "lists_inv S s L"
  shows "\<exists>s'. list_PushBack l v s = Some (Elem (el_alloc s), s')
    \<and> represents s' (list_spec (OpPushBack l v) (L, el_Value s, el_alloc s, S))"
  using new_ok [of S "lazyInit l s" L l "L l" "[]" "last (Root l # L l)" "\<lambda>e es. es @ [e]" v] lazyInit_ok [OF assms, of l]
    ring_root(2) [of "lazyInit l s" l "L l"]
  by (auto simp: list_PushBack_def Let_def)

lemma list_Insert_ok:
  assumes inv: "lists_inv S s L" and st: "m \<notin> S l"
  shows "\<exists>s'. list_InsertBefore l v m s = Some (if m \<in> set (L l) then Some (Elem (el_alloc s)) else None, s')
    \<and> represents s' (list_spec (OpInsertBefore l v m) (L, el_Value s, el_alloc s, S))"
    and "\<exists>s'. list_InsertAfter l v m s = Some (if m \<in> set (L l) then Some (Elem (el_alloc s)) else None, s')
    \<and> represents s' (list_spec (OpInsertAfter l v m) (L, el_Value s, el_alloc s, S))"
proof -
  have "(\<exists>s'. list_InsertBefore l v m s = Some (if m \<in> set (L l) then Some (Elem (el_alloc s)) else None, s')
      \<and> represents s' (list_spec (OpInsertBefore l v m) (L, el_Value s, el_alloc s, S)))
    \<and> (\<exists>s'. list_InsertAfter l v m s = Some (if m \<in> set (L l) then Some (Elem (el_alloc s)) else None, s')
      \<and> represents s' (list_spec (OpInsertAfter l v m) (L, el_Value s, el_alloc s, S)))"
  proof (cases "m \<in> set (L l)")
    case False
    then show ?thesis
      using lists_inv_owner [OF inv st] inv by (simp add: list_InsertBefore_def list_InsertAfter_def represents_def)
  next
    case True
    then obtain xs ys where L: "L l = xs @ m # ys" "m \<notin> set xs" by (rule split_member [OF inv]) blast
    have o: "el_list s m = Some l" using lists_invD(3) [OF inv] True by simp
    have r: "ring s l (L l)" "el_prev s m = Some (last (Root l # xs))"
      using member_ring [OF inv L(1)] ring_next(2) [of s l xs m ys] L(1) by simp_all
    show ?thesis
      using new_ok [OF inv r(1) L(1) refl, of "ins_before m" v] new_ok [of S s L l "xs @ [m]" ys m "ins_after m" v] inv r L o True
      by (auto simp: list_InsertBefore_def list_InsertAfter_def ins_split)
  qed
  then show "\<exists>s'. list_InsertBefore l v m s = Some (if m \<in> set (L l) then Some (Elem (el_alloc s)) else None, s')
      \<and> represents s' (list_spec (OpInsertBefore l v m) (L, el_Value s, el_alloc s, S))"
    "\<exists>s'. list_InsertAfter l v m s = Some (if m \<in> set (L l) then Some (Elem (el_alloc s)) else None, s')
      \<and> represents s' (list_spec (OpInsertAfter l v m) (L, el_Value s, el_alloc s, S))"
    by blast+
qed

lemma Remove_ok:
  assumes inv: "lists_inv S s L" and st: "e \<notin> S l"
  shows "\<exists>s'. list_Remove l e s = Some (el_Value s e, s')
    \<and> represents s' (list_spec (OpRemove l e) (L, el_Value s, el_alloc s, S))"
proof (cases "e \<in> set (L l)")
  case False
  then show ?thesis
    using lists_inv_owner [OF inv st] inv by (simp add: list_Remove_def represents_def remove1_idem fun_upd_idem)
next
  case True
  then obtain xs ys where L: "L l = xs @ e # ys" "remove1 e (L l) = xs @ ys" by (rule split_member [OF inv])
  then show ?thesis
    using remove_el_ok [OF inv L(1)] lists_inv_owner [OF inv st] True by (auto simp: list_Remove_def represents_def)
qed

lemma move_represents:
  assumes "lists_inv S s L" and "L l = xs @ e # ys" and "xs @ ys = us @ vs" and "a = last (Root l # us)" and "es = us @ e # vs"
  shows "\<exists>s'. move_el e (Some a) s = Some s' \<and> represents s' (L(l := es), el_Value s, el_alloc s, S)"
  using move_el_ok [OF assms(1-4)] assms(5) by (auto simp: represents_def)

lemma unmoved_represents: "lists_inv S s L \<Longrightarrow> es = L l \<Longrightarrow> represents s (L(l := es), el_Value s, el_alloc s, S)"
  by (simp add: represents_def fun_upd_idem)

lemma MoveToFront_ok:
  assumes inv: "lists_inv S s L" and st: "e \<notin> S l"
  shows "\<exists>s'. list_MoveToFront l e s = Some s' \<and> represents s' (list_spec (OpMoveToFront l e) (L, el_Value s, el_alloc s, S))"
proof (cases "e \<in> set (L l)")
  case False
  then show ?thesis using lists_inv_owner [OF inv st] inv by (simp add: list_MoveToFront_def represents_def)
next
  case True
  then obtain xs ys where L: "L l = xs @ e # ys" "e \<notin> set xs" "e \<notin> set ys" "remove1 e (L l) = xs @ ys" by (rule split_member [OF inv])
  have o: "el_list s e = Some l" using lists_invD(3) [OF inv] True by simp
  have n: "el_next s (Root l) = Some (hd (L l @ [Root l]))" using member_ring [OF inv L(1)] ring_root(1) [of s l] L(1) by simp
  show ?thesis
  proof (cases xs)
    case Nil
    then show ?thesis using o n L True unmoved_represents [OF inv, of "e # ys" l] inv by (simp add: list_MoveToFront_def)
  next
    case (Cons x xs')
    then show ?thesis
      using o n L True move_represents [OF inv L(1), of "[]" "xs @ ys" "Root l" "e # xs @ ys"] by (auto simp: list_MoveToFront_def)
  qed
qed

lemma MoveToBack_ok:
  assumes inv: "lists_inv S s L" and st: "e \<notin> S l"
  shows "\<exists>s'. list_MoveToBack l e s = Some s' \<and> represents s' (list_spec (OpMoveToBack l e) (L, el_Value s, el_alloc s, S))"
proof (cases "e \<in> set (L l)")
  case False
  then show ?thesis using lists_inv_owner [OF inv st] inv by (simp add: list_MoveToBack_def represents_def)
next
  case True
  then obtain xs ys where L: "L l = xs @ e # ys" "e \<notin> set xs" "e \<notin> set ys" "remove1 e (L l) = xs @ ys" by (rule split_member [OF inv])
  have o: "el_list s e = Some l" using lists_invD(3) [OF inv] True by simp
  have n: "el_prev s (Root l) = Some (last (L l))" using member_ring [OF inv L(1)] ring_root(2) [of s l] L(1) by simp
  show ?thesis
  proof (cases "ys = []")
    case True': True
    then show ?thesis using o n L True unmoved_represents [OF inv, of "xs @ [e]" l] inv by (simp add: list_MoveToBack_def)
  next
    case False
    then have "last ys \<in> set ys" by simp
    then have "last ys \<noteq> e" using L(3) by metis
    then show ?thesis
      using o n L True False move_represents [OF inv L(1), of "xs @ ys" "[]" "last ys" "xs @ ys @ [e]"] by (auto simp: list_MoveToBack_def)
  qed
qed

lemma Move_outside:
  assumes "lists_inv S s L" and "e \<notin> S l" and "m \<notin> S l" and "\<not> (e \<in> set (L l) \<and> m \<in> set (L l) \<and> e \<noteq> m)"
  shows "list_MoveBefore l e m s = Some s" and "list_MoveAfter l e m s = Some s"
  using assms(4) lists_inv_owner [OF assms(1,2)] lists_inv_owner [OF assms(1,3)]
  by (auto simp: list_MoveBefore_def list_MoveAfter_def)

lemma MoveAfter_ok:
  assumes inv: "lists_inv S s L" and st: "e \<notin> S l" "m \<notin> S l"
  shows "\<exists>s'. list_MoveAfter l e m s = Some s' \<and> represents s' (list_spec (OpMoveAfter l e m) (L, el_Value s, el_alloc s, S))"
proof (cases "e \<in> set (L l) \<and> m \<in> set (L l) \<and> e \<noteq> m")
  case False
  then show ?thesis using Move_outside [OF inv st False] inv by (auto simp: represents_def)
next
  case True
  then have e: "e \<in> set (L l)" ..
  obtain xs ys where L: "L l = xs @ e # ys" "remove1 e (L l) = xs @ ys" by (rule split_member [OF inv e])
  have m: "m \<in> set (xs @ ys)" "distinct (xs @ ys)" using True L lists_invD(2) [OF inv, of l] by auto
  then obtain us vs where uv: "xs @ ys = us @ m # vs" "m \<notin> set us" by (metis split_list_first)
  have "el_list s e = Some l" "el_list s m = Some l" using lists_invD(3) [OF inv] True by simp_all
  moreover have "ins_after m e (remove1 e (L l)) = (us @ [m]) @ e # vs" unfolding L(2) uv(1) using uv(2) by (rule ins_split(2))
  ultimately show ?thesis
    using True move_represents [OF inv L(1), of "us @ [m]" vs m "(us @ [m]) @ e # vs"] uv(1) by (auto simp: list_MoveAfter_def)
qed

lemma MoveBefore_ok:
  assumes inv: "lists_inv S s L" and st: "e \<notin> S l" "m \<notin> S l"
  shows "\<exists>s'. list_MoveBefore l e m s = Some s' \<and> represents s' (list_spec (OpMoveBefore l e m) (L, el_Value s, el_alloc s, S))"
proof (cases "e \<in> set (L l) \<and> m \<in> set (L l) \<and> e \<noteq> m")
  case False
  then show ?thesis using Move_outside [OF inv st False] inv by (auto simp: represents_def)
next
  case True
  then have m: "m \<in> set (L l)" by simp
  obtain ps qs where P: "L l = ps @ m # qs" "m \<notin> set ps" "m \<notin> set qs" by (rule split_member [OF inv m])
  have o: "el_list s e = Some l" "el_list s m = Some l" using lists_invD(3) [OF inv] True by simp_all
  have a: "el_prev s m = Some (last (Root l # ps))" using ring_next(2) [OF member_ring [OF inv P(1)]] .
  have B: "list_MoveBefore l e m s = move_el e (Some (last (Root l # ps))) s" using o a True by (simp add: list_MoveBefore_def)
  have S: "list_spec (OpMoveBefore l e m) (L, el_Value s, el_alloc s, S) = (L(l := ins_before m e (remove1 e (L l))), el_Value s, el_alloc s, S)"
    using True by simp
  consider p1 p2 where "ps = p1 @ e # p2" "e \<notin> set p1" | q1 q2 where "qs = q1 @ e # q2" "e \<notin> set ps" "e \<notin> set q1"
    using True P(1) by (metis Un_iff set_ConsD set_append split_list_first)
  then show ?thesis
  proof cases
    case 1
    then have R: "remove1 e (L l) = (p1 @ p2) @ m # qs" using P True by (simp add: remove1_append)
    then have i: "ins_before m e (remove1 e (L l)) = (p1 @ p2) @ e # m # qs" unfolding R using P 1 by (intro ins_split(1)) simp
    show ?thesis
    proof (cases "p2 = []")
      case True
      then show ?thesis unfolding B S i using 1 P unmoved_represents [OF inv, of "p1 @ e # m # qs" l] by (simp add: move_el_def)
    next
      case False
      then have "last (Root l # ps) = last (Root l # p1 @ p2)" using 1 by simp
      then show ?thesis unfolding B S i using move_represents [OF inv, of l p1 e "p2 @ m # qs" "p1 @ p2" "m # qs"] 1 P by simp
    qed
  next
    case 2
    then have R: "remove1 e (L l) = ps @ m # q1 @ q2" using P True by (simp add: remove1_append)
    then have i: "ins_before m e (remove1 e (L l)) = ps @ e # m # q1 @ q2" unfolding R using P by (intro ins_split(1)) simp
    show ?thesis unfolding B S i using move_represents [OF inv, of l "ps @ m # q1" e q2 ps "m # q1 @ q2"] 2 P by simp
  qed
qed

section \<open>Copying a list\<close>

text \<open>Both loops work on the part of the other list that is left; elements added meanwhile are beyond it.\<close>

lemma spec_new_values: "Elem k \<notin> set zs \<Longrightarrow> map (V(Elem k := v)) zs = map V zs"
  by auto

lemma PushBackList_loop_ok:
  assumes "lists_inv S s L" and "ring s l (L l)" and "L other = ds @ zs @ es" and "zs \<noteq> [] \<Longrightarrow> e = Some (hd zs)"
  shows "\<exists>s'. PushBackList_loop l (length zs) e s = Some s'
    \<and> represents s' (fold (spec_new l (\<lambda>e es. es @ [e])) (map (el_Value s) zs) (L, el_Value s, el_alloc s, S))"
  using assms
proof (induction zs arbitrary: s L ds es e)
  case Nil
  then show ?case by (simp add: represents_def)
next
  case (Cons z zs)
  let ?k = "Elem (el_alloc s)" and ?v = "el_Value s z"
  have prev: "el_prev s (Root l) = Some (last (Root l # L l))" by (rule ring_root(2) [OF Cons.prems(2)])
  obtain s1 where s1: "insertValue l ?v (Some (last (Root l # L l))) s = Some (?k, s1)"
    and rep: "represents s1 (L(l := L l @ [?k]), (el_Value s)(?k := ?v), Suc (el_alloc s), S)" and r1: "ring s1 l (L l @ [?k])"
    using new_ok [OF Cons.prems(1,2), of "L l" "[]" _ "\<lambda>e es. es @ [e]" ?v] by auto
  let ?L = "L(l := L l @ [?k])"
  have inv1: "lists_inv S s1 ?L" and v1: "el_Value s1 = (el_Value s)(?k := ?v)" "el_alloc s1 = Suc (el_alloc s)"
    using rep by (simp_all add: represents_def)
  have o: "?L other = (ds @ [z]) @ zs @ (if other = l then es @ [?k] else es)" using Cons.prems(3) by auto
  have n: "el_Next z s1 = Some (hd zs)" if "zs \<noteq> []"
    using el_Next_ok(1) [OF inv1, of other ds z "zs @ (if other = l then es @ [?k] else es)"] o that by (cases zs) simp_all
  have "?k \<notin> set zs" using lists_invD(7) [OF Cons.prems(1), of other] Cons.prems(3) by simp
  then have vs: "map (el_Value s1) zs = map (el_Value s) zs" unfolding v1 by (rule spec_new_values)
  have "\<exists>s'. PushBackList_loop l (length zs) (el_Next z s1) s1 = Some s'
      \<and> represents s' (fold (spec_new l (\<lambda>e es. es @ [e])) (map (el_Value s1) zs) (?L, el_Value s1, el_alloc s1, S))"
    by (rule Cons.IH [OF inv1 _ o n]) (simp_all add: r1)
  then show ?case using Cons.prems(4) prev s1 unfolding vs by (simp add: v1)
qed

lemma PushFrontList_loop_ok:
  assumes "lists_inv S s L" and "ring s l (L l)" and "L other = ds @ zs @ es" and "zs \<noteq> [] \<Longrightarrow> e = Some (last zs)"
  shows "\<exists>s'. PushFrontList_loop l (length zs) e s = Some s'
    \<and> represents s' (fold (spec_new l (\<lambda>e es. e # es)) (rev (map (el_Value s) zs)) (L, el_Value s, el_alloc s, S))"
  using assms
proof (induction zs arbitrary: s L ds es e rule: rev_induct)
  case Nil
  then show ?case by (simp add: represents_def)
next
  case (snoc z zs)
  let ?k = "Elem (el_alloc s)" and ?v = "el_Value s z"
  obtain s1 where s1: "insertValue l ?v (Some (Root l)) s = Some (?k, s1)"
    and rep: "represents s1 (L(l := ?k # L l), (el_Value s)(?k := ?v), Suc (el_alloc s), S)" and r1: "ring s1 l (?k # L l)"
    using new_ok [OF snoc.prems(1,2), of "[]" "L l" "Root l" "\<lambda>e es. e # es" ?v] by auto
  let ?L = "L(l := ?k # L l)"
  have inv1: "lists_inv S s1 ?L" and v1: "el_Value s1 = (el_Value s)(?k := ?v)" "el_alloc s1 = Suc (el_alloc s)"
    using rep by (simp_all add: represents_def)
  have o: "?L other = (if other = l then ?k # ds else ds) @ zs @ z # es" using snoc.prems(3) by auto
  have n: "el_Prev z s1 = Some (last zs)" if "zs \<noteq> []"
    using el_Next_ok(2) [OF inv1, of other "(if other = l then ?k # ds else ds) @ zs" z es] o that by simp
  have "?k \<notin> set zs" using lists_invD(7) [OF snoc.prems(1), of other] snoc.prems(3) by simp
  then have vs: "map (el_Value s1) zs = map (el_Value s) zs" unfolding v1 by (rule spec_new_values)
  have "\<exists>s'. PushFrontList_loop l (length zs) (el_Prev z s1) s1 = Some s'
      \<and> represents s' (fold (spec_new l (\<lambda>e es. e # es)) (rev (map (el_Value s1) zs)) (?L, el_Value s1, el_alloc s1, S))"
    by (rule snoc.IH [OF inv1 _ o n]) (simp_all add: r1)
  then show ?case using snoc.prems(4) s1 unfolding vs by (simp add: v1)
qed

lemma PushList_ok:
  assumes inv: "lists_inv S s L"
  shows "\<exists>s'. list_PushBackList l k s = Some s' \<and> represents s' (list_spec (OpPushBackList l k) (L, el_Value s, el_alloc s, S))"
    and "\<exists>s'. list_PushFrontList l k s = Some s' \<and> represents s' (list_spec (OpPushFrontList l k) (L, el_Value s, el_alloc s, S))"
proof -
  let ?s = "lazyInit l s"
  have z: "lists_inv S ?s L" "ring ?s l (L l)" "el_Value ?s = el_Value s" "el_alloc ?s = el_alloc s" using lazyInit_ok [OF inv] by auto
  note E = list_ends [OF z(1), of k]
  show "\<exists>s'. list_PushBackList l k s = Some s' \<and> represents s' (list_spec (OpPushBackList l k) (L, el_Value s, el_alloc s, S))"
    using PushBackList_loop_ok [OF z(1,2), of k "[]" "L k" "[]" "list_Front k ?s"] E(1,2) z(3,4)
    by (auto simp: list_PushBackList_def Let_def split: list.splits)
  show "\<exists>s'. list_PushFrontList l k s = Some s' \<and> represents s' (list_spec (OpPushFrontList l k) (L, el_Value s, el_alloc s, S))"
    using PushFrontList_loop_ok [OF z(1,2), of k "[]" "L k" "[]" "list_Back k ?s"] E(1,3) z(3,4)
    by (auto simp: list_PushFrontList_def Let_def)
qed

section \<open>Sequences of operations\<close>

lemma Init_ok:
  assumes inv: "lists_inv S s L"
  shows "represents (list_Init l s) (list_spec (OpInit l) (L, el_Value s, el_alloc s, S))"
proof -
  note I = lists_invD [OF inv]
  note init = list_Init_def Let_def setter_defs
  have r: "ring (list_Init l s) l []" by (simp add: init ring_def)
  have "lists_inv (S(l := S l \<union> set (L l))) (list_Init l s) (L(l := []))"
    by (rule lists_inv_change [OF inv r]) (use I(3) [of _ l] I(4) [of _ l] I(9) [of _ l] in \<open>auto simp: init\<close>)
  then show ?thesis by (simp add: represents_def init)
qed

lemma list_step:
  assumes "represents s a" and "op_ok op a"
  shows "\<exists>s'. list_exec op s = Some s' \<and> represents s' (list_spec op a)"
proof -
  obtain L V k S where a: "a = (L, V, k, S)" by (cases a)
  then have inv: "lists_inv S s L" and V: "V = el_Value s" "k = el_alloc s" using assms by (simp_all add: represents_def)
  have ok: "op_ok op (L, el_Value s, el_alloc s, S)" using assms(2) unfolding a V .
  show ?thesis
    unfolding a V
  proof (cases op)
    case (OpPushFront l v)
    then show "\<exists>s'. list_exec op s = Some s' \<and> represents s' (list_spec op (L, el_Value s, el_alloc s, S))"
      using PushFront_ok [OF inv, of l v] by auto
  next
    case (OpPushBack l v)
    then show "\<exists>s'. list_exec op s = Some s' \<and> represents s' (list_spec op (L, el_Value s, el_alloc s, S))"
      using PushBack_ok [OF inv, of l v] by auto
  next
    case (OpInsertBefore l v m)
    then show "\<exists>s'. list_exec op s = Some s' \<and> represents s' (list_spec op (L, el_Value s, el_alloc s, S))"
      using list_Insert_ok(1) [OF inv, of m l v] ok by (auto simp del: list_spec.simps)
  next
    case (OpInsertAfter l v m)
    then show "\<exists>s'. list_exec op s = Some s' \<and> represents s' (list_spec op (L, el_Value s, el_alloc s, S))"
      using list_Insert_ok(2) [OF inv, of m l v] ok by (auto simp del: list_spec.simps)
  next
    case (OpRemove l e)
    then show "\<exists>s'. list_exec op s = Some s' \<and> represents s' (list_spec op (L, el_Value s, el_alloc s, S))"
      using Remove_ok [OF inv, of e l] ok by auto
  qed (use ok MoveToFront_ok [OF inv] MoveToBack_ok [OF inv] MoveBefore_ok [OF inv] MoveAfter_ok [OF inv] PushList_ok [OF inv]
      Init_ok [OF inv]
    in \<open>simp_all del: list_spec.simps\<close>)
qed

locale refinement =
  fixes exec :: "'op \<Rightarrow> 's \<Rightarrow> 's option" and spec :: "'op \<Rightarrow> 'a \<Rightarrow> 'a" and ok :: "'op \<Rightarrow> 'a \<Rightarrow> bool"
    and rep :: "'s \<Rightarrow> 'a \<Rightarrow> bool" and oks :: "'op list \<Rightarrow> 'a \<Rightarrow> bool"
  assumes step: "rep s a \<Longrightarrow> ok op a \<Longrightarrow> \<exists>s'. exec op s = Some s' \<and> rep s' (spec op a)"
    and oks: "oks (op # ops) a \<Longrightarrow> ok op a \<and> oks ops (spec op a)"
begin

lemma run:
  assumes "rep s a" and "oks ops a"
  shows "\<exists>s'. foldl (\<lambda>r op. Option.bind r (exec op)) (Some s) ops = Some s' \<and> rep s' (fold spec ops a)"
  using assms
proof (induction ops arbitrary: s a)
  case (Cons op ops)
  note o = oks [OF Cons.prems(2)]
  obtain s1 where "exec op s = Some s1" "rep s1 (spec op a)" using step [OF Cons.prems(1)] o by blast
  then show ?case using Cons.IH o by simp
qed simp

end

text \<open>No operation of a sequence is given an element that is stale when the operation starts.\<close>

fun ops_ok :: "'a list_op list \<Rightarrow> 'a lists \<Rightarrow> bool" where
  "ops_ok [] a \<longleftrightarrow> True"
| "ops_ok (op # ops) a \<longleftrightarrow> op_ok op a \<and> ops_ok ops (list_spec op a)"

definition list_run :: "'a list_op list \<Rightarrow> 'a list_store \<Rightarrow> 'a list_store option" where
  "list_run ops s = foldl (\<lambda>r op. Option.bind r (list_exec op)) (Some s) ops"

interpretation ll: refinement list_exec list_spec op_ok represents ops_ok
  by unfold_locales (rule list_step, simp_all)

text \<open>A store in which every list is the zero value.\<close>

definition zero_store :: "'a \<Rightarrow> 'a list_store" where
  "zero_store v = \<lparr>el_next = \<lambda>_. None, el_prev = \<lambda>_. None, el_list = \<lambda>_. None, el_Value = \<lambda>_. v,
     list_len = \<lambda>_. 0, el_alloc = 0\<rparr>"

definition zero_lists :: "'a \<Rightarrow> 'a lists" where
  "zero_lists v = (\<lambda>_. [], \<lambda>_. v, 0, \<lambda>_. {})"

lemma zero_represents: "represents (zero_store v) (zero_lists v)"
  by (simp add: represents_def zero_store_def zero_lists_def lists_inv_def)

fun walk :: "(ptr \<Rightarrow> ptr option) \<Rightarrow> nat \<Rightarrow> ptr option \<Rightarrow> ptr list" where
  "walk f 0 e = []"
| "walk f (Suc n) None = []"
| "walk f (Suc n) (Some e) = e # walk f n (f e)"

lemma walk_forward:
  assumes "lists_inv S s L" and "L l = xs @ ys"
  shows "walk (\<lambda>e. el_Next e s) n (case ys of [] \<Rightarrow> None | y # _ \<Rightarrow> Some y) = take n ys"
  using assms(2)
proof (induction n arbitrary: xs ys)
  case (Suc n)
  show ?case
  proof (cases ys)
    case (Cons y ys')
    then show ?thesis using Suc.IH [of "xs @ [y]" ys'] el_Next_ok(1) [OF assms(1), of l xs y ys'] Suc.prems by simp
  qed simp
qed simp

lemma walk_backward:
  assumes "lists_inv S s L" and "L l = xs @ ys"
  shows "walk (\<lambda>e. el_Prev e s) n (if xs = [] then None else Some (last xs)) = take n (rev xs)"
  using assms(2)
proof (induction n arbitrary: xs ys)
  case (Suc n)
  show ?case
  proof (cases xs rule: rev_exhaust)
    case (snoc xs' x)
    then show ?thesis using Suc.IH [of xs' "x # ys"] el_Next_ok(2) [OF assms(1), of l xs' x ys] Suc.prems by simp
  qed simp
qed simp

section \<open>The properties\<close>

text \<open>
  C27. Well-formedness of linked lists: in a store whose lists are rings of distinct elements that know their list,
  every operation on any list (\<open>Init\<close> included), with any element or mark that is not a stale element of that list,
  succeeds without following a nil pointer, keeps all lists well-formed and changes them exactly as its specification
  on sequences says; operations on one list, and operations given an element of another list or a removed one, leave the
  rest as it was. The stale elements of a list are those that \<open>Init\<close> dropped from it: they still name the list.
\<close>

theorem list_operations_wellformed:
  assumes "represents s a" and "op_ok op a"
  shows "\<exists>s'. list_exec op s = Some s' \<and> represents s' (list_spec op a)"
  using assms by (rule list_step)

theorem list_operations_wellformed_witness:
  "\<exists>s'. list_exec (OpRemove 3 (Elem 0)) (zero_store False) = Some s'
    \<and> represents s' (list_spec (OpRemove 3 (Elem 0)) (zero_lists False))"
  by (rule list_operations_wellformed [OF zero_represents]) (simp add: zero_lists_def)

text \<open>
  C28. Linked lists refine sequences: after any sequence of operations from zero values, \<open>Init\<close> included, in which no
  element that an \<open>Init\<close> dropped from a list is passed to an operation of that list, \<open>Len\<close>, \<open>Front\<close> and \<open>Back\<close> read
  the sequence that the specification computes, \<open>n\<close> steps of \<open>Next\<close> from the front visit its first \<open>n\<close> elements
  and then stop, \<open>n\<close> steps of \<open>Prev\<close> from the back its last \<open>n\<close> in reverse, and the values are those stored.
\<close>

theorem list_refines_sequences:
  assumes "ops_ok ops (zero_lists v)"
  shows "\<exists>s'. list_run ops (zero_store v) = Some s' \<and>
    (case fold list_spec ops (zero_lists v) of (L, V, k, S) \<Rightarrow>
       list_Len l s' = int (length (L l))
       \<and> walk (\<lambda>e. el_Next e s') n (list_Front l s') = take n (L l)
       \<and> walk (\<lambda>e. el_Prev e s') n (list_Back l s') = take n (rev (L l))
       \<and> el_Value s' = V)"
proof -
  obtain L V k S where a: "fold list_spec ops (zero_lists v) = (L, V, k, S)" by (metis prod_cases4)
  obtain s' where s': "list_run ops (zero_store v) = Some s'" "represents s' (L, V, k, S)"
    using ll.run [OF zero_represents [of v] assms] a by (auto simp: list_run_def)
  then have inv: "lists_inv S s' L" "el_Value s' = V" by (simp_all add: represents_def)
  show ?thesis
    using s'(1) inv(2) walk_forward [OF inv(1), of l "[]" "L l" n] walk_backward [OF inv(1), of l "L l" "[]" n]
    by (simp add: a list_ends [OF inv(1)])
qed

theorem list_refines_sequences_witness:
  "\<exists>s'. list_run [OpPushBack 0 True, OpInit 0, OpPushFront 0 True, OpPushBack 0 False, OpRemove 0 (Elem 1)] (zero_store False) = Some s'
    \<and> list_Len 0 s' = 1 \<and> walk (\<lambda>e. el_Next e s') 5 (list_Front 0 s') = [Elem 2]"
  using list_refines_sequences
    [of "[OpPushBack 0 True, OpInit 0, OpPushFront 0 True, OpPushBack 0 False, OpRemove 0 (Elem 1)]" False 0 5]
  by (auto simp: zero_lists_def)

text \<open>
  \<open>Init\<close> on a list that has elements leaves them pointing to it: \<open>Remove\<close> then takes such an element for one of the
  list and counts the length down below zero.
\<close>

lemma Init_keeps_stale_elements:
  "Option.bind (list_PushBack 0 v (zero_store w)) (\<lambda>(e, s).
     map_option (\<lambda>(_, s). list_Len 0 s) (list_Remove 0 e (list_Init 0 s))) = Some (- 1)"
  by (simp add: list_PushBack_def lazyInit_def list_Init_def insertValue_def new_Element_def insert_el_def Let_def setter_defs
      zero_store_def list_Remove_def remove_el_def list_Len_def)

end
