(* ===== verification/Varint.thy ===== *)
theory Varint
  imports Prelude
begin

text \<open>
  The variable-length integers of \<open>encoding/binary/varint.go\<close>. An \<open>int64\<close> is its two's complement in a 64-bit word; a
  shift count is a natural number.
\<close>

section \<open>Model\<close>

definition MaxVarintLen64 :: nat where
  "MaxVarintLen64 = 10"

function AppendUvarint :: "byte list \<Rightarrow> uint64 \<Rightarrow> byte list" where
  "AppendUvarint buf x =
     (if 0x80 \<le> x then AppendUvarint (buf @ [ucast x OR 0x80]) (drop_bit 7 x) else buf @ [ucast x])"
  by pat_completeness auto
termination
proof (relation "measure (\<lambda>(buf, x). unat x)")
  fix buf and x :: uint64
  assume "0x80 \<le> x"
  then have "0 < unat x" by (simp add: word_le_nat_alt)
  then show "((buf @ [ucast x OR 0x80], drop_bit 7 x), buf, x) \<in> measure (\<lambda>(buf, x). unat x)"
    by (simp add: unat_drop_bit)
qed simp

declare AppendUvarint.simps [simp del]

text \<open>\<open>None\<close> is the panic of a store beyond the buffer.\<close>

function PutUvarint_loop :: "nat \<Rightarrow> byte list \<Rightarrow> uint64 \<Rightarrow> (byte list \<times> nat) option" where
  "PutUvarint_loop i buf x =
     (if 0x80 \<le> x then
        case go_store buf i (ucast x OR 0x80) of
          None \<Rightarrow> None
        | Some buf \<Rightarrow> PutUvarint_loop (i + 1) buf (drop_bit 7 x)
      else map_option (\<lambda>buf. (buf, i + 1)) (go_store buf i (ucast x)))"
  by pat_completeness auto
termination
proof (relation "measure (\<lambda>(i, buf, x). unat x)")
  fix i buf buf' and x :: uint64
  assume "0x80 \<le> x"
  then have "0 < unat x" by (simp add: word_le_nat_alt)
  then show "((i + 1, buf', drop_bit 7 x), i, buf, x) \<in> measure (\<lambda>(i, buf, x). unat x)"
    by (simp add: unat_drop_bit)
qed simp

declare PutUvarint_loop.simps [simp del]

definition PutUvarint :: "byte list \<Rightarrow> uint64 \<Rightarrow> (byte list \<times> nat) option" where
  "PutUvarint buf x = PutUvarint_loop 0 buf x"

fun Uvarint_loop :: "nat \<Rightarrow> uint64 \<Rightarrow> nat \<Rightarrow> byte list \<Rightarrow> uint64 \<times> int" where
  "Uvarint_loop i x s [] = (0, 0)"
| "Uvarint_loop i x s (b # buf) =
     (if i = MaxVarintLen64 then (0, - (int i + 1))
      else if b < 0x80 then
        if i = MaxVarintLen64 - 1 \<and> 1 < b then (0, - (int i + 1))
        else (x OR push_bit s (ucast b), int i + 1)
      else Uvarint_loop (i + 1) (x OR push_bit s (ucast (b AND 0x7f))) (s + 7) buf)"

definition Uvarint :: "byte list \<Rightarrow> uint64 \<times> int" where
  "Uvarint buf = Uvarint_loop 0 0 0 buf"

definition zigzag :: "uint64 \<Rightarrow> uint64" where
  "zigzag x = (let ux = push_bit 1 x in if sint x < 0 then NOT ux else ux)"

definition unzigzag :: "uint64 \<Rightarrow> uint64" where
  "unzigzag ux = (let x = drop_bit 1 ux in if ux AND 1 \<noteq> 0 then NOT x else x)"

definition AppendVarint :: "byte list \<Rightarrow> uint64 \<Rightarrow> byte list" where
  "AppendVarint buf x = AppendUvarint buf (zigzag x)"

definition PutVarint :: "byte list \<Rightarrow> uint64 \<Rightarrow> (byte list \<times> nat) option" where
  "PutVarint buf x = PutUvarint buf (zigzag x)"

definition Varint :: "byte list \<Rightarrow> uint64 \<times> int" where
  "Varint buf = (let (ux, n) = Uvarint buf in (unzigzag ux, n))"

text \<open>
  The reader is the caller's: \<open>rd\<close> gives, for the state of the reader, its next state and a byte or an error.
\<close>

datatype 'e read_error = EOF | ErrUnexpectedEOF | errOverflow | ReaderError 'e

function ReadUvarint_loop ::
  "('r \<Rightarrow> 'r \<times> ('e read_error + byte)) \<Rightarrow> nat \<Rightarrow> uint64 \<Rightarrow> nat \<Rightarrow> 'r \<Rightarrow> uint64 \<times> 'e read_error option \<times> 'r" where
  "ReadUvarint_loop rd i x s r =
     (if i < MaxVarintLen64 then
        case rd r of
          (r, Inl err) \<Rightarrow> (x, Some (if 0 < i \<and> err = EOF then ErrUnexpectedEOF else err), r)
        | (r, Inr b) \<Rightarrow>
            if b < 0x80 then
              if i = MaxVarintLen64 - 1 \<and> 1 < b then (x, Some errOverflow, r)
              else (x OR push_bit s (ucast b), None, r)
            else ReadUvarint_loop rd (i + 1) (x OR push_bit s (ucast (b AND 0x7f))) (s + 7) r
      else (x, Some errOverflow, r))"
  by pat_completeness auto
termination by (relation "measure (\<lambda>(rd, i, x, s, r). MaxVarintLen64 - i)") auto

declare ReadUvarint_loop.simps [simp del]

definition ReadUvarint :: "('r \<Rightarrow> 'r \<times> ('e read_error + byte)) \<Rightarrow> 'r \<Rightarrow> uint64 \<times> 'e read_error option \<times> 'r" where
  "ReadUvarint rd r = ReadUvarint_loop rd 0 0 0 r"

definition ReadVarint :: "('r \<Rightarrow> 'r \<times> ('e read_error + byte)) \<Rightarrow> 'r \<Rightarrow> uint64 \<times> 'e read_error option \<times> 'r" where
  "ReadVarint rd r = (let (ux, err, r) = ReadUvarint rd r in (unzigzag ux, err, r))"

end
