(* ===== verification/Varint_Correct.thy ===== *)
theory Varint_Correct
  imports Varint Bits_Correct
begin

text \<open>
  Variable-length integers: the decoder is exact on every buffer, the encoder is its inverse, and the reading variant
  agrees with the decoding one.
\<close>

section \<open>Decoding\<close>

fun uval :: "byte list \<Rightarrow> nat" where
  "uval [] = 0"
| "uval (b # bs) = unat b mod 128 + 128 * uval bs"

lemma unat_or_push:
  fixes x c :: uint64
  assumes "unat x < 2 ^ s" and "unat c * 2 ^ s < 2 ^ 64"
  shows "unat (x OR push_bit s c) = unat x + unat c * 2 ^ s"
proof -
  have p: "unat (push_bit s c) = unat c * 2 ^ s" using assms(2) by (simp add: unat_push_bit del: push_bit_of_1)
  then have "unat (push_bit s c OR x) = unat (push_bit s c) + unat x" using assms(1) by (intro unat_or_disj) simp_all
  then show ?thesis by (simp only: p or.commute add.commute)
qed

lemma unat_ucast_byte64: "unat (ucast (b :: byte) :: uint64) = unat b"
  using unsigned_less [of b, where 'a = nat] by (simp add: unat_ucast_mod)

lemma unat_low7: "unat (b AND 0x7f :: byte) = unat b mod 128"
proof -
  have "(0x7f :: byte) = mask 7" by (simp add: mask_eq_exp_minus_1)
  then show ?thesis using unat_and_mask [of b 7] by simp
qed

lemma Uvarint_loop_exact:
  assumes "i \<le> 10" and "i \<le> 9 \<Longrightarrow> unat x < 2 ^ (7 * i)" and "k = length (takeWhile (\<lambda>b. 0x80 \<le> b) bs)"
  shows "Uvarint_loop i x (7 * i) bs =
    (if 10 \<le> i + k then if length bs \<le> 10 - i then (0, 0) else (0, - 11)
     else if k = length bs then (0, 0)
     else let v = unat x + 2 ^ (7 * i) * uval (take (Suc k) bs) in
       if v < 2 ^ 64 then (of_nat v, int (i + k) + 1) else (0, - (int (i + k) + 1)))"
  using assms
proof (induction bs arbitrary: i x k)
  case Nil
  then show ?case by simp
next
  case (Cons b bs)
  consider "i = 10" | "i \<le> 9" "b < 0x80" | "i \<le> 9" "\<not> b < 0x80" using Cons.prems(1) by linarith
  then show ?case
  proof cases
    case 1
    then show ?thesis by (simp add: MaxVarintLen64_def)
  next
    case 2
    have k: "k = 0" using Cons.prems(3) 2(2) by (simp add: not_le)
    have b: "unat b < 128" using 2(2) by (simp add: word_less_nat_alt)
    have x: "unat x < 2 ^ (7 * i)" using Cons.prems(2) 2(1) by simp
    let ?v = "unat x + 2 ^ (7 * i) * unat b"
    have fits: "?v < 2 ^ 64 \<longleftrightarrow> \<not> (i = 9 \<and> 1 < b)"
    proof (cases "i = 9")
      case True
      have one: "1 < b \<longleftrightarrow> 1 < unat b" by (simp add: word_less_nat_alt)
      have x9: "unat x < 9223372036854775808" using x True by simp
      show ?thesis unfolding one using x9 True by simp linarith
    next
      case False
      then have "?v < 2 ^ (7 * i) + 2 ^ (7 * i) * 127" using x b by (intro add_less_le_mono mult_le_mono2) simp_all
      also have "\<dots> = 2 ^ (7 * i + 7)" by (simp add: power_add)
      also have "\<dots> \<le> 2 ^ 64" using False 2(1) by (intro power_increasing) simp_all
      finally show ?thesis using False by simp
    qed
    have "x OR push_bit (7 * i) (ucast b) = of_nat ?v" if "?v < 2 ^ 64"
    proof -
      have "unat (x OR push_bit (7 * i) (ucast b)) = ?v"
        using that by (subst unat_or_push [OF x]) (simp_all add: unat_ucast_byte64 mult.commute)
      then show ?thesis by (metis of_nat_unat ucast_id)
    qed
    then show ?thesis using 2 k b fits by (simp add: MaxVarintLen64_def Let_def)
  next
    case 3
    define k' where k': "k' = length (takeWhile (\<lambda>b. 0x80 \<le> b) bs)"
    have k: "k = Suc k'" using Cons.prems(3) 3(2) by (simp add: k')
    let ?x = "x OR push_bit (7 * i) (ucast (b AND 0x7f))"
    have x': "unat ?x = unat x + 2 ^ (7 * i) * (unat b mod 128)" if "i \<le> 8"
    proof -
      have "unat b mod 128 * 2 ^ (7 * i) < 128 * 2 ^ (7 * i)" by simp
      also have "\<dots> = 2 ^ (7 * i + 7)" by (simp add: power_add)
      also have "\<dots> \<le> 2 ^ 64" using that by (intro power_increasing) simp_all
      finally show ?thesis
        using Cons.prems(2) 3(1) by (subst unat_or_push) (simp_all add: unat_ucast_byte64 unat_low7 mult.commute)
    qed
    have less: "unat ?x < 2 ^ (7 * (i + 1))" if "i + 1 \<le> 9"
    proof -
      have "unat x + 2 ^ (7 * i) * (unat b mod 128) < 2 ^ (7 * i) + 2 ^ (7 * i) * 127"
        using Cons.prems(2) 3(1) by (intro add_less_le_mono mult_le_mono2) (simp_all add: Suc_leI [OF mod_less_divisor, of 128, simplified] less_Suc_eq_le [symmetric])
      then show ?thesis using that x' by (simp add: power_add)
    qed
    have v: "unat ?x + 2 ^ (7 * (i + 1)) * u = unat x + 2 ^ (7 * i) * (unat b mod 128 + 128 * u)" if "i \<le> 8" for u
      using that x' by (simp add: power_add algebra_simps)
    have "Uvarint_loop i x (7 * i) (b # bs) = Uvarint_loop (i + 1) ?x (7 * (i + 1)) bs"
      using 3 by (simp add: MaxVarintLen64_def add.commute)
    also note Cons.IH [OF _ less k']
    finally show ?thesis using 3(1) k v by (cases "i = 9") (auto simp: Let_def)
  qed
qed

section \<open>Encoding\<close>

definition uvarint_of :: "uint64 \<Rightarrow> byte list" where
  "uvarint_of x = AppendUvarint [] x"

lemma AppendUvarint_append: "AppendUvarint buf x = buf @ uvarint_of x"
  unfolding uvarint_of_def
proof (induction "unat x" arbitrary: buf x rule: less_induct)
  case less
  show ?case
  proof (cases "0x80 \<le> x")
    case True
    then have "0 < unat x" by (simp add: word_le_nat_alt)
    then have "unat (drop_bit 7 x) < unat x" by (simp add: unat_drop_bit)
    note IH = less [OF this]
    show ?thesis
      using True IH [of "buf @ [ucast x OR 0x80]"] IH [of "[ucast x OR 0x80]"]
      by (subst (1 2) AppendUvarint.simps) simp
  qed (subst (1 2) AppendUvarint.simps, simp)
qed

lemma uvarint_of_rec:
  "uvarint_of x = (if 0x80 \<le> x then (ucast x OR 0x80) # uvarint_of (drop_bit 7 x) else [ucast x])"
  using AppendUvarint_append [of "[ucast x OR 0x80]" "drop_bit 7 x"]
  by (subst uvarint_of_def, subst AppendUvarint.simps) simp

lemma continuation_byte: "0x80 \<le> (c OR 0x80 :: byte)" "unat (c OR 0x80 :: byte) mod 128 = unat c mod 128"
proof -
  have "(c OR 0x80) AND 0x7f = (c AND 0x7f) OR (0x80 AND 0x7f)" by (rule bit.conj_disj_distrib2)
  also have "(0x80 AND 0x7f :: byte) = 0" by simp
  finally have "unat ((c OR 0x80) AND 0x7f) = unat (c AND 0x7f)" by simp
  then show "unat (c OR 0x80 :: byte) mod 128 = unat c mod 128" by (simp only: unat_low7)
  show "0x80 \<le> (c OR 0x80 :: byte)" by (rule le_word_or1)
qed

lemma unat_ucast_low: "unat (ucast (x :: uint64) :: byte) mod 128 = unat x mod 128"
proof -
  have "unat x mod 256 mod 128 = unat x mod 128" by (rule mod_mod_cancel) simp
  then show ?thesis by (simp add: unat_ucast_mod)
qed

lemma uvarint_of_value:
  "uval (uvarint_of x) = unat x \<and> (\<exists>cs b. uvarint_of x = cs @ [b] \<and> (\<forall>c \<in> set cs. 0x80 \<le> c) \<and> b < 0x80)"
proof (induction "unat x" arbitrary: x rule: less_induct)
  case less
  show ?case
  proof (cases "0x80 \<le> x")
    case True
    then have "0 < unat x" by (simp add: word_le_nat_alt)
    then have "unat (drop_bit 7 x) < unat x" by (simp add: unat_drop_bit)
    from less [OF this] obtain cs b where IH: "uval (uvarint_of (drop_bit 7 x)) = unat x div 128"
      "uvarint_of (drop_bit 7 x) = cs @ [b]" "\<forall>c \<in> set cs. 0x80 \<le> c" "b < 0x80" by (auto simp: unat_drop_bit)
    have e: "uvarint_of x = (ucast x OR 0x80) # uvarint_of (drop_bit 7 x)" using True by (subst uvarint_of_rec) simp
    have "uval (uvarint_of x) = unat x" using IH(1) by (simp add: e continuation_byte unat_ucast_low)
    moreover have "uvarint_of x = ((ucast x OR 0x80) # cs) @ [b]" using e IH(2) by simp
    ultimately show ?thesis using IH(3,4) continuation_byte(1) [of "ucast x"] by (intro conjI exI [of _ "(ucast x OR 0x80) # cs"] exI [of _ b]) auto
  next
    case False
    then have x: "unat x < 128" by (simp add: word_le_nat_alt)
    then have "unat (ucast x :: byte) = unat x" by (simp add: unat_ucast_mod)
    then show ?thesis using False x by (subst (1 2) uvarint_of_rec) (simp add: word_less_nat_alt)
  qed
qed

lemma uvarint_of_length: "unat x < 2 ^ (7 * Suc n) \<Longrightarrow> length (uvarint_of x) \<le> Suc n"
proof (induction n arbitrary: x)
  case 0
  then show ?case by (subst uvarint_of_rec) (simp add: word_le_nat_alt)
next
  case (Suc n)
  have "unat (drop_bit 7 x) < 2 ^ (7 * Suc n)"
    using Suc.prems unfolding unat_drop_bit by (intro less_mult_imp_div_less) (simp add: power_add)
  from Suc.IH [OF this] show ?case by (subst uvarint_of_rec) simp
qed

lemma uvarint_of_max: "length (uvarint_of x) \<le> 10"
proof -
  have "unat x < 2 ^ (7 * Suc 9)" using unat64_less [of x] by simp
  then show ?thesis using uvarint_of_length [of x 9] by simp
qed

lemma PutUvarint_loop_exact:
  assumes "i + length (uvarint_of x) \<le> length buf"
  shows "PutUvarint_loop i buf x =
    Some (take i buf @ uvarint_of x @ drop (i + length (uvarint_of x)) buf, i + length (uvarint_of x))"
  using assms
proof (induction "unat x" arbitrary: i buf x rule: less_induct)
  case less
  show ?case
  proof (cases "0x80 \<le> x")
    case True
    then have "0 < unat x" by (simp add: word_le_nat_alt)
    then have l: "unat (drop_bit 7 x) < unat x" by (simp add: unat_drop_bit)
    have e: "uvarint_of x = (ucast x OR 0x80) # uvarint_of (drop_bit 7 x)" using True by (subst uvarint_of_rec) simp
    have i: "i < length buf" using less.prems e by simp
    then show ?thesis
      using True less.hyps [OF l, of "i + 1" "buf[i := ucast x OR 0x80]"] less.prems
      by (subst PutUvarint_loop.simps) (simp add: e take_Suc_conv_app_nth)
  next
    case False
    then have e: "uvarint_of x = [ucast x]" by (subst uvarint_of_rec) simp
    then have i: "i < length buf" using less.prems by simp
    then show ?thesis using False by (subst PutUvarint_loop.simps) (simp add: e upd_conv_take_nth_drop)
  qed
qed

lemma PutUvarint_loop_panics:
  assumes "length buf < i + length (uvarint_of x)"
  shows "PutUvarint_loop i buf x = None"
  using assms
proof (induction "unat x" arbitrary: i buf x rule: less_induct)
  case less
  show ?case
  proof (cases "0x80 \<le> x")
    case True
    then have "0 < unat x" by (simp add: word_le_nat_alt)
    then have l: "unat (drop_bit 7 x) < unat x" by (simp add: unat_drop_bit)
    have e: "uvarint_of x = (ucast x OR 0x80) # uvarint_of (drop_bit 7 x)" using True by (subst uvarint_of_rec) simp
    show ?thesis
      using True less.hyps [OF l, of "buf[i := ucast x OR 0x80]" "i + 1"] less.prems e
      by (subst PutUvarint_loop.simps) (simp add: go_store_def)
  next
    case False
    then have e: "uvarint_of x = [ucast x]" by (subst uvarint_of_rec) simp
    then show ?thesis using False less.prems by (subst PutUvarint_loop.simps) (simp add: go_store_def)
  qed
qed

section \<open>Zigzag\<close>

lemma zigzag_inverse: "unzigzag (zigzag x) = x"
proof -
  define u where u: "u = push_bit 1 x"
  have b: "bit u n \<longleftrightarrow> 0 < n \<and> n < 64 \<and> bit x (n - 1)" for n
    using bit_push_bit_iff [of 1 x n] by (simp only: u possible_bit_word len_bit0 len_bit1 len_num1) (auto simp: less_eq_Suc_le)
  have s: "sint x < 0 \<longleftrightarrow> bit x 63" using bit_last_iff [of x] by simp
  have o: "w AND 1 \<noteq> 0 \<longleftrightarrow> bit w 0" for w :: uint64 by (metis and_one_eq bit_0 even_iff_mod_2_eq_zero)
  have "u AND 1 = 0" using o [of u] b [of 0] by blast
  moreover have "bit (NOT u) 0" using b [of 0] by (simp only: bit_not_iff possible_bit_word) simp
  then have "NOT u AND 1 \<noteq> 0" by (simp only: o)
  moreover have "drop_bit 1 u = x" if "\<not> bit x 63"
  proof (rule bit_word_eqI)
    fix n assume "n < LENGTH(64)"
    then show "bit (drop_bit 1 u) n \<longleftrightarrow> bit x n" using that b [of "1 + n"] by (cases "n = 63") (simp_all only: bit_drop_bit_eq comp_apply, simp_all)
  qed
  moreover have "NOT (drop_bit 1 (NOT u)) = x" if "bit x 63"
  proof (rule bit_word_eqI)
    fix n assume "n < LENGTH(64)"
    then show "bit (NOT (drop_bit 1 (NOT u))) n \<longleftrightarrow> bit x n"
      using that b [of "1 + n"] by (cases "n = 63") (simp_all only: bit_drop_bit_eq bit_not_iff comp_apply possible_bit_word, simp_all)
  qed
  ultimately show ?thesis unfolding zigzag_def unzigzag_def Let_def u [symmetric] s by (cases "bit x 63") (simp_all only: if_True if_False simp_thms)
qed

section \<open>The properties\<close>

lemma Uvarint_value:
  "Uvarint buf =
    (let k = length (takeWhile (\<lambda>b. 0x80 \<le> b) buf) in
     if 10 \<le> k then if length buf \<le> 10 then (0, 0) else (0, - 11)
     else if k = length buf then (0, 0)
     else let v = uval (take (Suc k) buf) in
       if v < 2 ^ 64 then (of_nat v, int k + 1) else (0, - (int k + 1)))"
  using Uvarint_loop_exact [of 0 0 _ buf, OF _ _ refl] by (simp add: Uvarint_def Let_def)

text \<open>
  C29. \<open>Uvarint\<close> on every buffer: with \<open>k\<close> continuation bytes in front, it returns the exact little-endian base-128 value
  and the number of bytes read when the value fits 64 bits; a negative count when the value overflows or an eleventh
  byte is reached; and \<open>(0, 0)\<close> when the buffer stops within the first ten bytes before the last byte of the number.
\<close>

theorem Uvarint_exact:
  "Uvarint buf =
    (let k = length (takeWhile (\<lambda>b. 0x80 \<le> b) buf) in
     if 10 \<le> k then if length buf \<le> 10 then (0, 0) else (0, - 11)
     else if k = length buf then (0, 0)
     else let v = uval (take (Suc k) buf) in
       if v < 2 ^ 64 then (of_nat v, int k + 1) else (0, - (int k + 1)))"
  by (rule Uvarint_value)

lemma Uvarint_uvarint_of: "Uvarint (uvarint_of x @ rest) = (x, int (length (uvarint_of x)))"
proof -
  obtain cs b where e: "uvarint_of x = cs @ [b]" "\<forall>c \<in> set cs. 0x80 \<le> c" "b < 0x80" and v: "uval (cs @ [b]) = unat x"
    using uvarint_of_value [of x] by auto
  have k: "takeWhile (\<lambda>b. 0x80 \<le> b) (uvarint_of x @ rest) = cs" using e by (simp add: not_le)
  have "length cs < 10" using uvarint_of_max [of x] e(1) by simp
  moreover have "take (Suc (length cs)) (uvarint_of x @ rest) = cs @ [b]" using e(1) by simp
  ultimately show ?thesis unfolding Uvarint_value Let_def k using v unat64_less [of x] e(1) by simp
qed

lemma varint_append_decode:
  "Uvarint (AppendUvarint [] x @ rest) = (x, int (length (AppendUvarint [] x)))
   \<and> Varint (AppendVarint [] x @ rest) = (x, int (length (AppendVarint [] x)))
   \<and> length (AppendUvarint [] x) \<le> MaxVarintLen64
   \<and> AppendUvarint buf x = buf @ AppendUvarint [] x \<and> AppendVarint buf x = buf @ AppendVarint [] x
   \<and> (let e = AppendUvarint [] x in
      PutUvarint buf x = (if length e \<le> length buf then Some (e @ drop (length e) buf, length e) else None))
   \<and> (let e = AppendVarint [] x in
      PutVarint buf x = (if length e \<le> length buf then Some (e @ drop (length e) buf, length e) else None))"
proof -
  have P: "PutUvarint buf y = (if length (uvarint_of y) \<le> length buf
      then Some (uvarint_of y @ drop (length (uvarint_of y)) buf, length (uvarint_of y)) else None)" for y
    using PutUvarint_loop_exact [of 0 y buf] PutUvarint_loop_panics [of buf 0 y] by (simp add: PutUvarint_def)
  have a: "AppendUvarint bs y = bs @ uvarint_of y" for bs y by (rule AppendUvarint_append)
  show ?thesis
    unfolding AppendVarint_def a PutVarint_def P Varint_def Let_def
    using uvarint_of_max [of x] by (simp add: Uvarint_uvarint_of zigzag_inverse MaxVarintLen64_def)
qed

text \<open>A reader over the bytes of a list.\<close>

fun list_rd :: "byte list \<Rightarrow> byte list \<times> (unit read_error + byte)" where
  "list_rd [] = ([], Inl EOF)"
| "list_rd (b # bs) = (bs, Inr b)"

definition read_matches :: "nat \<Rightarrow> byte list \<Rightarrow> uint64 \<times> int \<Rightarrow> uint64 \<times> 'e read_error option \<times> byte list \<Rightarrow> bool" where
  "read_matches i bs u r =
     (if 0 < snd u then i < nat (snd u) \<and> r = (fst u, None, drop (nat (snd u) - i) bs)
      else fst (snd r) = Some (if snd u < 0 \<or> 10 \<le> i + length bs then errOverflow
        else if i = 0 \<and> bs = [] then EOF else ErrUnexpectedEOF))"

lemma ReadUvarint_loop_matches:
  assumes "i \<le> 10"
  shows "read_matches i bs (Uvarint_loop i x s bs) (ReadUvarint_loop list_rd i x s bs)"
  using assms
proof (induction bs arbitrary: i x s)
  case Nil
  then show ?case by (subst ReadUvarint_loop.simps) (auto simp: read_matches_def MaxVarintLen64_def)
next
  case (Cons b bs)
  show ?case
  proof (cases "i < 10 \<and> \<not> b < 0x80")
    case True
    let ?x = "x OR push_bit s (ucast (b AND 0x7f))"
    have "read_matches (i + 1) bs (Uvarint_loop (i + 1) ?x (s + 7) bs) (ReadUvarint_loop list_rd (i + 1) ?x (s + 7) bs)"
      using True by (intro Cons.IH) simp
    moreover have "ReadUvarint_loop list_rd i x s (b # bs) = ReadUvarint_loop list_rd (i + 1) ?x (s + 7) bs"
      using True by (subst ReadUvarint_loop.simps) (simp add: MaxVarintLen64_def)
    moreover have "Uvarint_loop i x s (b # bs) = Uvarint_loop (i + 1) ?x (s + 7) bs" using True by (simp add: MaxVarintLen64_def)
    moreover have "drop (n - i) (b # bs) = drop (n - (i + 1)) bs" if "i + 1 < n" for n
      using that by (cases "n - i") (auto simp: diff_Suc)
    ultimately show ?thesis by (auto simp: read_matches_def simp del: Uvarint_loop.simps)
  next
    case False
    have "nat (int i + 1) = Suc i" by simp
    then show ?thesis
      using False Cons.prems by (subst ReadUvarint_loop.simps) (auto simp: read_matches_def MaxVarintLen64_def)
  qed
qed

lemma ReadUvarint_Uvarint:
  "let (x, n) = Uvarint buf; (y, err, rest) = ReadUvarint list_rd buf in
    if 0 < n then y = x \<and> err = None \<and> rest = drop (nat n) buf
    else err = Some (if n < 0 \<or> 10 \<le> length buf then errOverflow else if buf = [] then EOF else ErrUnexpectedEOF)"
  using ReadUvarint_loop_matches [of 0 buf 0 0]
  unfolding Uvarint_def [symmetric] ReadUvarint_def [symmetric]
  by (cases "Uvarint buf"; cases "ReadUvarint list_rd buf") (simp add: read_matches_def split: if_splits)

text \<open>
  C30. Decoding what was encoded returns the value and the number of bytes, whatever follows, for every \<open>uint64\<close> and every
  \<open>int64\<close>; an encoding has at most ten bytes; \<open>PutUvarint\<close> writes the same bytes in front of the buffer and panics exactly
  when they do not fit.
  \<open>ReadUvarint\<close> reads from a byte reader what \<open>Uvarint\<close> decodes from the bytes: the same value, leaving the reader
  after the same number of bytes; where \<open>Uvarint\<close> reports an error so does \<open>ReadUvarint\<close>, with \<open>io.EOF\<close> only when there
  was no byte at all, \<open>io.ErrUnexpectedEOF\<close> when the bytes stop too early and the overflow error otherwise.
\<close>

theorem varint_roundtrip:
  "Uvarint (AppendUvarint [] x @ rest) = (x, int (length (AppendUvarint [] x)))
   \<and> Varint (AppendVarint [] x @ rest) = (x, int (length (AppendVarint [] x)))
   \<and> length (AppendUvarint [] x) \<le> MaxVarintLen64
   \<and> AppendUvarint buf x = buf @ AppendUvarint [] x \<and> AppendVarint buf x = buf @ AppendVarint [] x
   \<and> (let e = AppendUvarint [] x in
      PutUvarint buf x = (if length e \<le> length buf then Some (e @ drop (length e) buf, length e) else None))
   \<and> (let e = AppendVarint [] x in
      PutVarint buf x = (if length e \<le> length buf then Some (e @ drop (length e) buf, length e) else None))
   \<and> (let (x, n) = Uvarint bytes; (y, err, rest) = ReadUvarint list_rd bytes in
    if 0 < n then y = x \<and> err = None \<and> rest = drop (nat n) bytes
    else err = Some (if n < 0 \<or> 10 \<le> length bytes then errOverflow else if bytes = [] then EOF else ErrUnexpectedEOF))"
  using varint_append_decode [of x rest buf] ReadUvarint_Uvarint [of bytes] by (simp only: simp_thms)

end
