(* ===== verification/Utf16.thy ===== *)
theory Utf16
  imports Utf8
begin

text \<open>
  Package \<open>unicode/utf16\<close>: surrogate pairs, the encoder into a buffer of computed size, and the decoder.
\<close>

abbreviation utf16_maxRune :: rune where "utf16_maxRune \<equiv> 0x10FFFF"

abbreviation surr1 :: int where "surr1 \<equiv> 0xd800"

abbreviation surr2 :: int where "surr2 \<equiv> 0xdc00"

abbreviation surr3 :: int where "surr3 \<equiv> 0xe000"

abbreviation surrSelf :: int where "surrSelf \<equiv> 0x10000"

abbreviation replacementChar :: rune where "replacementChar \<equiv> 0xFFFD"

definition utf16_IsSurrogate :: "rune \<Rightarrow> bool" where
  "utf16_IsSurrogate r \<longleftrightarrow> surr1 \<le> sint r \<and> sint r < surr3"

definition utf16_DecodeRune :: "rune \<Rightarrow> rune \<Rightarrow> rune" where
  "utf16_DecodeRune r1 r2 =
     (if surr1 \<le> sint r1 \<and> sint r1 < surr2 \<and> surr2 \<le> sint r2 \<and> sint r2 < surr3
      then (push_bit 10 (r1 - 0xd800) OR (r2 - 0xdc00)) + 0x10000
      else replacementChar)"

definition utf16_EncodeRune :: "rune \<Rightarrow> rune \<times> rune" where
  "utf16_EncodeRune r =
     (if sint r < surrSelf \<or> sint utf16_maxRune < sint r then (replacementChar, replacementChar)
      else let r = r - 0x10000 in (0xd800 + (signed_drop_bit 10 r AND 0x3ff), 0xdc00 + (r AND 0x3ff)))"

definition utf16_RuneLen :: "rune \<Rightarrow> int" where
  "utf16_RuneLen r =
     (if 0 \<le> sint r \<and> sint r < surr1 \<or> surr3 \<le> sint r \<and> sint r < surrSelf then 1
      else if surrSelf \<le> sint r \<and> sint r \<le> sint utf16_maxRune then 2
      else - 1)"

text \<open>The loop that fills the buffer; \<open>None\<close> is the panic of a store beyond it.\<close>

fun utf16_Encode_loop :: "rune list \<Rightarrow> nat \<Rightarrow> uint16 list \<Rightarrow> (nat \<times> uint16 list) option" where
  "utf16_Encode_loop [] n a = Some (n, a)"
| "utf16_Encode_loop (v # s) n a =
     (if utf16_RuneLen v = 1 then
        case go_store a n (ucast v) of None \<Rightarrow> None | Some a \<Rightarrow> utf16_Encode_loop s (n + 1) a
      else if utf16_RuneLen v = 2 then
        let (r1, r2) = utf16_EncodeRune v in
        (case go_store a n (ucast r1) of
           None \<Rightarrow> None
         | Some a \<Rightarrow> (case go_store a (n + 1) (ucast r2) of None \<Rightarrow> None | Some a \<Rightarrow> utf16_Encode_loop s (n + 2) a))
      else
        case go_store a n (ucast replacementChar) of None \<Rightarrow> None | Some a \<Rightarrow> utf16_Encode_loop s (n + 1) a)"

definition utf16_Encode :: "rune list \<Rightarrow> uint16 list option" where
  "utf16_Encode s =
     (let n = foldl (\<lambda>n v. if surrSelf \<le> sint v then n + 1 else n) (length s) s in
      map_option (\<lambda>(n, a). take n a) (utf16_Encode_loop s 0 (replicate n 0)))"

definition utf16_AppendRune :: "uint16 list \<Rightarrow> rune \<Rightarrow> uint16 list" where
  "utf16_AppendRune a r =
     (if 0 \<le> sint r \<and> sint r < surr1 \<or> surr3 \<le> sint r \<and> sint r < surrSelf then a @ [ucast r]
      else if surrSelf \<le> sint r \<and> sint r \<le> sint utf16_maxRune then
        let (r1, r2) = utf16_EncodeRune r in a @ [ucast r1, ucast r2]
      else a @ [ucast replacementChar])"

fun utf16_decode :: "uint16 list \<Rightarrow> rune list \<Rightarrow> rune list" where
  "utf16_decode [] buf = buf"
| "utf16_decode (r # s) buf =
     (if r < 0xd800 \<or> 0xe000 \<le> r then utf16_decode s (buf @ [ucast r])
      else
        case s of
          r2 # s' \<Rightarrow>
            if 0xd800 \<le> r \<and> r < 0xdc00 \<and> 0xdc00 \<le> r2 \<and> r2 < 0xe000
            then utf16_decode s' (buf @ [utf16_DecodeRune (ucast r) (ucast r2)])
            else utf16_decode s (buf @ [replacementChar])
        | [] \<Rightarrow> utf16_decode s (buf @ [replacementChar]))"

definition utf16_Decode :: "uint16 list \<Rightarrow> rune list" where
  "utf16_Decode s = utf16_decode s []"

end
