(* ===== verification/Utf16_Correct.thy ===== *)
theory Utf16_Correct
  imports Utf16 Utf8_Correct
begin

text \<open>
  UTF-16: the units of a rune, the buffer of \<open>Encode\<close> suffices, and the round trips, with the same notion of a valid rune
  as UTF-8.
\<close>

section \<open>Code units\<close>

definition utf16_enc :: "rune \<Rightarrow> uint16 list" where
  "utf16_enc r = utf16_AppendRune [] r"

lemma sint_ranges:
  fixes r :: rune
  shows "sint r < 0 \<longleftrightarrow> 2 ^ 31 \<le> unat r" and "unat r < 2 ^ 31 \<Longrightarrow> sint r = int (unat r)"
  using unsigned_less [of r, where 'a = nat] by (simp_all add: sint_unat del: of_nat_unat)

lemma rune_cases:
  fixes r :: rune
  obtains (one) "unat r < 0xd800 \<or> 0xe000 \<le> unat r \<and> unat r < 0x10000" "sint r = int (unat r)"
  | (two) "0x10000 \<le> unat r" "unat r \<le> 0x10ffff" "sint r = int (unat r)"
  | (bad) "\<not> scalar (unat r)" "sint r < 0 \<or> 0x10ffff < sint r \<or> 0xd800 \<le> sint r \<and> sint r < 0xe000"
proof (cases "unat r < 2 ^ 31")
  case True
  then have "sint r = int (unat r)" by (rule sint_ranges)
  then show ?thesis using that unfolding scalar_def by (cases "scalar (unat r)"; cases "unat r < 0x10000") (auto simp: scalar_def simp del: of_nat_unat)
next
  case False
  then have "sint r < 0" using sint_ranges(1) [of r] by simp
  then show ?thesis using that(3) False by (auto simp: scalar_def)
qed

lemma unat_3ff: "unat (r AND 0x3ff) = unat r mod 1024" for r :: rune
proof -
  have "(0x3ff :: rune) = mask 10" by (simp add: mask_eq_exp_minus_1)
  then show ?thesis using unat_and_mask [of r 10] by simp
qed

lemma EncodeRune_value:
  assumes "0x10000 \<le> unat r" and "unat r \<le> 0x10ffff" and "m = unat r - 0x10000"
  shows "utf16_EncodeRune r = (of_nat (0xd800 + m div 1024), of_nat (0xdc00 + m mod 1024))"
proof -
  define q where q: "q = r - 0x10000"
  have uq: "unat q = m" using assms(1,3) unfolding q by (subst unat_sub) (simp_all add: word_le_nat_alt)
  have m: "m < 2 ^ 20" using assms by simp
  then have "sint q = int m" using sint_ranges(2) [of q] uq by simp
  then have sd: "signed_drop_bit 10 q = drop_bit 10 q" by (intro signed_drop_bit_nonneg) simp
  have "m div 1024 < 1024" using m by (intro less_mult_imp_div_less) simp
  then have "unat (drop_bit 10 q AND 0x3ff) = m div 1024" by (simp add: unat_3ff unat_drop_bit uq)
  then have hi: "drop_bit 10 q AND 0x3ff = of_nat (m div 1024)" by (metis of_nat_unat ucast_id)
  have "unat (q AND 0x3ff) = m mod 1024" by (simp add: unat_3ff uq)
  then have lo: "q AND 0x3ff = of_nat (m mod 1024)" by (metis of_nat_unat ucast_id)
  have "sint r = int (unat r)" using assms(2) by (intro sint_ranges(2)) simp
  then show ?thesis using assms(1,2) unfolding utf16_EncodeRune_def q [symmetric] Let_def sd hi lo by (simp del: of_nat_unat)
qed

lemma DecodeRune_value:
  assumes "a < 1024" and "b < 1024"
  shows "utf16_DecodeRune (of_nat (0xd800 + a)) (of_nat (0xdc00 + b)) = of_nat (0x10000 + a * 1024 + b)"
proof -
  have u: "unat (of_nat (0xd800 + a) :: rune) = 0xd800 + a" "unat (of_nat (0xdc00 + b) :: rune) = 0xdc00 + b"
    "unat (of_nat a :: rune) = a" "unat (of_nat b :: rune) = b"
    using assms by (simp_all only: unat_of_nat) (simp_all)
  have s: "sint (of_nat (0xd800 + a) :: rune) = int (0xd800 + a)" "sint (of_nat (0xdc00 + b) :: rune) = int (0xdc00 + b)"
    using assms sint_ranges(2) [of "of_nat (0xd800 + a)"] sint_ranges(2) [of "of_nat (0xdc00 + b)"] by (simp_all only: u) simp_all
  have d: "of_nat (0xd800 + a) - 0xd800 = (of_nat a :: rune)" "of_nat (0xdc00 + b) - 0xdc00 = (of_nat b :: rune)" by simp_all
  have p: "unat (push_bit 10 (of_nat a :: rune)) = a * 1024" using assms by (simp add: unat_push_bit u)
  have "unat (push_bit 10 (of_nat a :: rune) OR of_nat b) = a * 1024 + b"
    using assms by (subst unat_or_disj [where k = 10]) (simp_all add: p u)
  then have "push_bit 10 (of_nat a :: rune) OR of_nat b = of_nat (a * 1024 + b)" by (metis of_nat_unat ucast_id)
  then show ?thesis using assms unfolding utf16_DecodeRune_def s d by simp
qed

lemma ucast_down_nat: "(ucast (of_nat k :: rune) :: uint16) = of_nat k"
  by (rule word_unat_eq_iff [THEN iffD2]) (simp add: unat_ucast_mod unat_of_nat mod_mod_cancel)

lemma enc_cases:
  obtains (one) u where "utf16_enc r = [u]" "u < 0xd800 \<or> 0xe000 \<le> u" "ucast u = (if scalar (unat r) then r else replacementChar)"
  | (two) u w where "utf16_enc r = [u, w]" "0xd800 \<le> u" "u < 0xdc00" "0xdc00 \<le> w" "w < 0xe000"
      "utf16_DecodeRune (ucast u) (ucast w) = r" "scalar (unat r)"
proof (cases r rule: rune_cases)
  case one
  have "unat r < 65536" using one(1) by auto
  then have "ucast (ucast r :: uint16) = r" by (intro word_unat_eq_iff [THEN iffD2]) (simp add: unat_ucast_mod)
  moreover have "ucast r < (0xd800 :: uint16) \<or> 0xe000 \<le> (ucast r :: uint16)"
    using one(1) by (auto simp: word_less_nat_alt word_le_nat_alt unat_ucast_mod)
  moreover have "scalar (unat r)" using one(1) by (auto simp: scalar_def)
  moreover have "utf16_enc r = [ucast r]" using one by (auto simp: utf16_enc_def utf16_AppendRune_def simp del: of_nat_unat)
  ultimately show ?thesis by (intro that(1) [of "ucast r"]) simp_all
next
  case two
  define m where m: "m = unat r - 0x10000"
  have l: "m div 1024 < 1024" "m mod 1024 < 1024" using two m by (auto intro: less_mult_imp_div_less)
  define A B where AB: "A = 0xd800 + m div 1024" "B = 0xdc00 + m mod 1024"
  note E = EncodeRune_value [OF two(1,2) m, folded AB]
  define u w where uw: "u = (of_nat A :: uint16)" "w = (of_nat B :: uint16)"
  have n: "unat u = A" "unat w = B" using l unfolding uw AB by (simp_all only: unat_of_nat) simp_all
  have "utf16_enc r = [u, w]"
    using two by (simp add: utf16_enc_def utf16_AppendRune_def E uw ucast_down_nat del: of_nat_unat)
  moreover have "utf16_DecodeRune (ucast u) (ucast w) = r"
  proof -
    have c: "ucast u = (of_nat (0xd800 + m div 1024) :: rune)" "ucast w = (of_nat (0xdc00 + m mod 1024) :: rune)"
      by (metis n AB of_nat_unat)+
    have "0x10000 + m div 1024 * 1024 + m mod 1024 = unat r" using two(1) m by simp
    then show ?thesis unfolding c DecodeRune_value [OF l] by (metis of_nat_unat ucast_id)
  qed
  ultimately show ?thesis using n l two AB by (intro that(2) [of u w]) (simp_all add: word_less_nat_alt word_le_nat_alt scalar_def)
next
  case bad
  have "utf16_enc r = [0xFFFD]" using bad(2) by (auto simp: utf16_enc_def utf16_AppendRune_def)
  then show ?thesis using bad(1) by (intro that(1) [of "0xFFFD"]) simp_all
qed

section \<open>Sequences\<close>

lemma AppendRune_units: "utf16_AppendRune a r = a @ utf16_enc r"
  by (simp add: utf16_enc_def utf16_AppendRune_def split: prod.splits)

definition step_enc :: "rune \<Rightarrow> nat" where
  "step_enc v = (if surrSelf \<le> sint v then 2 else 1)"

lemma Encode_loop_step:
  assumes "n + step_enc v \<le> length a"
  shows "\<exists>a'. utf16_Encode_loop (v # s) n a = utf16_Encode_loop s (n + length (utf16_enc v)) a' \<and> length a' = length a
    \<and> take (n + length (utf16_enc v)) a' = take n a @ utf16_enc v \<and> length (utf16_enc v) \<le> step_enc v"
proof -
  consider "utf16_RuneLen v = 1" | "utf16_RuneLen v = 2" | "utf16_RuneLen v = - 1" by (metis utf16_RuneLen_def)
  then show ?thesis
  proof cases
    case 1
    then have "utf16_enc v = [ucast v]" by (auto simp: utf16_RuneLen_def utf16_enc_def utf16_AppendRune_def split: if_splits)
    then show ?thesis using 1 assms by (auto simp: step_enc_def take_Suc_conv_app_nth split: if_splits)
  next
    case 2
    then have v: "surrSelf \<le> sint v" "sint v \<le> 0x10FFFF" by (auto simp: utf16_RuneLen_def split: if_splits)
    obtain r1 r2 where r: "utf16_EncodeRune v = (r1, r2)" by fastforce
    have "utf16_enc v = [ucast r1, ucast r2]" using v r by (simp add: utf16_enc_def utf16_AppendRune_def)
    then show ?thesis using 2 assms v r by (auto simp: step_enc_def take_Suc_conv_app_nth nth_append numeral_2_eq_2)
  next
    case 3
    then have "utf16_enc v = [ucast (replacementChar :: rune)]"
      by (auto simp: utf16_RuneLen_def utf16_enc_def utf16_AppendRune_def split: if_splits)
    then show ?thesis using 3 assms by (auto simp: step_enc_def take_Suc_conv_app_nth split: if_splits)
  qed
qed

lemma Encode_loop_exact:
  assumes "n + sum_list (map step_enc s) \<le> length a"
  shows "\<exists>a'. utf16_Encode_loop s n a = Some (n + length (concat (map utf16_enc s)), a')
    \<and> take (n + length (concat (map utf16_enc s))) a' = take n a @ concat (map utf16_enc s)"
  using assms
proof (induction s arbitrary: n a)
  case (Cons v s)
  then obtain a1 where a1: "utf16_Encode_loop (v # s) n a = utf16_Encode_loop s (n + length (utf16_enc v)) a1"
    "length a1 = length a" "take (n + length (utf16_enc v)) a1 = take n a @ utf16_enc v" "length (utf16_enc v) \<le> step_enc v"
    using Encode_loop_step [of n v a s] by auto
  then show ?case using Cons.IH [of "n + length (utf16_enc v)" a1] Cons.prems by (auto simp: add.assoc)
qed simp

lemma Encode_exact: "utf16_Encode s = Some (concat (map utf16_enc s))"
proof -
  have f: "foldl (\<lambda>n v. if surrSelf \<le> sint v then n + 1 else n) k s + length s = k + sum_list (map step_enc s)" for k
    by (induction s arbitrary: k) (auto simp: step_enc_def)
  let ?n = "foldl (\<lambda>n v. if surrSelf \<le> sint v then n + 1 else n) (length s) s"
  have "0 + sum_list (map step_enc s) \<le> length (replicate ?n (0 :: uint16))" using f [of "length s"] by simp
  from Encode_loop_exact [OF this] show ?thesis by (auto simp: utf16_Encode_def Let_def)
qed

fun utf16_runes :: "uint16 list \<Rightarrow> rune list" where
  "utf16_runes [] = []"
| "utf16_runes [r] = [if r < 0xd800 \<or> 0xe000 \<le> r then ucast r else replacementChar]"
| "utf16_runes (r # r2 # s) =
     (if r < 0xd800 \<or> 0xe000 \<le> r then ucast r # utf16_runes (r2 # s)
      else if r < 0xdc00 \<and> 0xdc00 \<le> r2 \<and> r2 < 0xe000 then utf16_DecodeRune (ucast r) (ucast r2) # utf16_runes s
      else replacementChar # utf16_runes (r2 # s))"

lemma decode_runes: "utf16_decode s buf = buf @ utf16_runes s"
  by (induction s arbitrary: buf rule: utf16_runes.induct) (auto simp: not_less)

lemma Decode_runes: "utf16_Decode s = utf16_runes s"
  by (simp add: utf16_Decode_def decode_runes)

lemma runes_single: "u < 0xd800 \<or> 0xe000 \<le> u \<Longrightarrow> utf16_runes (u # s) = ucast u # utf16_runes s"
  by (cases s) auto

lemma runes_enc: "utf16_runes (utf16_enc r @ s) = (if scalar (unat r) then r else replacementChar) # utf16_runes s"
  by (cases r rule: enc_cases) (auto simp: runes_single not_le not_less simp flip: not_less)

lemma runes_concat: "utf16_runes (concat (map utf16_enc s)) = map (\<lambda>r. if scalar (unat r) then r else replacementChar) s"
  by (induction s) (simp_all add: runes_enc)

lemma enc_single:
  assumes "u < 0xd800 \<or> 0xe000 \<le> (u :: uint16)"
  shows "utf16_enc (ucast u) = [u]"
proof -
  let ?r = "ucast u :: rune"
  have n: "unat ?r = unat u" "unat u < 65536"
    using unsigned_less [of u, where 'a = nat] by (simp_all add: unat_ucast_mod)
  have "sint ?r = int (unat ?r)" using n by (intro sint_ranges(2)) simp
  then have s: "sint ?r = int (unat u)" by (simp only: n)
  have "unat u < 0xd800 \<or> 0xe000 \<le> unat u" using assms by (simp add: word_less_nat_alt word_le_nat_alt)
  moreover have "ucast ?r = u" using n by (intro word_unat_eq_iff [THEN iffD2]) (simp add: unat_ucast_mod)
  ultimately show ?thesis using n(2) unfolding utf16_enc_def utf16_AppendRune_def s by (auto simp del: of_nat_unat)
qed

lemma enc_pair:
  assumes "0xd800 \<le> u" "u < 0xdc00" "0xdc00 \<le> w" "w < (0xe000 :: uint16)"
  shows "utf16_enc (utf16_DecodeRune (ucast u) (ucast w)) = [u, w]"
proof -
  define a b where ab: "a = unat u - 0xd800" "b = unat w - 0xdc00"
  have n: "unat u = 0xd800 + a" "unat w = 0xdc00 + b" "a < 1024" "b < 1024"
    using assms by (simp_all add: ab word_less_nat_alt word_le_nat_alt)
  have c: "ucast u = (of_nat (0xd800 + a) :: rune)" "ucast w = (of_nat (0xdc00 + b) :: rune)" by (metis n(1,2) of_nat_unat)+
  define k where k: "k = 0x10000 + a * 1024 + b"
  have kk: "0x10000 \<le> k" "k \<le> 0x10ffff" "k - 0x10000 = a * 1024 + b" using n by (simp_all add: k)
  have uk: "unat (of_nat k :: rune) = k" using kk by (simp only: unat_of_nat) simp
  have s: "sint (of_nat k :: rune) = int k" using sint_ranges(2) [of "of_nat k"] kk by (simp only: uk) simp
  have dm: "(a * 1024 + b) div 1024 = a" "(a * 1024 + b) mod 1024 = b" using n(4) by simp_all
  have E: "utf16_EncodeRune (of_nat k) = (of_nat (0xd800 + a), of_nat (0xdc00 + b))"
    using EncodeRune_value [of "of_nat k" "a * 1024 + b", unfolded uk dm] kk by simp
  have d: "ucast (of_nat (0xd800 + a) :: rune) = u" "ucast (of_nat (0xdc00 + b) :: rune) = w"
    unfolding ucast_down_nat by (metis n(1,2) of_nat_unat ucast_id)+
  have R: "utf16_DecodeRune (ucast u) (ucast w) = of_nat k" unfolding c DecodeRune_value [OF n(3,4)] k ..
  show ?thesis unfolding R utf16_enc_def utf16_AppendRune_def E s prod.case Let_def d using kk by simp
qed

fun utf16_wf :: "uint16 list \<Rightarrow> bool" where
  "utf16_wf [] \<longleftrightarrow> True"
| "utf16_wf [r] \<longleftrightarrow> r < 0xd800 \<or> 0xe000 \<le> r"
| "utf16_wf (r # r2 # s) \<longleftrightarrow>
     (if r < 0xd800 \<or> 0xe000 \<le> r then utf16_wf (r2 # s)
      else r < 0xdc00 \<and> 0xdc00 \<le> r2 \<and> r2 < 0xe000 \<and> utf16_wf s)"

lemma wf_single: "u < 0xd800 \<or> 0xe000 \<le> u \<Longrightarrow> utf16_wf (u # s) = utf16_wf s"
  by (cases s) auto

lemma wf_enc: "utf16_wf (utf16_enc r @ s) = utf16_wf s"
  by (cases r rule: enc_cases) (auto simp: wf_single simp flip: not_less)

lemma wf_concat: "utf16_wf (concat (map utf16_enc s))"
  by (induction s) (simp_all add: wf_enc)

lemma wf_runes: "utf16_wf u \<Longrightarrow> concat (map utf16_enc (utf16_runes u)) = u"
  by (induction u rule: utf16_runes.induct) (auto simp: enc_single enc_pair not_less split: if_splits)

lemma scalar_replacement: "scalar (unat replacementChar)"
  by (simp add: scalar_def)

lemma scalar_single: "u < 0xd800 \<or> 0xe000 \<le> (u :: uint16) \<Longrightarrow> scalar (unat (ucast u :: rune))"
  using enc_single [of u] scalar_replacement
  by (cases "ucast u :: rune" rule: enc_cases) (auto split: if_splits)

lemma scalar_pair:
  fixes u w :: uint16
  shows "0xd800 \<le> u \<Longrightarrow> u < 0xdc00 \<Longrightarrow> 0xdc00 \<le> w \<Longrightarrow> w < 0xe000 \<Longrightarrow>
   scalar (unat (utf16_DecodeRune (ucast u) (ucast w)))"
  using enc_pair [of u w] by (cases "utf16_DecodeRune (ucast u) (ucast w)" rule: enc_cases) auto

lemma runes_valid: "\<forall>r \<in> set (utf16_runes u). scalar (unat r)"
  by (induction u rule: utf16_runes.induct) (auto simp: scalar_single scalar_pair scalar_def [of 65533] not_less)

text \<open>
  C31. UTF-16: \<open>Encode\<close> never writes outside its buffer and returns what \<open>AppendRune\<close> appends rune by rune; decoding
  gives back every rune that \<open>utf8.ValidRune\<close> accepts and U+FFFD for the others; \<open>Decode\<close> returns only such
  runes; and encoding a decoded sequence gives it back exactly when every surrogate in it was paired.
\<close>

theorem utf16_roundtrip:
  "map_option utf16_Decode (utf16_Encode s) = Some (map (\<lambda>r. if utf8_ValidRune r then r else replacementChar) s)
   \<and> utf16_Encode s = Some (foldl utf16_AppendRune [] s)
   \<and> list_all utf8_ValidRune (utf16_Decode u)
   \<and> (utf16_Encode (utf16_Decode u) = Some u \<longleftrightarrow> utf16_wf u)"
proof -
  have "foldl utf16_AppendRune a s = a @ concat (map utf16_enc s)" for a
    by (induction s arbitrary: a) (simp_all add: AppendRune_units)
  then show ?thesis
    using wf_runes [of u] wf_concat [of "utf16_runes u"] runes_valid [of u]
    by (auto simp: Encode_exact Decode_runes runes_concat ValidRune_scalar list_all_iff)
qed

end
