(* ===== verification/Bytes_Reader.thy ===== *)
theory Bytes_Reader
  imports Utf8
begin

text \<open>
  \<open>bytes.Reader\<close> (\<open>bytes/reader.go\<close>): a cursor over a byte slice with the reading methods of package \<open>io\<close>. \<open>int64\<close>
  positions are integers, wrapped where the code adds a caller's offset.
\<close>

text \<open>The errors of package \<open>io\<close>; an error made by \<open>errors.New\<close> is its text.\<close>

datatype io_error = io_EOF | io_ErrUnexpectedEOF | io_ErrShortWrite | errors_New string

record bytes_Reader =
  rd_s :: "byte list"
  rd_i :: int
  rd_prevRune :: int

definition int64_wrap :: "int \<Rightarrow> int" where
  "int64_wrap x = sint (word_of_int x :: uint64)"

definition bytes_NewReader :: "byte list \<Rightarrow> bytes_Reader" where
  "bytes_NewReader b = \<lparr>rd_s = b, rd_i = 0, rd_prevRune = - 1\<rparr>"

definition Reader_Reset :: "bytes_Reader \<Rightarrow> byte list \<Rightarrow> bytes_Reader" where
  "Reader_Reset r b = \<lparr>rd_s = b, rd_i = 0, rd_prevRune = - 1\<rparr>"

definition Reader_Len :: "bytes_Reader \<Rightarrow> int" where
  "Reader_Len r = (if int (length (rd_s r)) \<le> rd_i r then 0 else int (length (rd_s r)) - rd_i r)"

definition Reader_Size :: "bytes_Reader \<Rightarrow> int" where
  "Reader_Size r = int (length (rd_s r))"

text \<open>
  A method that fills the caller's slice of \<open>n\<close> bytes returns the bytes it copied there. The indices the code slices
  with are not negative: \<open>rd_i\<close> never is.
\<close>

definition Reader_Read :: "bytes_Reader \<Rightarrow> nat \<Rightarrow> bytes_Reader \<times> byte list \<times> io_error option" where
  "Reader_Read r n =
     (if int (length (rd_s r)) \<le> rd_i r then (r, [], Some io_EOF)
      else
        let b = take n (drop (nat (rd_i r)) (rd_s r)) in
        (r\<lparr>rd_prevRune := - 1, rd_i := rd_i r + int (length b)\<rparr>, b, None))"

definition Reader_ReadAt :: "bytes_Reader \<Rightarrow> nat \<Rightarrow> int \<Rightarrow> byte list \<times> io_error option" where
  "Reader_ReadAt r n off =
     (if off < 0 then ([], Some (errors_New ''bytes.Reader.ReadAt: negative offset''))
      else if int (length (rd_s r)) \<le> off then ([], Some io_EOF)
      else
        let b = take n (drop (nat off) (rd_s r)) in
        (b, if length b < n then Some io_EOF else None))"

definition Reader_ReadByte :: "bytes_Reader \<Rightarrow> bytes_Reader \<times> byte \<times> io_error option" where
  "Reader_ReadByte r =
     (let r = r\<lparr>rd_prevRune := - 1\<rparr> in
      if int (length (rd_s r)) \<le> rd_i r then (r, 0, Some io_EOF)
      else (r\<lparr>rd_i := rd_i r + 1\<rparr>, rd_s r ! nat (rd_i r), None))"

definition Reader_UnreadByte :: "bytes_Reader \<Rightarrow> bytes_Reader \<times> io_error option" where
  "Reader_UnreadByte r =
     (if rd_i r \<le> 0 then (r, Some (errors_New ''bytes.Reader.UnreadByte: at beginning of slice''))
      else (r\<lparr>rd_prevRune := - 1, rd_i := rd_i r - 1\<rparr>, None))"

definition Reader_ReadRune :: "bytes_Reader \<Rightarrow> bytes_Reader \<times> rune \<times> nat \<times> io_error option" where
  "Reader_ReadRune r =
     (if int (length (rd_s r)) \<le> rd_i r then (r\<lparr>rd_prevRune := - 1\<rparr>, 0, 0, Some io_EOF)
      else
        let r = r\<lparr>rd_prevRune := rd_i r\<rparr>; c = rd_s r ! nat (rd_i r) in
        if c < 0x80 then (r\<lparr>rd_i := rd_i r + 1\<rparr>, ucast c, 1, None)
        else
          let (ch, sz) = utf8_DecodeRune (drop (nat (rd_i r)) (rd_s r)) in
          (r\<lparr>rd_i := rd_i r + int sz\<rparr>, ch, sz, None))"

definition Reader_UnreadRune :: "bytes_Reader \<Rightarrow> bytes_Reader \<times> io_error option" where
  "Reader_UnreadRune r =
     (if rd_i r \<le> 0 then (r, Some (errors_New ''bytes.Reader.UnreadRune: at beginning of slice''))
      else if rd_prevRune r < 0 then
        (r, Some (errors_New ''bytes.Reader.UnreadRune: previous operation was not ReadRune''))
      else (r\<lparr>rd_i := rd_prevRune r, rd_prevRune := - 1\<rparr>, None))"

text \<open>\<open>io.SeekStart\<close>, \<open>io.SeekCurrent\<close> and \<open>io.SeekEnd\<close> are 0, 1 and 2.\<close>

definition Reader_Seek :: "bytes_Reader \<Rightarrow> int \<Rightarrow> int \<Rightarrow> bytes_Reader \<times> int \<times> io_error option" where
  "Reader_Seek r offset whence =
     (let r = r\<lparr>rd_prevRune := - 1\<rparr> in
      if whence \<notin> {0, 1, 2} then (r, 0, Some (errors_New ''bytes.Reader.Seek: invalid whence''))
      else
        let abs = (if whence = 0 then offset
                   else if whence = 1 then int64_wrap (rd_i r + offset)
                   else int64_wrap (int (length (rd_s r)) + offset)) in
        if abs < 0 then (r, 0, Some (errors_New ''bytes.Reader.Seek: negative position''))
        else (r\<lparr>rd_i := abs\<rparr>, abs, None))"

text \<open>The writer is the caller's; \<open>None\<close> is the panic on an invalid count.\<close>

definition Reader_WriteTo ::
  "('w \<Rightarrow> byte list \<Rightarrow> 'w \<times> int \<times> io_error option) \<Rightarrow> 'w \<Rightarrow> bytes_Reader \<Rightarrow>
     (bytes_Reader \<times> 'w \<times> int \<times> io_error option) option" where
  "Reader_WriteTo write w r =
     (let r = r\<lparr>rd_prevRune := - 1\<rparr> in
      if int (length (rd_s r)) \<le> rd_i r then Some (r, w, 0, None)
      else
        let b = drop (nat (rd_i r)) (rd_s r); (w, m, err) = write w b in
        if int (length b) < m then None
        else
          Some (r\<lparr>rd_i := rd_i r + m\<rparr>, w, m,
            if m \<noteq> int (length b) \<and> err = None then Some io_ErrShortWrite else err))"

end
