(* ===== verification/Hex.thy ===== *)
theory Hex
  imports Bytes_Reader
begin

text \<open>
  Package \<open>encoding/hex\<close>: encoding and decoding of slices and strings, and the stream encoder and decoder over a writer
  and a reader of the caller.
\<close>

section \<open>Encoding and decoding a slice\<close>

definition hextable :: "byte list" where
  "hextable = [48, 49, 50, 51, 52, 53, 54, 55, 56, 57, 97, 98, 99, 100, 101, 102]"

definition reverseHexTable :: "byte list" where
  "reverseHexTable =
     replicate 48 0xff @ [0, 1, 2, 3, 4, 5, 6, 7, 8, 9] @ replicate 6 0xff @
     [0xff, 0x0a, 0x0b, 0x0c, 0x0d, 0x0e, 0x0f] @ replicate 9 0xff @ replicate 16 0xff @
     [0xff, 0x0a, 0x0b, 0x0c, 0x0d, 0x0e, 0x0f] @ replicate 9 0xff @ replicate 144 0xff"

datatype hex_error = hex_ErrLength | InvalidByteError byte | hex_io io_error

definition hex_EncodedLen :: "nat \<Rightarrow> nat" where
  "hex_EncodedLen n = n * 2"

definition hex_DecodedLen :: "nat \<Rightarrow> nat" where
  "hex_DecodedLen x = x div 2"

text \<open>\<open>dst\<close> and \<open>src\<close> do not overlap; \<open>None\<close> is the panic of a store beyond \<open>dst\<close>.\<close>

fun hex_Encode_loop :: "byte list \<Rightarrow> nat \<Rightarrow> byte list \<Rightarrow> byte list option" where
  "hex_Encode_loop dst j [] = Some dst"
| "hex_Encode_loop dst j (v # src) =
     (case go_store dst j (hextable ! unat (drop_bit 4 v)) of
        None \<Rightarrow> None
      | Some dst \<Rightarrow>
          (case go_store dst (j + 1) (hextable ! unat (v AND 0x0f)) of
             None \<Rightarrow> None
           | Some dst \<Rightarrow> hex_Encode_loop dst (j + 2) src))"

definition hex_Encode :: "byte list \<Rightarrow> byte list \<Rightarrow> (byte list \<times> nat) option" where
  "hex_Encode dst src = map_option (\<lambda>dst. (dst, length src * 2)) (hex_Encode_loop dst 0 src)"

fun hex_Decode_loop :: "byte list \<Rightarrow> nat \<Rightarrow> byte list \<Rightarrow> (byte list \<times> nat \<times> hex_error option) option" where
  "hex_Decode_loop dst i (p # q # src) =
     (let a = reverseHexTable ! unat p; b = reverseHexTable ! unat q in
      if 0x0f < a then Some (dst, i, Some (InvalidByteError p))
      else if 0x0f < b then Some (dst, i, Some (InvalidByteError q))
      else case go_store dst i (push_bit 4 a OR b) of
        None \<Rightarrow> None
      | Some dst \<Rightarrow> hex_Decode_loop dst (i + 1) src)"
| "hex_Decode_loop dst i [c] =
     (if 0x0f < reverseHexTable ! unat c then Some (dst, i, Some (InvalidByteError c))
      else Some (dst, i, Some hex_ErrLength))"
| "hex_Decode_loop dst i [] = Some (dst, i, None)"

definition hex_Decode :: "byte list \<Rightarrow> byte list \<Rightarrow> (byte list \<times> nat \<times> hex_error option) option" where
  "hex_Decode dst src = hex_Decode_loop dst 0 src"

text \<open>\<open>spare\<close> is what the array of the grown slice holds beyond the length of \<open>dst\<close>.\<close>

definition hex_AppendEncode :: "byte list \<Rightarrow> byte list \<Rightarrow> byte list \<Rightarrow> byte list option" where
  "hex_AppendEncode spare dst src =
     (let n = hex_EncodedLen (length src) in map_option (\<lambda>(a, _). dst @ a) (hex_Encode (take n spare) src))"

definition hex_AppendDecode :: "byte list \<Rightarrow> byte list \<Rightarrow> byte list \<Rightarrow> (byte list \<times> hex_error option) option" where
  "hex_AppendDecode spare dst src =
     (let n = hex_DecodedLen (length src) in
      map_option (\<lambda>(a, n, err). (dst @ take n a, err)) (hex_Decode (take n spare) src))"

definition hex_EncodeToString :: "byte list \<Rightarrow> byte list option" where
  "hex_EncodeToString src = map_option fst (hex_Encode (replicate (hex_EncodedLen (length src)) 0) src)"

definition hex_DecodeString :: "byte list \<Rightarrow> (byte list \<times> hex_error option) option" where
  "hex_DecodeString s =
     map_option (\<lambda>(dst, n, err). (take n dst, err)) (hex_Decode (replicate (hex_DecodedLen (length s)) 0) s)"

section \<open>Streams\<close>

definition hex_bufferSize :: nat where
  "hex_bufferSize = 1024"

text \<open>The writer is the caller's: it gets the bytes and returns its next state, the number written and an error.\<close>

record 'w hex_encoder =
  enc_w :: 'w
  enc_err :: "io_error option"
  enc_out :: "byte list"

definition hex_NewEncoder :: "'w \<Rightarrow> 'w hex_encoder" where
  "hex_NewEncoder w = \<lparr>enc_w = w, enc_err = None, enc_out = replicate hex_bufferSize 0\<rparr>"

function hex_encoder_Write ::
  "('w \<Rightarrow> byte list \<Rightarrow> 'w \<times> int \<times> io_error option) \<Rightarrow> 'w hex_encoder \<Rightarrow> byte list \<Rightarrow> int \<Rightarrow>
     ('w hex_encoder \<times> int \<times> io_error option) option" where
  "hex_encoder_Write write e p n =
     (if 0 < length p \<and> enc_err e = None then
        let chunkSize = (if length p < hex_bufferSize div 2 then length p else hex_bufferSize div 2) in
        case hex_Encode (enc_out e) (take chunkSize p) of
          None \<Rightarrow> None
        | Some (out, encoded) \<Rightarrow>
            let (w, written, err) = write (enc_w e) (take encoded out) in
            hex_encoder_Write write (e\<lparr>enc_out := out, enc_w := w, enc_err := err\<rparr>) (drop chunkSize p)
              (n + sgn written * (\<bar>written\<bar> div 2))
      else Some (e, n, enc_err e))"
  by pat_completeness auto
termination
  by (relation "measure (\<lambda>(write, e, p, n). length p)") (auto simp: hex_bufferSize_def split: if_splits)

declare hex_encoder_Write.simps [simp del]

text \<open>
  The reader is the caller's: for the length of the slice it may fill, it returns its next state, the bytes read and an
  error.
\<close>

record 'r hex_decoder =
  dec_r :: 'r
  dec_err :: "hex_error option"
  dec_in :: "byte list"

definition hex_NewDecoder :: "'r \<Rightarrow> 'r hex_decoder" where
  "hex_NewDecoder r = \<lparr>dec_r = r, dec_err = None, dec_in = []\<rparr>"

definition hex_decoder_fill :: "('r \<Rightarrow> nat \<Rightarrow> 'r \<times> byte list \<times> io_error option) \<Rightarrow> 'r hex_decoder \<Rightarrow> 'r hex_decoder" where
  "hex_decoder_fill rd d =
     (if length (dec_in d) < 2 \<and> dec_err d = None then
        let (r, b, err) = rd (dec_r d) (hex_bufferSize - length (dec_in d));
            inp = dec_in d @ b;
            err = (if err = Some io_EOF \<and> length inp mod 2 \<noteq> 0 then
                     if 0x0f < reverseHexTable ! unat (last inp) then Some (InvalidByteError (last inp))
                     else Some (hex_io io_ErrUnexpectedEOF)
                   else map_option hex_io err) in
        \<lparr>dec_r = r, dec_err = err, dec_in = inp\<rparr>
      else d)"

definition hex_decoder_Read ::
  "('r \<Rightarrow> nat \<Rightarrow> 'r \<times> byte list \<times> io_error option) \<Rightarrow> 'r hex_decoder \<Rightarrow> byte list \<Rightarrow>
     ('r hex_decoder \<times> byte list \<times> hex_error option) option" where
  "hex_decoder_Read rd d p =
     (let d = hex_decoder_fill rd d;
          numAvail = length (dec_in d) div 2;
          p = (if numAvail < length p then take numAvail p else p) in
      case hex_Decode p (take (length p * 2) (dec_in d)) of
        None \<Rightarrow> None
      | Some (p, numDec, err) \<Rightarrow>
          let d = d\<lparr>dec_in := drop (2 * numDec) (dec_in d)\<rparr>;
              d = (if err \<noteq> None then d\<lparr>dec_in := [], dec_err := err\<rparr> else d) in
          Some (d, take numDec p, if length (dec_in d) < 2 then dec_err d else None))"

end
