(* ===== verification/Hex_Dump.thy ===== *)
theory Hex_Dump
  imports Hex
begin

section \<open>The dumper\<close>

text \<open>
  The dumper of package \<open>encoding/hex\<close>: a hex dump in the format of \<open>hexdump -C\<close>. The writer is the caller's, as for the encoder. \<open>n\<close> is a \<open>uint\<close> of 64 bits; only
  its low 32 bits are printed, so that the 32-bit targets print the same. \<open>None\<close> is the panic of a store beyond an array.
\<close>

datatype hex_dump_error = hex_dumper_closed | hex_dump_io io_error

type_synonym 'w hex_writer = "'w \<Rightarrow> byte list \<Rightarrow> 'w \<times> int \<times> io_error option"

record 'w hex_dumper =
  du_w :: 'w
  du_rightChars :: "byte list"
  du_buf :: "byte list"
  du_used :: nat
  du_n :: uint64
  du_closed :: bool

definition hex_Dumper :: "'w \<Rightarrow> 'w hex_dumper" where
  "hex_Dumper w = \<lparr>du_w = w, du_rightChars = replicate 18 0, du_buf = replicate 14 0, du_used = 0, du_n = 0, du_closed = False\<rparr>"

definition hex_toChar :: "byte \<Rightarrow> byte" where
  "hex_toChar b = (if b < 32 \<or> 126 < b then 46 else b)"

text \<open>One call of \<open>h.w.Write\<close>; every caller drops the count.\<close>

definition du_write :: "'w hex_writer \<Rightarrow> 'w hex_dumper \<Rightarrow> byte list \<Rightarrow> 'w hex_dumper \<times> io_error option" where
  "du_write write h p = (let (w, _, err) = write (du_w h) p in (h\<lparr>du_w := w\<rparr>, err))"

text \<open>The body of the loop of \<open>Write\<close>: the offset at the beginning of a line, then the byte, then the right column.\<close>

definition du_offset :: "'w hex_writer \<Rightarrow> 'w hex_dumper \<Rightarrow> ('w hex_dumper \<times> io_error option) option" where
  "du_offset write h =
     (if du_used h = 0 then
        let buf = (du_buf h)[0 := ucast (drop_bit 24 (du_n h)), 1 := ucast (drop_bit 16 (du_n h)),
                             2 := ucast (drop_bit 8 (du_n h)), 3 := ucast (du_n h)] in
        case hex_Encode (drop 4 buf) (take 4 buf) of
          None \<Rightarrow> None
        | Some (high, _) \<Rightarrow>
            let buf = (take 4 buf @ high)[12 := 32, 13 := 32] in Some (du_write write (h\<lparr>du_buf := buf\<rparr>) (drop 4 buf))
      else Some (h, None))"

definition du_cell :: "'w hex_writer \<Rightarrow> 'w hex_dumper \<Rightarrow> byte \<Rightarrow> ('w hex_dumper \<times> io_error option) option" where
  "du_cell write h b =
     (case hex_Encode (du_buf h) [b] of
        None \<Rightarrow> None
      | Some (buf, _) \<Rightarrow>
          let buf = buf[2 := 32];
              (buf, l) =
                (if du_used h = 7 then (buf[3 := 32], 4)
                 else if du_used h = 15 then (buf[3 := 32, 4 := 124], 5)
                 else (buf, 3)) in
          Some (du_write write (h\<lparr>du_buf := buf\<rparr>) (take l buf)))"

definition du_right :: "'w hex_writer \<Rightarrow> 'w hex_dumper \<Rightarrow> byte \<Rightarrow> ('w hex_dumper \<times> io_error option) option" where
  "du_right write h b =
     (case go_store (du_rightChars h) (du_used h) (hex_toChar b) of
        None \<Rightarrow> None
      | Some rc \<Rightarrow>
          let h = h\<lparr>du_rightChars := rc, du_used := du_used h + 1, du_n := du_n h + 1\<rparr> in
          if du_used h = 16 then
            let h = h\<lparr>du_rightChars := (du_rightChars h)[16 := 124, 17 := 10]\<rparr> in
            case du_write write h (du_rightChars h) of
              (h, Some e) \<Rightarrow> Some (h, Some e)
            | (h, None) \<Rightarrow> Some (h\<lparr>du_used := 0\<rparr>, None)
          else Some (h, None))"

fun hex_dumper_loop ::
  "'w hex_writer \<Rightarrow> 'w hex_dumper \<Rightarrow> byte list \<Rightarrow> nat \<Rightarrow> ('w hex_dumper \<times> nat \<times> hex_dump_error option) option" where
  "hex_dumper_loop write h [] n = Some (h, n, None)"
| "hex_dumper_loop write h (b # data) n =
     (case du_offset write h of
        None \<Rightarrow> None
      | Some (h, Some e) \<Rightarrow> Some (h, n, Some (hex_dump_io e))
      | Some (h, None) \<Rightarrow>
          (case du_cell write h b of
             None \<Rightarrow> None
           | Some (h, Some e) \<Rightarrow> Some (h, n, Some (hex_dump_io e))
           | Some (h, None) \<Rightarrow>
               (case du_right write h b of
                  None \<Rightarrow> None
                | Some (h, Some e) \<Rightarrow> Some (h, n + 1, Some (hex_dump_io e))
                | Some (h, None) \<Rightarrow> hex_dumper_loop write h data (n + 1))))"

definition hex_dumper_Write ::
  "'w hex_writer \<Rightarrow> 'w hex_dumper \<Rightarrow> byte list \<Rightarrow> ('w hex_dumper \<times> nat \<times> hex_dump_error option) option" where
  "hex_dumper_Write write h data =
     (if du_closed h then Some (h, 0, Some hex_dumper_closed) else hex_dumper_loop write h data 0)"

function du_pad :: "'w hex_writer \<Rightarrow> 'w hex_dumper \<Rightarrow> 'w hex_dumper \<times> io_error option" where
  "du_pad write h =
     (if du_used h < 16 then
        let l = (if du_used h = 7 then 4 else if du_used h = 15 then 5 else 3) in
        case du_write write h (take l (du_buf h)) of
          (h', Some e) \<Rightarrow> (h', Some e)
        | (h', None) \<Rightarrow> du_pad write (h'\<lparr>du_used := du_used h + 1\<rparr>)
      else (h, None))"
  by pat_completeness auto
termination
  by (relation "measure (\<lambda>(write, h). 16 - du_used h)") auto

declare du_pad.simps [simp del]

definition hex_dumper_Close :: "'w hex_writer \<Rightarrow> 'w hex_dumper \<Rightarrow> ('w hex_dumper \<times> io_error option) option" where
  "hex_dumper_Close write h =
     (if du_closed h then Some (h, None)
      else
        let h = h\<lparr>du_closed := True\<rparr> in
        if du_used h = 0 then Some (h, None)
        else
          let h = h\<lparr>du_buf := (du_buf h)[0 := 32, 1 := 32, 2 := 32, 3 := 32, 4 := 124]\<rparr>; nBytes = du_used h in
          case du_pad write h of
            (h, Some e) \<Rightarrow> Some (h, Some e)
          | (h, None) \<Rightarrow>
              (case go_store (du_rightChars h) nBytes 124 of
                 None \<Rightarrow> None
               | Some rc \<Rightarrow>
                   (case go_store rc (nBytes + 1) 10 of
                      None \<Rightarrow> None
                    | Some rc \<Rightarrow> Some (du_write write (h\<lparr>du_rightChars := rc\<rparr>) (take (nBytes + 2) rc)))))"

text \<open>The buffer of a \<open>strings.Builder\<close> that was not copied; the capacity that \<open>Grow\<close> reserves is not visible.\<close>

definition Builder_Grow :: "byte list \<Rightarrow> int \<Rightarrow> byte list option" where
  "Builder_Grow b n = (if n < 0 then None else Some b)"

definition Builder_Write :: "byte list hex_writer" where
  "Builder_Write b p = (b @ p, int (length p), None)"

definition hex_Dump :: "byte list \<Rightarrow> byte list option" where
  "hex_Dump data =
     (if length data = 0 then Some []
      else
        case Builder_Grow [] ((1 + ((int (length data) - 1) div 16)) * 79) of
          None \<Rightarrow> None
        | Some buf \<Rightarrow>
            (case hex_dumper_Write Builder_Write (hex_Dumper buf) data of
               None \<Rightarrow> None
             | Some (dumper, _, _) \<Rightarrow>
                 (case hex_dumper_Close Builder_Write dumper of
                    None \<Rightarrow> None
                  | Some (dumper, _) \<Rightarrow> Some (du_w dumper))))"

end
