(* ===== verification/Bytes_Reader_Correct.thy ===== *)
theory Bytes_Reader_Correct
  imports Bytes_Reader Utf8_Correct
begin

text \<open>
  \<open>bytes.Reader\<close> delivers its slice in order, by bytes and by runes, and unreading returns to the previous position.
\<close>

definition unread :: "bytes_Reader \<Rightarrow> byte list" where
  "unread r = drop (nat (rd_i r)) (rd_s r)"

definition reader_inv :: "bytes_Reader \<Rightarrow> bool" where
  "reader_inv r \<longleftrightarrow> 0 \<le> rd_i r"

lemma at_end: "reader_inv r \<Longrightarrow> int (length (rd_s r)) \<le> rd_i r \<longleftrightarrow> unread r = []"
  by (auto simp: reader_inv_def unread_def nat_le_iff le_nat_iff)

lemma drop_advance: "0 \<le> i \<Longrightarrow> drop (nat (i + int k)) xs = drop k (drop (nat i) xs)"
  by (simp add: nat_add_distrib add.commute)

lemma Read_unread:
  assumes "reader_inv r"
  shows "Reader_Read r n = (if unread r = [] then (r, [], Some io_EOF)
    else (r\<lparr>rd_prevRune := - 1, rd_i := rd_i r + int (length (take n (unread r)))\<rparr>, take n (unread r), None))"
  using at_end [OF assms] by (auto simp: Reader_Read_def unread_def Let_def)

lemma Read_step:
  assumes "reader_inv r" and "Reader_Read r n = (r', b, e)"
  shows "reader_inv r'" and "unread r = b @ unread r'" and "length b \<le> n"
    and "e = (if unread r = [] then Some io_EOF else None)" and "rd_s r' = rd_s r" and "b = take n (unread r)"
proof -
  have i: "0 \<le> rd_i r" using assms(1) by (simp add: reader_inv_def)
  show "reader_inv r'" "unread r = b @ unread r'" "length b \<le> n" "e = (if unread r = [] then Some io_EOF else None)"
    "rd_s r' = rd_s r" "b = take n (unread r)"
    using assms(2) i unfolding Read_unread [OF assms(1)]
    by (auto simp: reader_inv_def unread_def [of "_\<lparr>rd_prevRune := _, rd_i := _\<rparr>"] drop_advance min_def simp flip: unread_def
        split: if_splits)
qed

lemma ReadRune_decode:
  assumes "reader_inv r" and "unread r \<noteq> []"
  shows "Reader_ReadRune r = (case utf8_DecodeRune (unread r) of (ch, sz) \<Rightarrow>
    (r\<lparr>rd_prevRune := rd_i r, rd_i := rd_i r + int sz\<rparr>, ch, sz, None))"
proof -
  have i: "nat (rd_i r) < length (rd_s r)" using assms(2) by (simp add: unread_def)
  then have u: "unread r = rd_s r ! nat (rd_i r) # drop (Suc (nat (rd_i r))) (rd_s r)"
    by (simp add: unread_def Cons_nth_drop_Suc)
  have "\<not> int (length (rd_s r)) \<le> rd_i r" using at_end [OF assms(1)] assms(2) by simp
  then show ?thesis
    using u by (auto simp: Reader_ReadRune_def Let_def utf8_DecodeRune_def unread_def [symmetric] split: prod.splits)
qed

text \<open>Reading with slices of the given sizes, and reading runes.\<close>

fun read_all :: "bytes_Reader \<Rightarrow> nat list \<Rightarrow> byte list" where
  "read_all r [] = []"
| "read_all r (n # ns) = (let (r, b, _) = Reader_Read r n in b @ read_all r ns)"

lemma read_all_prefix: "reader_inv r \<Longrightarrow> read_all r ns = take (sum_list ns) (unread r)"
proof (induction ns arbitrary: r)
  case (Cons n ns)
  obtain r' b e where r: "Reader_Read r n = (r', b, e)" by (metis prod_cases3)
  note S = Read_step [OF Cons.prems r]
  have "unread r' = drop (length b) (unread r)" using S(2) by simp
  then have "take n (unread r) @ take (sum_list ns) (unread r') = take (n + sum_list ns) (unread r)"
    using S(6) by (cases "n \<le> length (unread r)") (simp_all add: take_add)
  then show ?case using r S(6) Cons.IH [OF S(1)] by simp
qed simp

fun read_runes :: "bytes_Reader \<Rightarrow> nat \<Rightarrow> rune list" where
  "read_runes r 0 = []"
| "read_runes r (Suc n) = (case Reader_ReadRune r of
     (r, ch, _, None) \<Rightarrow> ch # read_runes r n
   | (_, _, _, Some _) \<Rightarrow> [])"

lemma read_runes_concat:
  assumes "reader_inv r" and "unread r = concat (map utf8_enc rs)"
  shows "read_runes r (Suc (length rs)) = map (\<lambda>c. if utf8_ValidRune c then c else RuneError) rs"
  using assms
proof (induction rs arbitrary: r)
  case Nil
  then show ?case using at_end [OF Nil(1)] by (simp add: Reader_ReadRune_def)
next
  case (Cons c rs)
  have ne: "unread r \<noteq> []" using Cons.prems(2) enc_not_Nil [of c] by simp
  let ?r = "r\<lparr>rd_prevRune := rd_i r, rd_i := rd_i r + int (length (utf8_enc c))\<rparr>"
  have R: "Reader_ReadRune r = (?r, if utf8_ValidRune c then c else RuneError, length (utf8_enc c), None)"
    using ReadRune_decode [OF Cons.prems(1) ne] Cons.prems(2) DecodeRune_enc [of c "concat (map utf8_enc rs)"] by simp
  have i: "0 \<le> rd_i r" using Cons.prems(1) by (simp add: reader_inv_def)
  have "reader_inv ?r" using i by (simp add: reader_inv_def)
  moreover have "unread ?r = concat (map utf8_enc rs)"
    using Cons.prems(2) i by (simp add: unread_def drop_advance)
  ultimately have "read_runes ?r (Suc (length rs)) = map (\<lambda>c. if utf8_ValidRune c then c else RuneError) rs" by (rule Cons.IH)
  then show ?case using R by simp
qed

lemma ReadRune_size:
  assumes "reader_inv r" and "unread r \<noteq> []"
  shows "0 < snd (utf8_DecodeRune (unread r))"
  using assms(2) length_enc_bounds(1) by (cases "unread r" rule: DecodeRune_cases) auto

text \<open>
  C32. A \<open>bytes.Reader\<close> over a slice: successive reads with buffers of any sizes deliver its bytes in order and without
  gaps; \<open>ReadRune\<close> delivers the runes that \<open>utf8.AppendRune\<close> encoded and then the end; and, at any position that is not
  the end, \<open>UnreadByte\<close> after \<open>ReadByte\<close> and \<open>UnreadRune\<close> after \<open>ReadRune\<close> succeed and return to it, while a second
  \<open>UnreadRune\<close> is refused.
\<close>

theorem bytes_Reader_sequential:
  assumes "0 \<le> rd_i r" and "rd_i r < int (length (rd_s r))"
  shows "read_all (bytes_NewReader s) ns = take (sum_list ns) s
    \<and> read_runes (bytes_NewReader (concat (map utf8_enc rs))) (Suc (length rs)) = map (\<lambda>c. if utf8_ValidRune c then c else RuneError) rs
    \<and> (case Reader_ReadByte r of (r1, b, e) \<Rightarrow> b = rd_s r ! nat (rd_i r) \<and> e = None
        \<and> Reader_UnreadByte r1 = (r\<lparr>rd_prevRune := - 1\<rparr>, None))
    \<and> (case Reader_ReadRune r of (r1, ch, sz, e) \<Rightarrow> e = None
        \<and> Reader_UnreadRune r1 = (r\<lparr>rd_prevRune := - 1\<rparr>, None)
        \<and> snd (Reader_UnreadRune (fst (Reader_UnreadRune r1))) \<noteq> None)"
proof -
  have inv: "reader_inv r" "unread r \<noteq> []" using assms by (auto simp: reader_inv_def unread_def nat_less_iff)
  have new: "reader_inv (bytes_NewReader s)" "unread (bytes_NewReader s) = s" for s
    by (simp_all add: reader_inv_def unread_def bytes_NewReader_def)
  obtain ch sz where d: "utf8_DecodeRune (unread r) = (ch, sz)" by fastforce
  have "0 < sz" using ReadRune_size [OF inv] d by simp
  then have "case Reader_ReadRune r of (r1, ch, sz, e) \<Rightarrow> e = None
        \<and> Reader_UnreadRune r1 = (r\<lparr>rd_prevRune := - 1\<rparr>, None)
        \<and> snd (Reader_UnreadRune (fst (Reader_UnreadRune r1))) \<noteq> None"
    using assms(1) by (simp add: ReadRune_decode [OF inv] d Reader_UnreadRune_def)
  moreover have "case Reader_ReadByte r of (r1, b, e) \<Rightarrow> b = rd_s r ! nat (rd_i r) \<and> e = None
        \<and> Reader_UnreadByte r1 = (r\<lparr>rd_prevRune := - 1\<rparr>, None)"
    using assms by (simp add: Reader_ReadByte_def Reader_UnreadByte_def Let_def)
  ultimately show ?thesis
    using read_all_prefix [OF new(1), of s ns] read_runes_concat [OF new(1), of "concat (map utf8_enc rs)" rs] new(2) by simp
qed

theorem bytes_Reader_sequential_witness:
  "read_all (bytes_NewReader [1, 2, 3]) [2, 5] = [1, 2, 3]
   \<and> (case Reader_ReadByte (bytes_NewReader [65]) of (r1, b, e) \<Rightarrow> b = 65 \<and> e = None)"
  using bytes_Reader_sequential [of "bytes_NewReader [65]" "[1, 2, 3]" "[2, 5]" "[]"]
  by (simp add: bytes_NewReader_def split: prod.splits)

end
