(* ===== verification/Hex_Correct.thy ===== *)
theory Hex_Correct
  imports Hex Bytes_Reader_Correct
begin

text \<open>
  Hexadecimal notation: what a string denotes, the loops of \<open>Encode\<close> and \<open>Decode\<close>, and the streams. \<open>byte_reader\<close> and
  \<open>prompt_reader\<close> state what the decoder relies on; \<open>bytes.Reader\<close> provides it.
\<close>

section \<open>Hexadecimal notation\<close>

definition hex_digit :: "byte \<Rightarrow> byte option" where
  "hex_digit c =
     (if 48 \<le> c \<and> c \<le> 57 then Some (c - 48)
      else if 97 \<le> c \<and> c \<le> 102 then Some (c - 87)
      else if 65 \<le> c \<and> c \<le> 70 then Some (c - 55)
      else None)"

lemma reverseHexTable_map:
  "reverseHexTable = map (\<lambda>i. case hex_digit (of_nat i) of Some v \<Rightarrow> v | None \<Rightarrow> 0xff) [0..<256]"
  by code_simp

lemma reverseHexTable_digit: "reverseHexTable ! unat c = (case hex_digit c of Some v \<Rightarrow> v | None \<Rightarrow> 0xff)"
  using unsigned_less [of c, where 'a = nat] by (simp add: reverseHexTable_map)

lemma hex_digit_less: "hex_digit c = Some v \<Longrightarrow> v \<le> 0x0f"
proof -
  assume "hex_digit c = Some v"
  then have "unat v \<le> 15"
    by (auto simp: hex_digit_def word_le_nat_alt unat_sub split: if_splits)
  then show ?thesis by (simp add: word_le_nat_alt)
qed

lemma hex_invalid: "0x0f < reverseHexTable ! unat c \<longleftrightarrow> hex_digit c = None"
  using reverseHexTable_digit [of c] hex_digit_less [of c] by (auto simp: not_less split: option.splits)

lemma hextable_digit: "n < 16 \<Longrightarrow> hex_digit (hextable ! n) = Some (of_nat n)"
proof -
  have "list_all (\<lambda>n. hex_digit (hextable ! n) = Some (of_nat n)) [0..<16]" by code_simp
  then show "n < 16 \<Longrightarrow> ?thesis" by (simp add: list_all_iff)
qed

text \<open>What a string of hexadecimal characters denotes: bytes up to the first error, and the error.\<close>

fun hex_spec :: "byte list \<Rightarrow> byte list \<times> hex_error option" where
  "hex_spec (p # q # s) =
     (case (hex_digit p, hex_digit q) of
        (Some a, Some b) \<Rightarrow> apfst ((#) (16 * a + b)) (hex_spec s)
      | (None, _) \<Rightarrow> ([], Some (InvalidByteError p))
      | (Some _, None) \<Rightarrow> ([], Some (InvalidByteError q)))"
| "hex_spec [c] = ([], Some (if hex_digit c = None then InvalidByteError c else hex_ErrLength))"
| "hex_spec [] = ([], None)"

definition hex_of :: "byte list \<Rightarrow> byte list" where
  "hex_of src = concat (map (\<lambda>v. [hextable ! (unat v div 16), hextable ! (unat v mod 16)]) src)"

lemma nibbles:
  assumes "a \<le> 0x0f" and "b \<le> (0x0f :: byte)"
  shows "push_bit 4 a OR b = 16 * a + b"
proof -
  have n: "unat a < 16" "unat b < 16" using assms by (simp_all add: word_le_nat_alt)
  then have p: "unat (push_bit 4 a) = unat a * 16" by (simp add: unat_push_bit)
  then have "unat (push_bit 4 a OR b) = unat a * 16 + unat b" using n by (subst unat_or_disj [where k = 4]) simp_all
  also have "\<dots> = unat (16 * a + b)" using n by (simp add: unat_word_ariths)
  finally show ?thesis by (rule word_unat_eq_iff [THEN iffD2])
qed

lemma hex_spec_of: "hex_spec (hex_of src) = (src, None)"
proof (induction src)
  case (Cons v src)
  have "unat v div 16 < 16" using unsigned_less [of v, where 'a = nat] by (intro less_mult_imp_div_less) simp
  moreover have "16 * of_nat (unat v div 16) + of_nat (unat v mod 16) = v"
  proof -
    have "(of_nat (16 * (unat v div 16) + unat v mod 16) :: byte) = v" by (simp only: mult_div_mod_eq) simp
    then show ?thesis by (simp only: of_nat_add of_nat_mult of_nat_numeral)
  qed
  ultimately show ?case using Cons by (simp add: hex_of_def hextable_digit)
qed (simp add: hex_of_def)

lemma length_hex_of: "length (hex_of src) = 2 * length src"
  by (induction src) (simp_all add: hex_of_def)

lemma length_hex_spec: "length (fst (hex_spec s)) \<le> length s div 2"
  by (induction s rule: hex_spec.induct) (auto split: option.splits)

lemma hex_spec_ok: "snd (hex_spec s) = None \<longleftrightarrow> even (length s) \<and> (\<forall>c \<in> set s. hex_digit c \<noteq> None)"
  by (induction s rule: hex_spec.induct) (auto split: option.splits)

lemma hex_spec_append:
  assumes "even (length s)"
  shows "hex_spec (s @ t) = (case hex_spec s of (b, None) \<Rightarrow> apfst ((@) b) (hex_spec t) | (b, Some e) \<Rightarrow> (b, Some e))"
  using assms by (induction s rule: hex_spec.induct) (auto split: option.splits prod.splits simp: apfst_def map_prod_def)

section \<open>The loops\<close>

lemma store_two:
  assumes "j + 2 \<le> length dst"
  shows "take (j + 2) (dst[j := a, j + 1 := b]) = take j dst @ [a, b]"
  using assms by (simp add: take_Suc_conv_app_nth nth_append numeral_2_eq_2)

lemma hex_Encode_loop_exact:
  assumes "j + 2 * length src \<le> length dst"
  shows "hex_Encode_loop dst j src = Some (take j dst @ hex_of src @ drop (j + 2 * length src) dst)"
  using assms
proof (induction src arbitrary: dst j)
  case (Cons v src)
  let ?a = "hextable ! unat (drop_bit 4 v)" and ?b = "hextable ! unat (v AND 0x0f)"
  let ?d = "dst[j := ?a, j + 1 := ?b]"
  have "(0x0f :: byte) = mask 4" by (simp add: mask_eq_exp_minus_1)
  then have "hex_of (v # src) = [?a, ?b] @ hex_of src"
    using unat_and_mask [of v 4] by (simp add: hex_of_def unat_drop_bit)
  moreover have "hex_Encode_loop ?d (j + 2) src = Some (take (j + 2) ?d @ hex_of src @ drop (j + 2 + 2 * length src) ?d)"
    using Cons.prems by (intro Cons.IH) simp
  moreover have "hex_Encode_loop dst j (v # src) = hex_Encode_loop ?d (j + 2) src" using Cons.prems by simp
  moreover have "take (j + 2) ?d = take j dst @ [?a, ?b]" using Cons.prems by (intro store_two) simp
  ultimately show ?case by simp
qed (simp add: hex_of_def)

lemma hex_Decode_loop_exact:
  assumes "i + length src div 2 \<le> length dst"
  shows "hex_Decode_loop dst i src =
    (case hex_spec src of (b, e) \<Rightarrow> Some (take i dst @ b @ drop (i + length b) dst, i + length b, e))"
  using assms
proof (induction dst i src rule: hex_Decode_loop.induct)
  case (1 dst i p q src)
  note T = reverseHexTable_digit [of p] reverseHexTable_digit [of q]
  show ?case
  proof (cases "hex_digit p = None \<or> hex_digit q = None")
    case True
    then show ?thesis by (auto simp: hex_invalid Let_def split: option.splits)
  next
    case False
    then obtain a b where ab: "hex_digit p = Some a" "hex_digit q = Some b" by auto
    let ?v = "push_bit 4 a OR b"
    have t: "reverseHexTable ! unat p = a" "reverseHexTable ! unat q = b" "?v = 16 * a + b"
      using T ab by (simp_all add: nibbles hex_digit_less)
    have i: "i < length dst" using "1.prems" by simp
    have n: "\<not> 0x0f < a" "\<not> 0x0f < b" using ab by (simp_all add: not_less hex_digit_less)
    have "hex_Decode_loop (dst[i := ?v]) (i + 1) src = (case hex_spec src of (b, e) \<Rightarrow>
        Some (take (i + 1) (dst[i := ?v]) @ b @ drop (i + 1 + length b) (dst[i := ?v]), i + 1 + length b, e))"
      using "1.IH" [OF refl refl _ _ , of "dst[i := ?v]"] "1.prems" i n by (simp add: t(1,2))
    then show ?thesis
      using i n ab by (auto simp: t Let_def take_Suc_conv_app_nth split: prod.splits)
  qed
qed (auto simp: hex_invalid)

section \<open>Slices\<close>

lemma hex_Decode_exact:
  assumes "length src div 2 \<le> length dst"
  shows "hex_Decode dst src = (case hex_spec src of (b, e) \<Rightarrow> Some (b @ drop (length b) dst, length b, e))"
  using hex_Decode_loop_exact [of 0 src dst] assms by (simp add: hex_Decode_def split: prod.splits)

lemma hex_Encode_exact:
  assumes "2 * length src \<le> length dst"
  shows "hex_Encode dst src = Some (hex_of src @ drop (2 * length src) dst, 2 * length src)"
  using hex_Encode_loop_exact [of 0 src dst] assms by (simp add: hex_Encode_def mult.commute)

text \<open>
  C33. Hexadecimal strings: encoding gives two characters for a byte and decoding gives the bytes back; on every
  string decoding never panics, delivers exactly the bytes before the first pair with an invalid character and names
  that character, reports an odd length only when all characters are valid, and succeeds exactly on the strings of even
  length of hexadecimal digits of either case. The appending variants add the same bytes after \<open>dst\<close>, whatever the spare
  capacity held.
\<close>

theorem hex_roundtrip:
  assumes "2 * length src \<le> length spare" and "length s \<le> length spare"
  shows "hex_EncodeToString src = Some (hex_of src) \<and> hex_DecodeString (hex_of src) = Some (src, None)
    \<and> length (hex_of src) = hex_EncodedLen (length src)
    \<and> hex_DecodeString s = Some (hex_spec s)
    \<and> (snd (hex_spec s) = None \<longleftrightarrow> even (length s) \<and> list_all (\<lambda>c. hex_digit c \<noteq> None) s)
    \<and> hex_AppendEncode spare dst src = Some (dst @ hex_of src)
    \<and> hex_AppendDecode spare dst s = Some (apfst ((@) dst) (hex_spec s))"
proof -
  have D: "hex_DecodeString t = Some (hex_spec t)" for t
    using hex_Decode_exact [of t "replicate (hex_DecodedLen (length t)) 0"]
    by (simp add: hex_DecodeString_def hex_DecodedLen_def split: prod.splits)
  moreover have "hex_EncodeToString src = Some (hex_of src)"
    using hex_Encode_exact [of src "replicate (hex_EncodedLen (length src)) 0"]
    by (simp add: hex_EncodeToString_def hex_EncodedLen_def mult.commute)
  moreover have "hex_AppendEncode spare dst src = Some (dst @ hex_of src)"
    using hex_Encode_exact [of src "take (hex_EncodedLen (length src)) spare"] assms(1)
    by (simp add: hex_AppendEncode_def hex_EncodedLen_def mult.commute)
  moreover have "hex_AppendDecode spare dst s = Some (apfst ((@) dst) (hex_spec s))"
    using hex_Decode_exact [of s "take (hex_DecodedLen (length s)) spare"] assms(2)
    by (simp add: hex_AppendDecode_def hex_DecodedLen_def split: prod.splits)
  ultimately show ?thesis
    by (simp add: hex_spec_of length_hex_of hex_EncodedLen_def hex_spec_ok list_all_iff mult.commute)
qed

theorem hex_roundtrip_witness:
  "hex_DecodeString (hex_of [7, 255]) = Some ([7, 255], None) \<and> hex_AppendEncode (replicate 4 9) [1] [7, 255] = Some ([1] @ hex_of [7, 255])"
  using hex_roundtrip [of "[7, 255]" "replicate 4 9" "[]" "[1]"] by simp

section \<open>The stream decoder\<close>

lemma hex_spec_all: "snd (hex_spec s) = None \<Longrightarrow> 2 * length (fst (hex_spec s)) = length s"
  by (induction s rule: hex_spec.induct) (auto split: option.splits)

lemma hex_spec_even_error: "even (length s) \<Longrightarrow> snd (hex_spec s) = Some e \<Longrightarrow> \<exists>c. e = InvalidByteError c"
  by (induction s rule: hex_spec.induct) (auto split: option.splits)

lemma hex_spec_short: "length s < 2 \<Longrightarrow> fst (hex_spec s) = []"
  by (cases s rule: hex_spec.cases) auto

fun hex_read_all ::
  "('r \<Rightarrow> nat \<Rightarrow> 'r \<times> byte list \<times> io_error option) \<Rightarrow> 'r hex_decoder \<Rightarrow> byte list list \<Rightarrow>
     (byte list \<times> hex_error option) list option" where
  "hex_read_all rd d [] = Some []"
| "hex_read_all rd d (p # ps) =
     (case hex_decoder_Read rd d p of
        None \<Rightarrow> None
      | Some (d, out, err) \<Rightarrow> map_option ((#) (out, err)) (hex_read_all rd d ps))"

locale byte_reader =
  fixes rd :: "'r \<Rightarrow> nat \<Rightarrow> 'r \<times> byte list \<times> io_error option" and ok :: "'r \<Rightarrow> bool" and rest :: "'r \<Rightarrow> byte list"
  assumes rd_ok: "ok r \<Longrightarrow> rd r n = (r', b, e) \<Longrightarrow> ok r' \<and> rest r = b @ rest r'"
    and rd_EOF: "ok r \<Longrightarrow> rd r n = (r', b, Some io_EOF) \<Longrightarrow> rest r' = []"
begin

definition failed :: "'r hex_decoder \<Rightarrow> bool" where
  "failed d \<longleftrightarrow> dec_in d = [] \<and> (\<exists>c. dec_err d = Some (InvalidByteError c))"

definition leftover :: "'r hex_decoder \<Rightarrow> byte list" where
  "leftover d = (if failed d then [] else fst (hex_spec (dec_in d @ rest (dec_r d))))"

definition dinv :: "'r hex_decoder \<Rightarrow> bool" where
  "dinv d \<longleftrightarrow> ok (dec_r d) \<and> (dec_err d = Some (hex_io io_EOF) \<longrightarrow> rest (dec_r d) = [])
     \<and> (\<forall>c. dec_err d = Some (InvalidByteError c) \<longrightarrow> failed d \<or> odd (length (dec_in d)) \<and> rest (dec_r d) = [])"

lemma fill:
  assumes "dinv d"
  shows "dinv (hex_decoder_fill rd d) \<and> leftover (hex_decoder_fill rd d) = leftover d"
proof (cases "length (dec_in d) < 2 \<and> dec_err d = None")
  case False
  then show ?thesis using assms unfolding hex_decoder_fill_def by (simp only: if_False)
next
  case True
  obtain r b e where r: "rd (dec_r d) (hex_bufferSize - length (dec_in d)) = (r, b, e)" by (metis prod_cases3)
  have ok: "ok (dec_r d)" using assms by (simp add: dinv_def)
  note R = rd_ok [OF ok r]
  have E: "rest r = []" if "e = Some io_EOF" using rd_EOF [OF ok] r that by blast
  define inp where inp: "inp = dec_in d @ b"
  define x where x: "x = (if e = Some io_EOF \<and> length inp mod 2 \<noteq> 0 then
      if 0x0f < reverseHexTable ! unat (last inp) then Some (InvalidByteError (last inp)) else Some (hex_io io_ErrUnexpectedEOF)
    else map_option hex_io e)"
  have f: "hex_decoder_fill rd d = \<lparr>dec_r = r, dec_err = x, dec_in = inp\<rparr>"
    unfolding hex_decoder_fill_def Let_def r prod.case inp [symmetric] x [symmetric] using True by (simp only: if_True simp_thms)
  have X: "e = Some io_EOF \<and> odd (length inp)" if "x = Some (InvalidByteError c)" for c
    using that by (auto simp: x odd_iff_mod_2_eq_one split: if_splits)
  have Y: "e = Some io_EOF" if "x = Some (hex_io io_EOF)" using that by (auto simp: x split: if_splits)
  have "\<not> failed d" using True by (simp add: failed_def)
  moreover have "\<not> failed (hex_decoder_fill rd d)" using X by (auto simp: failed_def f)
  moreover have "inp @ rest r = dec_in d @ rest (dec_r d)" using R by (simp add: inp)
  moreover have "dinv (hex_decoder_fill rd d)" using R E X Y by (auto simp: dinv_def f)
  ultimately show ?thesis by (simp add: leftover_def f)
qed

lemma decoder_step:
  assumes "dinv d"
  shows "\<exists>d' out err. hex_decoder_Read rd d p = Some (d', out, err) \<and> dinv d' \<and> leftover d = out @ leftover d'
    \<and> length out \<le> length p \<and> (err = Some (hex_io io_EOF) \<or> (\<exists>c. err = Some (InvalidByteError c)) \<longrightarrow> leftover d' = [])
    \<and> (dec_err d' \<noteq> dec_err (hex_decoder_fill rd d) \<or> failed (hex_decoder_fill rd d) \<longrightarrow> failed d')
    \<and> dec_r d' = dec_r (hex_decoder_fill rd d)
    \<and> (p \<noteq> [] \<and> 2 \<le> length (dec_in (hex_decoder_fill rd d)) \<longrightarrow> out \<noteq> [] \<or> leftover d' = [])"
proof -
  define f where f: "f = hex_decoder_fill rd d"
  have F: "dinv f" "leftover f = leftover d" using fill [OF assms] by (simp_all add: f)
  define m where m: "m = min (length p) (length (dec_in f) div 2)"
  define q where q: "q = (if length (dec_in f) div 2 < length p then take (length (dec_in f) div 2) p else p)"
  have lq: "length q = m" by (simp add: q m)
  define src where src: "src = take (m * 2) (dec_in f)"
  have ls: "length src = m * 2" by (simp add: src m)
  obtain b e where s: "hex_spec src = (b, e)" by fastforce
  have lb: "length b \<le> m" using length_hex_spec [of src] s ls by simp
  have D: "hex_Decode q src = Some (b @ drop (length b) q, length b, e)"
    using hex_Decode_exact [of src q] ls lq s by simp
  define g where g: "g = (if e \<noteq> None then f\<lparr>dec_in := [], dec_err := e\<rparr> else f\<lparr>dec_in := drop (2 * length b) (dec_in f)\<rparr>)"
  have R: "hex_decoder_Read rd d p = Some (g, b, if length (dec_in g) < 2 then dec_err g else None)"
    using D lq lb unfolding hex_decoder_Read_def Let_def f [symmetric] q [symmetric] lq src [symmetric] by (simp add: g)
  have "hex_spec (dec_in f @ t) = hex_spec (src @ (drop (m * 2) (dec_in f) @ t))" for t
    unfolding src by (simp only: append_assoc [symmetric] append_take_drop_id)
  also have "hex_spec (src @ (drop (m * 2) (dec_in f) @ t)) =
      (case e of None \<Rightarrow> apfst ((@) b) (hex_spec (drop (m * 2) (dec_in f) @ t)) | Some x \<Rightarrow> (b, Some x))" for t
    using hex_spec_append [of src "drop (m * 2) (dec_in f) @ t"] ls s by simp
  finally have app: "hex_spec (dec_in f @ t) =
      (case e of None \<Rightarrow> apfst ((@) b) (hex_spec (drop (m * 2) (dec_in f) @ t)) | Some x \<Rightarrow> (b, Some x))" for t .
  have G: "dinv g \<and> leftover f = b @ leftover g
    \<and> (length (dec_in g) < 2 \<and> (dec_err g = Some (hex_io io_EOF) \<or> (\<exists>c. dec_err g = Some (InvalidByteError c))) \<longrightarrow> leftover g = [])
    \<and> (dec_err g \<noteq> dec_err f \<or> failed f \<longrightarrow> failed g) \<and> dec_r g = dec_r f \<and> (0 < m \<longrightarrow> b \<noteq> [] \<or> leftover g = [])"
  proof (cases e)
    case (Some x)
    then obtain c where c: "x = InvalidByteError c" using hex_spec_even_error [of src x] ls s by auto
    have "\<not> failed f" using s Some by (auto simp: failed_def src)
    moreover have "failed g" using c Some by (simp add: failed_def g)
    moreover have "leftover g = []" using \<open>failed g\<close> by (simp add: leftover_def)
    ultimately show ?thesis using F(1) Some app c by (auto simp: leftover_def dinv_def g failed_def)
  next
    case None
    then have "length b = m" using hex_spec_all [of src] s ls by simp
    then have g': "g = f\<lparr>dec_in := drop (m * 2) (dec_in f)\<rparr>" using None by (simp add: g mult.commute)
    have sh: "fst (hex_spec (dec_in g @ [])) = []" if "length (dec_in g) < 2" using that hex_spec_short by simp
    show ?thesis
    proof (cases "failed f")
      case True
      then have "g = f" "b = []" using g' \<open>length b = m\<close> by (simp_all add: failed_def m)
      then show ?thesis using F(1) True \<open>length b = m\<close> by (simp add: leftover_def)
    next
      case False
      have odd: "odd (length (dec_in f)) \<Longrightarrow> odd (length (dec_in g))" by (simp add: g' m)
      have I: "rest (dec_r f) = []" if "dec_err f = Some (hex_io io_EOF) \<or> (\<exists>c. dec_err f = Some (InvalidByteError c))"
        using that F(1) False by (auto simp: dinv_def)
      have nf: "\<not> failed g" using F(1) False odd by (auto simp: dinv_def failed_def g')
      then have "leftover f = b @ leftover g" using False None app [of "rest (dec_r f)"] by (simp add: leftover_def g')
      moreover have "dinv g" using F(1) False odd by (auto simp: dinv_def g')
      moreover have "leftover g = []"
        if "length (dec_in g) < 2" "dec_err g = Some (hex_io io_EOF) \<or> (\<exists>c. dec_err g = Some (InvalidByteError c))"
        using sh [OF that(1)] I that(2) nf by (simp add: leftover_def g')
      moreover have "dec_err g = dec_err f" "dec_r g = dec_r f" "0 < m \<longrightarrow> b \<noteq> []" using \<open>length b = m\<close> by (auto simp: g')
      ultimately show ?thesis using False by blast
    qed
  qed
  have "p \<noteq> [] \<and> 2 \<le> length (dec_in f) \<longrightarrow> 0 < m" by (auto simp: m)
  then have last: "p \<noteq> [] \<and> 2 \<le> length (dec_in f) \<longrightarrow> b \<noteq> [] \<or> leftover g = []" using G by blast
  have err: "(if length (dec_in g) < 2 then dec_err g else None) = Some x \<Longrightarrow> length (dec_in g) < 2 \<and> dec_err g = Some x" for x
    by (simp split: if_splits)
  show ?thesis
    unfolding f [symmetric]
  proof (intro exI conjI)
    show "hex_decoder_Read rd d p = Some (g, b, if length (dec_in g) < 2 then dec_err g else None)" by (rule R)
    show "length b \<le> length p" using lb m by simp
    show "leftover d = b @ leftover g" using G F(2) by simp
    show "(if length (dec_in g) < 2 then dec_err g else None) = Some (hex_io io_EOF) \<or>
        (\<exists>c. (if length (dec_in g) < 2 then dec_err g else None) = Some (InvalidByteError c)) \<longrightarrow> leftover g = []"
      using G err by blast
    show "p \<noteq> [] \<and> 2 \<le> length (dec_in f) \<longrightarrow> b \<noteq> [] \<or> leftover g = []" by (rule last)
  qed (use G in blast)+
qed

lemma Read_all:
  assumes "dinv d"
  shows "\<exists>rs d'. hex_read_all rd d ps = Some rs \<and> dinv d' \<and> leftover d = concat (map fst rs) @ leftover d'
    \<and> ((\<exists>r \<in> set rs. snd r = Some (hex_io io_EOF) \<or> (\<exists>c. snd r = Some (InvalidByteError c))) \<longrightarrow> leftover d' = [])"
  using assms
proof (induction ps arbitrary: d)
  case (Cons p ps)
  obtain d1 out err where 1: "hex_decoder_Read rd d p = Some (d1, out, err)" "dinv d1" "leftover d = out @ leftover d1"
    "err = Some (hex_io io_EOF) \<or> (\<exists>c. err = Some (InvalidByteError c)) \<longrightarrow> leftover d1 = []"
    using decoder_step [OF Cons.prems, of p] by auto
  obtain rs d' where 2: "hex_read_all rd d1 ps = Some rs" "dinv d'" "leftover d1 = concat (map fst rs) @ leftover d'"
    "(\<exists>r \<in> set rs. snd r = Some (hex_io io_EOF) \<or> (\<exists>c. snd r = Some (InvalidByteError c))) \<longrightarrow> leftover d' = []"
    using Cons.IH [OF 1(2)] by blast
  show ?case
  proof (intro exI conjI)
    show "hex_read_all rd d (p # ps) = Some ((out, err) # rs)" using 1(1) 2(1) by simp
    show "dinv d'" by (rule 2(2))
    show "leftover d = concat (map fst ((out, err) # rs)) @ leftover d'" using 1(3) 2(3) by simp
    show "(\<exists>r \<in> set ((out, err) # rs). snd r = Some (hex_io io_EOF) \<or> (\<exists>c. snd r = Some (InvalidByteError c))) \<longrightarrow> leftover d' = []"
      using 1(4) 2(3,4) by auto
  qed
qed (auto intro: exI [of _ d])

end

locale prompt_reader = byte_reader +
  assumes prompt: "ok r \<Longrightarrow> rd r n = (r', b, e) \<Longrightarrow> b = take n (rest r) \<and> (e = None \<or> e = Some io_EOF)"
begin

definition pinv :: "'a hex_decoder \<Rightarrow> bool" where
  "pinv d \<longleftrightarrow> dinv d \<and> (dec_err d \<noteq> None \<longrightarrow> failed d \<or> rest (dec_r d) = [])"

lemma fill_prompt:
  assumes "pinv d"
  shows "pinv (hex_decoder_fill rd d) \<and> (leftover d \<noteq> [] \<longrightarrow> 2 \<le> length (dec_in (hex_decoder_fill rd d)))"
proof (cases "length (dec_in d) < 2 \<and> dec_err d = None")
  case False
  have two: "leftover d \<noteq> [] \<longrightarrow> 2 \<le> length (dec_in d)"
  proof (rule impI, rule ccontr)
    assume that: "leftover d \<noteq> []"
    assume short: "\<not> 2 \<le> length (dec_in d)"
    then have "dec_err d \<noteq> None" using False by simp
    then have "failed d \<or> rest (dec_r d) = []" using assms by (simp add: pinv_def)
    then show False using that short hex_spec_short [of "dec_in d"] by (auto simp: leftover_def split: if_splits)
  qed
  have "hex_decoder_fill rd d = d" unfolding hex_decoder_fill_def using False by (simp only: if_False)
  then show ?thesis using assms two by simp
next
  case True
  obtain r b e where r: "rd (dec_r d) (hex_bufferSize - length (dec_in d)) = (r, b, e)" by (metis prod_cases3)
  have ok: "ok (dec_r d)" using assms by (simp add: pinv_def dinv_def)
  note P = prompt [OF ok r]
  note D = fill [of d]
  have E: "rest r = []" if "e = Some io_EOF" using rd_EOF [OF ok] r that by blast
  have f: "dec_in (hex_decoder_fill rd d) = dec_in d @ b" "dec_r (hex_decoder_fill rd d) = r"
    "e = None \<Longrightarrow> dec_err (hex_decoder_fill rd d) = None"
    using True r by (simp_all add: hex_decoder_fill_def Let_def)
  have "pinv (hex_decoder_fill rd d)" using D assms P E f by (auto simp: pinv_def)
  moreover have "2 \<le> length (dec_in d @ b)" if "leftover d \<noteq> []"
  proof (rule ccontr)
    assume short: "\<not> 2 \<le> length (dec_in d @ b)"
    then have "length b < hex_bufferSize - length (dec_in d)" using True by (auto simp: hex_bufferSize_def)
    moreover have "length b = min (length (rest (dec_r d))) (hex_bufferSize - length (dec_in d))" using P by simp
    ultimately have "length (rest (dec_r d)) \<le> hex_bufferSize - length (dec_in d)" by linarith
    then have "rest (dec_r d) = b" using P by simp
    then show False using that short hex_spec_short [of "dec_in d @ b"] by (auto simp: leftover_def split: if_splits)
  qed
  ultimately show ?thesis using f(1) by simp
qed

lemma Read_complete:
  assumes "pinv d" and "length (leftover d) \<le> length ps" and "[] \<notin> set ps"
  shows "\<exists>rs. hex_read_all rd d ps = Some rs \<and> concat (map fst rs) = leftover d"
  using assms
proof (induction ps arbitrary: d)
  case (Cons p ps)
  let ?f = "hex_decoder_fill rd d"
  have di: "dinv d" using Cons.prems(1) by (simp add: pinv_def)
  note F = fill_prompt [OF Cons.prems(1)]
  obtain d1 out err where 1: "hex_decoder_Read rd d p = Some (d1, out, err)" "dinv d1" "leftover d = out @ leftover d1"
    "dec_err d1 \<noteq> dec_err ?f \<or> failed ?f \<longrightarrow> failed d1" "dec_r d1 = dec_r ?f"
    "p \<noteq> [] \<and> 2 \<le> length (dec_in ?f) \<longrightarrow> out \<noteq> [] \<or> leftover d1 = []"
    using decoder_step [OF di, of p] by auto
  have "pinv d1" using 1(2,4,5) F by (auto simp: pinv_def)
  moreover have "length (leftover d1) \<le> length ps"
    using 1(3,6) F Cons.prems(2,3) by (cases "leftover d = []"; cases out) auto
  ultimately obtain rs where "hex_read_all rd d1 ps = Some rs" "concat (map fst rs) = leftover d1" using Cons.IH [of d1] Cons.prems(3) by auto
  then show ?case using 1(1,3) by simp
qed simp

end

interpretation br: prompt_reader Reader_Read reader_inv unread
proof
  fix r n r' b e
  assume "reader_inv r" "Reader_Read r n = (r', b, e)"
  note S = Read_step [OF this]
  show "reader_inv r' \<and> unread r = b @ unread r'" using S(1,2) by simp
  show "b = take n (unread r) \<and> (e = None \<or> e = Some io_EOF)" using S(4,6) by simp
next
  fix r n r' b
  assume "reader_inv r" "Reader_Read r n = (r', b, Some io_EOF)"
  note S = Read_step [OF this]
  show "unread r' = []" using S(2,4) by (simp split: if_splits)
qed

section \<open>The stream encoder\<close>

lemma hex_of_append: "hex_of (a @ b) = hex_of a @ hex_of b"
  by (simp add: hex_of_def)

text \<open>A writer that keeps everything.\<close>

definition collect :: "byte list \<Rightarrow> byte list \<Rightarrow> byte list \<times> int \<times> io_error option" where
  "collect w b = (w @ b, int (length b), None)"

lemma hex_encoder_Write_collects:
  assumes "enc_err e = None" and "length (enc_out e) = hex_bufferSize"
  shows "\<exists>e'. hex_encoder_Write collect e p n = Some (e', n + int (length p), None) \<and> enc_w e' = enc_w e @ hex_of p"
  using assms
proof (induction "length p" arbitrary: e p n rule: less_induct)
  case less
  show ?case
  proof (cases "p = []")
    case True
    then show ?thesis using less.prems by (subst hex_encoder_Write.simps) (simp add: hex_of_def)
  next
    case False
    define k where k: "k = (if length p < hex_bufferSize div 2 then length p else hex_bufferSize div 2)"
    have kp: "0 < k" "k \<le> length p" "2 * k \<le> hex_bufferSize" using False by (auto simp: k hex_bufferSize_def)
    define out where out: "out = hex_of (take k p) @ drop (2 * k) (enc_out e)"
    have E: "hex_Encode (enc_out e) (take k p) = Some (out, 2 * k)"
      using hex_Encode_exact [of "take k p" "enc_out e"] kp less.prems(2) by (simp add: out)
    have lo: "length out = hex_bufferSize" "take (2 * k) out = hex_of (take k p)"
      using kp less.prems(2) by (simp_all add: out length_hex_of)
    let ?e = "e\<lparr>enc_out := out, enc_w := enc_w e @ hex_of (take k p), enc_err := None\<rparr>"
    have "length (hex_of (take k p)) = 2 * k" using kp by (simp add: length_hex_of)
    then have C: "collect (enc_w e) (take (2 * k) out) = (enc_w e @ hex_of (take k p), 2 * int k, None)"
      unfolding lo(2) collect_def by simp
    have "sgn (2 * int k) * (\<bar>2 * int k\<bar> div 2) = int k" using kp(1) by simp
    then have "hex_encoder_Write collect e p n = hex_encoder_Write collect ?e (drop k p) (n + int k)"
      using False less.prems(1)
      by (subst hex_encoder_Write.simps) (simp only: Let_def k [symmetric] E C option.case prod.case length_greater_0_conv simp_thms if_True not_False_eq_True)
    moreover have "\<exists>e'. hex_encoder_Write collect ?e (drop k p) (n + int k) = Some (e', n + int k + int (length (drop k p)), None)
        \<and> enc_w e' = enc_w ?e @ hex_of (drop k p)"
      using kp lo(1) False by (intro less.hyps) simp_all
    moreover have "hex_of (take k p) @ hex_of (drop k p) = hex_of p" by (simp flip: hex_of_append)
    ultimately show ?thesis using kp by (auto simp: of_nat_diff)
  qed
qed

text \<open>
  C34. Hexadecimal streams: writing to an encoder passes the whole encoding on to the writer, in chunks. Reading from a
  decoder over a \<open>bytes.Reader\<close>, with buffers of any sizes, never panics and delivers the decoding of the input in
  order; once \<open>io.EOF\<close> or an invalid byte has been reported everything before it has been delivered; and as many reads
  with buffers that are not empty as there are bytes to decode deliver them all.
\<close>

theorem hex_streams:
  assumes "length (fst (hex_spec s)) \<le> length ps" and "[] \<notin> set ps"
  shows "(\<exists>e'. hex_encoder_Write collect (hex_NewEncoder []) src 0 = Some (e', int (length src), None) \<and> enc_w e' = hex_of src)
    \<and> (\<exists>rs rest. hex_read_all Reader_Read (hex_NewDecoder (bytes_NewReader s)) qs = Some rs
        \<and> fst (hex_spec s) = concat (map fst rs) @ rest
        \<and> (rest = [] \<or> list_all (\<lambda>(_, e). e \<noteq> Some (hex_io io_EOF) \<and> (\<nexists>c. e = Some (InvalidByteError c))) rs))
    \<and> (\<exists>rs. hex_read_all Reader_Read (hex_NewDecoder (bytes_NewReader s)) ps = Some rs
        \<and> concat (map fst rs) = fst (hex_spec s))"
proof -
  let ?d = "hex_NewDecoder (bytes_NewReader s)"
  have d: "br.pinv ?d" "br.dinv ?d" "br.leftover ?d = fst (hex_spec s)"
    by (simp_all add: br.pinv_def br.dinv_def br.leftover_def br.failed_def hex_NewDecoder_def reader_inv_def unread_def bytes_NewReader_def)
  have "\<exists>rs rest. hex_read_all Reader_Read ?d qs = Some rs \<and> fst (hex_spec s) = concat (map fst rs) @ rest
        \<and> (rest = [] \<or> list_all (\<lambda>(_, e). e \<noteq> Some (hex_io io_EOF) \<and> (\<nexists>c. e = Some (InvalidByteError c))) rs)"
  proof -
    obtain rs d' where R: "hex_read_all Reader_Read ?d qs = Some rs" "br.leftover ?d = concat (map fst rs) @ br.leftover d'"
      "(\<exists>r \<in> set rs. snd r = Some (hex_io io_EOF) \<or> (\<exists>c. snd r = Some (InvalidByteError c))) \<longrightarrow> br.leftover d' = []"
      using br.Read_all [OF d(2), of qs] by blast
    show ?thesis
    proof (intro exI conjI)
      show "hex_read_all Reader_Read ?d qs = Some rs" "fst (hex_spec s) = concat (map fst rs) @ br.leftover d'" using R(1,2) d(3) by simp_all
      show "br.leftover d' = [] \<or> list_all (\<lambda>(_, e). e \<noteq> Some (hex_io io_EOF) \<and> (\<nexists>c. e = Some (InvalidByteError c))) rs"
        using R(3) unfolding list_all_iff split_beta by blast
    qed
  qed
  moreover have "\<exists>rs. hex_read_all Reader_Read ?d ps = Some rs \<and> concat (map fst rs) = fst (hex_spec s)"
    using br.Read_complete [OF d(1), of ps] d(3) assms by simp
  ultimately show ?thesis
    using hex_encoder_Write_collects [of "hex_NewEncoder []" src 0] by (simp add: hex_NewEncoder_def)
qed

theorem hex_streams_witness:
  "\<exists>rs. hex_read_all Reader_Read (hex_NewDecoder (bytes_NewReader [48, 65])) [[0]] = Some rs \<and> concat (map fst rs) = [10]"
proof -
  have "hex_spec [48, 65] = ([10], None)" by code_simp
  then show ?thesis using hex_streams [of "[48, 65]" "[[0]]" "[]" "[]"] by simp
qed

end
