(* ===== verification/Hex_Dump_Correct.thy ===== *)
theory Hex_Dump_Correct
  imports Hex_Dump Hex_Correct
begin

text \<open>
  What a hex dump is, line by line, and that the dumper writes it whatever the slices its data arrives in: the state holds the
  lines finished and the cells of the unfinished one.
\<close>

section \<open>The format of a dump\<close>

text \<open>
  A line shows the offset in eight digits, sixteen cells and the right column. A cell is two digits, or two blanks where the
  data has ended, and a separator: one more blank after the eighth, and a blank and a bar after the last.
\<close>

definition dump_sep :: "nat \<Rightarrow> byte list" where
  "dump_sep i = 32 # (if i = 7 then [32] else if i = 15 then [32, 124] else [])"

definition dump_offset :: "nat \<Rightarrow> byte list" where
  "dump_offset o' = hex_of [of_nat (o' div 2 ^ 24), of_nat (o' div 2 ^ 16), of_nat (o' div 2 ^ 8), of_nat o'] @ [32, 32]"

definition dump_cells :: "byte list \<Rightarrow> nat \<Rightarrow> nat \<Rightarrow> byte list" where
  "dump_cells xs i j = concat (map (\<lambda>i. (if i < length xs then hex_of [xs ! i] else [32, 32]) @ dump_sep i) [i..<j])"

definition dump_line :: "nat \<Rightarrow> byte list \<Rightarrow> byte list" where
  "dump_line o' xs = dump_offset o' @ dump_cells xs 0 16 @ map hex_toChar xs @ [124, 10]"

function dump_lines :: "nat \<Rightarrow> byte list \<Rightarrow> byte list" where
  "dump_lines o' xs = (if xs = [] then [] else dump_line o' (take 16 xs) @ dump_lines (o' + 16) (drop 16 xs))"
  by pat_completeness auto
termination
  by (relation "measure (\<lambda>(_, xs). length xs)") auto

declare dump_lines.simps [simp del]

lemma dump_lines_Nil [simp]: "dump_lines o' [] = []"
  by (subst dump_lines.simps) simp

lemma dump_lines_last: "xs \<noteq> [] \<Longrightarrow> length xs \<le> 16 \<Longrightarrow> dump_lines o' xs = dump_line o' xs"
  by (subst dump_lines.simps) simp

lemma dump_lines_append:
  assumes "16 dvd length xs"
  shows "dump_lines o' (xs @ ys) = dump_lines o' xs @ dump_lines (o' + length xs) ys"
  using assms
proof (induction o' xs rule: dump_lines.induct)
  case (1 o' xs)
  show ?case
  proof (cases "xs = []")
    case False
    then have "16 \<le> length xs" using 1(2) by (auto dest: dvd_imp_le)
    then show ?thesis
      using False 1 by (simp add: dump_lines.simps [of o' xs] dump_lines.simps [of o' "xs @ ys"] ac_simps)
  qed simp
qed

lemma length_dump_cells: "length (dump_cells xs 0 16) = 51"
proof -
  have "length (dump_cells xs 0 16) = sum_list (map (\<lambda>i. 2 + length (dump_sep i)) [0..<16])"
    by (auto simp: dump_cells_def length_concat length_hex_of comp_def intro!: arg_cong [where f = sum_list])
  also have "\<dots> = 51" by code_simp
  finally show ?thesis .
qed

lemma length_dump_line: "length (dump_line o' xs) = 63 + length xs"
  by (simp add: dump_line_def dump_offset_def length_hex_of length_dump_cells)

lemma length_dump_lines: "length (dump_lines o' xs) = 63 * ((length xs + 15) div 16) + length xs"
proof (induction o' xs rule: dump_lines.induct)
  case (1 o' xs)
  show ?case
  proof (cases "xs = []")
    case False
    have "Suc ((length (drop 16 xs) + 15) div 16) = (length xs + 15) div 16 "
    proof (cases "16 \<le> length xs")
      case True
      then have "length xs + 15 = (length (drop 16 xs) + 15) + 1 * 16" by simp
      then show ?thesis by (simp only: div_mult_self1)
    next
      case s: False
      then have "length xs + 15 = length xs - 1 + 1 * 16" "length xs - 1 < 16" using False by (cases xs; simp)+
      then have "(length xs + 15) div 16 = 1" by simp
      then show ?thesis using s by simp
    qed
    moreover have "length (take 16 xs) + length (drop 16 xs) = length xs" by simp
    ultimately show ?thesis using 1 False by (simp add: dump_lines.simps [of o' xs] length_dump_line)
  qed simp
qed

lemma dump_lines_bound: "length (dump_lines o' xs) \<le> (1 + (length xs - 1) div 16) * 79"
proof (cases "xs = []")
  case False
  then have "length xs + 15 = length xs - 1 + 1 * 16" by (cases xs) simp_all
  then have k: "(length xs + 15) div 16 = (length xs - 1) div 16 + 1" by (simp only: div_mult_self1)
  have "length xs - 1 < 16 * ((length xs - 1) div 16 + 1)" using dividend_less_times_div [of 16 "length xs - 1"] by simp
  then show ?thesis unfolding length_dump_lines k by simp
qed simp

lemma dump_cells_snoc: "i \<le> j \<Longrightarrow> dump_cells xs i (Suc j) = dump_cells xs i j @ (if j < length xs then hex_of [xs ! j] else [32, 32]) @ dump_sep j"
  by (simp add: dump_cells_def)

lemma dump_cells_prefix: "j \<le> length xs \<Longrightarrow> dump_cells (xs @ ys) i j = dump_cells xs i j"
  by (auto simp: dump_cells_def nth_append intro!: arg_cong [where f = concat])

lemma dump_cells_append: "i \<le> j \<Longrightarrow> j \<le> k \<Longrightarrow> dump_cells xs i j @ dump_cells xs j k = dump_cells xs i k"
  using upt_add_eq_append [of i j "k - j"] by (simp add: dump_cells_def flip: concat_append map_append)

section \<open>The dumper writes it\<close>

text \<open>The state after the bytes of the complete lines \<open>full\<close> and of the unfinished line \<open>cur\<close>.\<close>

definition dump_partial :: "nat \<Rightarrow> byte list \<Rightarrow> byte list" where
  "dump_partial o' xs = (if xs = [] then [] else dump_offset o' @ dump_cells xs 0 (length xs))"

definition dumper_inv :: "byte list \<Rightarrow> byte list \<Rightarrow> byte list \<Rightarrow> byte list hex_dumper \<Rightarrow> bool" where
  "dumper_inv b full cur h \<longleftrightarrow>
     16 dvd length full \<and> length cur < 16 \<and> du_used h = length cur \<and> \<not> du_closed h \<and>
     du_n h = of_nat (length full + length cur) \<and> length (du_buf h) = 14 \<and> length (du_rightChars h) = 18 \<and>
     take (length cur) (du_rightChars h) = map hex_toChar cur \<and>
     du_w h = b @ dump_lines 0 full @ dump_partial (length full) cur"

lemma ucast_drop_bit_of_nat:
  assumes "k \<le> 56"
  shows "ucast (drop_bit k (of_nat m :: uint64)) = (of_nat (m div 2 ^ k) :: byte)"
proof (rule bit_word_eqI)
  fix i assume "i < LENGTH(8)"
  then show "bit (ucast (drop_bit k (of_nat m :: uint64)) :: byte) i = bit (of_nat (m div 2 ^ k) :: byte) i"
    using assms by (simp add: bit_simps flip: drop_bit_eq_div)
qed

lemma update4: "4 \<le> length xs \<Longrightarrow> xs[0 := a, 1 := b, 2 := c, 3 := d] = [a, b, c, d] @ drop 4 xs"
  by (auto simp: Suc_le_length_iff numeral_eq_Suc)

lemma dump_buf:
  assumes "length hi = 8" "length xs = 14"
  shows "([a, b, c, d] @ hi @ drop 12 xs)[12 := e, 13 := f] = [a, b, c, d] @ hi @ [e, f]"
proof -
  have "length (drop 12 xs) = 2" using assms by simp
  then obtain y z where "drop 12 xs = [y, z]" unfolding numeral_2_eq_2 length_Suc_conv by auto
  then show ?thesis using assms by (simp add: list_update_append numeral_eq_Suc)
qed

lemma du_write_Builder: "du_write Builder_Write h p = (h\<lparr>du_w := du_w h @ p\<rparr>, None)"
  by (simp add: du_write_def Builder_Write_def)

lemma du_offset_exact:
  assumes "du_n h = of_nat m" "length (du_buf h) = 14"
  obtains buf where "length buf = 14" and "du_offset Builder_Write h =
     Some (if du_used h = 0 then h\<lparr>du_buf := buf, du_w := du_w h @ dump_offset m\<rparr> else h, None)"
proof -
  let ?o = "[of_nat (m div 2 ^ 24), of_nat (m div 2 ^ 16), of_nat (m div 2 ^ 8), of_nat m] :: byte list"
  have n: "ucast (drop_bit 24 (du_n h)) = ?o ! 0" "ucast (drop_bit 16 (du_n h)) = ?o ! 1"
    "ucast (drop_bit 8 (du_n h)) = ?o ! 2" "ucast (du_n h) = ?o ! 3"
    using assms(1) ucast_drop_bit_of_nat [of 24 m] ucast_drop_bit_of_nat [of 16 m] ucast_drop_bit_of_nat [of 8 m]
      ucast_drop_bit_of_nat [of 0 m] by simp_all
  let ?b = "?o @ hex_of ?o @ [32, 32]"
  have l: "length (hex_of ?o) = 8" by (simp add: length_hex_of)
  have "(take 4 (?o @ drop 4 (du_buf h)) @ hex_of ?o @ drop 8 (drop 4 (?o @ drop 4 (du_buf h))))[12 := 32, 13 := 32] = ?b"
    using dump_buf [OF l assms(2)] by simp
  then have "du_offset Builder_Write h =
     Some (if du_used h = 0 then h\<lparr>du_buf := ?b, du_w := du_w h @ dump_offset m\<rparr> else h, None)"
    using assms(2)
    by (simp add: du_offset_def update4 [simplified] n Let_def hex_Encode_exact du_write_Builder dump_offset_def)
  moreover have "length ?b = 14" using l by simp
  ultimately show thesis using that by blast
qed

lemma du_cell_exact:
  assumes "length (du_buf h) = 14"
  obtains buf where "length buf = 14" and
    "du_cell Builder_Write h b = Some (h\<lparr>du_buf := buf, du_w := du_w h @ hex_of [b] @ dump_sep (du_used h)\<rparr>, None)"
proof -
  obtain x y where d: "hex_of [b] = [x, y]" by (simp add: hex_of_def)
  have "5 \<le> length (du_buf h)" using assms by simp
  then obtain a0 a1 a2 a3 a4 r where r: "du_buf h = a0 # a1 # a2 # a3 # a4 # r"
    by (auto simp: Suc_le_length_iff numeral_eq_Suc)
  let ?b = "x # y # 32 # (if du_used h = 7 then [32, a4] else if du_used h = 15 then [32, 124] else [a3, a4]) @ r"
  have "du_cell Builder_Write h b = Some (h\<lparr>du_buf := ?b, du_w := du_w h @ hex_of [b] @ dump_sep (du_used h)\<rparr>, None)"
    using r by (simp add: du_cell_def hex_Encode_exact d du_write_Builder dump_sep_def numeral_eq_Suc)
  moreover have "length ?b = 14" using assms r by simp
  ultimately show thesis using that by blast
qed

lemma take_update_snoc: "k < length xs \<Longrightarrow> take (Suc k) (xs[k := v]) = take k xs @ [v]"
  by (simp add: take_Suc_conv_app_nth)

lemma full_column:
  assumes "length xs = 18" "take 16 xs = ys"
  shows "xs[16 := a, 17 := c] = ys @ [a, c]"
proof -
  have "length (drop 16 xs) = 2" using assms by simp
  then obtain y z where "drop 16 xs = [y, z]" unfolding numeral_2_eq_2 length_Suc_conv by auto
  then have "xs = ys @ [y, z]" using assms(2) append_take_drop_id [of 16 xs] by simp
  moreover have "length ys = 16" using assms by auto
  ultimately show ?thesis by (simp add: list_update_append)
qed

lemma dumper_step:
  assumes inv: "dumper_inv b full cur h"
  obtains h' where "hex_dumper_loop Builder_Write h (x # data) n = hex_dumper_loop Builder_Write h' data (n + 1)"
    and "if length cur = 15 then dumper_inv b (full @ cur @ [x]) [] h' else dumper_inv b full (cur @ [x]) h'"
proof -
  note i = inv [unfolded dumper_inv_def]
  let ?m = "length full + length cur"
  obtain b1 where b1: "length b1 = 14" and o1: "du_offset Builder_Write h =
     Some (if du_used h = 0 then h\<lparr>du_buf := b1, du_w := du_w h @ dump_offset ?m\<rparr> else h, None)"
    using du_offset_exact [of h ?m] i by metis
  define h1 where "h1 = (if du_used h = 0 then h\<lparr>du_buf := b1, du_w := du_w h @ dump_offset ?m\<rparr> else h)"
  have h1: "length (du_buf h1) = 14" "du_used h1 = length cur" "du_n h1 = of_nat ?m" "\<not> du_closed h1"
    "du_rightChars h1 = du_rightChars h"
    "du_w h1 = b @ dump_lines 0 full @ dump_offset (length full) @ dump_cells cur 0 (length cur)"
    using i b1 by (auto simp: h1_def dump_partial_def dump_cells_def)
  obtain b2 where b2: "length b2 = 14" and o2: "du_cell Builder_Write h1 x =
     Some (h1\<lparr>du_buf := b2, du_w := du_w h1 @ hex_of [x] @ dump_sep (length cur)\<rparr>, None)"
    using du_cell_exact [OF h1(1)] h1(2) by metis
  define h2 where "h2 = h1\<lparr>du_buf := b2, du_w := du_w h1 @ hex_of [x] @ dump_sep (length cur)\<rparr>"
  let ?w = "b @ dump_lines 0 full @ dump_offset (length full) @ dump_cells (cur @ [x]) 0 (Suc (length cur))"
  have c: "dump_cells (cur @ [x]) 0 (Suc (length cur)) = dump_cells cur 0 (length cur) @ hex_of [x] @ dump_sep (length cur)"
    by (simp add: dump_cells_snoc dump_cells_prefix)
  have h2: "length (du_buf h2) = 14" "du_used h2 = length cur" "du_n h2 = of_nat ?m" "\<not> du_closed h2"
    "du_rightChars h2 = du_rightChars h" "du_w h2 = ?w"
    using h1 b2 c by (simp_all add: h2_def)
  let ?rc = "(du_rightChars h)[length cur := hex_toChar x]"
  have rc: "length ?rc = 18" "take (Suc (length cur)) ?rc = map hex_toChar (cur @ [x])"
    using i by (simp_all add: take_update_snoc)
  define h3 where "h3 = h2\<lparr>du_rightChars := ?rc, du_used := Suc (length cur), du_n := of_nat ?m + 1\<rparr>"
  define h4 where "h4 = h3\<lparr>du_rightChars := map hex_toChar (cur @ [x]) @ [124, 10], du_used := 0,
     du_w := ?w @ map hex_toChar (cur @ [x]) @ [124, 10]\<rparr>"
  have l15: "?rc[16 := 124, 17 := 10] = map hex_toChar (cur @ [x]) @ [124, 10]" if "length cur = 15"
    using that rc by (intro full_column) simp_all
  have o3: "du_right Builder_Write h2 x = Some (if length cur = 15 then h4 else h3, None)"
    using i h2 l15 by (simp add: du_right_def Let_def du_write_Builder h3_def h4_def)
  have loop: "hex_dumper_loop Builder_Write h (x # data) n =
      hex_dumper_loop Builder_Write (if length cur = 15 then h4 else h3) data (n + 1)"
    using o1 o2 o3 by (simp flip: h1_def h2_def)
  have "dumper_inv b full (cur @ [x]) h3" if "length cur \<noteq> 15"
    using that i h2 rc by (simp add: dumper_inv_def h3_def dump_partial_def)
  moreover have "dumper_inv b (full @ cur @ [x]) [] h4" if "length cur = 15"
    using that i h2 by (simp add: dumper_inv_def h4_def h3_def dump_partial_def dump_lines_append dump_lines_last dump_line_def)
  ultimately show thesis using that [OF loop] by simp
qed

lemma dumper_loop_exact:
  assumes "dumper_inv b full cur h"
  obtains h' full' cur' where "hex_dumper_loop Builder_Write h data n = Some (h', n + length data, None)"
    and "dumper_inv b full' cur' h'" and "full' @ cur' = full @ cur @ data"
  using assms
proof (induction data arbitrary: full cur h n thesis)
  case (Cons x data)
  obtain h1 where h1: "hex_dumper_loop Builder_Write h (x # data) n = hex_dumper_loop Builder_Write h1 data (n + 1)"
    and i1: "if length cur = 15 then dumper_inv b (full @ cur @ [x]) [] h1 else dumper_inv b full (cur @ [x]) h1"
    using dumper_step [OF Cons.prems(2)] by metis
  define f1 where "f1 = (if length cur = 15 then full @ cur @ [x] else full)"
  define c1 where "c1 = (if length cur = 15 then [] else cur @ [x])"
  have "dumper_inv b f1 c1 h1" and f1: "f1 @ c1 = full @ cur @ [x]" using i1 by (auto simp: f1_def c1_def)
  then obtain h' full' cur' where "hex_dumper_loop Builder_Write h1 data (n + 1) = Some (h', n + 1 + length data, None)"
    "dumper_inv b full' cur' h'" "full' @ cur' = f1 @ c1 @ data"
    using Cons.IH by blast
  then show ?case using Cons.prems(1) [of h' full' cur'] h1 f1 by simp
qed auto

text \<open>\<open>Close\<close> pads the unfinished line with blanks and writes its right column.\<close>

lemma du_pad_exact:
  assumes "length xs \<le> du_used h" and "du_used h \<le> 16" and "take 5 (du_buf h) = [32, 32, 32, 32, 124]"
  shows "du_pad Builder_Write h = (h\<lparr>du_used := 16, du_w := du_w h @ dump_cells xs (du_used h) 16\<rparr>, None)"
  using assms
proof (induction "16 - du_used h" arbitrary: h)
  case 0
  then have "du_used h = 16" by simp
  then show ?case by (simp add: du_pad.simps [of _ h] dump_cells_def)
next
  case (Suc k)
  let ?u = "du_used h" and ?l = "if du_used h = 7 then 4 else if du_used h = 15 then 5 else 3 :: nat"
  let ?h = "h\<lparr>du_w := du_w h @ take ?l (du_buf h), du_used := Suc ?u\<rparr>"
  have u: "?u < 16" using Suc by simp
  have "take ?l (du_buf h) = take ?l (take 5 (du_buf h))" by simp
  then have cell: "take ?l (du_buf h) = [32, 32] @ dump_sep ?u"
    unfolding Suc.prems(3) by (simp add: dump_sep_def numeral_eq_Suc)
  have "dump_cells xs ?u 16 = dump_cells xs ?u (Suc ?u) @ dump_cells xs (Suc ?u) 16"
    using u by (simp add: dump_cells_append)
  also have "dump_cells xs ?u (Suc ?u) = [32, 32] @ dump_sep ?u" using Suc.prems(1) by (simp add: dump_cells_def)
  finally have c: "dump_cells xs ?u 16 = take ?l (du_buf h) @ dump_cells xs (Suc ?u) 16" using cell by simp
  have "du_pad Builder_Write h = du_pad Builder_Write ?h"
    using u by (simp add: du_pad.simps [of _ h] du_write_Builder)
  also have "\<dots> = (?h\<lparr>du_used := 16, du_w := du_w ?h @ dump_cells xs (Suc ?u) 16\<rparr>, None)"
    using Suc.hyps(1) [of ?h] Suc.hyps(2) Suc.prems u by simp
  finally show ?case using c by simp
qed

lemma dumper_Close_exact:
  assumes inv: "dumper_inv b full cur h"
  obtains h' where "hex_dumper_Close Builder_Write h = Some (h', None)"
    and "du_w h' = b @ dump_lines 0 (full @ cur)" and "du_closed h'"
proof (cases "cur = []")
  case True
  then show thesis
    using inv that [of "h\<lparr>du_closed := True\<rparr>"] by (simp add: hex_dumper_Close_def dumper_inv_def dump_partial_def)
next
  case False
  note i = inv [unfolded dumper_inv_def]
  let ?k = "length cur"
  let ?buf = "(du_buf h)[0 := 32, 1 := 32, 2 := 32, 3 := 32, 4 := 124]"
  let ?h = "h\<lparr>du_closed := True, du_buf := ?buf\<rparr>"
  have "5 \<le> length (du_buf h)" using i by simp
  then have "take 5 ?buf = [32, 32, 32, 32, 124]" by (auto simp: Suc_le_length_iff numeral_eq_Suc)
  then have pad: "du_pad Builder_Write ?h = (?h\<lparr>du_used := 16, du_w := du_w h @ dump_cells cur ?k 16\<rparr>, None)"
    using i du_pad_exact [of cur ?h] by simp
  let ?rc = "(du_rightChars h)[?k := 124, ?k + 1 := 10]"
  have "take (?k + 2) ?rc = take ?k (du_rightChars h) @ [124, 10]" using i by (intro store_two) simp
  then have rc: "take (Suc (Suc ?k)) ?rc = map hex_toChar cur @ [124, 10]" using i by simp
  let ?h' = "?h\<lparr>du_used := 16, du_w := du_w h @ dump_cells cur ?k 16 @ map hex_toChar cur @ [124, 10], du_rightChars := ?rc\<rparr>"
  have "hex_dumper_Close Builder_Write h = Some (?h', None)"
    using False i pad rc by (simp add: hex_dumper_Close_def Let_def du_write_Builder)
  moreover have "dump_cells cur 0 ?k @ dump_cells cur ?k 16 = dump_cells cur 0 16" using i by (simp add: dump_cells_append)
  then have "dump_cells cur 0 ?k @ dump_cells cur ?k 16 @ z = dump_cells cur 0 16 @ z" for z by (metis append.assoc)
  then have "du_w ?h' = b @ dump_lines 0 (full @ cur)"
    using False i by (simp add: dump_partial_def dump_lines_append dump_lines_last dump_line_def)
  ultimately show thesis using that by simp
qed

text \<open>A client that writes the slices \<open>ps\<close> one after the other: the state after them and the counts returned.\<close>

fun dumper_Writes :: "'w hex_writer \<Rightarrow> 'w hex_dumper \<Rightarrow> byte list list \<Rightarrow> ('w hex_dumper \<times> nat list) option" where
  "dumper_Writes write h [] = Some (h, [])"
| "dumper_Writes write h (p # ps) =
     (case hex_dumper_Write write h p of
        Some (h, n, None) \<Rightarrow> map_option (apsnd ((#) n)) (dumper_Writes write h ps)
      | _ \<Rightarrow> None)"

lemma dumper_Writes_exact:
  assumes "dumper_inv b full cur h"
  obtains h' full' cur' where "dumper_Writes Builder_Write h ps = Some (h', map length ps)"
    and "dumper_inv b full' cur' h'" and "full' @ cur' = full @ cur @ concat ps"
  using assms
proof (induction ps arbitrary: full cur h thesis)
  case (Cons p ps)
  obtain h1 f1 c1 where h1: "hex_dumper_loop Builder_Write h p 0 = Some (h1, 0 + length p, None)"
    and i1: "dumper_inv b f1 c1 h1" and f1: "f1 @ c1 = full @ cur @ p"
    using dumper_loop_exact [OF Cons.prems(2)] by metis
  obtain h' full' cur' where "dumper_Writes Builder_Write h1 ps = Some (h', map length ps)"
    "dumper_inv b full' cur' h'" "full' @ cur' = f1 @ c1 @ concat ps"
    using Cons.IH i1 by blast
  moreover have "\<not> du_closed h" using Cons.prems(2) by (simp add: dumper_inv_def)
  ultimately show ?case using Cons.prems(1) [of h' full' cur'] h1 f1 by (simp add: hex_dumper_Write_def)
qed auto

lemma dumper_inv_Dumper: "dumper_inv b [] [] (hex_Dumper b)"
  by (simp add: dumper_inv_def hex_Dumper_def dump_partial_def)

lemma dumper_session:
  obtains h h' where "dumper_Writes Builder_Write (hex_Dumper b) ps = Some (h, map length ps)"
    and "hex_dumper_Close Builder_Write h = Some (h', None)" and "du_w h' = b @ dump_lines 0 (concat ps)" and "du_closed h'"
proof -
  obtain h full cur where w: "dumper_Writes Builder_Write (hex_Dumper b) ps = Some (h, map length ps)"
    and i: "dumper_inv b full cur h" and f: "full @ cur = concat ps"
    using dumper_Writes_exact [OF dumper_inv_Dumper, of b ps] by auto
  show thesis using dumper_Close_exact [OF i] that [OF w] f by metis
qed

lemma hex_Dump_lines: "hex_Dump data = Some (dump_lines 0 data)"
proof (cases "data = []")
  case False
  obtain h h' where "dumper_Writes Builder_Write (hex_Dumper []) [data] = Some (h, map length [data])"
    "hex_dumper_Close Builder_Write h = Some (h', None)" "du_w h' = [] @ dump_lines 0 (concat [data])"
    by (rule dumper_session)
  then show ?thesis
    using False by (auto simp: hex_Dump_def Builder_Grow_def split: option.splits)
qed (simp add: hex_Dump_def)

lemma dumper_closed:
  assumes "du_closed h"
  shows "hex_dumper_Write write h p = Some (h, 0, Some hex_dumper_closed)" and "hex_dumper_Close write h = Some (h, None)"
  using assms by (simp_all add: hex_dumper_Write_def hex_dumper_Close_def)

text \<open>
  C35. However the data is split over the calls, Dumper, the Writes and Close put the hex dump of all of it after what the writer
  held before: every Write returns the length of its slice and no error; after Close another Write is refused and another
  Close does nothing. Dump returns the hex dump of its argument, whose length never exceeds the space Dump reserves for it.
\<close>

theorem hex_dump_format:
  "(\<exists>h h'. dumper_Writes Builder_Write (hex_Dumper b) ps = Some (h, map length ps) \<and>
      hex_dumper_Close Builder_Write h = Some (h', None) \<and> du_w h' = b @ dump_lines 0 (concat ps) \<and>
      hex_dumper_Write Builder_Write h' p = Some (h', 0, Some hex_dumper_closed) \<and>
      hex_dumper_Close Builder_Write h' = Some (h', None)) \<and>
   hex_Dump data = Some (dump_lines 0 data) \<and>
   length (dump_lines 0 data) \<le> (1 + (length data - 1) div 16) * 79"
proof (intro conjI)
  show "length (dump_lines 0 data) \<le> (1 + (length data - 1) div 16) * 79" by (rule dump_lines_bound)
qed (use hex_Dump_lines dumper_session [of b ps] dumper_closed in metis)+

text \<open>
  A writer that fails when the right column of a full line is written leaves \<open>used\<close> at 16: the third byte written after that
  is stored beyond \<open>rightChars\<close>.
\<close>

definition flaky :: "nat hex_writer" where
  "flaky k p = (k + 1, int (length p), if k = 17 then Some io_EOF else None)"

lemma flaky_line: "map_option snd (hex_dumper_Write flaky (hex_Dumper 0) (replicate 16 65)) = Some (16, Some (hex_dump_io io_EOF))"
  by code_simp

lemma flaky_next:
  "Option.is_none (hex_dumper_Write flaky (fst (the (hex_dumper_Write flaky (hex_Dumper 0) (replicate 16 65)))) [65, 65, 65])"
  by code_simp

lemma dumper_store_panics:
  "\<exists>h. hex_dumper_Write flaky (hex_Dumper 0) (replicate 16 65) = Some (h, 16, Some (hex_dump_io io_EOF)) \<and>
       hex_dumper_Write flaky h [65, 65, 65] = None"
  using flaky_line flaky_next by (auto simp: Option.is_none_def)

end
