(* ===== verification/Path.thy ===== *)
theory Path
  imports Prelude
begin

text \<open>
  Package \<open>path\<close>: \<open>Clean\<close> with its lazily allocated buffer, and the functions that take paths apart and join them. A path
  is a byte list; \<open>None\<close> is the panic of an access beyond a slice.
\<close>

section \<open>The lazy buffer\<close>

fun bytealg_last_loop :: "byte list \<Rightarrow> byte \<Rightarrow> nat \<Rightarrow> int" where
  "bytealg_last_loop s c 0 = - 1"
| "bytealg_last_loop s c (Suc i) = (if s ! i = c then int i else bytealg_last_loop s c i)"

definition bytealg_LastIndexByteString :: "byte list \<Rightarrow> byte \<Rightarrow> int" where
  "bytealg_LastIndexByteString s c = bytealg_last_loop s c (length s)"

record lazybuf =
  lb_s :: "byte list"
  lb_buf :: "byte list option"
  lb_w :: nat

definition lazybuf_index :: "lazybuf \<Rightarrow> nat \<Rightarrow> byte option" where
  "lazybuf_index b i = (case lb_buf b of Some buf \<Rightarrow> go_index buf i | None \<Rightarrow> go_index (lb_s b) i)"

definition lazybuf_append :: "lazybuf \<Rightarrow> byte \<Rightarrow> lazybuf option" where
  "lazybuf_append b c =
     (if lb_buf b = None \<and> lb_w b < length (lb_s b) \<and> lb_s b ! lb_w b = c then Some (b\<lparr>lb_w := lb_w b + 1\<rparr>)
      else
        let buf = (case lb_buf b of
                     None \<Rightarrow> take (lb_w b) (lb_s b) @ replicate (length (lb_s b) - lb_w b) 0
                   | Some buf \<Rightarrow> buf) in
        map_option (\<lambda>buf. b\<lparr>lb_buf := Some buf, lb_w := lb_w b + 1\<rparr>) (go_store buf (lb_w b) c))"

definition lazybuf_string :: "lazybuf \<Rightarrow> byte list option" where
  "lazybuf_string b =
     (let buf = (case lb_buf b of None \<Rightarrow> lb_s b | Some buf \<Rightarrow> buf) in
      if lb_w b \<le> length buf then Some (take (lb_w b) buf) else None)"

section \<open>Clean\<close>

text \<open>Backtracking to the last slash, and copying an element.\<close>

function path_backtrack :: "nat \<Rightarrow> lazybuf \<Rightarrow> lazybuf option" where
  "path_backtrack dotdot out =
     (if dotdot < lb_w out then
        case lazybuf_index out (lb_w out) of
          None \<Rightarrow> None
        | Some c \<Rightarrow> if c \<noteq> 47 then path_backtrack dotdot (out\<lparr>lb_w := lb_w out - 1\<rparr>) else Some out
      else Some out)"
  by pat_completeness auto
termination
  by (relation "measure (\<lambda>(dotdot, out). lb_w out)") auto

function path_copy :: "byte list \<Rightarrow> nat \<Rightarrow> lazybuf \<Rightarrow> (lazybuf \<times> nat) option" where
  "path_copy path r out =
     (if r < length path \<and> path ! r \<noteq> 47 then
        case lazybuf_append out (path ! r) of
          None \<Rightarrow> None
        | Some out \<Rightarrow> path_copy path (r + 1) out
      else Some (out, r))"
  by pat_completeness auto
termination
  by (relation "measure (\<lambda>(path, r, out). length path - r)") auto

declare path_backtrack.simps [simp del] path_copy.simps [simp del]

text \<open>The two cases of the loop that write: a \<open>..\<close> element, and a real element.\<close>

definition path_dotdot :: "bool \<Rightarrow> lazybuf \<Rightarrow> nat \<Rightarrow> (lazybuf \<times> nat) option" where
  "path_dotdot rooted out dotdot =
     (if dotdot < lb_w out then
        map_option (\<lambda>out. (out, dotdot)) (path_backtrack dotdot (out\<lparr>lb_w := lb_w out - 1\<rparr>))
      else if \<not> rooted then
        Option.bind (if 0 < lb_w out then lazybuf_append out 47 else Some out) (\<lambda>out.
        Option.bind (lazybuf_append out 46) (\<lambda>out.
        Option.bind (lazybuf_append out 46) (\<lambda>out. Some (out, lb_w out))))
      else Some (out, dotdot))"

definition path_element :: "bool \<Rightarrow> byte list \<Rightarrow> nat \<Rightarrow> lazybuf \<Rightarrow> (lazybuf \<times> nat) option" where
  "path_element rooted path r out =
     Option.bind (if rooted \<and> lb_w out \<noteq> 1 \<or> \<not> rooted \<and> lb_w out \<noteq> 0 then lazybuf_append out 47 else Some out)
       (\<lambda>out. path_copy path r out)"

lemma path_copy_mono: "path_copy path r out = Some (out', r') \<Longrightarrow> r \<le> r'"
proof (induction path r out rule: path_copy.induct)
  case (1 path r out)
  then show ?case by (subst (asm) (2) path_copy.simps) (auto split: if_splits option.splits)
qed

lemma path_copy_advances:
  assumes "path_copy path r out = Some (out', r')" and "r < length path" and "path ! r \<noteq> 47"
  shows "r < r'"
  using assms by (subst (asm) path_copy.simps) (auto split: option.splits dest: path_copy_mono)

function path_loop :: "byte list \<Rightarrow> bool \<Rightarrow> nat \<Rightarrow> nat \<Rightarrow> lazybuf \<Rightarrow> lazybuf option" where
  "path_loop path rooted r dotdot out =
     (let n = length path in
      if r < n then
        if path ! r = 47 then path_loop path rooted (r + 1) dotdot out
        else if path ! r = 46 \<and> (r + 1 = n \<or> path ! (r + 1) = 47) then path_loop path rooted (r + 1) dotdot out
        else if path ! r = 46 \<and> path ! (r + 1) = 46 \<and> (r + 2 = n \<or> path ! (r + 2) = 47) then
          case path_dotdot rooted out dotdot of
            None \<Rightarrow> None
          | Some (out, dotdot) \<Rightarrow> path_loop path rooted (r + 2) dotdot out
        else
          case path_element rooted path r out of
            None \<Rightarrow> None
          | Some (out, r) \<Rightarrow> path_loop path rooted r dotdot out
      else Some out)"
  by pat_completeness auto
termination
proof (relation "measure (\<lambda>(path, rooted, r, dotdot, out). length path - r)")
  fix path rooted r dotdot out n x out' r'
  assume "n = length path" "r < n" "path ! r \<noteq> 47" "path_element rooted path r out = Some x" "(out', r') = x"
  then have "r < r'" by (auto simp: path_element_def dest: path_copy_advances split: bind_splits)
  then show "((path, rooted, r', dotdot, out'), path, rooted, r, dotdot, out)
      \<in> measure (\<lambda>(path, rooted, r, dotdot, out). length path - r)"
    using \<open>n = length path\<close> \<open>r < n\<close> by auto
qed auto

declare path_loop.simps [simp del]

definition path_Clean :: "byte list \<Rightarrow> byte list option" where
  "path_Clean path =
     (if path = [] then Some [46]
      else
        let rooted = (path ! 0 = 47); out = \<lparr>lb_s = path, lb_buf = None, lb_w = 0\<rparr> in
        case (if rooted then map_option (\<lambda>out. (out, 1, 1)) (lazybuf_append out 47) else Some (out, 0, 0)) of
          None \<Rightarrow> None
        | Some (out, r, dotdot) \<Rightarrow>
            (case path_loop path rooted r dotdot out of
               None \<Rightarrow> None
             | Some out \<Rightarrow> if lb_w out = 0 then Some [46] else lazybuf_string out))"

section \<open>Taking paths apart\<close>

definition path_Split :: "byte list \<Rightarrow> byte list \<times> byte list" where
  "path_Split path = (let i = nat (bytealg_LastIndexByteString path 47 + 1) in (take i path, drop i path))"

fun path_join_loop :: "byte list \<Rightarrow> byte list list \<Rightarrow> byte list" where
  "path_join_loop buf [] = buf"
| "path_join_loop buf (e # elem) =
     path_join_loop
       (if 0 < length buf \<or> e \<noteq> [] then (if 0 < length buf then buf @ [47] else buf) @ e else buf) elem"

definition path_Join :: "byte list list \<Rightarrow> byte list option" where
  "path_Join elem = (if sum_list (map length elem) = 0 then Some [] else path_Clean (path_join_loop [] elem))"

fun path_ext_loop :: "byte list \<Rightarrow> nat \<Rightarrow> byte list" where
  "path_ext_loop path 0 = []"
| "path_ext_loop path (Suc i) =
     (if path ! i = 47 then [] else if path ! i = 46 then drop i path else path_ext_loop path i)"

definition path_Ext :: "byte list \<Rightarrow> byte list" where
  "path_Ext path = path_ext_loop path (length path)"

function path_strip :: "byte list \<Rightarrow> byte list" where
  "path_strip path =
     (if 0 < length path \<and> path ! (length path - 1) = 47 then path_strip (take (length path - 1) path) else path)"
  by pat_completeness auto
termination
  by (relation "measure length") auto

declare path_strip.simps [simp del]

definition path_Base :: "byte list \<Rightarrow> byte list" where
  "path_Base path =
     (if path = [] then [46]
      else
        let path = path_strip path; i = bytealg_LastIndexByteString path 47;
            path = (if 0 \<le> i then drop (nat (i + 1)) path else path) in
        if path = [] then [47] else path)"

definition path_IsAbs :: "byte list \<Rightarrow> bool" where
  "path_IsAbs path \<longleftrightarrow> 0 < length path \<and> path ! 0 = 47"

definition path_Dir :: "byte list \<Rightarrow> byte list option" where
  "path_Dir path = (let (dir, _) = path_Split path in path_Clean dir)"

end
