(* ===== verification/Path_Correct.thy ===== *)
theory Path_Correct
  imports Path
begin

text \<open>
  What a path denotes: its elements, and the stack of elements that is left when \<open>.\<close> and \<open>..\<close> are taken out. \<open>Clean\<close> keeps
  that stack in a buffer it writes in place; the invariant of its loop relates the two.
\<close>

section \<open>The elements of a path\<close>

function path_elems :: "byte list \<Rightarrow> byte list list" where
  "path_elems [] = []"
| "path_elems (c # s) =
     (if c = 47 then path_elems s else (c # takeWhile (\<lambda>c. c \<noteq> 47) s) # path_elems (dropWhile (\<lambda>c. c \<noteq> 47) s))"
  by pat_completeness auto
termination
  by (relation "measure length") (auto simp: le_imp_less_Suc length_dropWhile_le)

text \<open>
  What an element does to the elements before it: \<open>.\<close> nothing; \<open>..\<close> removes the last one, stays where there is none to remove,
  or vanishes at the root.
\<close>

definition path_push :: "bool \<Rightarrow> byte list list \<Rightarrow> byte list \<Rightarrow> byte list list" where
  "path_push rooted st e =
     (if e = [46] then st
      else if e = [46, 46] then
        if st \<noteq> [] \<and> last st \<noteq> [46, 46] then butlast st else if rooted then st else st @ [e]
      else st @ [e])"

fun path_join :: "byte list list \<Rightarrow> byte list" where
  "path_join [] = []"
| "path_join [e] = e"
| "path_join (e # es) = e @ 47 # path_join es"

definition path_render :: "bool \<Rightarrow> byte list list \<Rightarrow> byte list" where
  "path_render rooted st = (if rooted then [47] else []) @ path_join st"

definition path_stack :: "byte list \<Rightarrow> byte list list" where
  "path_stack p = foldl (path_push (path_IsAbs p)) [] (path_elems p)"

definition path_clean :: "byte list \<Rightarrow> byte list" where
  "path_clean p = (let out = path_render (path_IsAbs p) (path_stack p) in if out = [] then [46] else out)"

lemma path_join_snoc: "path_join (es @ [e]) = path_join es @ (if es = [] then [] else [47]) @ e"
  by (induction es rule: path_join.induct) auto

lemma path_render_snoc: "path_render rt (st @ [e]) = path_render rt st @ (if st = [] then [] else [47]) @ e"
  by (simp add: path_render_def path_join_snoc)

lemma path_render_Nil [simp]: "path_render rt [] = (if rt then [47] else [])"
  by (simp add: path_render_def)

text \<open>The elements a stack holds, and its form: leading \<open>..\<close> elements, none of them at the root, then others.\<close>

definition plain :: "byte list \<Rightarrow> bool" where
  "plain e \<longleftrightarrow> e \<noteq> [] \<and> 47 \<notin> set e \<and> e \<noteq> [46] \<and> e \<noteq> [46, 46]"

definition clean_stack :: "bool \<Rightarrow> nat \<Rightarrow> byte list list \<Rightarrow> byte list list \<Rightarrow> bool" where
  "clean_stack rt k es st \<longleftrightarrow> st = replicate k [46, 46] @ es \<and> (rt \<longrightarrow> k = 0) \<and> (\<forall>e \<in> set es. plain e)"

lemma length_render_append:
  assumes "\<forall>e \<in> set es. e \<noteq> []"
  shows "length (path_render rt st) + length es \<le> length (path_render rt (st @ es))"
  using assms
proof (induction es rule: rev_induct)
  case (snoc e es)
  then show ?case using path_render_snoc [of rt "st @ es" e] by (cases e) simp_all
qed simp

lemma clean_stack_elems:
  assumes "clean_stack rt k es st" and "e \<in> set st"
  shows "e \<noteq> [] \<and> 47 \<notin> set e \<and> e \<noteq> [46]"
proof -
  have "e = [46, 46] \<or> plain e" using assms by (auto simp: clean_stack_def)
  then show ?thesis by (elim disjE) (simp_all add: plain_def)
qed

lemma render_nonempty_iff:
  assumes "clean_stack rt k es st"
  shows "length (path_render rt st) = (if rt then 1 else 0) \<longleftrightarrow> st = []"
proof -
  have "\<forall>e \<in> set st. e \<noteq> []" using clean_stack_elems [OF assms] by blast
  then have "length (path_render rt []) + length st \<le> length (path_render rt st)"
    using length_render_append [of st rt "[]"] by simp
  then show ?thesis by (cases st) auto
qed

lemma clean_stack_snoc: "clean_stack rt k es st \<Longrightarrow> plain e \<Longrightarrow> clean_stack rt k (es @ [e]) (st @ [e])"
  by (auto simp: clean_stack_def)

lemma clean_stack_last:
  assumes "clean_stack rt k es st"
  shows "st \<noteq> [] \<and> last st \<noteq> [46, 46] \<longleftrightarrow> es \<noteq> []"
  using assms by (cases es rule: rev_cases; cases k) (auto simp: clean_stack_def plain_def simp flip: replicate_append_same)

section \<open>The lazy buffer\<close>

definition lb_content :: "lazybuf \<Rightarrow> byte list" where
  "lb_content b = (case lb_buf b of None \<Rightarrow> lb_s b | Some buf \<Rightarrow> buf)"

definition lb_ok :: "lazybuf \<Rightarrow> bool" where
  "lb_ok b \<longleftrightarrow> length (lb_content b) = length (lb_s b) \<and> lb_w b \<le> length (lb_s b)"

definition lb_val :: "lazybuf \<Rightarrow> byte list" where
  "lb_val b = take (lb_w b) (lb_content b)"

lemma lb_content_w [simp]: "lb_content (b\<lparr>lb_w := w\<rparr>) = lb_content b"
  by (cases "lb_buf b") (simp_all add: lb_content_def)

lemma length_lb_val: "lb_ok b \<Longrightarrow> length (lb_val b) = lb_w b"
  by (simp add: lb_ok_def lb_val_def)

lemma lazybuf_append_exact:
  assumes "lb_ok b" "lb_w b < length (lb_s b)"
  obtains b' where "lazybuf_append b c = Some b'" "lb_ok b'" "lb_s b' = lb_s b" "lb_val b' = lb_val b @ [c]"
    "lb_w b' = Suc (lb_w b)"
proof (cases "lb_buf b = None \<and> lb_s b ! lb_w b = c")
  case True
  then show thesis
    using assms that [of "b\<lparr>lb_w := Suc (lb_w b)\<rparr>"]
    by (simp add: lazybuf_append_def lb_ok_def lb_val_def lb_content_def take_Suc_conv_app_nth)
next
  case False
  define buf where "buf = (case lb_buf b of None \<Rightarrow> take (lb_w b) (lb_s b) @ replicate (length (lb_s b) - lb_w b) 0
                   | Some buf \<Rightarrow> buf)"
  have l: "length buf = length (lb_s b)" "take (lb_w b) buf = lb_val b"
    using assms by (auto simp: buf_def lb_ok_def lb_content_def lb_val_def split: option.splits)
  let ?b = "b\<lparr>lb_buf := Some (buf[lb_w b := c]), lb_w := Suc (lb_w b)\<rparr>"
  have "lazybuf_append b c = Some ?b"
    using False assms(2) l(1) unfolding lazybuf_append_def buf_def [symmetric] Let_def by auto
  moreover have "lb_val ?b = lb_val b @ [c]"
    using assms(2) l by (simp add: lb_val_def lb_content_def take_Suc_conv_app_nth)
  ultimately show thesis using assms l that [of ?b] by (simp add: lb_ok_def lb_content_def)
qed

lemma path_copy_exact:
  assumes "lb_ok b" "lb_w b + length (takeWhile (\<lambda>c. c \<noteq> 47) (drop r path)) \<le> length (lb_s b)"
  obtains b' where "path_copy path r b = Some (b', r + length (takeWhile (\<lambda>c. c \<noteq> 47) (drop r path)))"
    "lb_ok b'" "lb_s b' = lb_s b" "lb_val b' = lb_val b @ takeWhile (\<lambda>c. c \<noteq> 47) (drop r path)"
  using assms
proof (induction path r b arbitrary: thesis rule: path_copy.induct)
  case (1 path r b)
  show ?case
  proof (cases "r < length path \<and> path ! r \<noteq> 47")
    case True
    then have t: "takeWhile (\<lambda>c. c \<noteq> 47) (drop r path) = path ! r # takeWhile (\<lambda>c. c \<noteq> 47) (drop (Suc r) path)"
      by (simp flip: Cons_nth_drop_Suc)
    obtain b1 where b1: "lazybuf_append b (path ! r) = Some b1" "lb_ok b1" "lb_s b1 = lb_s b" "lb_val b1 = lb_val b @ [path ! r]"
      "lb_w b1 = Suc (lb_w b)"
      using lazybuf_append_exact [of b "path ! r"] 1(3,4) t by auto
    obtain b' where "path_copy path (r + 1) b1 = Some (b', r + 1 + length (takeWhile (\<lambda>c. c \<noteq> 47) (drop (r + 1) path)))"
      "lb_ok b'" "lb_s b' = lb_s b1" "lb_val b' = lb_val b1 @ takeWhile (\<lambda>c. c \<noteq> 47) (drop (r + 1) path)"
      using 1(1) [OF True b1(1)] b1 1(4) t by auto
    then show thesis using 1(2) [of b'] True b1 t by (simp add: path_copy.simps [of path r b])
  next
    case False
    then have "takeWhile (\<lambda>c. c \<noteq> 47) (drop r path) = []"
      by (cases "r < length path") (auto simp flip: Cons_nth_drop_Suc)
    moreover have "path_copy path r b = Some (b, r)" using False by (subst path_copy.simps) auto
    ultimately show thesis using 1(2) [of b] 1(3) by simp
  qed
qed

lemma path_backtrack_exact:
  assumes "lb_ok b" "lb_w b < length (lb_s b)" "d \<le> j" "j \<le> lb_w b" "j = d \<or> lb_content b ! j = 47"
    "\<And>i. j < i \<Longrightarrow> i \<le> lb_w b \<Longrightarrow> lb_content b ! i \<noteq> 47"
  shows "path_backtrack d b = Some (b\<lparr>lb_w := j\<rparr>)"
  using assms
proof (induction d b rule: path_backtrack.induct)
  case (1 d b)
  have c: "lazybuf_index b (lb_w b) = Some (lb_content b ! lb_w b)"
    using 1(2,3) by (auto simp: lazybuf_index_def lb_content_def lb_ok_def split: option.splits)
  show ?case
  proof (cases "j = lb_w b")
    case True
    then show ?thesis using 1(6) c by (auto simp: path_backtrack.simps [of d b])
  next
    case False
    then have d: "d < lb_w b" "lb_content b ! lb_w b \<noteq> 47" using 1(4,5,7) by auto
    have "path_backtrack d (b\<lparr>lb_w := lb_w b - 1\<rparr>) = Some (b\<lparr>lb_w := lb_w b - 1, lb_w := j\<rparr>)"
      using 1(2-) False d by (intro 1(1) [OF d(1) c d(2)]) (auto simp: lb_ok_def)
    then show ?thesis using d c by (simp add: path_backtrack.simps [of d b])
  qed
qed

section \<open>The loop\<close>

lemma path_elems_slash: "r < length p \<Longrightarrow> p ! r = 47 \<Longrightarrow> path_elems (drop r p) = path_elems (drop (r + 1) p)"
  by (simp flip: Cons_nth_drop_Suc)

definition elem_at :: "byte list \<Rightarrow> nat \<Rightarrow> byte list" where
  "elem_at p r = takeWhile (\<lambda>c. c \<noteq> 47) (drop r p)"

lemma elem_at_next: "r < length p \<Longrightarrow> p ! r \<noteq> 47 \<Longrightarrow> elem_at p r = p ! r # elem_at p (r + 1)"
  by (simp add: elem_at_def flip: Cons_nth_drop_Suc)

lemma elem_at_Nil: "elem_at p r = [] \<longleftrightarrow> length p \<le> r \<or> p ! r = 47"
  by (cases "r < length p") (auto simp add: elem_at_def simp flip: Cons_nth_drop_Suc)

lemma path_elems_elem:
  assumes "r < length p" "p ! r \<noteq> 47"
  shows "path_elems (drop r p) = elem_at p r # path_elems (drop (r + length (elem_at p r)) p)"
proof -
  have "dropWhile (\<lambda>c. c \<noteq> 47) (drop (Suc r) p) = drop (length (elem_at p (Suc r))) (drop (Suc r) p)"
    unfolding elem_at_def by (simp add: dropWhile_eq_drop)
  then show ?thesis
    using assms elem_at_next [of r p] by (simp add: elem_at_def add.commute flip: Cons_nth_drop_Suc)
qed

lemma elem_at_end: "elem_at p (r + length (elem_at p r)) = []"
proof -
  have "dropWhile (\<lambda>c. c \<noteq> 47) (drop r p) = drop (r + length (elem_at p r)) p"
    using dropWhile_eq_drop [of "\<lambda>c. c \<noteq> 47" "drop r p"] by (simp add: elem_at_def add.commute)
  moreover have "takeWhile P (dropWhile P xs) = []" for P and xs :: "byte list" by (induction xs) auto
  ultimately show ?thesis unfolding elem_at_def [of p "r + _"] by metis
qed

lemma elem_at_length: "r \<le> length p \<Longrightarrow> r + length (elem_at p r) \<le> length p"
  using length_takeWhile_le [of "\<lambda>c. c \<noteq> 47" "drop r p"] by (simp add: elem_at_def)

lemma elem_dot: "r < length p \<Longrightarrow> elem_at p r = [46] \<longleftrightarrow> p ! r = 46 \<and> (r + 1 = length p \<or> p ! (r + 1) = 47)"
  by (cases "p ! r = 47") (auto simp: elem_at_next elem_at_Nil, simp add: elem_at_def flip: Cons_nth_drop_Suc)

lemma elem_dotdot:
  assumes "r < length p" "elem_at p r \<noteq> [46]"
  shows "elem_at p r = [46, 46] \<longleftrightarrow> p ! r = 46 \<and> p ! (r + 1) = 46 \<and> (r + 2 = length p \<or> p ! (r + 2) = 47)"
proof (cases "p ! r = 46")
  case True
  then have 1: "elem_at p r = 46 # elem_at p (r + 1)" using assms elem_at_next [of r p] by simp
  then have "elem_at p (r + 1) \<noteq> []" using assms by simp
  then have "r + 1 < length p" "p ! (r + 1) \<noteq> 47" by (auto simp: elem_at_Nil)
  then show ?thesis using 1 True elem_dot [of "r + 1" p] by simp
next
  case False
  then show ?thesis using assms(1) elem_at_next [of r p] elem_at_Nil [of p r] by (cases "p ! r = 47") auto
qed

definition path_inv :: "byte list \<Rightarrow> bool \<Rightarrow> nat \<Rightarrow> nat \<Rightarrow> lazybuf \<Rightarrow> nat \<Rightarrow> byte list list \<Rightarrow> byte list list \<Rightarrow> bool" where
  "path_inv p rt r d b k es st \<longleftrightarrow>
     lb_s b = p \<and> lb_ok b \<and> lb_val b = path_render rt st \<and> clean_stack rt k es st \<and>
     d = length (path_render rt (replicate k [46, 46])) \<and> lb_w b \<le> r \<and> r \<le> length p \<and>
     (st \<noteq> [] \<longrightarrow> elem_at p r \<noteq> [] \<longrightarrow> lb_w b < r)"

lemma path_inv_w: "path_inv p rt r d b k es st \<Longrightarrow> lb_w b = length (path_render rt st)"
  using length_lb_val [of b] by (simp add: path_inv_def)

lemma path_inv_push:
  assumes i: "path_inv p rt r d b k es st" and e: "elem_at p r = e" "e \<noteq> []"
  obtains b' where "Option.bind (if st \<noteq> [] then lazybuf_append b 47 else Some b) (\<lambda>b. f b) = f b'"
    "lb_ok b'" "lb_s b' = p" "lb_val b' = path_render rt st @ (if st = [] then [] else [47])" "lb_w b' + length e \<le> length p"
    "lb_w b' \<le> r"
proof -
  note i = i [unfolded path_inv_def]
  have l: "r + length e \<le> length p" using e i elem_at_length [of r p] by simp
  show thesis
  proof (cases "st = []")
    case True
    then show thesis using i l that [of b] by auto
  next
    case False
    then have "lb_w b < r" using i e by simp
    then obtain b' where "lazybuf_append b 47 = Some b'" "lb_ok b'" "lb_s b' = lb_s b" "lb_val b' = lb_val b @ [47]"
      "lb_w b' = Suc (lb_w b)"
      using lazybuf_append_exact [of b 47] i by auto
    then show thesis using False i l \<open>lb_w b < r\<close> that [of b'] by auto
  qed
qed

lemma path_element_exact:
  assumes i: "path_inv p rt r d b k es st" and e: "elem_at p r = e" "plain e"
  obtains b' where "path_element rt p r b = Some (b', r + length e)"
    "path_inv p rt (r + length e) d b' k (es @ [e]) (st @ [e])"
proof -
  have cs: "clean_stack rt k es st" using i by (simp add: path_inv_def)
  have "rt \<and> lb_w b \<noteq> 1 \<or> \<not> rt \<and> lb_w b \<noteq> 0 \<longleftrightarrow> st \<noteq> []"
    using render_nonempty_iff [OF cs] path_inv_w [OF i] by (cases rt) auto
  then have c: "path_element rt p r b = Option.bind (if st \<noteq> [] then lazybuf_append b 47 else Some b) (\<lambda>b. path_copy p r b)"
    by (simp add: path_element_def)
  have "e \<noteq> []" using e by (simp add: plain_def)
  then obtain b1 where b1: "path_element rt p r b = path_copy p r b1"
    "lb_ok b1" "lb_s b1 = p" "lb_val b1 = path_render rt st @ (if st = [] then [] else [47])"
    "lb_w b1 + length e \<le> length p" "lb_w b1 \<le> r"
    using path_inv_push [OF i e(1), where f = "\<lambda>b. path_copy p r b"] c by metis
  obtain b2 where b2: "path_copy p r b1 = Some (b2, r + length e)" "lb_ok b2" "lb_s b2 = p" "lb_val b2 = lb_val b1 @ e"
    using path_copy_exact [of b1 r p] b1 e(1) unfolding elem_at_def by metis
  have "lb_val b2 = path_render rt (st @ [e])" using b1 b2 by (simp add: path_render_snoc)
  moreover have "lb_w b2 = lb_w b1 + length e" using b1 b2 length_lb_val [of b1] length_lb_val [of b2] by simp
  moreover have "elem_at p (r + length e) = []" using elem_at_end [of p r] e(1) by simp
  moreover have "r + length e \<le> length p" using e(1) i elem_at_length [of r p] by (simp add: path_inv_def)
  ultimately have "path_inv p rt (r + length e) d b2 k (es @ [e]) (st @ [e])"
    using i b1 b2 clean_stack_snoc [OF cs e(2)] by (simp add: path_inv_def)
  then show thesis using that b1(1) b2(1) by simp
qed

lemma path_backtrack_inv:
  assumes i: "path_inv p rt r d b k (es @ [e]) (st @ [e])" and r: "elem_at p r = [46, 46]"
  shows "d < lb_w b"
    and "path_backtrack d (b\<lparr>lb_w := lb_w b - 1\<rparr>) = Some (b\<lparr>lb_w := length (path_render rt st)\<rparr>)"
    and "path_inv p rt (r + 2) d (b\<lparr>lb_w := length (path_render rt st)\<rparr>) k es st"
proof -
  note i' = i [unfolded path_inv_def]
  let ?j = "length (path_render rt st)"
  have s: "lb_s b = p" "lb_ok b" and v0: "lb_val b = path_render rt (st @ [e])"
    and c0: "clean_stack rt k (es @ [e]) (st @ [e])" and d0: "d = length (path_render rt (replicate k [46, 46]))"
    and r0: "lb_w b \<le> r" "r \<le> length p"
    using i' by blast+
  note c0
  then have cs: "clean_stack rt k es st" "plain e" "st = replicate k [46, 46] @ es" by (simp_all add: clean_stack_def)
  have "\<forall>e \<in> set es. e \<noteq> []" using cs(1) by (simp add: clean_stack_def plain_def)
  then have d: "d + length es \<le> ?j" using d0 cs(3) length_render_append [of es rt "replicate k [46, 46]"] by simp
  have v: "lb_val b = path_render rt st @ (if st = [] then [] else [47]) @ e" using v0 by (simp add: path_render_snoc)
  have e: "0 < length e" "47 \<notin> set e" using cs(2) by (simp_all add: plain_def)
  have w: "lb_w b = ?j + (if st = [] then 0 else 1) + length e" using path_inv_w [OF i] by (simp add: path_render_snoc)
  have len: "length (lb_content b) = length p" "lb_w b \<le> length p" using s by (simp_all add: lb_ok_def)
  have nth: "lb_content b ! n = lb_val b ! n" if "n < lb_w b" for n using that by (simp add: lb_val_def)
  show "d < lb_w b" using d w e(1) by linarith
  have "?j = d \<or> lb_content b ! ?j = 47"
  proof (cases "st = []")
    case True
    then show ?thesis using cs(3) d0 by simp
  next
    case False
    then show ?thesis using nth [of ?j] v w by (simp add: nth_append)
  qed
  moreover have "lb_content b ! n \<noteq> 47" if "?j < n" "n \<le> lb_w b - 1" for n
  proof -
    let ?m = "n - ?j - (if st = [] then 0 else 1)"
    have n: "n < lb_w b" using that w e(1) by linarith
    have "lb_val b ! n = e ! ?m" using that v by (simp add: nth_append)
    moreover have "?m < length e" using that n w by (cases "st = []") simp_all
    ultimately show ?thesis using nth [OF n] e(2) by (metis nth_mem)
  qed
  moreover have "?j \<le> lb_w b - 1" "d \<le> ?j" "lb_w b - 1 < length p" using d w e(1) len(2) by linarith+
  moreover have "lb_ok (b\<lparr>lb_w := lb_w b - 1\<rparr>)" "lb_s b = p" using s len by (simp_all add: lb_ok_def)
  ultimately have "path_backtrack d (b\<lparr>lb_w := lb_w b - 1\<rparr>) = Some (b\<lparr>lb_w := lb_w b - 1, lb_w := ?j\<rparr>)"
    by (intro path_backtrack_exact) simp_all
  then show "path_backtrack d (b\<lparr>lb_w := lb_w b - 1\<rparr>) = Some (b\<lparr>lb_w := ?j\<rparr>)" by simp
  have "lb_val (b\<lparr>lb_w := ?j\<rparr>) = take ?j (lb_val b)" using w by (simp add: lb_val_def)
  then have "lb_val (b\<lparr>lb_w := ?j\<rparr>) = path_render rt st" using v by simp
  moreover have le: "?j \<le> lb_w b" using w by linarith
  moreover have "r + 2 \<le> length p" "elem_at p (r + 2) = []" using r r0 elem_at_length [of r p] elem_at_end [of p r] by auto
  ultimately show "path_inv p rt (r + 2) d (b\<lparr>lb_w := ?j\<rparr>) k es st"
    using s cs(1) d0 r0 len le unfolding path_inv_def lb_ok_def by simp
qed

lemma path_dotdot_exact:
  assumes i: "path_inv p rt r d b k es st" and r: "elem_at p r = [46, 46]"
  obtains b' d' k' es' where "path_dotdot rt b d = Some (b', d')" "path_inv p rt (r + 2) d' b' k' es' (path_push rt st [46, 46])"
proof -
  note i' = i [unfolded path_inv_def]
  have cs: "clean_stack rt k es st" using i' by simp
  have e2: "r + 2 \<le> length p" "elem_at p (r + 2) = []" using r i' elem_at_length [of r p] elem_at_end [of p r] by auto
  consider es0 e st0 where "es = es0 @ [e]" "st = st0 @ [e]" "last st \<noteq> [46, 46]" | "es = []" rt | "es = []" "\<not> rt"
  proof (cases es rule: rev_cases)
    case (snoc es0 e)
    then show thesis using that(1) [of es0 e "replicate k [46, 46] @ es0"] cs by (simp add: clean_stack_def plain_def)
  qed (use that in blast)
  then show thesis
  proof cases
    case 1
    note b = path_backtrack_inv [OF i [unfolded 1(1,2)] r]
    have "path_push rt st [46, 46] = st0" using 1(2,3) by (simp add: path_push_def)
    moreover have "path_dotdot rt b d = Some (b\<lparr>lb_w := length (path_render rt st0)\<rparr>, d)"
      using b(1,2) by (simp add: path_dotdot_def)
    ultimately show thesis using that b(3) by metis
  next
    case 2
    then have "st = []" "k = 0" using cs by (auto simp: clean_stack_def)
    then show thesis
      using 2 i' path_inv_w [OF i] e2 that [of b d k es] by (simp add: path_dotdot_def path_push_def path_inv_def)
  next
    case 3
    then have st: "st = replicate k [46, 46]" using cs by (auto simp: clean_stack_def)
    have push: "path_push rt st [46, 46] = st @ [[46, 46]]" using 3 st by (auto simp: path_push_def)
    have w: "lb_w b = d" "0 < lb_w b \<longleftrightarrow> st \<noteq> []"
      using i' st path_inv_w [OF i] render_nonempty_iff [OF cs] 3 by auto
    let ?f = "\<lambda>b. Option.bind (lazybuf_append b 46) (\<lambda>b. Option.bind (lazybuf_append b 46) (\<lambda>b. Some (b, lb_w b)))"
    have dd: "path_dotdot rt b d = Option.bind (if st \<noteq> [] then lazybuf_append b 47 else Some b) ?f"
      using w 3(2) by (simp add: path_dotdot_def)
    obtain b1 where b1: "path_dotdot rt b d = ?f b1" "lb_ok b1" "lb_s b1 = p"
      "lb_val b1 = path_render rt st @ (if st = [] then [] else [47])" "lb_w b1 + 2 \<le> length p" "lb_w b1 \<le> r"
      by (rule path_inv_push [OF i r, of ?f]) (use dd in simp_all)
    obtain b2 where b2: "lazybuf_append b1 46 = Some b2" "lb_ok b2" "lb_s b2 = p" "lb_val b2 = lb_val b1 @ [46]" "lb_w b2 = Suc (lb_w b1)"
      using lazybuf_append_exact [of b1 46] b1 by auto
    obtain b3 where b3: "lazybuf_append b2 46 = Some b3" "lb_ok b3" "lb_s b3 = p" "lb_val b3 = lb_val b2 @ [46]" "lb_w b3 = Suc (lb_w b2)"
      using lazybuf_append_exact [of b2 46] b1 b2 by auto
    have v: "lb_val b3 = path_render rt (st @ [[46, 46]])" using b1 b2 b3 by (simp add: path_render_snoc)
    have "clean_stack rt (Suc k) [] (st @ [[46, 46]])"
      using st 3(2) by (simp add: clean_stack_def replicate_append_same)
    moreover have "lb_w b3 = length (path_render rt (replicate (Suc k) [46, 46]))"
      using v length_lb_val [OF b3(2)] st by (simp add: replicate_append_same)
    ultimately have "path_inv p rt (r + 2) (lb_w b3) b3 (Suc k) [] (st @ [[46, 46]])"
      using v b1 b2 b3 e2 by (simp add: path_inv_def)
    then show thesis using that [of b3 "lb_w b3"] b1 b2 b3 push by simp
  qed
qed

lemma path_loop_exact:
  assumes "path_inv p rt r d b k es st"
  shows "\<exists>b' k' es'. path_loop p rt r d b = Some b' \<and> lb_ok b' \<and>
    lb_val b' = path_render rt (foldl (path_push rt) st (path_elems (drop r p))) \<and>
    clean_stack rt k' es' (foldl (path_push rt) st (path_elems (drop r p)))"
  using assms
proof (induction "length p - r" arbitrary: r d b k es st rule: less_induct)
  case less
  note i = less.prems and loop = path_loop.simps [of p rt r d b]
  show ?case
  proof (cases "r < length p")
    case False
    then have "path_elems (drop r p) = []" by simp
    then show ?thesis using False i loop by (auto simp: path_inv_def)
  next
    case True
    consider "p ! r = 47" | "p ! r \<noteq> 47" "elem_at p r = [46]" | "p ! r \<noteq> 47" "elem_at p r = [46, 46]"
      | "p ! r \<noteq> 47" "elem_at p r \<noteq> [46]" "elem_at p r \<noteq> [46, 46]" by blast
    then show ?thesis
    proof cases
      case 1
      then have "path_inv p rt (r + 1) d b k es st" using i True by (auto simp: path_inv_def)
      note ih = less.hyps [OF _ this]
      have "path_loop p rt r d b = path_loop p rt (r + 1) d b" using loop True 1 by (simp add: Let_def)
      then show ?thesis using ih True path_elems_slash [OF True 1] by simp
    next
      case 2
      then have "path_inv p rt (r + 1) d b k es st" using i True elem_at_end [of p r] by (auto simp: path_inv_def)
      note ih = less.hyps [OF _ this]
      have "path_loop p rt r d b = path_loop p rt (r + 1) d b" using loop True 2 elem_dot [OF True] by (simp add: Let_def)
      then show ?thesis using ih True 2 path_elems_elem [OF True 2(1)] by (simp add: path_push_def)
    next
      case 3
      then obtain b' d' k' es' where b': "path_dotdot rt b d = Some (b', d')"
        and i': "path_inv p rt (r + 2) d' b' k' es' (path_push rt st [46, 46])"
        using path_dotdot_exact [OF i] by metis
      note ih = less.hyps [OF _ i']
      have "path_loop p rt r d b = path_loop p rt (r + 2) d' b'"
        using loop True 3 b' elem_dot [OF True] elem_dotdot [OF True] by (simp add: Let_def)
      then show ?thesis using ih True 3 path_elems_elem [OF True 3(1)] by simp
    next
      case 4
      have "47 \<notin> set (elem_at p r)" unfolding elem_at_def by (auto dest: set_takeWhileD)
      then have "plain (elem_at p r)" using 4 True elem_at_Nil [of p r] by (auto simp: plain_def)
      then obtain b' where b': "path_element rt p r b = Some (b', r + length (elem_at p r))"
        and i': "path_inv p rt (r + length (elem_at p r)) d b' k (es @ [elem_at p r]) (st @ [elem_at p r])"
        using path_element_exact [OF i] by metis
      note ih = less.hyps [OF _ i']
      have "path_loop p rt r d b = path_loop p rt (r + length (elem_at p r)) d b'"
        using loop [unfolded Let_def if_P [OF True] if_not_P [OF 4(1)]
          if_not_P [OF 4(2) [unfolded elem_dot [OF True]]] if_not_P [OF 4(3) [unfolded elem_dotdot [OF True 4(2)]]] b'] by simp
      moreover have "0 < length (elem_at p r)" using 4 True elem_at_Nil [of p r] by auto
      then have "length p - (r + length (elem_at p r)) < length p - r" using True by (intro diff_less_mono2) simp_all
      ultimately show ?thesis using ih True path_elems_elem [OF True 4(1)] 4 by (simp add: path_push_def)
    qed
  qed
qed

lemma path_IsAbs_iff: "path_IsAbs p \<longleftrightarrow> p \<noteq> [] \<and> hd p = 47"
  by (cases p) (simp_all add: path_IsAbs_def)

lemma path_start:
  assumes "p \<noteq> []"
  obtains b r d where
    "(if p ! 0 = 47 then map_option (\<lambda>out. (out, 1, 1)) (lazybuf_append \<lparr>lb_s = p, lb_buf = None, lb_w = 0\<rparr> 47)
      else Some (\<lparr>lb_s = p, lb_buf = None, lb_w = 0\<rparr>, 0, 0)) = Some (b, r, d)"
    "path_inv p (p ! 0 = 47) r d b 0 [] []" "path_elems (drop r p) = path_elems p"
proof (cases "p ! 0 = 47")
  case True
  let ?b = "\<lparr>lb_s = p, lb_buf = None, lb_w = 0\<rparr>"
  have "lb_ok ?b" "lb_val ?b = []" by (simp_all add: lb_ok_def lb_content_def lb_val_def)
  then obtain b where b: "lazybuf_append ?b 47 = Some b" "lb_ok b" "lb_s b = p" "lb_val b = [47]" "lb_w b = 1"
    using lazybuf_append_exact [of ?b 47] assms by auto
  moreover have "path_inv p True 1 1 b 0 [] []"
    using b assms by (cases p) (simp_all add: path_inv_def clean_stack_def)
  ultimately show thesis
    using True assms path_elems_slash [of 0 p] that [of b 1 1] by auto
next
  case False
  then show thesis
    using that [of "\<lparr>lb_s = p, lb_buf = None, lb_w = 0\<rparr>" 0 0]
    by (simp add: path_inv_def clean_stack_def lb_ok_def lb_content_def lb_val_def)
qed

lemma path_Clean_spec:
  "path_Clean p = Some (path_clean p) \<and> (\<exists>k es. clean_stack (path_IsAbs p) k es (path_stack p))"
proof (cases "p = []")
  case True
  have "clean_stack False 0 [] []" by (simp add: clean_stack_def)
  then show ?thesis
    using True by (auto simp: path_Clean_def path_clean_def path_stack_def path_IsAbs_def)
next
  case False
  then have a: "path_IsAbs p \<longleftrightarrow> p ! 0 = 47" by (simp add: path_IsAbs_def)
  obtain b r d where b: "(if p ! 0 = 47 then map_option (\<lambda>out. (out, 1, 1)) (lazybuf_append \<lparr>lb_s = p, lb_buf = None, lb_w = 0\<rparr> 47)
      else Some (\<lparr>lb_s = p, lb_buf = None, lb_w = 0\<rparr>, 0, 0)) = Some (b, r, d)"
    "path_inv p (path_IsAbs p) r d b 0 [] []" "path_elems (drop r p) = path_elems p"
    by (rule path_start [OF False]) (simp add: a)
  obtain b' k' es' where b': "path_loop p (path_IsAbs p) r d b = Some b'" "lb_ok b'"
    "lb_val b' = path_render (path_IsAbs p) (path_stack p)" "clean_stack (path_IsAbs p) k' es' (path_stack p)"
    using path_loop_exact [OF b(2)] unfolding b(3) path_stack_def [symmetric] by blast
  have "lb_w b' = 0 \<longleftrightarrow> path_render (path_IsAbs p) (path_stack p) = []"
    using length_lb_val [OF b'(2)] b'(3) by auto
  moreover have "lazybuf_string b' = Some (lb_val b')"
    using b'(2) by (simp add: lazybuf_string_def lb_ok_def lb_val_def flip: lb_content_def)
  ultimately have "path_Clean p = Some (path_clean p)"
    using False b(1) b' a by (simp add: path_Clean_def path_clean_def Let_def)
  then show ?thesis using b'(4) by blast
qed

section \<open>Clean paths\<close>

text \<open>The clean paths: \<open>.\<close>, or elements without \<open>.\<close> among them and with \<open>..\<close> only in front, and never at the root.\<close>

definition clean_path :: "byte list \<Rightarrow> bool" where
  "clean_path p \<longleftrightarrow>
     p = [46] \<or> p \<noteq> [] \<and> (\<exists>rt k es. p = path_render rt (replicate k [46, 46] @ es) \<and> (rt \<longrightarrow> k = 0) \<and> (\<forall>e \<in> set es. plain e))"

lemma no_slash:
  assumes "47 \<notin> set s"
  shows "takeWhile (\<lambda>c. c \<noteq> 47) s = s" "dropWhile (\<lambda>c. c \<noteq> 47) s = []"
    "takeWhile (\<lambda>c. c \<noteq> 47) (s @ 47 # t) = s" "dropWhile (\<lambda>c. c \<noteq> 47) (s @ 47 # t) = 47 # t"
  using assms by (induction s) auto

lemma path_elems_append_slash: "path_elems (s @ 47 # t) = path_elems s @ path_elems t"
proof (induction s rule: path_elems.induct)
  case (2 c s)
  show ?case
  proof (cases "47 \<in> set s")
    case True
    then have "takeWhile (\<lambda>c. c \<noteq> 47) (s @ 47 # t) = takeWhile (\<lambda>c. c \<noteq> 47) s"
      "dropWhile (\<lambda>c. c \<noteq> 47) (s @ 47 # t) = dropWhile (\<lambda>c. c \<noteq> 47) s @ 47 # t"
      by (auto simp: takeWhile_append1 dropWhile_append1)
    then show ?thesis using 2 by simp
  next
    case False
    then show ?thesis using 2 by (simp add: no_slash)
  qed
qed simp

lemma path_elems_single: "47 \<notin> set e \<Longrightarrow> path_elems e = (if e = [] then [] else [e])"
proof (cases e)
  case (Cons c s)
  moreover assume "47 \<notin> set e"
  ultimately show ?thesis by (simp add: no_slash)
qed simp

lemma path_elems_join: "\<forall>e \<in> set es. e \<noteq> [] \<and> 47 \<notin> set e \<Longrightarrow> path_elems (path_join es) = es"
  by (induction es rule: path_join.induct) (simp_all add: path_elems_single path_elems_append_slash)

lemma path_elems_render: "path_elems (path_render rt st) = path_elems (path_join st)"
  by (simp add: path_render_def)

lemma path_render_IsAbs:
  assumes "\<forall>e \<in> set st. e \<noteq> [] \<and> 47 \<notin> set e"
  shows "path_IsAbs (path_render rt st) \<longleftrightarrow> rt"
proof (cases rt)
  case False
  have "path_join st = [] \<or> hd (path_join st) \<in> set (hd st)"
    using assms by (cases st rule: path_join.cases) auto
  moreover have "st \<noteq> [] \<Longrightarrow> 47 \<notin> set (hd st)" using assms by (cases st) auto
  ultimately show ?thesis using False by (cases st) (auto simp: path_IsAbs_iff path_render_def)
qed (simp add: path_IsAbs_iff path_render_def)

lemma foldl_push_plain: "\<forall>e \<in> set es. plain e \<Longrightarrow> foldl (path_push rt) st es = st @ es"
  by (induction es arbitrary: st) (simp_all add: path_push_def plain_def)

lemma foldl_push_dotdot: "foldl (path_push False) (replicate n [46, 46]) (replicate k [46, 46]) = replicate (n + k) [46, 46]"
proof (induction k arbitrary: n)
  case (Suc k)
  have "path_push False (replicate n [46, 46]) [46, 46] = replicate (Suc n) [46, 46]"
    by (auto simp: path_push_def replicate_append_same)
  then show ?case using Suc [of "Suc n"] by simp
qed simp

lemma foldl_push_clean:
  assumes "clean_stack rt k es st"
  shows "foldl (path_push rt) [] st = st"
proof -
  have st: "st = replicate k [46, 46] @ es" "rt \<longrightarrow> k = 0" "\<forall>e \<in> set es. plain e" using assms by (simp_all add: clean_stack_def)
  have "foldl (path_push rt) [] (replicate k [46, 46]) = replicate k [46, 46]"
    using st(2) foldl_push_dotdot [of 0 k] by (cases rt) simp_all
  then show ?thesis using st(1,3) foldl_push_plain by simp
qed

lemma clean_stack_render:
  assumes "clean_stack rt k es st"
  shows "path_IsAbs (path_render rt st) \<longleftrightarrow> rt" and "path_elems (path_render rt st) = st" and "path_stack (path_render rt st) = st"
proof -
  have e: "\<forall>e \<in> set st. e \<noteq> [] \<and> 47 \<notin> set e" using clean_stack_elems [OF assms] by blast
  show a: "path_IsAbs (path_render rt st) \<longleftrightarrow> rt" by (rule path_render_IsAbs [OF e])
  show "path_elems (path_render rt st) = st" using e by (simp add: path_elems_render path_elems_join)
  then show "path_stack (path_render rt st) = st" using a foldl_push_clean [OF assms] by (simp add: path_stack_def)
qed

lemma path_clean_dot: "path_clean [46] = [46]"
  by (simp add: path_clean_def path_stack_def path_IsAbs_def path_push_def)

lemma clean_path_clean: "clean_path (path_clean p)"
proof -
  obtain k es where "clean_stack (path_IsAbs p) k es (path_stack p)" using path_Clean_spec by blast
  then have "path_stack p = replicate k [46, 46] @ es" "path_IsAbs p \<longrightarrow> k = 0" "\<forall>e \<in> set es. plain e"
    by (simp_all add: clean_stack_def)
  then show ?thesis unfolding clean_path_def path_clean_def Let_def by metis
qed

lemma clean_path_fixed:
  assumes "clean_path p"
  shows "path_clean p = p"
proof (cases "p = [46]")
  case False
  then obtain rt k es where "p \<noteq> []" "p = path_render rt (replicate k [46, 46] @ es)"
    "clean_stack rt k es (replicate k [46, 46] @ es)"
    using assms by (auto simp: clean_path_def clean_stack_def)
  then show ?thesis using clean_stack_render by (simp add: path_clean_def)
qed (simp add: path_clean_dot)

text \<open>
  C36. Clean never panics and returns the path of the elements that are left when \<open>.\<close> elements are dropped, each \<open>..\<close> element
  takes an element before it away, and \<open>..\<close> elements at the root vanish; an empty result is \<open>.\<close>. The results are the clean
  paths, and these are exactly the paths Clean leaves as they are.
\<close>

theorem path_Clean_exact:
  "path_Clean p = Some (path_clean p) \<and> path_Clean (path_clean p) = Some (path_clean p) \<and> clean_path (path_clean p) \<and>
   (path_Clean p = Some p \<longleftrightarrow> clean_path p)"
proof -
  have c: "path_Clean q = Some (path_clean q)" for q using path_Clean_spec by blast
  have f: "path_clean (path_clean p) = path_clean p" by (rule clean_path_fixed [OF clean_path_clean])
  have "path_clean p = p \<longleftrightarrow> clean_path p" using clean_path_clean [of p] clean_path_fixed [of p] by auto
  then show ?thesis using c f clean_path_clean by simp
qed

end
