(* ===== verification/Path_Parts.thy ===== *)
theory Path_Parts
  imports Path_Correct
begin

text \<open>
  The functions of package \<open>path\<close> other than \<open>Clean\<close>, in terms of the elements of a path.
\<close>

section \<open>Taking paths apart and joining them\<close>








lemma path_strip_Nil [simp]: "path_strip [] = []"
  by (subst path_strip.simps) simp






lemma path_IsAbs_append [simp]: "p \<noteq> [] \<Longrightarrow> path_IsAbs (p @ q) = path_IsAbs p"
  by (simp add: path_IsAbs_iff)








text \<open>
  The documentation of \<open>Dir\<close> has a slash at the end of the result only where the path consists of slashes followed by bytes
  that are none; the directory of \<open>/a/../b\<close> is the root too.
\<close>

lemma path_Dir_slash: "path_Dir [47, 97, 47, 46, 46, 47, 98] = Some [47]"
  by code_simp



end
