(* ===== verification/Path_Match.thy ===== *)
theory Path_Match
  imports Utf8
begin

text \<open>
  \<open>path.Match\<close>: a pattern is matched chunk by chunk, a chunk being what stands between two stars.
\<close>

text \<open>\<open>bytealg.IndexByteString\<close> is in assembly on most targets; this is its portable form.\<close>

fun bytealg_index_loop :: "byte list \<Rightarrow> byte \<Rightarrow> int \<Rightarrow> int" where
  "bytealg_index_loop [] c i = - 1"
| "bytealg_index_loop (x # s) c i = (if x = c then i else bytealg_index_loop s c (i + 1))"

definition bytealg_IndexByteString :: "byte list \<Rightarrow> byte \<Rightarrow> int" where
  "bytealg_IndexByteString s c = bytealg_index_loop s c 0"

datatype path_error = path_ErrBadPattern

section \<open>Chunks\<close>

fun scanChunk_stars :: "bool \<Rightarrow> byte list \<Rightarrow> bool \<times> byte list" where
  "scanChunk_stars star [] = (star, [])"
| "scanChunk_stars star (c # pattern) = (if c = 42 then scanChunk_stars True pattern else (star, c # pattern))"

text \<open>The loop over the rest of the pattern: what it passes over, and the pattern from the star it stops at.\<close>

fun scanChunk_loop :: "bool \<Rightarrow> byte list \<Rightarrow> byte list \<times> byte list" where
  "scanChunk_loop inrange [] = ([], [])"
| "scanChunk_loop inrange (c # pattern) =
     (if c = 92 then
        case pattern of
          [] \<Rightarrow> ([c], [])
        | d # pattern \<Rightarrow> apfst (\<lambda>chunk. c # d # chunk) (scanChunk_loop inrange pattern)
      else if c = 91 then apfst ((#) c) (scanChunk_loop True pattern)
      else if c = 93 then apfst ((#) c) (scanChunk_loop False pattern)
      else if c = 42 \<and> \<not> inrange then ([], c # pattern)
      else apfst ((#) c) (scanChunk_loop inrange pattern))"

definition scanChunk :: "byte list \<Rightarrow> bool \<times> byte list \<times> byte list" where
  "scanChunk pattern = (let (star, pattern) = scanChunk_stars False pattern in (star, scanChunk_loop False pattern))"

definition path_getEsc :: "byte list \<Rightarrow> path_error + rune \<times> byte list" where
  "path_getEsc chunk =
     (if length chunk = 0 \<or> hd chunk = 45 \<or> hd chunk = 93 then Inl path_ErrBadPattern
      else
        let chunk' = (if hd chunk = 92 then tl chunk else chunk) in
        if hd chunk = 92 \<and> length chunk' = 0 then Inl path_ErrBadPattern
        else
          let (r, n) = utf8_DecodeRuneInString chunk'; nchunk = drop n chunk' in
          if r = RuneError \<and> n = 1 \<or> length nchunk = 0 then Inl path_ErrBadPattern else Inr (r, nchunk))"

lemma utf8_Decode_pos: "s \<noteq> [] \<Longrightarrow> 0 < snd (utf8_DecodeRuneInString s)"
  by (auto simp: utf8_DecodeRuneInString_def decodeRuneInStringSlow_def Let_def split: prod.splits)

lemma getEsc_shorter:
  assumes "path_getEsc chunk = Inr (r, nchunk)"
  shows "length nchunk < length chunk" and "nchunk \<noteq> []"
proof -
  define c where "c = (if hd chunk = 92 then tl chunk else chunk)"
  obtain q n where d: "utf8_DecodeRuneInString c = (q, n)" by fastforce
  have n: "nchunk = drop n c" "nchunk \<noteq> []"
    using assms d by (auto simp: path_getEsc_def Let_def split: if_splits simp flip: c_def)
  then have "c \<noteq> []" by auto
  then have "0 < n" using utf8_Decode_pos [of c] d by simp
  then have "length nchunk < length c" using n by auto
  moreover have "length c \<le> length chunk" by (simp add: c_def)
  ultimately show "length nchunk < length chunk" "nchunk \<noteq> []" using n(2) by simp_all
qed

text \<open>The ranges of a character class, up to its closing bracket: whether one of them has \<open>r\<close>, and the rest of the chunk.\<close>

function path_ranges :: "rune \<Rightarrow> bool \<Rightarrow> nat \<Rightarrow> byte list \<Rightarrow> path_error + bool \<times> byte list" where
  "path_ranges r match nrange chunk =
     (if 0 < length chunk \<and> hd chunk = 93 \<and> 0 < nrange then Inr (match, tl chunk)
      else
        case path_getEsc chunk of
          Inl err \<Rightarrow> Inl err
        | Inr (lo, chunk) \<Rightarrow>
            (case (if hd chunk = 45 then path_getEsc (tl chunk) else Inr (lo, chunk)) of
               Inl err \<Rightarrow> Inl err
             | Inr (hi, chunk) \<Rightarrow>
                 path_ranges r (match \<or> sint lo \<le> sint r \<and> sint r \<le> sint hi) (nrange + 1) chunk))"
  by pat_completeness auto

termination path_ranges
proof (relation "measure (\<lambda>(r, match, nrange, chunk). length chunk)")
  fix r match nrange chunk x lo c1 y hi c2
  assume "path_getEsc chunk = Inr x" "(lo, c1) = x"
    and c2: "(if hd c1 = 45 then path_getEsc (tl c1) else Inr (lo, c1)) = Inr y" "(hi, c2) = y"
  then have "length c1 < length chunk" using getEsc_shorter(1) [of chunk lo c1] by simp
  moreover have "length c2 \<le> length c1"
    using c2 getEsc_shorter(1) [of "tl c1" hi c2] by (auto split: if_splits)
  ultimately show "((r, match \<or> sint lo \<le> sint r \<and> sint r \<le> sint hi, nrange + 1, c2), r, match, nrange, chunk)
      \<in> measure (\<lambda>(r, match, nrange, chunk). length chunk)"
    by simp
qed simp

declare path_ranges.simps [simp del]

lemma path_ranges_shorter: "path_ranges r match nrange chunk = Inr (m, rest) \<Longrightarrow> length rest \<le> length chunk"
proof (induction r match nrange chunk rule: path_ranges.induct)
  case (1 r match nrange chunk)
  show ?case
  proof (cases "0 < length chunk \<and> hd chunk = 93 \<and> 0 < nrange")
    case True
    then have "rest = tl chunk" using 1(2) by (simp add: path_ranges.simps [of r match nrange chunk])
    then show ?thesis by simp
  next
    case False
    note p = 1(2) [unfolded path_ranges.simps [of r match nrange chunk] if_not_P [OF False]]
    obtain lo c1 where c1: "path_getEsc chunk = Inr (lo, c1)" using p by (auto split: sum.splits)
    obtain hi c2 where c2: "(if hd c1 = 45 then path_getEsc (tl c1) else Inr (lo, c1)) = Inr (hi, c2)"
      using p c1 by (auto split: sum.splits)
    have "length c2 \<le> length c1" using c2 getEsc_shorter(1) [of "tl c1" hi c2] by (auto split: if_splits)
    moreover have "length rest \<le> length c2"
      by (rule 1(1) [OF False c1 refl c2 refl p [unfolded c1 sum.case prod.case c2]])
    ultimately show ?thesis using getEsc_shorter(1) [OF c1] by simp
  qed
qed

text \<open>\<open>s\<close> is not read once the match has failed, but the chunk is still checked.\<close>

function matchChunk_loop :: "bool \<Rightarrow> byte list \<Rightarrow> byte list \<Rightarrow> path_error + byte list \<times> bool" where
  "matchChunk_loop failed [] s = (if failed then Inr ([], False) else Inr (s, True))"
| "matchChunk_loop failed (c # chunk) s =
     (let failed = (failed \<or> length s = 0) in
      if c = 91 then
        let (r, s) = (if failed then (0, s) else let (r, n) = utf8_DecodeRuneInString s in (r, drop n s));
            negated = (0 < length chunk \<and> hd chunk = 94);
            chunk = (if negated then tl chunk else chunk) in
        case path_ranges r False 0 chunk of
          Inl err \<Rightarrow> Inl err
        | Inr (match, chunk) \<Rightarrow> matchChunk_loop (failed \<or> match = negated) chunk s
      else if c = 63 then
        if failed then matchChunk_loop failed chunk s
        else let (_, n) = utf8_DecodeRuneInString s in matchChunk_loop (hd s = 47) chunk (drop n s)
      else if c = 92 \<and> length chunk = 0 then Inl path_ErrBadPattern
      else
        let (c, chunk) = (if c = 92 then (hd chunk, tl chunk) else (c, chunk)) in
        if failed then matchChunk_loop failed chunk s else matchChunk_loop (c \<noteq> hd s) chunk (tl s))"
  by pat_completeness auto
termination
proof (relation "measure (\<lambda>(failed, chunk, s). length chunk)")
  fix failed c chunk s f x r s' neg chunk' y m chunk''
  assume "chunk' = (if neg then tl chunk else chunk)" "path_ranges r False 0 chunk' = Inr y" "(m, chunk'') = y"
  then have "length chunk'' \<le> length chunk'" "length chunk' \<le> length chunk" by (auto dest!: path_ranges_shorter)
  then show "((f \<or> m = neg, chunk'', s'), failed, c # chunk, s) \<in> measure (\<lambda>(failed, chunk, s). length chunk)"
    by simp
qed (auto split: if_splits)

definition matchChunk :: "byte list \<Rightarrow> byte list \<Rightarrow> path_error + byte list \<times> bool" where
  "matchChunk chunk s = matchChunk_loop False chunk s"

section \<open>Match\<close>

text \<open>The loop that skips bytes for a star: the rest of the name after the chunk, if it was found.\<close>

fun path_skip :: "byte list \<Rightarrow> bool \<Rightarrow> byte list \<Rightarrow> path_error + byte list option" where
  "path_skip chunk inner [] = Inr None"
| "path_skip chunk inner (c # name) =
     (if c = 47 then Inr None
      else
        case matchChunk chunk name of
          Inl err \<Rightarrow> Inl err
        | Inr (t, ok) \<Rightarrow> if ok \<and> \<not> (\<not> inner \<and> 0 < length t) then Inr (Some t) else path_skip chunk inner name)"

lemma scan_append: "fst (scanChunk_loop b p) @ snd (scanChunk_loop b p) = p"
  by (induction b p rule: scanChunk_loop.induct) (auto split: list.splits)

lemma scan_nonempty: "c \<noteq> 42 \<Longrightarrow> fst (scanChunk_loop b (c # p)) \<noteq> []"
  by (cases p) simp_all

lemma scan_stars: "snd (scanChunk_stars star p) = dropWhile (\<lambda>c. c = 42) p"
  by (induction star p rule: scanChunk_stars.induct) auto

lemma scanChunk_shorter:
  assumes "scanChunk (c # p) = (star, chunk, rest)"
  shows "length rest \<le> length p"
proof -
  define q where "q = dropWhile (\<lambda>c. c = 42) (c # p)"
  have s: "scanChunk_loop False q = (chunk, rest)"
    using assms scan_stars [of False "c # p"] by (simp add: scanChunk_def case_prod_beta q_def)
  then have l: "length chunk + length rest = length q" using scan_append [of False q] by (simp flip: length_append)
  show ?thesis
  proof (cases "c = 42")
    case True
    then show ?thesis using l length_dropWhile_le [of "\<lambda>c. c = 42" p] by (simp add: q_def)
  next
    case False
    then have "chunk \<noteq> []" "length q = Suc (length p)" using s scan_nonempty [of c False p] by (auto simp: q_def)
    then show ?thesis using l by (cases chunk) simp_all
  qed
qed

function path_check :: "byte list \<Rightarrow> path_error + unit" where
  "path_check [] = Inr ()"
| "path_check (c # pattern) =
     (let (_, chunk, pattern) = scanChunk (c # pattern) in
      case matchChunk chunk [] of Inl err \<Rightarrow> Inl err | Inr _ \<Rightarrow> path_check pattern)"
  by pat_completeness auto
termination
  by (relation "measure length") (auto dest!: scanChunk_shorter [OF sym] simp: less_Suc_eq_le)

function path_Match :: "byte list \<Rightarrow> byte list \<Rightarrow> path_error + bool" where
  "path_Match [] name = Inr (length name = 0)"
| "path_Match (c # pattern) name =
     (let (star, chunk, pattern) = scanChunk (c # pattern) in
      if star \<and> chunk = [] then Inr (bytealg_IndexByteString name 47 < 0)
      else
        case matchChunk chunk name of
          Inl err \<Rightarrow> Inl err
        | Inr (t, ok) \<Rightarrow>
            if ok \<and> (length t = 0 \<or> 0 < length pattern) then path_Match pattern t
            else
              case (if star then path_skip chunk (0 < length pattern) name else Inr None) of
                Inl err \<Rightarrow> Inl err
              | Inr (Some t) \<Rightarrow> path_Match pattern t
              | Inr None \<Rightarrow> (case path_check pattern of Inl err \<Rightarrow> Inl err | Inr _ \<Rightarrow> Inr False))"
  by pat_completeness auto
termination
  by (relation "measure (\<lambda>(pattern, name). length pattern)") (auto dest!: scanChunk_shorter [OF sym] simp: less_Suc_eq_le)

end
