(* ===== verification/Path_Match_Correct.thy ===== *)
theory Path_Match_Correct
  imports Path_Match Utf8_Correct
begin

text \<open>
  The language of patterns, parsed and matched independently of the chunks, and how \<open>Match\<close> relates to it: which patterns are
  malformed, that a match is a match, and where trying only the first place for each chunk finds every match.
\<close>

section \<open>Patterns\<close>

text \<open>
  The grammar in the comment of \<open>Match\<close>. A character of a class is a rune, and a class is closed by a bracket, so that
  something follows each of its characters; outside a class bytes stand for themselves.
\<close>

datatype glob = GStar | GAny | GClass bool "(rune \<times> rune) list" | GLit byte

definition glob_rune :: "byte list \<Rightarrow> (rune \<times> byte list) option" where
  "glob_rune p =
     (case utf8_DecodeRune p of (r, n) \<Rightarrow> if p = [] \<or> (r, n) = (RuneError, 1) then None else Some (r, drop n p))"

definition glob_char :: "byte list \<Rightarrow> (rune \<times> byte list) option" where
  "glob_char p =
     (if p = [] \<or> hd p = 45 \<or> hd p = 93 then None
      else case glob_rune (if hd p = 92 then tl p else p) of
        None \<Rightarrow> None
      | Some (r, q) \<Rightarrow> if q = [] then None else Some (r, q))"

lemma getEsc_glob_char: "path_getEsc p = (case glob_char p of None \<Rightarrow> Inl path_ErrBadPattern | Some x \<Rightarrow> Inr x)"
  by (auto simp: path_getEsc_def glob_char_def glob_rune_def DecodeRuneInString_eq Let_def split: prod.splits)

lemma glob_char_shorter: "glob_char p = Some (r, q) \<Longrightarrow> length q < length p \<and> q \<noteq> []"
  using getEsc_shorter [of p r q] by (simp add: getEsc_glob_char)

function glob_ranges :: "bool \<Rightarrow> byte list \<Rightarrow> ((rune \<times> rune) list \<times> byte list) option" where
  "glob_ranges seen p =
     (if seen \<and> p \<noteq> [] \<and> hd p = 93 then Some ([], tl p)
      else case glob_char p of
        None \<Rightarrow> None
      | Some (lo, q) \<Rightarrow>
          (case (if hd q = 45 then glob_char (tl q) else Some (lo, q)) of
             None \<Rightarrow> None
           | Some (hi, t) \<Rightarrow> map_option (apfst ((#) (lo, hi))) (glob_ranges True t)))"
  by pat_completeness auto
termination
proof (relation "measure (\<lambda>(seen, p). length p)")
  fix seen p x lo q y hi t
  assume "glob_char p = Some x" "(lo, q) = x" and t: "(if hd q = 45 then glob_char (tl q) else Some (lo, q)) = Some y" "(hi, t) = y"
  then have "length q < length p" using glob_char_shorter [of p lo q] by simp
  moreover have "length t \<le> length q" using t glob_char_shorter [of "tl q" hi t] by (auto split: if_splits)
  ultimately show "((True, t), seen, p) \<in> measure (\<lambda>(seen, p). length p)" by simp
qed simp

declare glob_ranges.simps [simp del]

definition in_ranges :: "rune \<Rightarrow> (rune \<times> rune) list \<Rightarrow> bool" where
  "in_ranges r rs \<longleftrightarrow> (\<exists>(lo, hi) \<in> set rs. sint lo \<le> sint r \<and> sint r \<le> sint hi)"

lemma path_ranges_exact:
  "path_ranges r m n p =
     (case glob_ranges (0 < n) p of
        None \<Rightarrow> Inl path_ErrBadPattern
      | Some (rs, q) \<Rightarrow> Inr (m \<or> in_ranges r rs, q))"
proof (induction "0 < n" p arbitrary: m n rule: glob_ranges.induct)
  case (1 p)
  note pr = path_ranges.simps [of r m n p] and gr = glob_ranges.simps [of "0 < n" p]
  show ?case
  proof (cases "0 < n \<and> p \<noteq> [] \<and> hd p = 93")
    case True
    then show ?thesis using pr gr by (simp add: in_ranges_def)
  next
    case False
    then have f: "\<not> (0 < length p \<and> hd p = 93 \<and> 0 < n)" by auto
    note pr = pr [unfolded if_not_P [OF f]] and gr = gr [unfolded if_not_P [OF False]]
    show ?thesis
    proof (cases "glob_char p")
      case None
      then show ?thesis using pr gr by (simp add: getEsc_glob_char)
    next
      case (Some x)
      obtain lo q where x: "x = (lo, q)" by fastforce
      have e: "(if hd q = 45 then path_getEsc (tl q) else Inr (lo, q)) =
          (case (if hd q = 45 then glob_char (tl q) else Some (lo, q)) of None \<Rightarrow> Inl path_ErrBadPattern | Some x \<Rightarrow> Inr x)"
        by (simp add: getEsc_glob_char)
      show ?thesis
      proof (cases "if hd q = 45 then glob_char (tl q) else Some (lo, q)")
        case None
        then show ?thesis using pr gr Some x e by (simp add: getEsc_glob_char)
      next
        case t: (Some y)
        obtain hi t where y: "y = (hi, t)" by fastforce
        have "path_ranges r m n p = path_ranges r (m \<or> sint lo \<le> sint r \<and> sint r \<le> sint hi) (n + 1) t"
          using pr Some x e t y by (simp add: getEsc_glob_char)
        moreover have "glob_ranges (0 < n) p = map_option (apfst ((#) (lo, hi))) (glob_ranges True t)"
          using gr Some x t y by simp
        ultimately show ?thesis
          using 1 [OF False Some x [symmetric] t y [symmetric], of "n + 1"]
          by (auto simp: in_ranges_def split: option.splits)
      qed
    qed
  qed
qed

lemma glob_rune_enc:
  assumes "glob_rune p = Some (r, q)"
  shows "utf8_ValidRune r" and "p = utf8_enc r @ q" and "glob_rune (utf8_enc r @ z) = Some (r, z)"
proof -
  have "utf8_ValidRune r \<and> p = utf8_enc r @ q"
  proof (cases p rule: DecodeRune_cases)
    case invalid
    then show ?thesis using assms by (auto simp: glob_rune_def split: if_splits)
  next
    case (valid s)
    then show ?thesis using assms by (auto simp: glob_rune_def split: if_splits)
  qed
  then show v: "utf8_ValidRune r" "p = utf8_enc r @ q" by auto
  have "utf8_DecodeRune (utf8_enc r @ z) = (r, length (utf8_enc r))" using v(1) by (simp add: DecodeRune_enc)
  moreover have "utf8_DecodeRune (utf8_enc r @ z) \<noteq> (RuneError, 1)" using v(1) DecodeRune_error_iff by blast
  ultimately show "glob_rune (utf8_enc r @ z) = Some (r, z)" using enc_not_Nil [of r] by (simp add: glob_rune_def)
qed

text \<open>The bytes the scan for the end of a chunk reacts to.\<close>

definition special :: "byte set" where
  "special = {42, 91, 92, 93}"

lemma scan_plain: "set u \<inter> special = {} \<Longrightarrow> scanChunk_loop b (u @ z) = apfst ((@) u) (scanChunk_loop b z)"
proof (induction u)
  case (Cons c u)
  then have "scanChunk_loop b ((c # u) @ z) = apfst ((#) c) (scanChunk_loop b (u @ z))" by (simp add: special_def)
  then show ?case using Cons by (cases "scanChunk_loop b z") simp
qed (cases "scanChunk_loop b z", simp)

lemma high_plain: "0x80 \<le> unat c \<Longrightarrow> c \<notin> special"
  by (auto simp: special_def)

lemma enc_plain:
  obtains c where "utf8_enc r = [c]" | c cs where "utf8_enc r = c # cs" "set (c # cs) \<inter> special = {}"
proof (cases r rule: enc_shape)
  case (2 c cs)
  then have "\<forall>d \<in> set (c # cs). d \<notin> special" by (auto simp: list_all_iff cont_def intro!: high_plain)
  then show thesis using 2 that(2) by blast
qed (use that in blast)

lemma glob_char_local:
  assumes "glob_char p = Some (r, q)"
  obtains u where "p = u @ q" "u \<noteq> []" "\<And>z. z \<noteq> [] \<Longrightarrow> glob_char (u @ z) = Some (r, z)"
    "\<And>z. scanChunk_loop True (u @ z) = apfst ((@) u) (scanChunk_loop True z)"
proof -
  have p: "p \<noteq> []" "hd p \<noteq> 45" "hd p \<noteq> 93" using assms by (auto simp: glob_char_def split: if_splits)
  have "glob_rune (if hd p = 92 then tl p else p) = Some (r, q)"
    using assms by (auto simp: glob_char_def split: if_splits option.splits)
  note e = glob_rune_enc [OF this]
  show thesis
  proof (cases "hd p = 92")
    case True
    then have "p = (92 # utf8_enc r) @ q" using p(1) e(2) by (cases p) simp_all
    moreover have "glob_char ((92 # utf8_enc r) @ z) = Some (r, z)" if "z \<noteq> []" for z
      using that e(3) by (simp add: glob_char_def)
    moreover have "scanChunk_loop True ((92 # utf8_enc r) @ z) = apfst ((@) (92 # utf8_enc r)) (scanChunk_loop True z)" for z
    proof (cases r rule: enc_plain)
      case (2 c cs)
      have "set cs \<inter> special = {}" using 2(2) by simp
      then show ?thesis using 2(1) scan_plain [of cs True z] by (cases "scanChunk_loop True z") simp
    qed (cases "scanChunk_loop True z", simp)
    ultimately show thesis using that by blast
  next
    case False
    then have "p = utf8_enc r @ q" using e(2) by simp
    moreover have h: "hd (utf8_enc r @ z) = hd p" for z
      using False e(2) enc_not_Nil [of r] by (cases "utf8_enc r") simp_all
    then have "glob_char (utf8_enc r @ z) = Some (r, z)" if "z \<noteq> []" for z
      using that p False e(3) enc_not_Nil [of r] by (simp add: glob_char_def)
    moreover have "scanChunk_loop True (utf8_enc r @ z) = apfst ((@) (utf8_enc r)) (scanChunk_loop True z)" for z
    proof (cases r rule: enc_plain)
      case (1 c)
      then have "c = hd p" using h [of "[]"] by simp
      then show ?thesis using 1 p False by (cases "scanChunk_loop True z") auto
    next
      case (2 c cs)
      then show ?thesis using scan_plain [of "c # cs" True z] by simp
    qed
    ultimately show thesis using that enc_not_Nil by blast
  qed
qed

lemma glob_ranges_local:
  assumes "glob_ranges seen p = Some (rs, q)"
  shows "\<exists>u. p = u @ q \<and> u \<noteq> [] \<and> (\<forall>z. glob_ranges seen (u @ z) = Some (rs, z)) \<and>
    (\<forall>z. scanChunk_loop True (u @ z) = apfst ((@) u) (scanChunk_loop False z))"
  using assms
proof (induction seen p arbitrary: rs rule: glob_ranges.induct)
  case (1 seen p)
  show ?case
  proof (cases "seen \<and> p \<noteq> [] \<and> hd p = 93")
    case True
    then have "glob_ranges seen p = Some ([], tl p)" by (simp add: glob_ranges.simps)
    then have "rs = []" "q = tl p" using 1(2) by simp_all
    moreover have "p = [93] @ tl p" using True by (cases p) simp_all
    ultimately have "p = [93] @ q" "rs = []" by simp_all
    moreover have "glob_ranges seen ([93] @ z) = Some ([], z)" for z using True by (simp add: glob_ranges.simps)
    moreover have "scanChunk_loop True ([93] @ z) = apfst ((@) [93]) (scanChunk_loop False z)" for z
      by (cases "scanChunk_loop False z") simp
    ultimately show ?thesis by blast
  next
    case False
    note g = 1(2) [unfolded glob_ranges.simps [of seen p] if_not_P [OF False]]
    obtain lo q1 where q1: "glob_char p = Some (lo, q1)" using g by (auto split: option.splits)
    obtain hi q2 where q2: "(if hd q1 = 45 then glob_char (tl q1) else Some (lo, q1)) = Some (hi, q2)"
      using g q1 by (auto split: option.splits)
    obtain rs' where rs': "glob_ranges True q2 = Some (rs', q)" "rs = (lo, hi) # rs'" using g q1 q2 by auto
    obtain u1 where u1: "p = u1 @ q1" "u1 \<noteq> []" "\<And>z. z \<noteq> [] \<Longrightarrow> glob_char (u1 @ z) = Some (lo, z)"
      "\<And>z. scanChunk_loop True (u1 @ z) = apfst ((@) u1) (scanChunk_loop True z)"
      by (rule glob_char_local [OF q1]) blast
    obtain u3 where u3: "q2 = u3 @ q" "u3 \<noteq> []" "\<And>z. glob_ranges True (u3 @ z) = Some (rs', z)"
      "\<And>z. scanChunk_loop True (u3 @ z) = apfst ((@) u3) (scanChunk_loop False z)"
      using 1(1) [OF False q1 refl q2 refl rs'(1)] by blast
    have "\<exists>u2. q1 = u2 @ q2 \<and> (\<forall>z. z \<noteq> [] \<longrightarrow> hd z = hd q2 \<longrightarrow>
        (if hd (u2 @ z) = 45 then glob_char (tl (u2 @ z)) else Some (lo, u2 @ z)) = Some (hi, z)) \<and>
        (\<forall>z. scanChunk_loop True (u2 @ z) = apfst ((@) u2) (scanChunk_loop True z))"
    proof (cases "hd q1 = 45")
      case True
      have "q1 \<noteq> []" using glob_char_shorter [OF q1] by simp
      have "glob_char (tl q1) = Some (hi, q2)" using q2 True by simp
      then obtain u where u: "tl q1 = u @ q2" "u \<noteq> []" "\<And>z. z \<noteq> [] \<Longrightarrow> glob_char (u @ z) = Some (hi, z)"
        "\<And>z. scanChunk_loop True (u @ z) = apfst ((@) u) (scanChunk_loop True z)"
        by (rule glob_char_local) blast
      then have "q1 = (45 # u) @ q2" using True \<open>q1 \<noteq> []\<close> by (cases q1) simp_all
      moreover have "scanChunk_loop True ((45 # u) @ z) = apfst ((@) (45 # u)) (scanChunk_loop True z)" for z
        using u(4) [of z] by (cases "scanChunk_loop True z") simp
      ultimately show ?thesis using u(3) by (intro exI [of _ "45 # u"]) simp
    next
      case False
      then have "q1 = q2" "hi = lo" using q2 by simp_all
      moreover have "apfst ((@) []) x = x" for x :: "byte list \<times> byte list" by (cases x) simp
      ultimately show ?thesis using False by (intro exI [of _ "[]"]) simp
    qed
    then obtain u2 where u2: "q1 = u2 @ q2" "\<And>z. z \<noteq> [] \<Longrightarrow> hd z = hd q2 \<Longrightarrow>
        (if hd (u2 @ z) = 45 then glob_char (tl (u2 @ z)) else Some (lo, u2 @ z)) = Some (hi, z)"
        "\<And>z. scanChunk_loop True (u2 @ z) = apfst ((@) u2) (scanChunk_loop True z)" by blast
    let ?u = "u1 @ u2 @ u3"
    have "glob_ranges seen (?u @ z) = Some (rs, z)" for z
    proof -
      have f: "\<not> (seen \<and> ?u @ z \<noteq> [] \<and> hd (?u @ z) = 93)" using False u1(1,2) by (cases u1) auto
      have "glob_char (?u @ z) = Some (lo, u2 @ u3 @ z)" using u1(3) [of "u2 @ u3 @ z"] u3(2) by simp
      moreover have "hd (u3 @ z) = hd q2" using u3(1,2) by (cases u3) simp_all
      then have "(if hd (u2 @ u3 @ z) = 45 then glob_char (tl (u2 @ u3 @ z)) else Some (lo, u2 @ u3 @ z)) = Some (hi, u3 @ z)"
        using u2(2) [of "u3 @ z"] u3(2) by simp
      ultimately show ?thesis
        unfolding glob_ranges.simps [of seen "?u @ z"] if_not_P [OF f] using u3(3) rs'(2) by simp
    qed
    moreover have "scanChunk_loop True (?u @ z) = apfst ((@) ?u) (scanChunk_loop False z)" for z
      using u1(4) [of "u2 @ u3 @ z"] u2(3) [of "u3 @ z"] u3(4) [of z] by (cases "scanChunk_loop False z") simp
    moreover have "p = ?u @ q" using u1(1) u2(1) u3(1) by simp
    ultimately show ?thesis using u1(2) by blast
  qed
qed

text \<open>A pattern, or with \<open>stars\<close> false a chunk, in which a star stands for itself.\<close>

definition glob_class :: "byte list \<Rightarrow> (glob \<times> byte list) option" where
  "glob_class p =
     (let neg = (p \<noteq> [] \<and> hd p = 94) in
      map_option (apfst (GClass neg)) (glob_ranges False (if neg then tl p else p)))"

lemma glob_class_local:
  assumes "glob_class p = Some (g, q)"
  obtains u where "p = u @ q" "\<And>z. glob_class (u @ z) = Some (g, z)"
    "\<And>z. scanChunk_loop True (u @ z) = apfst ((@) u) (scanChunk_loop False z)"
proof -
  define neg where "neg = (p \<noteq> [] \<and> hd p = 94)"
  obtain rs where rs: "glob_ranges False (if neg then tl p else p) = Some (rs, q)" "g = GClass neg rs"
    using assms by (auto simp: glob_class_def Let_def neg_def [symmetric])
  obtain u where u: "(if neg then tl p else p) = u @ q" "u \<noteq> []" "\<And>z. glob_ranges False (u @ z) = Some (rs, z)"
    "\<And>z. scanChunk_loop True (u @ z) = apfst ((@) u) (scanChunk_loop False z)"
    using glob_ranges_local [OF rs(1)] by blast
  show thesis
  proof (cases neg)
    case True
    then have "p = (94 # u) @ q" using u(1) by (cases p) (simp_all add: neg_def)
    moreover have "glob_class ((94 # u) @ z) = Some (g, z)" for z using u(3) rs(2) True by (simp add: glob_class_def)
    moreover have "scanChunk_loop True ((94 # u) @ z) = apfst ((@) (94 # u)) (scanChunk_loop False z)" for z
      using u(4) [of z] by (cases "scanChunk_loop False z") simp
    ultimately show thesis using that by blast
  next
    case False
    then have p: "p = u @ q" using u(1) by simp
    then have "hd (u @ z) \<noteq> 94" for z using False u(2) by (cases u) (auto simp: neg_def)
    then have "glob_class (u @ z) = Some (g, z)" for z using u(3) rs(2) False by (simp add: glob_class_def)
    then show thesis using that p u(4) by blast
  qed
qed

lemma glob_class_shorter: "glob_class p = Some (g, q) \<Longrightarrow> length q \<le> length p"
  by (erule glob_class_local) simp

function glob_parse :: "bool \<Rightarrow> byte list \<Rightarrow> glob list option" where
  "glob_parse stars [] = Some []"
| "glob_parse stars (c # p) =
     (if c = 91 then
        case glob_class p of None \<Rightarrow> None | Some (g, q) \<Rightarrow> map_option ((#) g) (glob_parse stars q)
      else if c = 63 then map_option ((#) GAny) (glob_parse stars p)
      else if c = 42 \<and> stars then map_option ((#) GStar) (glob_parse stars p)
      else if c = 92 then
        case p of [] \<Rightarrow> None | d # p \<Rightarrow> map_option ((#) (GLit d)) (glob_parse stars p)
      else map_option ((#) (GLit c)) (glob_parse stars p))"
  by pat_completeness auto
termination
  by (relation "measure (\<lambda>(stars, p). length p)") (auto dest!: glob_class_shorter simp: less_Suc_eq_le)

definition glob_append :: "glob list option \<Rightarrow> glob list option \<Rightarrow> glob list option" where
  "glob_append a b = (case a of None \<Rightarrow> None | Some x \<Rightarrow> map_option ((@) x) b)"

lemma glob_append_simps [simp]:
  "glob_append None b = None" "glob_append (Some []) b = b"
  "glob_append (map_option ((#) g) a) b = map_option ((#) g) (glob_append a b)"
  by (cases b; cases a; simp add: glob_append_def)+

lemma class_scan_parse:
  assumes ih: "\<And>q ch. length q \<le> length p \<Longrightarrow> scanChunk_loop False q = (ch, rest) \<Longrightarrow>
      glob_parse True q = glob_append (glob_parse False ch) (glob_parse True rest)"
    and scan: "scanChunk_loop False (91 # p) = (chunk, rest)"
  shows "glob_parse True (91 # p) = glob_append (glob_parse False chunk) (glob_parse True rest)"
proof (cases "glob_class p")
  case None
  obtain ch where ch: "chunk = 91 # ch" "p = ch @ rest"
    using scan scan_append [of True p] by (cases "scanChunk_loop True p") auto
  have "glob_class ch = None"
  proof (rule ccontr)
    assume "glob_class ch \<noteq> None"
    then obtain g q where "glob_class ch = Some (g, q)" by fastforce
    then obtain u where "ch = u @ q" "\<And>z. glob_class (u @ z) = Some (g, z)" by (rule glob_class_local) blast
    then show False using None ch(2) by simp
  qed
  then show ?thesis using None ch(1) by simp
next
  case (Some x)
  obtain g q where x: "x = (g, q)" by fastforce
  obtain u where u: "p = u @ q" "\<And>z. glob_class (u @ z) = Some (g, z)"
    "\<And>z. scanChunk_loop True (u @ z) = apfst ((@) u) (scanChunk_loop False z)"
    by (rule glob_class_local [OF Some [unfolded x]]) blast
  obtain ch where ch: "scanChunk_loop False q = (ch, rest)" "chunk = 91 # u @ ch"
    using scan u(1,3) by (cases "scanChunk_loop False q") auto
  have "glob_parse True q = glob_append (glob_parse False ch) (glob_parse True rest)"
    by (rule ih) (use u(1) ch(1) in simp_all)
  then show ?thesis using Some x u(2) ch(2) by simp
qed

lemma scan_parse:
  "scanChunk_loop False p = (chunk, rest) \<Longrightarrow> glob_parse True p = glob_append (glob_parse False chunk) (glob_parse True rest)"
proof (induction "length p" arbitrary: p chunk rest rule: less_induct)
  case less
  show ?case
  proof (cases p)
    case Nil
    then show ?thesis using less.prems by simp
  next
    case (Cons c q)
    consider "c = 91" | "c = 42" | "c = 92" | "c \<noteq> 91" "c \<noteq> 42" "c \<noteq> 92" by blast
    then show ?thesis
    proof cases
      case 1
      then show ?thesis
        using class_scan_parse [of q rest chunk] less.hyps less.prems Cons by (simp add: less_Suc_eq_le)
    next
      case 2
      then show ?thesis using less.prems Cons by auto
    next
      case 3
      then show ?thesis
      proof (cases q)
        case Nil
        then show ?thesis using 3 less.prems Cons by auto
      next
        case q: (Cons d r)
        obtain ch where ch: "scanChunk_loop False r = (ch, rest)" "chunk = 92 # d # ch"
          using less.prems Cons q 3 by (cases "scanChunk_loop False r") auto
        have "glob_parse True r = glob_append (glob_parse False ch) (glob_parse True rest)"
          by (rule less.hyps [OF _ ch(1)]) (simp add: Cons q)
        then show ?thesis using ch(2) Cons q 3 by simp
      qed
    next
      case 4
      obtain ch where ch: "scanChunk_loop False q = (ch, rest)" "chunk = c # ch"
        using less.prems Cons 4 by (cases "scanChunk_loop False q") (auto split: if_splits)
      have "glob_parse True q = glob_append (glob_parse False ch) (glob_parse True rest)"
        by (rule less.hyps [OF _ ch(1)]) (simp add: Cons)
      then show ?thesis using ch(2) Cons 4 by simp
    qed
  qed
qed

section \<open>What a pattern matches\<close>

text \<open>
  A class may match a slash; \<open>?\<close> and a star may not. A class and \<open>?\<close> take a character, a literal its byte. In
  \<open>glob_bytes\<close> a star takes any number of bytes, as the loop of \<open>Match\<close> does; the documented meaning, where it takes any
  number of characters, is \<open>glob_match\<close> below.
\<close>

fun glob_step :: "glob \<Rightarrow> byte list \<Rightarrow> byte list option" where
  "glob_step GStar s = None"
| "glob_step GAny s =
     (if s = [] \<or> hd s = 47 then None else Some (drop (snd (utf8_DecodeRune s)) s))"
| "glob_step (GClass neg rs) s =
     (if s = [] \<or> in_ranges (fst (utf8_DecodeRune s)) rs = neg then None else Some (drop (snd (utf8_DecodeRune s)) s))"
| "glob_step (GLit c) s = (if s = [] \<or> hd s \<noteq> c then None else Some (tl s))"

fun glob_chunk :: "glob list \<Rightarrow> byte list \<Rightarrow> byte list option" where
  "glob_chunk [] s = Some s"
| "glob_chunk (g # gs) s = (case glob_step g s of None \<Rightarrow> None | Some t \<Rightarrow> glob_chunk gs t)"

fun glob_bytes :: "glob list \<Rightarrow> byte list \<Rightarrow> bool" where
  "glob_bytes [] s \<longleftrightarrow> s = []"
| "glob_bytes (GStar # gs) s \<longleftrightarrow> (\<exists>k \<le> length s. 47 \<notin> set (take k s) \<and> glob_bytes gs (drop k s))"
| "glob_bytes (g # gs) s \<longleftrightarrow> (case glob_step g s of None \<Rightarrow> False | Some t \<Rightarrow> glob_bytes gs t)"

lemma matchChunk_loop_exact:
  "matchChunk_loop failed chunk s =
     (case glob_parse False chunk of
        None \<Rightarrow> Inl path_ErrBadPattern
      | Some gs \<Rightarrow> Inr (case if failed then None else glob_chunk gs s of None \<Rightarrow> ([], False) | Some t \<Rightarrow> (t, True)))"
proof (induction "length chunk" arbitrary: failed chunk s rule: less_induct)
  case less
  show ?case
  proof (cases chunk)
    case (Cons c q)
    consider "c = 91" | "c = 63" | "c = 92" "q = []" | d r where "c = 92" "q = d # r" | "c \<noteq> 91" "c \<noteq> 63" "c \<noteq> 92"
      by (cases q) blast+
    then show ?thesis
    proof cases
      case 1
      define neg where "neg = (q \<noteq> [] \<and> hd q = 94)"
      define f where "f = (failed \<or> s = [])"
      define r where "r = (if f then 0 else fst (utf8_DecodeRune s))"
      define s' where "s' = (if f then s else drop (snd (utf8_DecodeRune s)) s)"
      have pr: "(if f then (0, s) else case utf8_DecodeRuneInString s of (r, n) \<Rightarrow> (r, drop n s)) = (r, s')"
        by (simp add: r_def s'_def DecodeRuneInString_eq case_prod_beta)
      have loop: "matchChunk_loop failed chunk s =
          (case path_ranges r False 0 (if neg then tl q else q) of
             Inl err \<Rightarrow> Inl err
           | Inr (match, chunk) \<Rightarrow> matchChunk_loop (f \<or> match = neg) chunk s')"
        unfolding Cons 1 matchChunk_loop.simps Let_def length_0_conv f_def [symmetric] pr length_greater_0_conv neg_def [symmetric]
        by simp
      show ?thesis
      proof (cases "glob_ranges False (if neg then tl q else q)")
        case None
        then show ?thesis using loop Cons 1 by (simp add: path_ranges_exact glob_class_def Let_def neg_def [symmetric])
      next
        case (Some x)
        obtain rs t where x: "x = (rs, t)" by fastforce
        have cl: "glob_class q = Some (GClass neg rs, t)" using Some x by (simp add: glob_class_def Let_def neg_def [symmetric])
        then have "length t < length chunk" using glob_class_shorter Cons by fastforce
        note ih = less [OF this]
        have "matchChunk_loop failed chunk s = matchChunk_loop (f \<or> in_ranges r rs = neg) t s'"
          using loop Some x by (simp add: path_ranges_exact)
        then show ?thesis
          using ih cl Cons 1 by (auto simp: f_def r_def s'_def split: option.splits)
      qed
    next
      case 2
      then show ?thesis using Cons less [of q] by (auto simp: Let_def DecodeRuneInString_eq case_prod_beta split: option.splits)
    next
      case 3
      then show ?thesis using Cons by simp
    next
      case 4
      then show ?thesis using Cons less [of r] by (auto simp: Let_def split: option.splits)
    next
      case 5
      then show ?thesis using Cons less [of q] by (auto simp: Let_def split: option.splits)
    qed
  qed simp
qed

section \<open>Stars and chunks\<close>

lemma star_take:
  assumes "47 \<notin> set (take k s)" and "glob_bytes (GStar # gs) (drop k s)"
  shows "glob_bytes (GStar # gs) s"
proof -
  obtain j where j: "j \<le> length (drop k s)" "47 \<notin> set (take j (drop k s))" "glob_bytes gs (drop j (drop k s))"
    using assms(2) by auto
  show ?thesis
  proof (cases "k \<le> length s")
    case True
    have "take (k + j) s = take k s @ take j (drop k s)" by (simp add: take_add)
    then have "47 \<notin> set (take (k + j) s)" using assms(1) j(2) by simp
    moreover have "k + j \<le> length s" using j(1) True by simp
    ultimately show ?thesis using j(3) by (auto simp: add.commute intro!: exI [of _ "k + j"])
  next
    case False
    then have "drop k s = []" "take k s = s" by simp_all
    then show ?thesis using assms(1) j(3) by (auto intro!: exI [of _ "length s"])
  qed
qed

lemma star_zero: "glob_bytes gs s \<Longrightarrow> glob_bytes (GStar # gs) s"
  by (auto intro!: exI [of _ 0])

lemma star_star: "glob_bytes (GStar # GStar # gs) s \<longleftrightarrow> glob_bytes (GStar # gs) s"
proof
  assume "glob_bytes (GStar # GStar # gs) s"
  then obtain k where "47 \<notin> set (take k s)" "glob_bytes (GStar # gs) (drop k s)" by auto
  then show "glob_bytes (GStar # gs) s" by (rule star_take)
qed (rule star_zero)

lemma replicate_star: "0 < n \<Longrightarrow> glob_bytes (replicate n GStar @ gs) s \<longleftrightarrow> glob_bytes (GStar # gs) s"
proof (induction n)
  case (Suc n)
  show ?case
  proof (cases "n = 0")
    case False
    then obtain m where m: "n = Suc m" by (cases n) simp_all
    have "glob_bytes (replicate (Suc n) GStar @ gs) s \<longleftrightarrow> glob_bytes (replicate n GStar @ gs) s"
      using star_star [of "replicate m GStar @ gs" s] by (simp add: m)
    then show ?thesis using Suc.IH False by simp
  qed simp
qed simp

lemma glob_bytes_append:
  assumes "GStar \<notin> set gs"
  shows "glob_bytes (gs @ hs) s \<longleftrightarrow> (\<exists>t. glob_chunk gs s = Some t \<and> glob_bytes hs t)"
  using assms
proof (induction gs arbitrary: s)
  case (Cons g gs)
  then have "glob_bytes ((g # gs) @ hs) s \<longleftrightarrow> (case glob_step g s of None \<Rightarrow> False | Some t \<Rightarrow> glob_bytes (gs @ hs) t)"
    by (cases g) simp_all
  then show ?case using Cons by (auto split: option.splits)
qed simp

lemma parse_chunk_star: "glob_parse False p = Some gs \<Longrightarrow> GStar \<notin> set gs"
proof (induction False p arbitrary: gs rule: glob_parse.induct)
  case (2 c p)
  have "g \<noteq> GStar" if "glob_class p = Some (g, q)" for g q
    using that by (auto simp: glob_class_def Let_def)
  then show ?case using 2 by (auto split: if_splits option.splits list.splits)
qed simp

lemma scan_rest: "snd (scanChunk_loop b p) = [] \<or> hd (snd (scanChunk_loop b p)) = 42"
  by (induction b p rule: scanChunk_loop.induct) (auto split: list.splits)

lemma stars_parse:
  obtains n where "scanChunk_stars b p = (b \<or> 0 < n, dropWhile (\<lambda>c. c = 42) p)"
    "glob_parse True p = map_option ((@) (replicate n GStar)) (glob_parse True (dropWhile (\<lambda>c. c = 42) p))"
proof (induction b p arbitrary: thesis rule: scanChunk_stars.induct)
  case (1 b)
  show ?case by (rule 1 [of 0]) simp_all
next
  case (2 b c p)
  show ?case
  proof (cases "c = 42")
    case True
    obtain n where "scanChunk_stars True p = (True \<or> 0 < n, dropWhile (\<lambda>c. c = 42) p)"
      "glob_parse True p = map_option ((@) (replicate n GStar)) (glob_parse True (dropWhile (\<lambda>c. c = 42) p))"
      using 2(1) True by blast
    then show ?thesis using True by (intro 2(2) [of "Suc n"]) (simp_all add: option.map_comp comp_def)
  next
    case False
    have "map_option (\<lambda>a. a) x = x" for x :: "glob list option" by (cases x) simp_all
    then show ?thesis using False by (intro 2(2) [of 0]) (simp_all del: glob_parse.simps)
  qed
qed

lemma scanChunk_parse:
  assumes "scanChunk p = (star, chunk, rest)"
  obtains n where "star \<longleftrightarrow> 0 < n" "rest = [] \<or> hd rest = 42" "chunk = [] \<longrightarrow> rest = []"
    "glob_parse True p = map_option ((@) (replicate n GStar)) (glob_append (glob_parse False chunk) (glob_parse True rest))"
proof -
  let ?q = "dropWhile (\<lambda>c. c = 42) p"
  obtain n where n: "scanChunk_stars False p = (0 < n, ?q)"
    "glob_parse True p = map_option ((@) (replicate n GStar)) (glob_parse True ?q)"
    using stars_parse [of False p] by auto
  have s: "scanChunk_loop False ?q = (chunk, rest)" "star \<longleftrightarrow> 0 < n" using assms n(1) by (simp_all add: scanChunk_def)
  have "rest = [] \<or> hd rest = 42" using scan_rest [of False ?q] s(1) by simp
  moreover have "chunk = [] \<longrightarrow> rest = []"
  proof (cases ?q)
    case (Cons c r)
    then have "c \<noteq> 42" using hd_dropWhile [of "\<lambda>c. c = 42" p] by auto
    then show ?thesis using scan_nonempty [of c False r] Cons s(1) by auto
  next
    case Nil
    then show ?thesis using s(1) unfolding Nil by simp
  qed
  ultimately show thesis using that s n(2) scan_parse [OF s(1)] by simp
qed

lemma path_check_exact: "path_check p = (if glob_parse True p = None then Inl path_ErrBadPattern else Inr ())"
proof (induction p rule: path_check.induct)
  case (2 c p)
  obtain star chunk rest where s: "scanChunk (c # p) = (star, chunk, rest)" by (metis prod_cases3)
  obtain n where "glob_parse True (c # p) =
      map_option ((@) (replicate n GStar)) (glob_append (glob_parse False chunk) (glob_parse True rest))"
    by (rule scanChunk_parse [OF s]) blast
  then show ?case
    using 2 [OF s [symmetric] refl] s
    by (cases "glob_parse False chunk") (auto simp: matchChunk_def matchChunk_loop_exact glob_append_def simp del: glob_parse.simps split: option.splits)
qed simp

lemma index_loop_absent: "0 \<le> i \<Longrightarrow> bytealg_index_loop s c i < 0 \<longleftrightarrow> c \<notin> set s"
  by (induction s c i rule: bytealg_index_loop.induct) auto

lemma star_only: "0 < n \<Longrightarrow> glob_bytes (replicate n GStar) s \<longleftrightarrow> 47 \<notin> set s"
  using replicate_star [of n "[]" s] by auto

section \<open>The first match is enough\<close>

text \<open>For names of ASCII bytes and classes without the slash, an earlier match of a chunk serves wherever a later one does.\<close>

fun glob_accepts :: "glob \<Rightarrow> byte \<Rightarrow> bool" where
  "glob_accepts GStar c \<longleftrightarrow> False"
| "glob_accepts GAny c \<longleftrightarrow> c \<noteq> 47"
| "glob_accepts (GClass neg rs) c \<longleftrightarrow> in_ranges (ucast c) rs \<noteq> neg"
| "glob_accepts (GLit d) c \<longleftrightarrow> c = d"

definition slash_free :: "glob list \<Rightarrow> bool" where
  "slash_free gs \<longleftrightarrow> (\<forall>neg rs. GClass neg rs \<in> set gs \<longrightarrow> \<not> glob_accepts (GClass neg rs) 47)"

lemma glob_step_ascii:
  assumes "c < 0x80"
  shows "glob_step g (c # s) = (if glob_accepts g c then Some s else None)"
  using assms by (cases g) (simp_all add: utf8_DecodeRune_def)

lemma glob_chunk_ascii:
  assumes "ascii s" "glob_chunk gs s = Some t"
  shows "length gs \<le> length s \<and> t = drop (length gs) s \<and> (\<forall>i < length gs. glob_accepts (gs ! i) (s ! i))"
  using assms
proof (induction gs arbitrary: s)
  case (Cons g gs)
  show ?case
  proof (cases s)
    case Nil
    then show ?thesis using Cons.prems(2) by (cases g) simp_all
  next
    case s: (Cons c r)
    then have a: "c < 0x80" "ascii r" using Cons.prems(1) by (simp_all add: ascii_def)
    then have "glob_accepts g c" "glob_chunk gs r = Some t"
      using Cons.prems(2) s glob_step_ascii [OF a(1), of g r] by (auto split: if_splits)
    then show ?thesis using Cons.IH [OF a(2)] s by (auto simp: nth_Cons split: nat.splits)
  qed
qed simp

lemma accepts_slash: "slash_free gs \<Longrightarrow> g \<in> set gs \<Longrightarrow> glob_accepts g 47 \<Longrightarrow> g = GLit 47"
  by (cases g) (auto simp: slash_free_def)

lemma greedy_slash:
  assumes "ascii s" "slash_free gs" "k \<le> k'" "k' \<le> length s" "47 \<notin> set (take k' s)"
    and t: "glob_chunk gs (drop k s) = Some t" and t': "glob_chunk gs (drop k' s) = Some t'"
  shows "k = k' \<or> 47 \<notin> set (take (k' + length gs) s)"
proof -
  have a: "ascii (drop k s)" "ascii (drop k' s)" using assms(1) by (auto simp: ascii_def list_all_iff dest: in_set_dropD)
  note c = glob_chunk_ascii [OF a(1) t] and c' = glob_chunk_ascii [OF a(2) t']
  have pre: "s ! i \<noteq> 47" if "i < k'" for i
    using that assms(4,5) nth_mem [of i "take k' s"] by auto
  have at: "glob_accepts (gs ! i) (s ! (k + i))" "glob_accepts (gs ! i) (s ! (k' + i))" if "i < length gs" for i
    using that c c' assms(3,4) by simp_all
  show ?thesis
  proof (cases "GLit 47 \<in> set gs")
    case True
    then have "\<exists>i. i < length gs \<and> gs ! i = GLit 47" by (auto simp: in_set_conv_nth)
    then have "\<exists>i. (i < length gs \<and> gs ! i = GLit 47) \<and> (\<forall>j < i. \<not> (j < length gs \<and> gs ! j = GLit 47))"
      by (rule exists_least_iff [THEN iffD1])
    then obtain i where i: "i < length gs" "gs ! i = GLit 47" and "\<forall>j < i. \<not> (j < length gs \<and> gs ! j = GLit 47)"
      by blast
    then have min: "gs ! j \<noteq> GLit 47" if "j < i" for j using that by simp
    have "s ! (k + i) = 47" using at(1) [OF i(1)] i(2) by simp
    then have l: "k' \<le> k + i" using pre [of "k + i"] by (cases "k' \<le> k + i") simp_all
    show ?thesis
    proof (cases "k = k'")
      case False
      let ?j = "k + i - k'"
      have j: "?j < i" "k' + ?j = k + i" using l False assms(3) by simp_all
      then have "glob_accepts (gs ! ?j) 47" using at(2) [of ?j] i(1) \<open>s ! (k + i) = 47\<close> by simp
      moreover have "gs ! ?j \<in> set gs" using j(1) i(1) by simp
      ultimately have "gs ! ?j = GLit 47" using accepts_slash [OF assms(2)] by blast
      then show ?thesis using min j(1) by blast
    qed simp
  next
    case False
    have post: "s ! (k' + i) \<noteq> 47" if "i < length gs" for i
    proof
      assume "s ! (k' + i) = 47"
      then have "gs ! i = GLit 47" using at(2) [OF that] accepts_slash [OF assms(2), of "gs ! i"] that by simp
      then show False using False that nth_mem [OF that] by simp
    qed
    have "s ! i \<noteq> 47" if "i < k' + length gs" for i
    proof (cases "i < k'")
      case False
      then obtain d where "i = k' + d" using le_Suc_ex [of k' i] by auto
      then show ?thesis using that post [of d] by simp
    qed (rule pre)
    then show ?thesis by (auto simp: in_set_conv_nth)
  qed
qed

lemma greedy:
  assumes "ascii s" "slash_free gs" "k \<le> k'" "k' \<le> length s" "47 \<notin> set (take k' s)"
    and t: "glob_chunk gs (drop k s) = Some t" and t': "glob_chunk gs (drop k' s) = Some t'"
    and m: "glob_bytes (GStar # hs) t'"
  shows "glob_bytes (GStar # hs) t"
proof (cases "k = k'")
  case True
  then show ?thesis using t t' m by simp
next
  case False
  have a: "ascii (drop k s)" "ascii (drop k' s)" using assms(1) by (auto simp: ascii_def list_all_iff dest: in_set_dropD)
  have e: "t = drop (k + length gs) s" "t' = drop (k' + length gs) s"
    using glob_chunk_ascii [OF a(1) t] glob_chunk_ascii [OF a(2) t'] by (simp_all add: add.commute)
  have "drop (k' - k) t = t'" using e assms(3) by simp
  moreover have "47 \<notin> set (take (k' - k) t)"
  proof -
    have "47 \<notin> set (take (k' + length gs) s)" using greedy_slash [OF assms(1-5) t t'] False by simp
    moreover have "take (k' - k) t = drop (k + length gs) (take (k' + length gs) s)"
      using e(1) assms(3) by (simp add: take_drop)
    ultimately show ?thesis by (auto dest: in_set_dropD)
  qed
  ultimately show ?thesis using m by (intro star_take [of "k' - k" t]) simp_all
qed

section \<open>Match\<close>

definition ok_at :: "glob list \<Rightarrow> bool \<Rightarrow> byte list \<Rightarrow> byte list \<Rightarrow> bool" where
  "ok_at gs inner s t \<longleftrightarrow> glob_chunk gs s = Some t \<and> (inner \<or> t = [])"

lemma path_skip_exact:
  assumes gs: "glob_parse False chunk = Some gs"
  shows "(\<exists>k t. path_skip chunk inner s = Inr (Some t) \<and> k < length s \<and> 47 \<notin> set (take (Suc k) s) \<and>
           ok_at gs inner (drop (Suc k) s) t \<and> (\<forall>j < k. \<forall>t. \<not> ok_at gs inner (drop (Suc j) s) t)) \<or>
         path_skip chunk inner s = Inr None \<and>
           (\<forall>j < length s. 47 \<notin> set (take (Suc j) s) \<longrightarrow> (\<forall>t. \<not> ok_at gs inner (drop (Suc j) s) t))"
proof (induction s)
  case (Cons c s)
  have m: "matchChunk chunk s = Inr (case glob_chunk gs s of None \<Rightarrow> ([], False) | Some t \<Rightarrow> (t, True))"
    using gs by (simp add: matchChunk_def matchChunk_loop_exact)
  consider "c = 47" | t where "c \<noteq> 47" "ok_at gs inner s t" | "c \<noteq> 47" "\<forall>t. \<not> ok_at gs inner s t" by blast
  then show ?case
  proof cases
    case 1
    then show ?thesis by simp
  next
    case (2 t)
    then have "path_skip chunk inner (c # s) = Inr (Some t)" using m by (auto simp: ok_at_def)
    then show ?thesis using 2 by (intro disjI1 exI [of _ 0] exI [of _ t]) simp
  next
    case 3
    have eq: "path_skip chunk inner (c # s) = path_skip chunk inner s"
      using 3 m by (auto simp: ok_at_def split: option.splits)
    from Cons.IH show ?thesis
    proof (elim disjE exE conjE)
      fix k t
      assume k: "path_skip chunk inner s = Inr (Some t)" "k < length s" "47 \<notin> set (take (Suc k) s)"
        "ok_at gs inner (drop (Suc k) s) t" "\<forall>j < k. \<forall>t. \<not> ok_at gs inner (drop (Suc j) s) t"
      have "\<forall>j < Suc k. \<forall>t. \<not> ok_at gs inner (drop (Suc j) (c # s)) t"
        using k(5) 3(2) by (auto simp: less_Suc_eq_0_disj)
      then show ?thesis using k 3 eq by (intro disjI1 exI [of _ "Suc k"] exI [of _ t]) auto
    next
      assume k: "path_skip chunk inner s = Inr None"
        "\<forall>j < length s. 47 \<notin> set (take (Suc j) s) \<longrightarrow> (\<forall>t. \<not> ok_at gs inner (drop (Suc j) s) t)"
      have "\<forall>j < length (c # s). 47 \<notin> set (take (Suc j) (c # s)) \<longrightarrow> (\<forall>t. \<not> ok_at gs inner (drop (Suc j) (c # s)) t)"
        using k(2) 3(2) by (auto simp: less_Suc_eq_0_disj)
      then show ?thesis using k(1) eq by (intro disjI2) simp
    qed
  qed
qed simp

text \<open>
  One round of the loop of \<open>Match\<close>: where the chunk was found, if it was. Nothing is found only where there is no match, and the
  place found is as good as any other for ASCII names and classes without the slash.
\<close>

definition path_round :: "bool \<Rightarrow> byte list \<Rightarrow> bool \<Rightarrow> byte list \<Rightarrow> path_error + byte list option" where
  "path_round star chunk inner name =
     (case matchChunk chunk name of
        Inl err \<Rightarrow> Inl err
      | Inr (t, ok) \<Rightarrow>
          if ok \<and> (length t = 0 \<or> inner) then Inr (Some t)
          else if star then path_skip chunk inner name else Inr None)"

lemma path_Match_round:
  assumes "scanChunk (c # p) = (star, chunk, rest)" "\<not> (star \<and> chunk = [])"
  shows "path_Match (c # p) name =
     (case path_round star chunk (rest \<noteq> []) name of
        Inl err \<Rightarrow> Inl err
      | Inr (Some t) \<Rightarrow> path_Match rest t
      | Inr None \<Rightarrow> (case path_check rest of Inl err \<Rightarrow> Inl err | Inr _ \<Rightarrow> Inr False))"
  using assms by (auto simp: path_round_def Let_def split: sum.splits option.splits)

lemma match_ok_at:
  assumes "GStar \<notin> set gs" "glob_bytes (gs @ hs) s" "if inner then \<exists>hs'. hs = GStar # hs' else hs = []"
  obtains t where "ok_at gs inner s t" "glob_bytes hs t"
  using assms by (auto simp: glob_bytes_append ok_at_def split: if_splits)

lemma ok_at_best:
  assumes gs: "GStar \<notin> set gs" and hs: "if inner then \<exists>hs'. hs = GStar # hs' else hs = []"
    and k: "ok_at gs inner (drop k s) t" "\<And>j u. j < k \<Longrightarrow> \<not> ok_at gs inner (drop j s) u"
    and a: "ascii s" "slash_free gs" and m: "glob_bytes (GStar # gs @ hs) s"
  shows "glob_bytes hs t"
proof -
  obtain k' where k': "k' \<le> length s" "47 \<notin> set (take k' s)" "glob_bytes (gs @ hs) (drop k' s)" using m by auto
  obtain t' where t': "ok_at gs inner (drop k' s) t'" "glob_bytes hs t'" by (rule match_ok_at [OF gs k'(3) hs])
  have "k \<le> k'" using k(2) t'(1) by (meson not_le)
  show ?thesis
  proof (cases inner)
    case True
    then obtain hs' where "hs = GStar # hs'" using hs by auto
    then show ?thesis
      using greedy [OF a(1,2) \<open>k \<le> k'\<close> k'(1,2), of t t' hs'] k(1) t' by (simp add: ok_at_def)
  next
    case False
    then show ?thesis using hs k(1) by (simp add: ok_at_def)
  qed
qed

lemma glob_chunk_rest_ascii:
  assumes "ascii s" "glob_chunk gs (drop k s) = Some t"
  shows "ascii t"
proof -
  have "ascii (drop k s)" using assms(1) by (auto simp: ascii_def list_all_iff dest: in_set_dropD)
  then have "t = drop (length gs) (drop k s)" using glob_chunk_ascii assms(2) by blast
  then show ?thesis using assms(1) by (auto simp: ascii_def list_all_iff dest!: in_set_dropD)
qed

lemma path_round_exact:
  fixes star :: bool
  assumes p: "glob_parse False chunk = Some gs" and hs: "if inner then \<exists>hs'. hs = GStar # hs' else hs = []"
  defines "all \<equiv> (if star then [GStar] else []) @ gs @ hs"
  obtains "path_round star chunk inner s = Inr None" "\<not> glob_bytes all s"
  | t where "path_round star chunk inner s = Inr (Some t)" "glob_bytes hs t \<Longrightarrow> glob_bytes all s"
    "ascii s \<Longrightarrow> slash_free gs \<Longrightarrow> glob_bytes all s \<Longrightarrow> glob_bytes hs t" "ascii s \<Longrightarrow> ascii t"
proof -
  have gs: "GStar \<notin> set gs" by (rule parse_chunk_star [OF p])
  have m: "matchChunk chunk s = Inr (case glob_chunk gs s of None \<Rightarrow> ([], False) | Some t \<Rightarrow> (t, True))"
    using p by (simp add: matchChunk_def matchChunk_loop_exact)
  consider t where "ok_at gs inner s t" | "\<forall>t. \<not> ok_at gs inner s t" "\<not> star" | "\<forall>t. \<not> ok_at gs inner s t" star by blast
  then show thesis
  proof cases
    case (1 t)
    then have r: "path_round star chunk inner s = Inr (Some t)" using m by (auto simp: path_round_def ok_at_def)
    have "glob_bytes (gs @ hs) s" if "glob_bytes hs t" using that 1 gs by (auto simp: glob_bytes_append ok_at_def)
    then have snd: "glob_bytes hs t \<Longrightarrow> glob_bytes all s" using star_zero [of "gs @ hs" s]
      by (cases star) (simp_all add: all_def del: glob_bytes.simps)
    have "glob_bytes hs t" if "ascii s" "slash_free gs" "glob_bytes all s"
    proof (cases star)
      case True
      then show ?thesis using ok_at_best [OF gs hs, of 0 s t] 1 that by (simp add: all_def)
    next
      case False
      then show ?thesis using that(3) 1 gs by (auto simp: all_def glob_bytes_append ok_at_def)
    qed
    moreover have "ascii s \<Longrightarrow> ascii t" using 1 glob_chunk_rest_ascii [of s gs 0 t] by (simp add: ok_at_def)
    ultimately show thesis using that(2) [OF r snd] by blast
  next
    case 2
    then have "path_round star chunk inner s = Inr None" using m by (auto simp: path_round_def ok_at_def split: option.splits)
    moreover have "\<not> glob_bytes all s"
    proof
      assume "glob_bytes all s"
      then have "glob_bytes (gs @ hs) s" using 2(2) by (simp add: all_def)
      then obtain u where "ok_at gs inner s u" by (rule match_ok_at [OF gs _ hs])
      then show False using 2(1) by blast
    qed
    ultimately show thesis using that(1) by blast
  next
    case 3
    have r: "path_round star chunk inner s = path_skip chunk inner s"
      using 3 m by (auto simp: path_round_def ok_at_def split: option.splits)
    from path_skip_exact [OF p, of inner s] show thesis
    proof (elim disjE exE conjE)
      fix k t
      assume k: "path_skip chunk inner s = Inr (Some t)" "k < length s" "47 \<notin> set (take (Suc k) s)"
        "ok_at gs inner (drop (Suc k) s) t" "\<forall>j < k. \<forall>t. \<not> ok_at gs inner (drop (Suc j) s) t"
      have "glob_bytes (gs @ hs) (drop (Suc k) s)" if "glob_bytes hs t"
        using that k(4) gs by (auto simp: glob_bytes_append ok_at_def)
      note star_take [OF k(3) star_zero [OF this]]
      then have snd: "glob_bytes hs t \<Longrightarrow> glob_bytes all s" using 3(2) by (simp add: all_def)
      have "\<not> ok_at gs inner (drop j s) u" if "j < Suc k" for j u
        using that 3(1) k(5) by (cases j) simp_all
      then have "ascii s \<Longrightarrow> slash_free gs \<Longrightarrow> glob_bytes all s \<Longrightarrow> glob_bytes hs t"
        using ok_at_best [OF gs hs k(4)] 3(2) by (simp add: all_def)
      moreover have "ascii s \<Longrightarrow> ascii t" using k(4) glob_chunk_rest_ascii [of s gs "Suc k" t] by (simp add: ok_at_def)
      moreover have "path_round star chunk inner s = Inr (Some t)" using r k(1) by simp
      ultimately show thesis using that(2) [OF _ snd] by blast
    next
      assume k: "path_skip chunk inner s = Inr None"
        "\<forall>j < length s. 47 \<notin> set (take (Suc j) s) \<longrightarrow> (\<forall>t. \<not> ok_at gs inner (drop (Suc j) s) t)"
      have "\<not> glob_bytes all s"
      proof
        assume "glob_bytes all s"
        then obtain j where j: "j \<le> length s" "47 \<notin> set (take j s)" "glob_bytes (gs @ hs) (drop j s)"
          using 3(2) by (auto simp: all_def)
        obtain u where "ok_at gs inner (drop j s) u" by (rule match_ok_at [OF gs j(3) hs])
        then show False using k(2) 3(1) j(1,2) by (cases j) auto
      qed
      then show thesis using that(1) r k(1) by simp
    qed
  qed
qed

lemma path_Match_parse:
  "case glob_parse True p of
     None \<Rightarrow> path_Match p s = Inl path_ErrBadPattern
   | Some gs \<Rightarrow> \<exists>b. path_Match p s = Inr b \<and> (b \<longrightarrow> glob_bytes gs s) \<and> (ascii s \<and> slash_free gs \<and> glob_bytes gs s \<longrightarrow> b)"
proof (induction "length p" arbitrary: p s rule: less_induct)
  case less
  show ?case
  proof (cases p)
    case (Cons c q)
    obtain star chunk rest where sc: "scanChunk (c # q) = (star, chunk, rest)" by (metis prod_cases3)
    obtain n where n: "star \<longleftrightarrow> 0 < n" "rest = [] \<or> hd rest = 42" "chunk = [] \<longrightarrow> rest = []" and
      parse: "glob_parse True p = map_option ((@) (replicate n GStar)) (glob_append (glob_parse False chunk) (glob_parse True rest))"
      unfolding Cons by (rule scanChunk_parse [OF sc]) blast
    have "length rest < length p" using scanChunk_shorter [OF sc] Cons by simp
    note ih = less [OF this]
    show ?thesis
    proof (cases "star \<and> chunk = []")
      case True
      then have "glob_parse True p = Some (replicate n GStar)" using parse n(3) by simp
      moreover have "path_Match p s = Inr (47 \<notin> set s)"
        using True Cons sc by (simp add: bytealg_IndexByteString_def index_loop_absent)
      ultimately show ?thesis using star_only [of n s] n(1) True by simp
    next
      case False
      note round = path_Match_round [OF sc False, of s, folded Cons]
      show ?thesis
      proof (cases "glob_parse False chunk")
        case None
        then have "path_round star chunk (rest \<noteq> []) s = Inl path_ErrBadPattern"
          by (simp add: path_round_def matchChunk_def matchChunk_loop_exact)
        then show ?thesis using round parse None by simp
      next
        case gs: (Some gs)
        define inner where "inner = (rest \<noteq> [])"
        note round = round [folded inner_def]
        show ?thesis
        proof (cases "glob_parse True rest")
          case None
          have hs: "if inner then \<exists>hs'. (if inner then [GStar] else []) = GStar # hs' else (if inner then [GStar] else []) = []"
            by simp
          show ?thesis
            by (rule path_round_exact [OF gs hs, of star s]) (use round ih None parse gs in \<open>simp_all add: path_check_exact glob_append_def\<close>)
        next
          case (Some hs)
          have hs: "if inner then \<exists>hs'. hs = GStar # hs' else hs = []"
            using Some n(2) by (cases rest) (auto simp: inner_def)
          let ?all = "(if star then [GStar] else []) @ gs @ hs"
          have all: "glob_parse True p = Some (replicate n GStar @ gs @ hs)" using parse gs Some by (simp add: glob_append_def)
          have eq: "glob_bytes (replicate n GStar @ gs @ hs) s \<longleftrightarrow> glob_bytes ?all s"
            using replicate_star [of n "gs @ hs" s] n(1) by (cases star) simp_all
          have sf: "slash_free (replicate n GStar @ gs @ hs) \<Longrightarrow> slash_free gs \<and> slash_free hs"
            by (auto simp: slash_free_def)
          show ?thesis
          proof (rule path_round_exact [OF gs hs, of star s])
            assume "path_round star chunk inner s = Inr None" "\<not> glob_bytes ?all s"
            then show ?thesis using round all eq Some by (auto simp: path_check_exact)
          next
            fix t
            assume t: "path_round star chunk inner s = Inr (Some t)" "glob_bytes hs t \<Longrightarrow> glob_bytes ?all s"
              "ascii s \<Longrightarrow> slash_free gs \<Longrightarrow> glob_bytes ?all s \<Longrightarrow> glob_bytes hs t" "ascii s \<Longrightarrow> ascii t"
            obtain b where b: "path_Match rest t = Inr b" "b \<Longrightarrow> glob_bytes hs t"
              "ascii t \<Longrightarrow> slash_free hs \<Longrightarrow> glob_bytes hs t \<Longrightarrow> b"
              using ih [of t] Some by auto
            have "path_Match p s = Inr b" using round t(1) b(1) by simp
            then show ?thesis using all eq sf t(2-4) b(2,3) by auto
          qed
        qed
      qed
    qed
  qed simp
qed

section \<open>Stars of characters\<close>

text \<open>The rest of a name after \<open>k\<close> characters, none of them the slash.\<close>

fun glob_skip :: "nat \<Rightarrow> byte list \<Rightarrow> byte list option" where
  "glob_skip 0 s = Some s"
| "glob_skip (Suc k) s =
     (if s = [] \<or> hd s = 47 then None else glob_skip k (drop (snd (utf8_DecodeRune s)) s))"

fun glob_match :: "glob list \<Rightarrow> byte list \<Rightarrow> bool" where
  "glob_match [] s \<longleftrightarrow> s = []"
| "glob_match (GStar # gs) s \<longleftrightarrow>
     (\<exists>k \<in> {..length s}. case glob_skip k s of None \<Rightarrow> False | Some t \<Rightarrow> glob_match gs t)"
| "glob_match (g # gs) s \<longleftrightarrow> (case glob_step g s of None \<Rightarrow> False | Some t \<Rightarrow> glob_match gs t)"

text \<open>A character is one byte, or a byte that starts it and continuation bytes.\<close>

lemma DecodeRune_width:
  assumes "s \<noteq> []"
  defines "w \<equiv> snd (utf8_DecodeRune s)"
  shows "0 < w" and "w \<le> length s" and "0 < i \<Longrightarrow> i < w \<Longrightarrow> \<not> utf8_RuneStart (s ! i)"
proof -
  have "0 < w \<and> w \<le> length s \<and> (0 < i \<and> i < w \<longrightarrow> \<not> utf8_RuneStart (s ! i))"
  proof (cases s rule: DecodeRune_cases)
    case invalid
    then have "w = 1" using assms(1) by (simp add: w_def)
    then show ?thesis using assms(1) by (cases s) auto
  next
    case (valid r)
    define e where "e = utf8_enc r"
    have s: "s = e @ drop (length e) s" and w: "w = length e" using valid by (simp_all add: e_def w_def)
    have l: "length e \<le> length s" using s by (metis length_append le_add1)
    have at: "s ! i = e ! i" if "i < length e" using s that by (metis nth_append)
    show ?thesis
    proof (cases r rule: enc_shape)
      case (1 b)
      then show ?thesis using l by (auto simp: w e_def)
    next
      case (2 b cs)
      have "\<not> utf8_RuneStart (s ! i)" if i: "0 < i" "i < w"
      proof -
        have "e ! i \<in> set cs" using i 2 by (cases i) (simp_all add: w e_def)
        then show ?thesis using 2(4) at i by (auto simp: RuneStart_iff list_all_iff cont_def w)
      qed
      then show ?thesis using l 2(1) by (simp add: w e_def)
    qed
  qed
  then show "0 < w" "w \<le> length s" "0 < i \<Longrightarrow> i < w \<Longrightarrow> \<not> utf8_RuneStart (s ! i)" by blast+
qed

lemma slash_RuneStart [simp]: "utf8_RuneStart 47"
  by (simp add: RuneStart_iff)

lemma character_slash:
  assumes "s \<noteq> []" "hd s \<noteq> 47"
  shows "47 \<notin> set (take (snd (utf8_DecodeRune s)) s)"
proof
  assume "47 \<in> set (take (snd (utf8_DecodeRune s)) s)"
  then obtain i where i: "i < snd (utf8_DecodeRune s)" "i < length s" "s ! i = 47" by (auto simp: in_set_conv_nth)
  moreover have "0 < i" using i(3) assms by (cases i) (simp_all add: hd_conv_nth)
  ultimately show False using DecodeRune_width(3) [OF assms(1), of i] by simp
qed

text \<open>Characters are passed over as bytes; and bytes as characters, up to a byte that can start one.\<close>

lemma glob_skip_bytes: "glob_skip j s = Some t \<Longrightarrow> \<exists>k \<le> length s. t = drop k s \<and> 47 \<notin> set (take k s)"
proof (induction j s rule: glob_skip.induct)
  case (2 j s)
  let ?w = "snd (utf8_DecodeRune s)"
  have s: "\<not> (s = [] \<or> hd s = 47)" using 2(2) by (auto split: if_splits)
  then have sj: "glob_skip j (drop ?w s) = Some t" using 2(2) by simp
  obtain k where k: "k \<le> length (drop ?w s)" "t = drop k (drop ?w s)" "47 \<notin> set (take k (drop ?w s))"
    using 2(1) [OF s sj] by blast
  have "?w \<le> length s" using DecodeRune_width(2) s by blast
  moreover have "47 \<notin> set (take (?w + k) s)" unfolding take_add using character_slash [of s] s k(3) by simp
  ultimately show ?case using k(1,2) by (intro exI [of _ "?w + k"]) (simp add: add.commute)
qed auto

lemma glob_skip_reaches:
  assumes "k \<le> length s" "47 \<notin> set (take k s)" "k < length s \<Longrightarrow> utf8_RuneStart (s ! k)"
  shows "\<exists>j \<le> k. glob_skip j s = Some (drop k s)"
  using assms
proof (induction k arbitrary: s rule: less_induct)
  case (less k)
  show ?case
  proof (cases "k = 0")
    case True
    then show ?thesis by (auto intro!: exI [of _ 0])
  next
    case False
    then have s: "s \<noteq> []" "hd s \<noteq> 47" using less(2,3) by (cases s; cases k; auto)+
    define w where "w = snd (utf8_DecodeRune s)"
    note W = DecodeRune_width [OF s(1), folded w_def]
    have wk: "w \<le> k" using W(2) W(3) [of k] less(4) False by (meson not_le order_less_le_trans zero_less_iff_neq_zero)
    have "take (k - w) (drop w s) = drop w (take k s)" by (simp add: drop_take)
    then have "47 \<notin> set (take (k - w) (drop w s))" using less(3) by (auto dest: in_set_dropD)
    moreover have "k - w < k" "k - w \<le> length (drop w s)" using W(1) wk less(2) by simp_all
    moreover have "utf8_RuneStart (drop w s ! (k - w))" if "k - w < length (drop w s)" using that less(4) wk by simp
    ultimately obtain j where j: "j \<le> k - w" "glob_skip j (drop w s) = Some (drop (k - w) (drop w s))"
      using less(1) [of "k - w" "drop w s"] by blast
    have "glob_skip (Suc j) s = Some (drop k s)" using j(2) s wk by (simp add: w_def [symmetric])
    moreover have "Suc j \<le> k" using j(1) W(1) wk by simp
    ultimately show ?thesis by blast
  qed
qed

lemma glob_match_star:
  assumes "glob_skip j s = Some t" "glob_match gs t" "j \<le> length s"
  shows "glob_match (GStar # gs) s"
  using assms by (auto intro!: bexI [of _ j])

lemma glob_match_bytes: "glob_match gs s \<Longrightarrow> glob_bytes gs s"
proof (induction gs s rule: glob_match.induct)
  case (2 gs s)
  then obtain j t where t: "j \<le> length s" "glob_skip j s = Some t" "glob_match gs t" by (auto split: option.splits)
  obtain k where k: "k \<le> length s" "t = drop k s" "47 \<notin> set (take k s)" using glob_skip_bytes [OF t(2)] by blast
  have "glob_bytes gs t" using 2(1) t by simp
  then show ?case using k by auto
qed (auto split: option.splits simp del: glob_step.simps)

text \<open>
  A star that ends the pattern, or that another star or a literal that is no continuation byte follows, ends between two
  characters whatever the name is.
\<close>

fun star_anchor :: "glob list \<Rightarrow> bool" where
  "star_anchor [] \<longleftrightarrow> True"
| "star_anchor (GStar # gs) \<longleftrightarrow> True"
| "star_anchor (GLit c # gs) \<longleftrightarrow> utf8_RuneStart c"
| "star_anchor (_ # gs) \<longleftrightarrow> False"

fun star_anchored :: "glob list \<Rightarrow> bool" where
  "star_anchored [] \<longleftrightarrow> True"
| "star_anchored (g # gs) \<longleftrightarrow> (g = GStar \<longrightarrow> star_anchor gs) \<and> star_anchored gs"

lemma ascii_drop: "ascii s \<Longrightarrow> ascii (drop k s)"
  by (auto simp: ascii_def list_all_iff dest: in_set_dropD)

lemma ascii_RuneStart: "ascii s \<Longrightarrow> k < length s \<Longrightarrow> utf8_RuneStart (s ! k)"
  by (simp add: ascii_def list_all_length RuneStart_iff word_less_numeral_unat)

lemma glob_step_drop: "glob_step g s = Some t \<Longrightarrow> \<exists>k. t = drop k s"
  by (cases g) (auto split: if_splits intro: exI [of _ 1] simp: drop_Suc)

lemma glob_bytes_match: "glob_bytes gs s \<Longrightarrow> ascii s \<or> star_anchored gs \<Longrightarrow> glob_match gs s"
proof (induction gs arbitrary: s)
  case (Cons g gs)
  show ?case
  proof (cases "g = GStar")
    case False
    then obtain t where t: "glob_step g s = Some t" "glob_bytes gs t"
      using Cons.prems(1) by (cases g) (auto split: option.splits)
    have "ascii t \<or> star_anchored gs" using Cons.prems(2) glob_step_drop [OF t(1)] ascii_drop by auto
    then have "glob_match gs t" by (rule Cons.IH [OF t(2)])
    then show ?thesis using t(1) False by (cases g) simp_all
  next
    case True
    then obtain k where k: "k \<le> length s" "47 \<notin> set (take k s)" "glob_bytes gs (drop k s)"
      using Cons.prems(1) by auto
    show ?thesis
    proof (cases "\<exists>hs. gs = GStar # hs")
      case double: True
      then have "glob_bytes gs s" using star_star [of "tl gs" s] Cons.prems(1) True by (auto simp del: glob_bytes.simps)
      then have "glob_match gs s" using Cons.prems(2) by (intro Cons.IH) auto
      then show ?thesis unfolding True using glob_match_star [of 0 s s gs] by simp
    next
      case False
      have "utf8_RuneStart (s ! k)" if "k < length s"
        using Cons.prems(2)
      proof
        assume "star_anchored (g # gs)"
        then have "star_anchor gs" using True by simp
        then show ?thesis using False k(3) that
          by (cases gs rule: star_anchor.cases) (auto split: if_splits simp: hd_drop_conv_nth)
      qed (use that ascii_RuneStart in blast)
      then obtain j where j: "j \<le> k" "glob_skip j s = Some (drop k s)" using glob_skip_reaches [OF k(1,2)] by blast
      have "glob_match gs (drop k s)" using k(3) Cons.prems(2) ascii_drop by (intro Cons.IH) auto
      then show ?thesis unfolding True using glob_match_star [OF j(2)] j(1) k(1) by simp
    qed
  qed
qed simp

text \<open>
  C38. Match reports ErrBadPattern exactly for the patterns that are not in the grammar, whatever the name is. Where it reports a
  match, the pattern matches the name with stars that take whole characters, provided that the name has only ASCII characters or
  that after each star of the pattern stand the end, another star or a literal that is no continuation byte. And for a name of
  ASCII characters and a pattern whose classes do not have the slash it decides whether the pattern matches the name, although it
  tries each chunk only at the first place where it fits.
\<close>

theorem path_Match_exact:
  "(path_Match p s = Inl path_ErrBadPattern \<longleftrightarrow> glob_parse True p = None) \<and>
   (path_Match p s = Inr True \<and> glob_parse True p = Some gs \<and> (ascii s \<or> star_anchored gs) \<longrightarrow> glob_match gs s) \<and>
   (ascii s \<and> glob_parse True p = Some gs \<and> slash_free gs \<longrightarrow> path_Match p s = Inr (glob_match gs s))"
  using path_Match_parse [of p s] glob_bytes_match [of gs s] glob_match_bytes [of gs s]
  by (cases "glob_parse True p") auto

theorem path_Match_exact_witness:
  "glob_match [GLit 97, GStar, GLit 99] [97, 0xE2, 0x82, 0xAC, 99] \<and> \<not> glob_match [GLit 97, GStar, GLit 99] [97, 47, 99]"
proof -
  have p: "glob_parse True [97, 42, 99] = Some [GLit 97, GStar, GLit 99]" by simp
  have m: "path_Match [97, 42, 99] [97, 0xE2, 0x82, 0xAC, 99] = Inr True" "path_Match [97, 42, 99] [97, 47, 99] = Inr False"
    by code_simp+
  have "star_anchored [GLit 97, GStar, GLit 99]" "ascii [97, 47, 99]" "slash_free [GLit 97, GStar, GLit 99]"
    by (simp_all add: RuneStart_iff ascii_def slash_free_def)
  then show ?thesis
    using path_Match_exact [of "[97, 42, 99]" "[97, 0xE2, 0x82, 0xAC, 99]" "[GLit 97, GStar, GLit 99]"]
      path_Match_exact [of "[97, 42, 99]" "[97, 47, 99]" "[GLit 97, GStar, GLit 99]"] p m
    by (simp del: glob_match.simps star_anchored.simps)
qed

text \<open>
  Outside those names and patterns \<open>Match\<close> and the grammar part. A star that ends inside a character lets \<open>*??\<close> match the one
  character U+20AC; and a class that has the slash is taken at its first match, so that \<open>*[^a]*b\<close> does not match \<open>x/b\<close>.
\<close>

lemma path_Match_splits_rune:
  "path_Match [42, 63, 63] (utf8_enc 0x20AC) = Inr True \<and> glob_parse True [42, 63, 63] = Some [GStar, GAny, GAny] \<and>
   \<not> glob_match [GStar, GAny, GAny] (utf8_enc 0x20AC)"
proof (intro conjI)
  show "path_Match [42, 63, 63] (utf8_enc 0x20AC) = Inr True" by code_simp
  have "utf8_enc 0x20AC = [0xE2, 0x82, 0xAC]" "utf8_DecodeRune [0xE2, 0x82, 0xAC] = (0x20AC, 3)" by code_simp+
  moreover have "glob_skip k [] = (if k = 0 then Some [] else None)" for k by (cases k) simp_all
  ultimately show "\<not> glob_match [GStar, GAny, GAny] (utf8_enc 0x20AC)"
    by (auto simp: atMost_Suc split: option.splits elim!: glob_skip.elims)
qed simp

lemma path_Match_class_slash:
  "path_Match [42, 91, 94, 97, 93, 42, 98] [120, 47, 98] = Inr False \<and>
   glob_parse True [42, 91, 94, 97, 93, 42, 98] = Some [GStar, GClass True [(97, 97)], GStar, GLit 98] \<and>
   glob_match [GStar, GClass True [(97, 97)], GStar, GLit 98] [120, 47, 98]"
proof (intro conjI)
  show "path_Match [42, 91, 94, 97, 93, 42, 98] [120, 47, 98] = Inr False" by code_simp
  show "glob_parse True [42, 91, 94, 97, 93, 42, 98] = Some [GStar, GClass True [(97, 97)], GStar, GLit 98]" by code_simp
  have "glob_match [GStar, GLit 98] [98]" using glob_match_star [of 0 "[98]" "[98]" "[GLit 98]"] by simp
  then have m: "glob_match [GClass True [(97, 97)], GStar, GLit 98] [47, 98]"
    by (simp add: in_ranges_def utf8_DecodeRune_def del: glob_match.simps(2))
  have "glob_skip 1 [120, 47, 98] = Some [47, 98]" by (simp add: utf8_DecodeRune_def)
  then show "glob_match [GStar, GClass True [(97, 97)], GStar, GLit 98] [120, 47, 98]"
    by (rule glob_match_star [OF _ m]) simp
qed

end
