(* ===== verification/Byte_Order.thy ===== *)
theory Byte_Order
  imports Prelude
begin

text \<open>
  The functions of \<open>internal/byteorder\<close> that the checksums use: reading a 32-bit word from four bytes and appending one, and
  that the one inverts the other. It also holds the contract of a hash that is fed in pieces (\<open>hash.Hash\<close>): the result of a
  series of writes depends on their concatenation only.
\<close>

section \<open>Words and bytes\<close>

text \<open>Indexing below the fourth byte panics; every caller here has checked the length.\<close>

definition LEUint32 :: "byte list \<Rightarrow> uint32 option" where
  "LEUint32 b =
     (if 3 < length b then
        Some (ucast (b ! 0) OR push_bit 8 (ucast (b ! 1)) OR push_bit 16 (ucast (b ! 2)) OR push_bit 24 (ucast (b ! 3)))
      else None)"

definition BEUint32 :: "byte list \<Rightarrow> uint32 option" where
  "BEUint32 b =
     (if 3 < length b then
        Some (ucast (b ! 3) OR push_bit 8 (ucast (b ! 2)) OR push_bit 16 (ucast (b ! 1)) OR push_bit 24 (ucast (b ! 0)))
      else None)"

definition BEAppendUint32 :: "byte list \<Rightarrow> uint32 \<Rightarrow> byte list" where
  "BEAppendUint32 b v = b @ [ucast (drop_bit 24 v), ucast (drop_bit 16 v), ucast (drop_bit 8 v), ucast v]"

lemma word32_bytes:
  fixes v :: uint32
  shows "ucast (ucast v :: byte) OR push_bit 8 (ucast (ucast (drop_bit 8 v) :: byte)) OR
     push_bit 16 (ucast (ucast (drop_bit 16 v) :: byte)) OR push_bit 24 (ucast (ucast (drop_bit 24 v) :: byte)) = v"
(is "?l = v")
proof (rule bit_word_eqI)
  fix n assume n: "n < LENGTH(32)"
  consider "n < 8" | "8 \<le> n" "n < 16" | "16 \<le> n" "n < 24" | "24 \<le> n" by linarith
  then show "bit ?l n = bit v n" using n by cases (auto simp: bit_simps)
qed

lemma BEUint32_append: "drop k b = BEAppendUint32 [] v @ r \<Longrightarrow> BEUint32 (drop k b) = Some v"
  using word32_bytes [of v] by (simp add: BEUint32_def BEAppendUint32_def)

lemma BEUint32_defined: "length b = 4 \<Longrightarrow> \<exists>v. BEUint32 b = Some v"
  by (simp add: BEUint32_def)

lemma BEAppend_BEUint32:
  assumes "length b = 4" "BEUint32 b = Some v"
  shows "BEAppendUint32 [] v = b"
proof -
  obtain x0 x1 x2 x3 where b: "b = [x0, x1, x2, x3]" using assms(1) by (auto simp: length_Suc_conv numeral_eq_Suc)
  then have v: "v = ucast x3 OR push_bit 8 (ucast x2) OR push_bit 16 (ucast x1) OR push_bit 24 (ucast x0)"
    using assms(2) by (simp add: BEUint32_def)
  have "ucast (drop_bit 24 v) = x0" "ucast (drop_bit 16 v) = x1" "ucast (drop_bit 8 v) = x2" "ucast v = x3"
    unfolding v by (rule bit_word_eqI, auto simp: bit_simps dest: bit_imp_le_length)+
  then show ?thesis using b by (simp add: BEAppendUint32_def)
qed

section \<open>Hashes fed in pieces\<close>

locale stream_hash =
  fixes upd :: "'d \<Rightarrow> byte list \<Rightarrow> 'd"
  assumes upd_Nil: "upd d [] = d"
    and upd_append: "upd d (p @ q) = upd (upd d p) q"
begin

lemma writes_concat: "foldl upd d ps = upd d (concat ps)"
  by (induction ps arbitrary: d) (simp_all add: upd_Nil upd_append)

lemma writes_chunks: "concat ps = concat qs \<Longrightarrow> foldl upd d ps = foldl upd d qs"
  by (simp add: writes_concat)

end

end
