(* ===== verification/Adler32.thy ===== *)
theory Adler32
  imports Byte_Order
begin

text \<open>
  The package \<open>hash/adler32\<close>, whole: the digest, its methods and \<open>Checksum\<close>, with the sums kept in 32-bit words that are
  reduced only once per block of \<open>nmax\<close> bytes, as in the code.
\<close>

datatype adler_error = adler_invalid_identifier | adler_invalid_size

definition adler_mod :: uint32 where "adler_mod = 65521"
definition adler_nmax :: nat where "adler_nmax = 5552"
definition adler_Size :: nat where "adler_Size = 4"

definition adler_magic :: "byte list" where
  "adler_magic = [97, 100, 108, 1]"

definition adler_marshaledSize :: nat where
  "adler_marshaledSize = length adler_magic + 4"

text \<open>A digest is its 32-bit word: \<open>s1\<close> in the low half, \<open>s2\<close> in the high half.\<close>

type_synonym adler_digest = uint32

definition adler_Reset :: "adler_digest \<Rightarrow> adler_digest" where
  "adler_Reset d = 1"

definition adler_New :: adler_digest where
  "adler_New = adler_Reset 0"

definition adler_digest_Size :: "adler_digest \<Rightarrow> nat" where
  "adler_digest_Size d = adler_Size"

definition adler_BlockSize :: "adler_digest \<Rightarrow> nat" where
  "adler_BlockSize d = 4"

definition adler_AppendBinary :: "adler_digest \<Rightarrow> byte list \<Rightarrow> byte list" where
  "adler_AppendBinary d b = BEAppendUint32 (b @ adler_magic) d"

definition adler_MarshalBinary :: "adler_digest \<Rightarrow> byte list" where
  "adler_MarshalBinary d = adler_AppendBinary d []"

text \<open>\<open>None\<close> is the panic of an access beyond \<open>b\<close>.\<close>

definition adler_UnmarshalBinary :: "adler_digest \<Rightarrow> byte list \<Rightarrow> (adler_digest \<times> adler_error option) option" where
  "adler_UnmarshalBinary d b =
     (if length b < length adler_magic \<or> take (length adler_magic) b \<noteq> adler_magic then Some (d, Some adler_invalid_identifier)
      else if length b \<noteq> adler_marshaledSize then Some (d, Some adler_invalid_size)
      else map_option (\<lambda>v. (v, None)) (BEUint32 (drop (length adler_magic) b)))"

definition adler_Clone :: "adler_digest \<Rightarrow> adler_digest" where
  "adler_Clone d = (let r = d in r)"

fun adler_bytes :: "byte list \<Rightarrow> uint32 \<Rightarrow> uint32 \<Rightarrow> uint32 \<times> uint32" where
  "adler_bytes [] s1 s2 = (s1, s2)"
| "adler_bytes (x # p) s1 s2 = (let s1 = s1 + ucast x; s2 = s2 + s1 in adler_bytes p s1 s2)"

text \<open>The loop over four bytes at a time, and the loop over the rest.\<close>

fun adler_block :: "byte list \<Rightarrow> uint32 \<Rightarrow> uint32 \<Rightarrow> uint32 \<times> uint32" where
  "adler_block (p0 # p1 # p2 # p3 # p) s1 s2 =
     (let s1 = s1 + ucast p0; s2 = s2 + s1;
          s1 = s1 + ucast p1; s2 = s2 + s1;
          s1 = s1 + ucast p2; s2 = s2 + s1;
          s1 = s1 + ucast p3; s2 = s2 + s1 in
      adler_block p s1 s2)"
| "adler_block p s1 s2 = adler_bytes p s1 s2"

function adler_loop :: "byte list \<Rightarrow> uint32 \<Rightarrow> uint32 \<Rightarrow> uint32 \<times> uint32" where
  "adler_loop p s1 s2 =
     (if 0 < length p then
        let (p, q) = (if adler_nmax < length p then (take adler_nmax p, drop adler_nmax p) else (p, []));
            (s1, s2) = adler_block p s1 s2 in
        adler_loop q (s1 mod adler_mod) (s2 mod adler_mod)
      else (s1, s2))"
  by pat_completeness auto
termination
  by (relation "measure (\<lambda>(p, s1, s2). length p)") (auto simp: adler_nmax_def split: if_splits)

declare adler_loop.simps [simp del]

definition adler_update :: "adler_digest \<Rightarrow> byte list \<Rightarrow> adler_digest" where
  "adler_update d p = (let (s1, s2) = adler_loop p (d AND 0xffff) (drop_bit 16 d) in push_bit 16 s2 OR s1)"

definition adler_Write :: "adler_digest \<Rightarrow> byte list \<Rightarrow> adler_digest \<times> nat" where
  "adler_Write d p = (adler_update d p, length p)"

definition adler_Sum32 :: "adler_digest \<Rightarrow> uint32" where
  "adler_Sum32 d = d"

definition adler_Sum :: "adler_digest \<Rightarrow> byte list \<Rightarrow> byte list" where
  "adler_Sum d inp =
     (let s = d in inp @ [ucast (drop_bit 24 s), ucast (drop_bit 16 s), ucast (drop_bit 8 s), ucast s])"

definition adler_Checksum :: "byte list \<Rightarrow> uint32" where
  "adler_Checksum data = adler_update 1 data"

end
