(* ===== verification/Adler32_Correct.thy ===== *)
theory Adler32_Correct
  imports Adler32
begin

text \<open>
  The Adler-32 checksum against its definition in RFC 1950: the bound that makes reducing once per block safe, the blocks,
  the independence of the pieces written, and the marshalled state.
\<close>

text \<open>The sums of RFC 1950, reduced at every byte.\<close>

definition adler_step :: "nat \<times> nat \<Rightarrow> byte \<Rightarrow> nat \<times> nat" where
  "adler_step s x = (case s of (s1, s2) \<Rightarrow> ((s1 + unat x) mod 65521, (s2 + s1 + unat x) mod 65521))"

definition adler_sums :: "nat \<times> nat \<Rightarrow> byte list \<Rightarrow> nat \<times> nat" where
  "adler_sums s p = foldl adler_step s p"

text \<open>The same sums without reduction, and how large they get.\<close>

fun adler_raw :: "byte list \<Rightarrow> nat \<Rightarrow> nat \<Rightarrow> nat \<times> nat" where
  "adler_raw [] s1 s2 = (s1, s2)"
| "adler_raw (x # p) s1 s2 = adler_raw p (s1 + unat x) (s2 + s1 + unat x)"

lemma adler_raw_mono: "s1 \<le> fst (adler_raw p s1 s2) \<and> s2 \<le> snd (adler_raw p s1 s2)"
proof (induction p arbitrary: s1 s2)
  case (Cons x p)
  from Cons [of "s1 + unat x" "s2 + s1 + unat x"] show ?case by simp
qed simp

lemma adler_arith:
  fixes x :: nat
  assumes "r \<le> 2 * (s2 + s1 + x) + (k + 2 * m) + c" "x \<le> 255" "m \<le> 255 * n"
  shows "r \<le> 2 * s2 + (k + 2 * s1) + (c + 510 * n + 510)"
proof -
  have "2 * x \<le> 510" "2 * m \<le> 510 * n" using assms(2,3) by simp_all
  then have "2 * (s2 + s1 + x) + (k + 2 * m) + c \<le> 2 * s2 + (k + 2 * s1) + (c + 510 * n + 510)" by simp
  then show ?thesis using assms(1) by simp
qed

lemma adler_raw_bound:
  "fst (adler_raw p s1 s2) \<le> s1 + 255 * length p \<and>
   2 * snd (adler_raw p s1 s2) \<le> 2 * s2 + 2 * length p * s1 + 255 * (length p * (length p + 1))"
proof (induction p arbitrary: s1 s2)
  case (Cons x p)
  have x: "unat x \<le> 255" using unsigned_less [of x, where 'a = nat] by simp
  let ?n = "length p"
  have m: "?n * unat x \<le> 255 * ?n" using x mult_le_mono2 [of "unat x" 255 ?n] by (simp add: mult.commute)
  have e: "2 * ?n * (s1 + unat x) = 2 * ?n * s1 + 2 * (?n * unat x)" "2 * (?n + 1) * s1 = 2 * ?n * s1 + 2 * s1"
    "255 * ((?n + 1) * (?n + 1 + 1)) = 255 * (?n * (?n + 1)) + 510 * ?n + 510"
    by (simp_all add: algebra_simps)
  have r: "adler_raw (x # p) s1 s2 = adler_raw p (s1 + unat x) (s2 + s1 + unat x)" "length (x # p) = ?n + 1" by simp_all
  note ih = Cons [of "s1 + unat x" "s2 + s1 + unat x", THEN conjunct1] Cons [of "s1 + unat x" "s2 + s1 + unat x", THEN conjunct2]
  show ?case unfolding r e using ih(1) x adler_arith [OF ih(2) [unfolded e] x m] by simp
qed simp

lemma adler_raw_mod:
  "adler_sums (s1 mod 65521, s2 mod 65521) p = map_prod (\<lambda>x. x mod 65521) (\<lambda>x. x mod 65521) (adler_raw p s1 s2)"
proof (induction p arbitrary: s1 s2)
  case (Cons x p)
  have "adler_step (s1 mod 65521, s2 mod 65521) x = ((s1 + unat x) mod 65521, (s2 + s1 + unat x) mod 65521)"
    using mod_add_left_eq [of "s2 mod 65521 + s1 mod 65521" 65521 "unat x"] mod_add_left_eq [of "s2 + s1" 65521 "unat x"]
      mod_add_eq [of s2 65521 s1] by (simp add: adler_step_def mod_simps)
  then show ?case using Cons by (simp add: adler_sums_def)
qed (simp add: adler_sums_def)

lemma adler_bytes_raw:
  assumes "fst (adler_raw p (unat s1) (unat s2)) < 2 ^ 32" and "snd (adler_raw p (unat s1) (unat s2)) < 2 ^ 32"
  shows "map_prod unat unat (adler_bytes p s1 s2) = adler_raw p (unat s1) (unat s2)"
  using assms
proof (induction p arbitrary: s1 s2)
  case (Cons x p)
  let ?s1 = "s1 + ucast x" and ?m = "adler_raw p (unat s1 + unat x) (unat s2 + unat s1 + unat x)"
  have x: "unat (ucast x :: uint32) = unat x" using unsigned_less [of x, where 'a = nat] by (simp add: unat_ucast_mod)
  have b: "unat s1 + unat x < 2 ^ 32" "unat s2 + unat s1 + unat x < 2 ^ 32"
    using adler_raw_mono [of "unat s1 + unat x" p "unat s2 + unat s1 + unat x"] Cons.prems by simp_all
  have s1: "unat ?s1 = unat s1 + unat x" using b(1) x by (simp add: unat_word_ariths)
  have "unat (s2 + ?s1) = unat s2 + unat s1 + unat x" using b(2) s1 by (simp add: unat_word_ariths)
  then show ?case using Cons.IH [of ?s1 "s2 + ?s1"] Cons.prems s1 by (simp add: Let_def)
qed simp

lemma adler_block_bytes: "adler_block p s1 s2 = adler_bytes p s1 s2"
proof (induction p s1 s2 rule: adler_block.induct)
  case (1 p0 p1 p2 p3 p s1 s2)
  then show ?case by (simp only: adler_block.simps adler_bytes.simps Let_def)
qed simp_all

text \<open>A block of at most \<open>nmax\<close> bytes on sums of 16 bits does not wrap around.\<close>

lemma adler_block_exact:
  assumes "length p \<le> 5552" "unat s1 < 65536" "unat s2 < 65536"
  shows "map_prod unat unat (adler_block p s1 s2) = adler_raw p (unat s1) (unat s2)"
proof -
  let ?n = "length p" and ?r = "adler_raw p (unat s1) (unat s2)"
  note b = adler_raw_bound [of p "unat s1" "unat s2"]
  have "?n * (?n + 1) \<le> 5552 * 5553" using assms(1) by (intro mult_le_mono) simp_all
  moreover have "?n * unat s1 \<le> 5552 * 65535" using assms by (intro mult_le_mono) simp_all
  ultimately have "2 * snd ?r \<le> 2 * 4294773495" using b assms(3) by (simp add: mult.assoc)
  then have "snd ?r < 2 ^ 32" by simp
  moreover have "fst ?r < 2 ^ 32" using b assms(1,2) by simp
  ultimately show ?thesis unfolding adler_block_bytes by (intro adler_bytes_raw)
qed

lemma adler_loop_exact:
  assumes "unat s1 < 65536" "unat s2 < 65536" "p \<noteq> []"
  shows "map_prod unat unat (adler_loop p s1 s2) = adler_sums (unat s1 mod 65521, unat s2 mod 65521) p"
  using assms
proof (induction "length p" arbitrary: p s1 s2 rule: less_induct)
  case less
  define b where "b = take adler_nmax p"
  define q where "q = drop adler_nmax p"
  obtain t1 t2 where t: "adler_block b s1 s2 = (t1, t2)" by fastforce
  let ?t1 = "t1 mod adler_mod" and ?t2 = "t2 mod adler_mod"
  have loop: "adler_loop p s1 s2 = adler_loop q ?t1 ?t2"
  proof -
    have "(if adler_nmax < length p then (take adler_nmax p, drop adler_nmax p) else (p, [])) = (b, q)"
      by (simp add: b_def q_def)
    then show ?thesis using less.prems(3) t by (simp add: adler_loop.simps [of p])
  qed
  have raw: "adler_raw b (unat s1) (unat s2) = (unat t1, unat t2)"
    using adler_block_exact [of b s1 s2] less.prems t by (simp add: b_def adler_nmax_def)
  have m: "unat ?t1 = unat t1 mod 65521" "unat ?t2 = unat t2 mod 65521" by (simp_all add: adler_mod_def unat_mod)
  then have s: "adler_sums (unat s1 mod 65521, unat s2 mod 65521) b = (unat ?t1, unat ?t2)"
    using adler_raw_mod [of "unat s1" "unat s2" b] raw by simp
  have l: "unat ?t1 < 65536" "unat ?t2 < 65536" unfolding m by (rule less_trans [OF mod_less_divisor]; simp)+
  have p: "adler_sums (unat s1 mod 65521, unat s2 mod 65521) p = adler_sums (unat ?t1, unat ?t2) q"
    using s foldl_append [of adler_step "(unat s1 mod 65521, unat s2 mod 65521)" b q] by (simp add: adler_sums_def b_def q_def)
  show ?case
  proof (cases "q = []")
    case True
    then show ?thesis using loop p by (simp add: adler_loop.simps [of "[]"] adler_sums_def)
  next
    case False
    have "length q < length p" using less.prems(3) by (simp add: q_def adler_nmax_def)
    then show ?thesis using less.hyps [OF _ l False] loop p m by simp
  qed
qed

lemma adler_halves:
  fixes d :: uint32
  shows "unat (d AND 0xffff) = unat d mod 65536" "unat (drop_bit 16 d) = unat d div 65536" "unat d div 65536 < 65536"
proof -
  have "(0xffff :: uint32) = mask 16" by (simp add: mask_eq_exp_minus_1)
  then show "unat (d AND 0xffff) = unat d mod 65536" using unat_and_mask [of d 16] by simp
  show "unat (drop_bit 16 d) = unat d div 65536" by (simp add: unat_drop_bit)
  show "unat d div 65536 < 65536" using unsigned_less [of d, where 'a = nat] by (intro less_mult_imp_div_less) simp
qed

definition adler_value :: "nat \<times> nat \<Rightarrow> nat" where
  "adler_value s = snd s * 65536 + fst s"

lemma adler_sums_less: "p \<noteq> [] \<Longrightarrow> fst (adler_sums s p) < 65521 \<and> snd (adler_sums s p) < 65521"
  by (cases p rule: rev_cases) (simp_all add: adler_sums_def adler_step_def case_prod_beta)

lemma adler_update_exact:
  "unat (adler_update d p) =
     (if p = [] then unat d else adler_value (adler_sums (unat d mod 65536 mod 65521, unat d div 65536 mod 65521) p))"
proof (cases "p = []")
  case True
  have "unat (push_bit 16 (drop_bit 16 d)) = unat d div 65536 * 65536"
    using adler_halves(2,3) [of d] by (simp add: unat_push_bit)
  moreover have "unat (push_bit 16 (drop_bit 16 d) OR (d AND 0xffff)) =
      unat (push_bit 16 (drop_bit 16 d)) + unat (d AND 0xffff)"
    by (rule unat_or_disj [where k = 16]) (use calculation adler_halves(1) [of d] in simp_all)
  ultimately show ?thesis
    using True adler_halves(1) [of d] by (simp add: adler_update_def adler_loop.simps)
next
  case False
  obtain s1 s2 where s: "adler_loop p (d AND 0xffff) (drop_bit 16 d) = (s1, s2)" by fastforce
  note h = adler_halves [of d]
  have e: "(unat s1, unat s2) = adler_sums (unat d mod 65536 mod 65521, unat d div 65536 mod 65521) p"
    using adler_loop_exact [of "d AND 0xffff" "drop_bit 16 d" p] False s h by simp
  have l: "unat s1 < 65521" "unat s2 < 65521"
    using adler_sums_less [OF False, of "(unat d mod 65536 mod 65521, unat d div 65536 mod 65521)"] unfolding e [symmetric] by simp_all
  have "unat (push_bit 16 s2) = unat s2 * 65536" using l(2) by (simp add: unat_push_bit)
  moreover have "unat (push_bit 16 s2 OR s1) = unat (push_bit 16 s2) + unat s1"
    by (rule unat_or_disj [where k = 16]) (use calculation l(1) in simp_all)
  ultimately show ?thesis using False s unfolding e [symmetric] by (simp add: adler_update_def adler_value_def)
qed

lemma adler_update_append: "adler_update (adler_update d p) q = adler_update d (p @ q)"
proof (cases "p = [] \<or> q = []")
  case True
  have "adler_update x [] = x" for x using adler_update_exact [of x "[]"] by (simp add: word_unat_eq_iff)
  then show ?thesis using True by auto
next
  case False
  let ?s = "adler_sums (unat d mod 65536 mod 65521, unat d div 65536 mod 65521) p"
  have u: "unat (adler_update d p) = snd ?s * 65536 + fst ?s"
    using False adler_update_exact [of d p] by (simp add: adler_value_def)
  have l: "fst ?s < 65521" "snd ?s < 65521" using False adler_sums_less by simp_all
  have "unat (adler_update d p) mod 65536 = fst ?s" "unat (adler_update d p) div 65536 = snd ?s"
    unfolding u using l(1) by simp_all
  then have "unat (adler_update (adler_update d p) q) = unat (adler_update d (p @ q))"
    using False adler_update_exact [of "adler_update d p" q] adler_update_exact [of d "p @ q"] l by (simp add: adler_sums_def)
  then show ?thesis by (rule word_unat_eq_iff [THEN iffD2])
qed

lemma length_adler_magic [simp]: "length adler_magic = 4"
  by (simp add: adler_magic_def)

lemma adler_Marshal_parts: "adler_MarshalBinary d = adler_magic @ BEAppendUint32 [] d"
  by (simp add: adler_MarshalBinary_def adler_AppendBinary_def BEAppendUint32_def)

lemma adler_Unmarshal_Marshal: "adler_UnmarshalBinary d' (adler_MarshalBinary d) = Some (d, None)"
proof -
  have "length (BEAppendUint32 [] d) = 4" by (simp add: BEAppendUint32_def)
  then show ?thesis using BEUint32_append [of 0 "BEAppendUint32 [] d" d "[]"]
    by (simp add: adler_Marshal_parts adler_UnmarshalBinary_def adler_marshaledSize_def)
qed

lemma adler_Unmarshal_cases:
  obtains e where "adler_UnmarshalBinary d b = Some (d, Some e)" "\<And>v. b \<noteq> adler_MarshalBinary v"
  | v where "adler_UnmarshalBinary d b = Some (v, None)" "b = adler_MarshalBinary v"
proof (cases "length b = 8 \<and> take 4 b = adler_magic")
  case True
  then have l: "length (drop 4 b) = 4" by simp
  then obtain v where v: "BEUint32 (drop 4 b) = Some v" by (simp add: BEUint32_def)
  have "b = adler_MarshalBinary v"
    using True BEAppend_BEUint32 [OF l v] append_take_drop_id [of 4 b] by (simp add: adler_Marshal_parts)
  then show thesis using that(2) [of v] v True by (simp add: adler_UnmarshalBinary_def adler_marshaledSize_def)
next
  case False
  have n: "b \<noteq> adler_MarshalBinary v" for v
    using False by (auto simp: adler_Marshal_parts BEAppendUint32_def)
  have "\<exists>e. adler_UnmarshalBinary d b = Some (d, Some e)"
    using False by (auto simp: adler_UnmarshalBinary_def adler_marshaledSize_def)
  then show thesis using that(1) n by blast
qed

interpretation adler: stream_hash "\<lambda>d p. fst (adler_Write d p)"
proof
  show "fst (adler_Write d []) = d" for d
    using adler_update_exact [of d "[]"] by (simp add: adler_Write_def word_unat_eq_iff)
  show "fst (adler_Write d (p @ q)) = fst (adler_Write (fst (adler_Write d p)) q)" for d p q
    by (simp add: adler_Write_def adler_update_append)
qed

text \<open>
  C39. \<open>Checksum\<close> returns the Adler-32 value of RFC 1950, whose sums are reduced modulo 65521 at every byte, for data of any
  length: the 32-bit sums of the code never wrap within a block of \<open>nmax\<close> bytes. Writing the data in pieces gives the same
  value, \<open>Sum\<close> lays it out in big-endian order, and \<open>UnmarshalBinary\<close> never panics: it accepts exactly what
  \<open>MarshalBinary\<close> produces, restoring that digest, and leaves the digest alone when it returns an error.
\<close>

theorem adler_exact:
  "unat (adler_Checksum data) = adler_value (adler_sums (1, 0) data) \<and>
   adler_Sum32 (foldl (\<lambda>d p. fst (adler_Write d p)) adler_New ps) = adler_Checksum (concat ps) \<and>
   adler_Sum d inp = BEAppendUint32 inp d \<and>
   (\<exists>d' err. adler_UnmarshalBinary d b = Some (d', err) \<and>
      (if err = None then b = adler_MarshalBinary d' else d' = d \<and> b \<notin> range adler_MarshalBinary))"
proof (intro conjI)
  show "unat (adler_Checksum data) = adler_value (adler_sums (1, 0) data)"
    using adler_update_exact [of 1 data] by (simp add: adler_Checksum_def adler_value_def adler_sums_def)
  show "adler_Sum32 (foldl (\<lambda>d p. fst (adler_Write d p)) adler_New ps) = adler_Checksum (concat ps)"
    unfolding adler.writes_concat by (simp add: adler_Sum32_def adler_Write_def adler_New_def adler_Reset_def adler_Checksum_def)
  show "adler_Sum d inp = BEAppendUint32 inp d" by (simp add: adler_Sum_def BEAppendUint32_def Let_def)
  show "\<exists>d' err. adler_UnmarshalBinary d b = Some (d', err) \<and>
      (if err = None then b = adler_MarshalBinary d' else d' = d \<and> b \<notin> range adler_MarshalBinary)"
    by (cases rule: adler_Unmarshal_cases [of d b]) auto
qed

end
