(* ===== verification/Crc32.thy ===== *)
theory Crc32
  imports Byte_Order
begin

text \<open>
  The package \<open>hash/crc32\<close> on the targets without an architecture-specific algorithm (\<open>crc32_otherarch.go\<close>, among them 386):
  the table-driven and the slicing-by-8 updates, the tables the package makes once, the digest and its methods.
\<close>

section \<open>Tables and updates\<close>

type_synonym crc_Table = "uint32 list"
type_synonym slicing8Table = "crc_Table list"

definition crc32_IEEE :: uint32 where "crc32_IEEE = 0xedb88320"
definition crc32_Castagnoli :: uint32 where "crc32_Castagnoli = 0x82f63b78"
definition crc32_Koopman :: uint32 where "crc32_Koopman = 0xeb31d82e"

primrec crc_bits :: "uint32 \<Rightarrow> nat \<Rightarrow> uint32 \<Rightarrow> uint32" where
  "crc_bits poly 0 crc = crc"
| "crc_bits poly (Suc j) crc =
     crc_bits poly j (if crc AND 1 = 1 then drop_bit 1 crc XOR poly else drop_bit 1 crc)"

definition simplePopulateTable :: "uint32 \<Rightarrow> crc_Table" where
  "simplePopulateTable poly = map (\<lambda>i. crc_bits poly 8 (of_nat i)) [0..<256]"

definition simpleMakeTable :: "uint32 \<Rightarrow> crc_Table" where
  "simpleMakeTable poly = simplePopulateTable poly"

fun simpleUpdate_loop :: "crc_Table \<Rightarrow> byte list \<Rightarrow> uint32 \<Rightarrow> uint32" where
  "simpleUpdate_loop tab [] crc = crc"
| "simpleUpdate_loop tab (v # p) crc = simpleUpdate_loop tab p (tab ! unat (ucast crc XOR v) XOR drop_bit 8 crc)"

definition simpleUpdate :: "uint32 \<Rightarrow> crc_Table \<Rightarrow> byte list \<Rightarrow> uint32" where
  "simpleUpdate crc tab p = NOT (simpleUpdate_loop tab p (NOT crc))"

definition slicing8Cutoff :: nat where "slicing8Cutoff = 16"

text \<open>The entry of row \<open>j\<close>, from the entry of row 0.\<close>

primrec slicing_entry :: "crc_Table \<Rightarrow> nat \<Rightarrow> uint32 \<Rightarrow> uint32" where
  "slicing_entry t0 0 crc = crc"
| "slicing_entry t0 (Suc j) crc =
     (let crc = slicing_entry t0 j crc in t0 ! unat (crc AND 0xFF) XOR drop_bit 8 crc)"

definition slicingMakeTable :: "uint32 \<Rightarrow> slicing8Table" where
  "slicingMakeTable poly =
     (let t0 = simplePopulateTable poly in
      map (\<lambda>j. map (\<lambda>i. slicing_entry t0 j (t0 ! i)) [0..<256]) [0..<8])"

text \<open>\<open>None\<close> is the panic of \<open>LEUint32\<close> on fewer than four bytes.\<close>

function slicing_loop :: "slicing8Table \<Rightarrow> uint32 \<Rightarrow> byte list \<Rightarrow> (uint32 \<times> byte list) option" where
  "slicing_loop tab crc p =
     (if 8 < length p then
        case LEUint32 p of
          None \<Rightarrow> None
        | Some v \<Rightarrow>
            let crc = crc XOR v;
                crc = (tab ! 0) ! unat (p ! 7) XOR (tab ! 1) ! unat (p ! 6) XOR (tab ! 2) ! unat (p ! 5) XOR
                      (tab ! 3) ! unat (p ! 4) XOR (tab ! 4) ! unat (drop_bit 24 crc) XOR
                      (tab ! 5) ! unat (drop_bit 16 crc AND 0xFF) XOR (tab ! 6) ! unat (drop_bit 8 crc AND 0xFF) XOR
                      (tab ! 7) ! unat (crc AND 0xFF) in
            slicing_loop tab crc (drop 8 p)
      else Some (crc, p))"
  by pat_completeness auto
termination
  by (relation "measure (\<lambda>(tab, crc, p). length p)") auto

declare slicing_loop.simps [simp del]

definition slicingUpdate :: "uint32 \<Rightarrow> slicing8Table \<Rightarrow> byte list \<Rightarrow> uint32 option" where
  "slicingUpdate crc tab p =
     (case (if slicing8Cutoff \<le> length p then map_option (apfst NOT) (slicing_loop tab (NOT crc) p) else Some (crc, p)) of
        None \<Rightarrow> None
      | Some (crc, p) \<Rightarrow> if length p = 0 then Some crc else Some (simpleUpdate crc (tab ! 0) p))"

section \<open>The package\<close>

text \<open>
  A pointer to a table, as the code compares it: the two tables of the package, or a table of the caller. The tables of the
  package that are made once are its state; the targets without an architecture-specific algorithm, such as 386, always make
  the slicing tables. \<open>None\<close> is the panic of calling a nil function or reading through a nil pointer.
\<close>

datatype crc_ptr = crc_nil | IEEETable | castagnoliTable | crc_table crc_Table

record crc_state =
  castagnoliTable8 :: "slicing8Table option"
  haveCastagnoli :: bool
  ieeeTable8 :: "slicing8Table option"

definition crc32_init :: crc_state where
  "crc32_init = \<lparr>castagnoliTable8 = None, haveCastagnoli = False, ieeeTable8 = None\<rparr>"

definition castagnoliInitOnce :: "crc_state \<Rightarrow> crc_state" where
  "castagnoliInitOnce s =
     (if haveCastagnoli s then s
      else s\<lparr>castagnoliTable8 := Some (slicingMakeTable crc32_Castagnoli), haveCastagnoli := True\<rparr>)"

definition ieeeInitOnce :: "crc_state \<Rightarrow> crc_state" where
  "ieeeInitOnce s = (if ieeeTable8 s = None then s\<lparr>ieeeTable8 := Some (slicingMakeTable crc32_IEEE)\<rparr> else s)"

definition crc32_MakeTable :: "crc_state \<Rightarrow> uint32 \<Rightarrow> crc_state \<times> crc_ptr" where
  "crc32_MakeTable s poly =
     (if poly = crc32_IEEE then (ieeeInitOnce s, IEEETable)
      else if poly = crc32_Castagnoli then (castagnoliInitOnce s, castagnoliTable)
      else (s, crc_table (simpleMakeTable poly)))"

definition crc_deref :: "crc_ptr \<Rightarrow> crc_Table option" where
  "crc_deref tab =
     (case tab of
        crc_nil \<Rightarrow> None
      | IEEETable \<Rightarrow> Some (simpleMakeTable crc32_IEEE)
      | castagnoliTable \<Rightarrow> Some (simpleMakeTable crc32_Castagnoli)
      | crc_table t \<Rightarrow> Some t)"

record crc_digest =
  cd_crc :: uint32
  cd_tab :: crc_ptr

definition crc32_New :: "crc_state \<Rightarrow> crc_ptr \<Rightarrow> crc_state \<times> crc_digest" where
  "crc32_New s tab = (if tab = IEEETable then ieeeInitOnce s else s, \<lparr>cd_crc = 0, cd_tab = tab\<rparr>)"

definition crc32_NewIEEE :: "crc_state \<Rightarrow> crc_state \<times> crc_digest" where
  "crc32_NewIEEE s = crc32_New s IEEETable"

definition crc32_Reset :: "crc_digest \<Rightarrow> crc_digest" where
  "crc32_Reset d = d\<lparr>cd_crc := 0\<rparr>"

definition crc32_Size :: nat where
  "crc32_Size = 4"

definition crc_digest_Size :: "crc_digest \<Rightarrow> nat" where
  "crc_digest_Size d = crc32_Size"

definition crc32_BlockSize :: "crc_digest \<Rightarrow> nat" where
  "crc32_BlockSize d = 1"

definition crc32_Clone :: "crc_digest \<Rightarrow> crc_digest" where
  "crc32_Clone d = (let r = d in r)"

definition updateCastagnoli :: "crc_state \<Rightarrow> uint32 \<Rightarrow> byte list \<Rightarrow> uint32 option" where
  "updateCastagnoli s crc p = Option.bind (castagnoliTable8 s) (\<lambda>t. slicingUpdate crc t p)"

definition updateIEEE :: "crc_state \<Rightarrow> uint32 \<Rightarrow> byte list \<Rightarrow> uint32 option" where
  "updateIEEE s crc p = Option.bind (ieeeTable8 s) (\<lambda>t. slicingUpdate crc t p)"

definition crc_update :: "crc_state \<Rightarrow> uint32 \<Rightarrow> crc_ptr \<Rightarrow> byte list \<Rightarrow> bool \<Rightarrow> (crc_state \<times> uint32) option" where
  "crc_update s crc tab p checkInitIEEE =
     (if haveCastagnoli s \<and> tab = castagnoliTable then map_option (Pair s) (updateCastagnoli s crc p)
      else if tab = IEEETable then
        let s = (if checkInitIEEE then ieeeInitOnce s else s) in map_option (Pair s) (updateIEEE s crc p)
      else if p = [] then Some (s, simpleUpdate crc [] p)
      else map_option (\<lambda>t. (s, simpleUpdate crc t p)) (crc_deref tab))"

definition crc32_Update :: "crc_state \<Rightarrow> uint32 \<Rightarrow> crc_ptr \<Rightarrow> byte list \<Rightarrow> (crc_state \<times> uint32) option" where
  "crc32_Update s crc tab p = crc_update s crc tab p True"

definition crc32_Write :: "crc_state \<Rightarrow> crc_digest \<Rightarrow> byte list \<Rightarrow> (crc_state \<times> crc_digest \<times> nat) option" where
  "crc32_Write s d p =
     map_option (\<lambda>(s, crc). (s, d\<lparr>cd_crc := crc\<rparr>, length p)) (crc_update s (cd_crc d) (cd_tab d) p False)"

definition crc32_Sum32 :: "crc_digest \<Rightarrow> uint32" where
  "crc32_Sum32 d = cd_crc d"

definition crc32_Sum :: "crc_digest \<Rightarrow> byte list \<Rightarrow> byte list" where
  "crc32_Sum d inp =
     (let s = crc32_Sum32 d in inp @ [ucast (drop_bit 24 s), ucast (drop_bit 16 s), ucast (drop_bit 8 s), ucast s])"

definition crc32_Checksum :: "crc_state \<Rightarrow> byte list \<Rightarrow> crc_ptr \<Rightarrow> (crc_state \<times> uint32) option" where
  "crc32_Checksum s data tab = crc32_Update s 0 tab data"

definition crc32_ChecksumIEEE :: "crc_state \<Rightarrow> byte list \<Rightarrow> (crc_state \<times> uint32) option" where
  "crc32_ChecksumIEEE s data = (let s = ieeeInitOnce s in map_option (Pair s) (updateIEEE s 0 data))"

definition tableSum :: "crc_state \<Rightarrow> crc_ptr \<Rightarrow> (crc_state \<times> uint32) option" where
  "tableSum s tab =
     crc32_ChecksumIEEE s (case crc_deref tab of None \<Rightarrow> [] | Some t \<Rightarrow> foldl BEAppendUint32 [] t)"

definition crc_magic :: "byte list" where
  "crc_magic = [99, 114, 99, 1]"

definition crc_marshaledSize :: nat where
  "crc_marshaledSize = length crc_magic + 4 + 4"

datatype crc_error = crc_invalid_identifier | crc_invalid_size | crc_tables_differ

definition crc32_AppendBinary :: "crc_state \<Rightarrow> crc_digest \<Rightarrow> byte list \<Rightarrow> (crc_state \<times> byte list) option" where
  "crc32_AppendBinary s d b =
     map_option (\<lambda>(s, ts). (s, BEAppendUint32 (BEAppendUint32 (b @ crc_magic) ts) (cd_crc d))) (tableSum s (cd_tab d))"

definition crc32_MarshalBinary :: "crc_state \<Rightarrow> crc_digest \<Rightarrow> (crc_state \<times> byte list) option" where
  "crc32_MarshalBinary s d = crc32_AppendBinary s d []"

definition crc32_UnmarshalBinary ::
  "crc_state \<Rightarrow> crc_digest \<Rightarrow> byte list \<Rightarrow> (crc_state \<times> crc_digest \<times> crc_error option) option" where
  "crc32_UnmarshalBinary s d b =
     (if length b < length crc_magic \<or> take (length crc_magic) b \<noteq> crc_magic then Some (s, d, Some crc_invalid_identifier)
      else if length b \<noteq> crc_marshaledSize then Some (s, d, Some crc_invalid_size)
      else
        case tableSum s (cd_tab d) of
          None \<Rightarrow> None
        | Some (s, ts) \<Rightarrow>
            (case BEUint32 (drop 4 b) of
               None \<Rightarrow> None
             | Some v \<Rightarrow>
                 if ts \<noteq> v then Some (s, d, Some crc_tables_differ)
                 else map_option (\<lambda>c. (s, d\<lparr>cd_crc := c\<rparr>, None)) (BEUint32 (drop 8 b))))"

end
