(* ===== verification/Crc32_Correct.thy ===== *)
theory Crc32_Correct
  imports Crc32
begin

text \<open>
  The CRC-32 updates against the bit-by-bit definition: the step is linear over exclusive or, so a table entry is the effect of
  eight steps on a byte, and the eight rows of the slicing tables the effect of 8 to 64 steps. The state of the package is a step
  relation over its calls, whose invariant says what the tables made once hold.
\<close>

section \<open>The reference definition\<close>

definition crc_bit :: "uint32 \<Rightarrow> uint32 \<Rightarrow> uint32" where
  "crc_bit poly c = (if bit c 0 then drop_bit 1 c XOR poly else drop_bit 1 c)"

definition crc_ref :: "uint32 \<Rightarrow> uint32 \<Rightarrow> byte list \<Rightarrow> uint32" where
  "crc_ref poly crc p = NOT (foldl (\<lambda>c v. (crc_bit poly ^^ 8) (c XOR ucast v)) (NOT crc) p)"

lemma crc_bits_funpow: "crc_bits poly n c = (crc_bit poly ^^ n) c"
proof (induction n arbitrary: c)
  case (Suc n)
  have "(c AND 1 = 1) = bit c 0" by (simp add: bit_0 and_one_eq odd_iff_mod_2_eq_one)
  then show ?case using Suc [of "crc_bit poly c"] by (simp add: funpow_Suc_right crc_bit_def del: funpow.simps)
qed simp

lemma crc_bit_xor: "crc_bit poly (a XOR b) = crc_bit poly a XOR crc_bit poly b"
proof -
  have "x XOR poly XOR (y XOR poly) = x XOR y" for x y :: uint32 by (rule bit_word_eqI) (auto simp: bit_simps)
  moreover have "bit (a XOR b) 0 \<longleftrightarrow> bit a 0 \<noteq> bit b 0" by (simp add: bit_xor_iff)
  moreover have "drop_bit 1 (a XOR b) = drop_bit 1 a XOR drop_bit 1 b" by (rule drop_bit_xor)
  ultimately show ?thesis by (auto simp: crc_bit_def ac_simps)
qed

lemma crc_xor: "(crc_bit poly ^^ n) (a XOR b) = (crc_bit poly ^^ n) a XOR (crc_bit poly ^^ n) b"
  by (induction n) (simp_all add: crc_bit_xor)

lemma crc_shift: "(\<And>i. i < n \<Longrightarrow> \<not> bit c i) \<Longrightarrow> (crc_bit poly ^^ n) c = drop_bit n c"
proof (induction n arbitrary: c)
  case (Suc n)
  have "crc_bit poly c = drop_bit 1 c" using Suc.prems [of 0] by (simp add: crc_bit_def)
  moreover have "(crc_bit poly ^^ n) (drop_bit 1 c) = drop_bit n (drop_bit 1 c)"
    using Suc.prems by (intro Suc.IH) (simp add: bit_drop_bit_eq)
  ultimately show ?case by (simp add: funpow_swap1)
qed simp

lemma crc_push: "k + 8 \<le> 32 \<Longrightarrow> (crc_bit poly ^^ k) (push_bit k (ucast (b :: byte))) = ucast b"
proof -
  assume k: "k + 8 \<le> 32"
  have "(crc_bit poly ^^ k) (push_bit k (ucast b)) = drop_bit k (push_bit k (ucast b))"
    by (rule crc_shift) (simp add: bit_push_bit_iff)
  also have "\<dots> = ucast b" by (rule bit_word_eqI) (use k in \<open>auto simp: bit_simps dest: bit_imp_le_length\<close>)
  finally show ?thesis .
qed

lemma crc_low: "(crc_bit poly ^^ 8) c = (crc_bit poly ^^ 8) (c AND 0xFF) XOR drop_bit 8 c"
proof -
  have f: "(0xFF :: uint32) = mask 8" by (simp add: mask_eq_exp_minus_1)
  have c: "c = (c AND 0xFF) XOR push_bit 8 (drop_bit 8 c)"
    unfolding f by (rule bit_word_eqI) (auto simp: bit_simps)
  have "(crc_bit poly ^^ 8) (push_bit 8 (drop_bit 8 c)) = drop_bit 8 (push_bit 8 (drop_bit 8 c))"
    by (rule crc_shift) (simp add: bit_push_bit_iff)
  also have "\<dots> = drop_bit 8 c" by (rule bit_word_eqI) (auto simp: bit_simps dest: bit_imp_le_length)
  finally show ?thesis using crc_xor [of 8 poly "c AND 0xFF" "push_bit 8 (drop_bit 8 c)"] c by simp
qed


lemma unat_255: "unat ((c :: uint32) AND 0xFF) < 256"
proof -
  have f: "(0xFF :: uint32) = mask 8" by (simp add: mask_eq_exp_minus_1)
  have "unat (c AND 0xFF) = unat c mod 256"
    unfolding f take_bit_eq_mask [symmetric] unsigned_take_bit_eq by (simp add: take_bit_eq_mod)
  then show ?thesis by simp
qed

lemma crc_table_nth: "i < 256 \<Longrightarrow> simplePopulateTable poly ! i = (crc_bit poly ^^ 8) (of_nat i)"
  by (simp add: simplePopulateTable_def crc_bits_funpow)

lemma crc_table_low: "simplePopulateTable poly ! unat (c AND 0xFF) = (crc_bit poly ^^ 8) (c AND 0xFF)"
  using crc_table_nth [OF unat_255 [of c], of poly] by simp

lemma crc_table_byte: "simplePopulateTable poly ! unat (b :: byte) = (crc_bit poly ^^ 8) (ucast b)"
proof -
  have "unat b < 256" using unsigned_less [of b, where 'a = nat] by simp
  then show ?thesis by (simp add: crc_table_nth)
qed

lemma crc_byte_step:
  "simplePopulateTable poly ! unat (ucast c XOR v :: byte) XOR drop_bit 8 c = (crc_bit poly ^^ 8) (c XOR ucast v)"
proof -
  have f: "(0xFF :: uint32) = mask 8" by (simp add: mask_eq_exp_minus_1)
  have l: "ucast (ucast c XOR v :: byte) = (c XOR ucast v) AND 0xFF"
    unfolding f by (rule bit_word_eqI) (auto simp: bit_simps dest: bit_imp_le_length)
  have "drop_bit 8 (c XOR ucast v) = drop_bit 8 c"
    by (rule bit_word_eqI) (auto simp: bit_simps dest: bit_imp_le_length)
  then show ?thesis unfolding crc_table_byte l crc_low [of poly "c XOR ucast v"] by simp
qed

lemma simpleUpdate_loop_exact:
  "simpleUpdate_loop (simplePopulateTable poly) p c = foldl (\<lambda>c v. (crc_bit poly ^^ 8) (c XOR ucast v)) c p"
  by (induction p arbitrary: c) (simp_all only: simpleUpdate_loop.simps foldl_Nil foldl_Cons crc_byte_step)

lemma slicing_entry_exact: "slicing_entry (simplePopulateTable poly) j c = (crc_bit poly ^^ (8 * j)) c"
proof (induction j)
  case (Suc j)
  have "(crc_bit poly ^^ (8 * Suc j)) c = (crc_bit poly ^^ 8) ((crc_bit poly ^^ (8 * j)) c)"
    using funpow_add [of 8 "8 * j" "crc_bit poly"] by (simp add: numeral_eq_Suc)
  also have "\<dots> = (crc_bit poly ^^ 8) ((crc_bit poly ^^ (8 * j)) c AND 0xFF) XOR drop_bit 8 ((crc_bit poly ^^ (8 * j)) c)"
    by (rule crc_low)
  finally show ?case by (simp only: slicing_entry.simps Let_def Suc crc_table_low)
qed simp

lemma slicing_row: 
  assumes "j < 8" "i < 256"
  shows "(slicingMakeTable poly ! j) ! i = (crc_bit poly ^^ (8 * j + 8)) (of_nat i)"
proof -
  have "(slicingMakeTable poly ! j) ! i = slicing_entry (simplePopulateTable poly) j (simplePopulateTable poly ! i)"
    using assms by (simp add: slicingMakeTable_def Let_def)
  also have "\<dots> = (crc_bit poly ^^ (8 * j)) ((crc_bit poly ^^ 8) (of_nat i))"
    by (simp only: slicing_entry_exact crc_table_nth [OF assms(2)])
  also have "\<dots> = (crc_bit poly ^^ (8 * j + 8)) (of_nat i)"
    by (simp only: funpow_add comp_apply)
  finally show ?thesis .
qed

lemma slicing_row0: "slicingMakeTable poly ! 0 = simplePopulateTable poly"
proof (rule nth_equalityI)
  show "length (slicingMakeTable poly ! 0) = length (simplePopulateTable poly)"
    by (simp add: slicingMakeTable_def Let_def simplePopulateTable_def)
  fix i assume "i < length (slicingMakeTable poly ! 0)"
  then have "i < 256" by (simp add: slicingMakeTable_def Let_def)
  then show "slicingMakeTable poly ! 0 ! i = simplePopulateTable poly ! i"
    using slicing_row [of 0 i poly] crc_table_nth [of i poly] by simp
qed

lemma slicing_row_byte: "j < 8 \<Longrightarrow> (slicingMakeTable poly ! j) ! unat (b :: byte) = (crc_bit poly ^^ (8 * j + 8)) (ucast b)"
  using slicing_row [of j "unat b" poly] unsigned_less [of b, where 'a = nat] by simp

lemma slicing_row_low: "j < 8 \<Longrightarrow> (slicingMakeTable poly ! j) ! unat (c AND 0xFF) = (crc_bit poly ^^ (8 * j + 8)) (c AND 0xFF)"
  using slicing_row [of j "unat (c AND 0xFF)" poly] unat_255 [of c] by simp

lemma slicing_row_high: "j < 8 \<Longrightarrow> (slicingMakeTable poly ! j) ! unat (drop_bit 24 (c :: uint32)) = (crc_bit poly ^^ (8 * j + 8)) (drop_bit 24 c)"
proof -
  have f: "(0xFF :: uint32) = mask 8" by (simp add: mask_eq_exp_minus_1)
  have "drop_bit 24 c AND 0xFF = drop_bit 24 c"
    unfolding f by (rule bit_word_eqI) (auto simp: bit_simps dest: bit_imp_le_length)
  then show "j < 8 \<Longrightarrow> ?thesis" using slicing_row_low [of j poly "drop_bit 24 c"] by simp
qed


lemma crc_push_add: "k + 8 \<le> 32 \<Longrightarrow> (crc_bit poly ^^ (m + k)) (push_bit k (ucast (b :: byte))) = (crc_bit poly ^^ m) (ucast b)"
  by (simp only: funpow_add comp_apply crc_push)

lemma crc_64_bytes:
  "(crc_bit poly ^^ 64) (ucast (b0 :: byte) XOR push_bit 8 (ucast (b1 :: byte)) XOR push_bit 16 (ucast (b2 :: byte)) XOR push_bit 24 (ucast (b3 :: byte))) =
   (crc_bit poly ^^ 64) (ucast b0) XOR (crc_bit poly ^^ 56) (ucast b1) XOR (crc_bit poly ^^ 48) (ucast b2) XOR (crc_bit poly ^^ 40) (ucast b3)"
  using crc_push_add [of 8 56 poly b1] crc_push_add [of 16 48 poly b2] crc_push_add [of 24 40 poly b3]
  by (simp add: crc_xor)

lemma word32_split:
  fixes x :: uint32
  shows "x = ucast (ucast x :: byte) XOR push_bit 8 (ucast (ucast (drop_bit 8 x) :: byte)) XOR
     push_bit 16 (ucast (ucast (drop_bit 16 x) :: byte)) XOR push_bit 24 (ucast (ucast (drop_bit 24 x) :: byte))"
(is "x = ?l")
proof (rule bit_word_eqI)
  fix n assume n: "n < LENGTH(32)"
  consider "n < 8" | "8 \<le> n" "n < 16" | "16 \<le> n" "n < 24" | "24 \<le> n" by linarith
  then show "bit x n = bit ?l n" using n by cases (auto simp: bit_simps dest: bit_imp_le_length)
qed

lemma or_xor_bytes:
  "ucast b0 OR push_bit 8 (ucast b1) OR push_bit 16 (ucast b2) OR push_bit 24 (ucast b3) =
   (ucast (b0 :: byte) XOR push_bit 8 (ucast (b1 :: byte)) XOR push_bit 16 (ucast (b2 :: byte)) XOR push_bit 24 (ucast (b3 :: byte)) :: uint32)"
(is "?r = ?l")
proof (rule bit_word_eqI)
  fix n assume n: "n < LENGTH(32)"
  consider "n < 8" | "8 \<le> n" "n < 16" | "16 \<le> n" "n < 24" | "24 \<le> n" by linarith
  then show "bit ?r n = bit ?l n" using n by cases (auto simp: bit_simps dest: bit_imp_le_length)
qed

lemma and_255_ucast: "(c :: uint32) AND 0xFF = ucast (ucast c :: byte)"
proof -
  have f: "(0xFF :: uint32) = mask 8" by (simp add: mask_eq_exp_minus_1)
  show ?thesis unfolding f by (rule bit_word_eqI) (auto simp: bit_simps)
qed

lemma drop_24_ucast: "drop_bit 24 (c :: uint32) = ucast (ucast (drop_bit 24 c) :: byte)"
  by (rule bit_word_eqI) (auto simp: bit_simps dest: bit_imp_le_length)

lemma crc_64_split:
  "(crc_bit poly ^^ 64) x = (crc_bit poly ^^ 64) (x AND 0xFF) XOR (crc_bit poly ^^ 56) (drop_bit 8 x AND 0xFF) XOR
     (crc_bit poly ^^ 48) (drop_bit 16 x AND 0xFF) XOR (crc_bit poly ^^ 40) (drop_bit 24 x)"
  using trans [OF arg_cong [OF word32_split [of x], of "crc_bit poly ^^ 64"] crc_64_bytes]
  by (simp only: and_255_ucast drop_24_ucast [of x, symmetric])

lemma crc_8_add: "(crc_bit poly ^^ 8) ((crc_bit poly ^^ n) x) = (crc_bit poly ^^ (8 + n)) x"
  by (simp only: funpow_add comp_apply)

lemma crc_eight:
  "foldl (\<lambda>c v. (crc_bit poly ^^ 8) (c XOR ucast (v :: byte))) c [b0, b1, b2, b3, b4, b5, b6, b7] =
   (crc_bit poly ^^ 64) (c XOR (ucast b0 XOR push_bit 8 (ucast b1) XOR push_bit 16 (ucast b2) XOR push_bit 24 (ucast b3))) XOR
   (crc_bit poly ^^ 32) (ucast b4) XOR (crc_bit poly ^^ 24) (ucast b5) XOR (crc_bit poly ^^ 16) (ucast b6) XOR
   (crc_bit poly ^^ 8) (ucast b7)"
  unfolding crc_xor [of 64 poly c] crc_64_bytes
  by (simp only: foldl_Cons foldl_Nil crc_xor crc_8_add numeral_plus_numeral semiring_norm ac_simps)

lemma slicing_step:
  fixes c poly :: uint32 and b0 b1 b2 b3 b4 b5 b6 b7 :: byte
  defines "x \<equiv> c XOR (ucast b0 OR push_bit 8 (ucast b1) OR push_bit 16 (ucast b2) OR push_bit 24 (ucast b3))"
  defines "tab \<equiv> slicingMakeTable poly"
  shows "(tab ! 0) ! unat (b7 :: byte) XOR (tab ! 1) ! unat (b6 :: byte) XOR (tab ! 2) ! unat (b5 :: byte) XOR
         (tab ! 3) ! unat (b4 :: byte) XOR (tab ! 4) ! unat (drop_bit 24 x) XOR
         (tab ! 5) ! unat (drop_bit 16 x AND 0xFF) XOR (tab ! 6) ! unat (drop_bit 8 x AND 0xFF) XOR
         (tab ! 7) ! unat (x AND 0xFF) =
         foldl (\<lambda>c v. (crc_bit poly ^^ 8) (c XOR ucast (v :: byte))) c [b0, b1, b2, b3, b4, b5, b6, b7]"
    (is "?l = ?r")
proof -
  define F where "F n = crc_bit poly ^^ n" for n
  have "?l = F 8 (ucast b7) XOR F 16 (ucast b6) XOR F 24 (ucast b5) XOR F 32 (ucast b4) XOR
       F 40 (drop_bit 24 x) XOR F 48 (drop_bit 16 x AND 0xFF) XOR F 56 (drop_bit 8 x AND 0xFF) XOR F 64 (x AND 0xFF)"
    unfolding tab_def F_def using slicing_row_byte [of 0 poly b7] slicing_row_byte [of 1 poly b6] slicing_row_byte [of 2 poly b5]
      slicing_row_byte [of 3 poly b4] slicing_row_high [of 4 poly x] slicing_row_low [of 5 poly "drop_bit 16 x"]
      slicing_row_low [of 6 poly "drop_bit 8 x"] slicing_row_low [of 7 poly x] by simp
  also have "\<dots> = F 8 (ucast b7) XOR F 16 (ucast b6) XOR F 24 (ucast b5) XOR F 32 (ucast b4) XOR F 64 x"
    unfolding F_def crc_64_split [of poly x] by (simp only: ac_simps)
  also have "\<dots> = ?r"
    unfolding crc_eight F_def x_def or_xor_bytes by (simp only: ac_simps)
  finally show ?thesis .
qed


abbreviation crc_fold :: "uint32 \<Rightarrow> uint32 \<Rightarrow> byte list \<Rightarrow> uint32" where
  "crc_fold poly \<equiv> foldl (\<lambda>c v. (crc_bit poly ^^ 8) (c XOR ucast v))"

lemma eight_bytes:
  assumes "8 < length p"
  obtains b0 b1 b2 b3 b4 b5 b6 b7 q where "p = [b0, b1, b2, b3, b4, b5, b6, b7] @ q"
proof -
  have "Suc (Suc (Suc (Suc (Suc (Suc (Suc (Suc 0))))))) \<le> length p" using assms by simp
  then show ?thesis unfolding Suc_le_length_iff by (elim exE conjE) (rule that, simp)
qed

lemma slicing_loop_exact:
  "\<exists>c' r. slicing_loop (slicingMakeTable poly) c p = Some (c', r) \<and> crc_fold poly c' r = crc_fold poly c p"
proof (induction "length p" arbitrary: c p rule: less_induct)
  case less
  show ?case
  proof (cases "8 < length p")
    case True
    then obtain b0 b1 b2 b3 b4 b5 b6 b7 q where p: "p = [b0, b1, b2, b3, b4, b5, b6, b7] @ q" by (elim eight_bytes)
    define c1 where "c1 = crc_fold poly c [b0, b1, b2, b3, b4, b5, b6, b7]"
    have "slicing_loop (slicingMakeTable poly) c p = slicing_loop (slicingMakeTable poly) c1 q"
      unfolding slicing_loop.simps [of _ c p] c1_def slicing_step [symmetric]
      using True by (simp add: p LEUint32_def Let_def)
    moreover have "crc_fold poly c p = crc_fold poly c1 q"
      unfolding c1_def p by (simp only: foldl_append)
    moreover have "length q < length p" unfolding p by simp
    ultimately show ?thesis using less [of q c1] by (simp only:)
  next
    case False
    then show ?thesis by (simp add: slicing_loop.simps)
  qed
qed

lemma simpleUpdate_exact: "simpleUpdate crc (simpleMakeTable poly) p = crc_ref poly crc p"
  by (simp only: simpleUpdate_def simpleMakeTable_def simpleUpdate_loop_exact crc_ref_def)

lemma slicingUpdate_exact: "slicingUpdate crc (slicingMakeTable poly) p = Some (crc_ref poly crc p)"
proof (cases "slicing8Cutoff \<le> length p")
  case True
  obtain c r where l: "slicing_loop (slicingMakeTable poly) (NOT crc) p = Some (c, r)"
      and f: "crc_fold poly c r = crc_fold poly (NOT crc) p"
    using slicing_loop_exact [of poly "NOT crc" p] by (elim exE conjE)
  have "simpleUpdate (NOT c) (slicingMakeTable poly ! 0) r = crc_ref poly crc p"
    by (simp add: simpleUpdate_def slicing_row0 simpleUpdate_loop_exact crc_ref_def f)
  moreover have "r = [] \<Longrightarrow> NOT c = crc_ref poly crc p" using f by (simp add: crc_ref_def)
  ultimately show ?thesis using True l by (simp add: slicingUpdate_def)
next
  case False
  have "simpleUpdate crc (slicingMakeTable poly ! 0) p = crc_ref poly crc p"
    using simpleUpdate_exact by (simp add: slicing_row0 simpleMakeTable_def)
  moreover have "p = [] \<Longrightarrow> crc = crc_ref poly crc p" by (simp add: crc_ref_def)
  ultimately show ?thesis using False by (auto simp: slicingUpdate_def)
qed

text \<open>The table-driven update is a hash fed in pieces, whatever the table holds.\<close>

lemma simpleUpdate_loop_append:
  "simpleUpdate_loop tab (p @ q) crc = simpleUpdate_loop tab q (simpleUpdate_loop tab p crc)"
  by (induction p arbitrary: crc) simp_all

interpretation simple: stream_hash "\<lambda>crc. simpleUpdate crc tab"
  by unfold_locales (simp_all add: simpleUpdate_def simpleUpdate_loop_append)

lemma crc_ref_append: "crc_ref poly crc (p @ q) = crc_ref poly (crc_ref poly crc p) q"
  using simple.upd_append [of crc "simpleMakeTable poly" p q] by (simp only: simpleUpdate_exact)

lemma crc_ref_Nil [simp]: "crc_ref poly crc [] = crc"
  by (simp add: crc_ref_def)


subsection \<open>The tables the package makes once\<close>

inductive crc_step :: "crc_state \<Rightarrow> crc_state \<Rightarrow> bool" where
  step_MakeTable: "crc_step s (fst (crc32_MakeTable s poly))"
| step_New: "crc_step s (fst (crc32_New s tab))"
| step_Update: "crc32_Update s crc tab p = Some (s', r) \<Longrightarrow> crc_step s s'"
| step_Write: "crc32_Write s d p = Some (s', r) \<Longrightarrow> crc_step s s'"
| step_ChecksumIEEE: "crc32_ChecksumIEEE s p = Some (s', r) \<Longrightarrow> crc_step s s'"
| step_Marshal: "crc32_AppendBinary s d b = Some (s', r) \<Longrightarrow> crc_step s s'"
| step_Unmarshal: "crc32_UnmarshalBinary s d b = Some (s', r) \<Longrightarrow> crc_step s s'"

lemma crc_step_once: "crc_step s s' \<Longrightarrow> s' = s \<or> s' = ieeeInitOnce s \<or> s' = castagnoliInitOnce s"
  by (induction rule: crc_step.induct)
    (auto simp: crc32_MakeTable_def crc32_New_def crc32_Update_def crc_update_def crc32_Write_def crc32_ChecksumIEEE_def Let_def
       crc32_AppendBinary_def crc32_UnmarshalBinary_def tableSum_def split: if_splits option.splits)

definition crc_ok :: "crc_state \<Rightarrow> bool" where
  "crc_ok s \<longleftrightarrow> (ieeeTable8 s = None \<or> ieeeTable8 s = Some (slicingMakeTable crc32_IEEE)) \<and>
     (haveCastagnoli s \<longrightarrow> castagnoliTable8 s = Some (slicingMakeTable crc32_Castagnoli))"

text \<open>\<open>tab\<close> is a table of \<open>poly\<close> that digests can be made of in state \<open>s\<close>.\<close>

definition crc_ready :: "crc_state \<Rightarrow> uint32 \<Rightarrow> crc_ptr \<Rightarrow> bool" where
  "crc_ready s poly tab =
     (case tab of
        crc_nil \<Rightarrow> False
      | IEEETable \<Rightarrow> poly = crc32_IEEE \<and> ieeeTable8 s \<noteq> None
      | castagnoliTable \<Rightarrow> poly = crc32_Castagnoli \<and> haveCastagnoli s
      | crc_table t \<Rightarrow> t = simpleMakeTable poly)"

lemmas crc_once_defs = crc_ok_def crc_ready_def ieeeInitOnce_def castagnoliInitOnce_def

lemma ieeeInitOnce_idem: "ieeeInitOnce (ieeeInitOnce s) = ieeeInitOnce s"
  by (simp add: ieeeInitOnce_def)

lemma crc_ok_init: "crc_ok crc32_init"
  by (simp add: crc_ok_def crc32_init_def)

lemma crc_ok_once: "crc_ok s \<Longrightarrow> crc_ok (ieeeInitOnce s)" "crc_ok s \<Longrightarrow> crc_ok (castagnoliInitOnce s)"
  by (simp_all add: crc_once_defs)

lemma crc_ready_once:
  "crc_ready s poly tab \<Longrightarrow> crc_ready (ieeeInitOnce s) poly tab"
  "crc_ready s poly tab \<Longrightarrow> crc_ready (castagnoliInitOnce s) poly tab"
  by (cases tab; simp add: crc_once_defs)+

lemma crc_steps_ok: "crc_step\<^sup>*\<^sup>* s s' \<Longrightarrow> crc_ok s \<Longrightarrow> crc_ok s'"
  by (induction rule: rtranclp_induct) (auto dest!: crc_step_once intro: crc_ok_once)

lemma crc_steps_ready: "crc_step\<^sup>*\<^sup>* s s' \<Longrightarrow> crc_ready s poly tab \<Longrightarrow> crc_ready s' poly tab"
  by (induction rule: rtranclp_induct) (auto dest!: crc_step_once intro: crc_ready_once)

lemma MakeTable_ready: "crc32_MakeTable s poly = (s', tab) \<Longrightarrow> crc_ready s' poly tab"
  by (auto simp: crc32_MakeTable_def crc_once_defs split: if_splits)

lemma MakeTable_ok: "crc32_MakeTable s poly = (s', tab) \<Longrightarrow> crc_ok s \<Longrightarrow> crc_ok s'"
  by (auto simp: crc32_MakeTable_def crc_ok_once split: if_splits)

lemma ieee_ready: "crc_ready (ieeeInitOnce s) crc32_IEEE IEEETable"
  by (auto simp: crc_once_defs)

lemma crc_update_exact:
  assumes "crc_ok s" "crc_ready s poly tab"
  shows "crc_update s crc tab p b = Some (s, crc_ref poly crc p)"
proof (cases tab)
  case IEEETable
  then have "ieeeTable8 s = Some (slicingMakeTable crc32_IEEE)" "poly = crc32_IEEE"
    using assms by (auto simp: crc_ok_def crc_ready_def)
  then show ?thesis using IEEETable
    by (simp add: crc_update_def updateIEEE_def ieeeInitOnce_def slicingUpdate_exact)
next
  case castagnoliTable
  then have "castagnoliTable8 s = Some (slicingMakeTable crc32_Castagnoli)" "haveCastagnoli s" "poly = crc32_Castagnoli"
    using assms by (auto simp: crc_ok_def crc_ready_def)
  then show ?thesis using castagnoliTable
    by (simp add: crc_update_def updateCastagnoli_def slicingUpdate_exact)
next
  case (crc_table t)
  then have "t = simpleMakeTable poly" using assms by (simp add: crc_ready_def)
  moreover have "p = [] \<Longrightarrow> simpleUpdate crc [] p = crc" by (simp add: simpleUpdate_def)
  ultimately show ?thesis using crc_table
    by (simp add: crc_update_def crc_deref_def simpleUpdate_exact)
qed (use assms in \<open>simp add: crc_ready_def\<close>)

lemma crc_update_IEEE: "crc_ok s \<Longrightarrow> crc32_Update s crc IEEETable p = Some (ieeeInitOnce s, crc_ref crc32_IEEE crc p)"
  using crc_update_exact [OF crc_ok_once(1) ieee_ready, of s crc p False]
  by (simp add: crc32_Update_def crc_update_def Let_def)

lemma ChecksumIEEE_exact: "crc_ok s \<Longrightarrow> crc32_ChecksumIEEE s p = Some (ieeeInitOnce s, crc_ref crc32_IEEE 0 p)"
  using crc_update_exact [OF crc_ok_once(1) ieee_ready, of s 0 p False]
  by (simp add: crc32_ChecksumIEEE_def crc_update_def Let_def)

primrec crc_Writes :: "crc_state \<Rightarrow> crc_digest \<Rightarrow> byte list list \<Rightarrow> (crc_state \<times> crc_digest) option" where
  "crc_Writes s d [] = Some (s, d)"
| "crc_Writes s d (p # ps) = (case crc32_Write s d p of None \<Rightarrow> None | Some (s', d', n) \<Rightarrow> crc_Writes s' d' ps)"

lemma crc_Writes_exact:
  "crc_ok s \<Longrightarrow> crc_ready s poly (cd_tab d) \<Longrightarrow>
   crc_Writes s d ps = Some (s, d\<lparr>cd_crc := crc_ref poly (cd_crc d) (concat ps)\<rparr>)"
proof (induction ps arbitrary: d)
  case (Cons p ps)
  have "crc32_Write s d p = Some (s, d\<lparr>cd_crc := crc_ref poly (cd_crc d) p\<rparr>, length p)"
    by (simp add: crc32_Write_def crc_update_exact [OF Cons.prems])
  then show ?case using Cons by (simp add: crc_ref_append)
qed simp

definition crc_table_sum :: "crc_ptr \<Rightarrow> uint32" where
  "crc_table_sum tab =
     crc_ref crc32_IEEE 0 (case crc_deref tab of None \<Rightarrow> [] | Some t \<Rightarrow> concat (map (BEAppendUint32 []) t))"

lemma BEAppend_fold: "foldl BEAppendUint32 b t = b @ concat (map (BEAppendUint32 []) t)"
  by (induction t arbitrary: b) (simp_all add: BEAppendUint32_def)

lemma tableSum_exact: "crc_ok s \<Longrightarrow> tableSum s tab = Some (ieeeInitOnce s, crc_table_sum tab)"
  by (simp add: tableSum_def ChecksumIEEE_exact crc_table_sum_def BEAppend_fold split: option.split)

lemma crc_Marshal_exact:
  "crc_ok s \<Longrightarrow> crc32_MarshalBinary s d =
     Some (ieeeInitOnce s, crc_magic @ BEAppendUint32 [] (crc_table_sum (cd_tab d)) @ BEAppendUint32 [] (cd_crc d))"
  by (simp add: crc32_MarshalBinary_def crc32_AppendBinary_def tableSum_exact BEAppendUint32_def)

lemma crc_Unmarshal_exact:
  assumes "crc_ok s"
  shows "crc32_UnmarshalBinary s d (crc_magic @ BEAppendUint32 [] t @ BEAppendUint32 [] c) =
     Some (ieeeInitOnce s, if crc_table_sum (cd_tab d) = t then (d\<lparr>cd_crc := c\<rparr>, None) else (d, Some crc_tables_differ))"
    (is "crc32_UnmarshalBinary s d ?b = _")
proof -
  have "drop 4 ?b = BEAppendUint32 [] t @ BEAppendUint32 [] c" "drop 8 ?b = BEAppendUint32 [] c @ []"
    by (simp_all add: crc_magic_def BEAppendUint32_def)
  note d = this
  have "BEUint32 (drop 4 ?b) = Some t" "BEUint32 (drop 8 ?b) = Some c"
    by (rule BEUint32_append [OF d(1)], rule BEUint32_append [OF d(2)])
  moreover have "length ?b = 12" "take 4 ?b = crc_magic" by (simp_all add: crc_magic_def BEAppendUint32_def)
  moreover have "length crc_magic = 4" by (simp add: crc_magic_def)
  ultimately show ?thesis
    by (simp add: crc32_UnmarshalBinary_def crc_marshaledSize_def tableSum_exact [OF assms])
qed

lemma crc_Unmarshal_cases:
  assumes "crc_ok s"
  shows "\<exists>s' d' err. crc32_UnmarshalBinary s d b = Some (s', d', err) \<and>
    (if err = None then cd_tab d' = cd_tab d \<and> crc32_MarshalBinary s d' = Some (s', b) else d' = d)"
proof (cases "length b = 12 \<and> take 4 b = crc_magic")
  case True
  then have l: "length (take 4 (drop 4 b)) = 4" "length (drop 8 b) = 4" by simp_all
  then obtain t c where t: "BEUint32 (take 4 (drop 4 b)) = Some t" and c: "BEUint32 (drop 8 b) = Some c"
    using BEUint32_defined [OF l(1)] BEUint32_defined [OF l(2)] by (elim exE)
  have "b = take 4 b @ take 4 (drop 4 b) @ drop 8 b"
    using append_take_drop_id [of 4 b] append_take_drop_id [of 4 "drop 4 b"] by simp
  then have b: "b = crc_magic @ BEAppendUint32 [] t @ BEAppendUint32 [] c"
    using True BEAppend_BEUint32 [OF l(1) t] BEAppend_BEUint32 [OF l(2) c] by simp
  show ?thesis
    unfolding b crc_Unmarshal_exact [OF assms] by (auto simp: crc_Marshal_exact [OF assms])
next
  case False
  have "length crc_magic = 4" by (simp add: crc_magic_def)
  then show ?thesis using False by (auto simp: crc32_UnmarshalBinary_def crc_marshaledSize_def)
qed

text \<open>The reference definition gives the published CRC-32 of the string \<open>a\<close>.\<close>

lemma crc_check_value: "crc_ref crc32_IEEE 0 [0x61] = 0xe8b7be43"
  by code_simp

text \<open>
  C40. With any table that \<open>MakeTable\<close> returned, at any later point of the program's use of the package, \<open>Update\<close>, \<open>Checksum\<close>
  and a digest written in pieces give the CRC of the bit-by-bit definition for its polynomial, whichever algorithm the package
  chooses: the slicing-by-8 tables give what shifting one bit at a time gives. \<open>IEEETable\<close> may be used without
  \<open>MakeTable\<close>. A marshalled digest is restored into a digest with the same table and refused with \<open>tables do not match\<close>
  when the checksums of the tables differ (different tables may share one); unmarshalling never panics, accepts only marshalled states, and changes nothing when
  it returns an error.
\<close>

theorem crc32_exact:
  assumes "crc_step\<^sup>*\<^sup>* crc32_init s" "crc32_MakeTable s poly = (s1, tab)" "crc_step\<^sup>*\<^sup>* s1 s2"
  shows "crc32_Update s2 crc tab p = Some (s2, crc_ref poly crc p) \<and>
    crc32_Checksum s2 p tab = Some (s2, crc_ref poly 0 p) \<and>
    crc_Writes s2 (snd (crc32_New s2 tab)) ps = Some (s2, \<lparr>cd_crc = crc_ref poly 0 (concat ps), cd_tab = tab\<rparr>) \<and>
    crc32_Update s2 crc IEEETable p = Some (ieeeInitOnce s2, crc_ref crc32_IEEE crc p) \<and>
    crc32_ChecksumIEEE s2 p = Some (ieeeInitOnce s2, crc_ref crc32_IEEE 0 p) \<and>
    (case crc32_NewIEEE s2 of (s3, d) \<Rightarrow>
       map_option (\<lambda>(s, d). crc32_Sum d inp) (crc_Writes s3 d ps) =
       Some (BEAppendUint32 inp (crc_ref crc32_IEEE 0 (concat ps)))) \<and>
    (case crc32_MarshalBinary s2 d of
       None \<Rightarrow> False
     | Some (s3, b) \<Rightarrow> crc32_UnmarshalBinary s3 d' b =
         Some (s3, if crc_table_sum (cd_tab d') = crc_table_sum (cd_tab d) then (d'\<lparr>cd_crc := cd_crc d\<rparr>, None)
                   else (d', Some crc_tables_differ))) \<and>
    (\<exists>s3 d'' err. crc32_UnmarshalBinary s2 d b = Some (s3, d'', err) \<and>
       (if err = None then cd_tab d'' = cd_tab d \<and> crc32_MarshalBinary s2 d'' = Some (s3, b) else d'' = d))"
proof -
  have ok1: "crc_ok s1"
    by (rule MakeTable_ok [OF assms(2) crc_steps_ok [OF assms(1) crc_ok_init]])
  have ok: "crc_ok s2" and rd: "crc_ready s2 poly tab"
    using crc_steps_ok [OF assms(3) ok1] crc_steps_ready [OF assms(3) MakeTable_ready [OF assms(2)]] by simp_all
  have writes: "crc_Writes s2 (snd (crc32_New s2 tab)) ps = Some (s2, \<lparr>cd_crc = crc_ref poly 0 (concat ps), cd_tab = tab\<rparr>)"
    using crc_Writes_exact [OF ok, of poly "\<lparr>cd_crc = 0, cd_tab = tab\<rparr>" ps] rd by (simp add: crc32_New_def)
  have "crc_Writes (ieeeInitOnce s2) \<lparr>cd_crc = 0, cd_tab = IEEETable\<rparr> ps =
      Some (ieeeInitOnce s2, \<lparr>cd_crc = crc_ref crc32_IEEE 0 (concat ps), cd_tab = IEEETable\<rparr>)"
    using crc_Writes_exact [OF crc_ok_once(1) [OF ok], of crc32_IEEE "\<lparr>cd_crc = 0, cd_tab = IEEETable\<rparr>" ps]
      ieee_ready [of s2] by simp
  then have sums: "case crc32_NewIEEE s2 of (s3, d) \<Rightarrow>
       map_option (\<lambda>(s, d). crc32_Sum d inp) (crc_Writes s3 d ps) =
       Some (BEAppendUint32 inp (crc_ref crc32_IEEE 0 (concat ps)))"
    by (simp add: crc32_New_def crc32_NewIEEE_def crc32_Sum_def crc32_Sum32_def BEAppendUint32_def Let_def)
  have "case crc32_MarshalBinary s2 d of
       None \<Rightarrow> False
     | Some (s3, b) \<Rightarrow> crc32_UnmarshalBinary s3 d' b =
         Some (s3, if crc_table_sum (cd_tab d') = crc_table_sum (cd_tab d) then (d'\<lparr>cd_crc := cd_crc d\<rparr>, None)
                   else (d', Some crc_tables_differ))"
    by (simp add: crc_Marshal_exact [OF ok] crc_Unmarshal_exact [OF crc_ok_once(1) [OF ok]] ieeeInitOnce_idem)
  moreover have "crc32_Update s2 crc tab p = Some (s2, crc_ref poly crc p)"
    "crc32_Checksum s2 p tab = Some (s2, crc_ref poly 0 p)"
    by (simp_all add: crc32_Update_def crc32_Checksum_def crc_update_exact [OF ok rd])
  ultimately show ?thesis
    using writes sums crc_update_IEEE [OF ok] ChecksumIEEE_exact [OF ok] crc_Unmarshal_cases [OF ok, of d b]
    by (intro conjI)
qed

theorem crc32_exact_witness:
  "crc32_Checksum (ieeeInitOnce crc32_init) [0x61] IEEETable = Some (ieeeInitOnce crc32_init, 0xe8b7be43)"
proof -
  have "crc32_MakeTable crc32_init crc32_IEEE = (ieeeInitOnce crc32_init, IEEETable)"
    by (simp add: crc32_MakeTable_def)
  from crc32_exact [OF rtranclp.rtrancl_refl this rtranclp.rtrancl_refl, of 0 "[0x61]"] show ?thesis
    by (simp only: crc_check_value)
qed

end
