(* ===== verification/Spec2Isabelle.thy ===== *)
theory Spec2Isabelle
  imports Utf8_Correct Bits_Count Sort_Correct Slices_Correct Fd_Mutex_Correct Heap_Correct Strconv_Correct Linked_List_Correct Varint_Correct Utf16_Correct Hex_Dump_Correct Path_Parts Path_Match_Correct Adler32_Correct Crc32_Correct
begin

text \<open>
  A verification development for the Go distribution of this repository: packages of its standard library that
  carry data structures, encodings, conversions and locks, translated from the sources under \<open>src/src\<close> and proved
  correct.

  \<^bold>\<open>Conventions.\<close> A fixed-width integer of Go is a word of that width; an \<open>int64\<close> is its two's complement, read with
  \<open>sint\<close> where the code compares it as signed. \<open>int\<close> values that cannot overflow on data that fits in memory (lengths,
  indices) are \<open>nat\<close> or \<open>int\<close>; where the width of \<open>int\<close> matters a parameter \<open>w64\<close> says whether it has 64 bits, and where the
  sorting code doubles an index or a block size the model is \<open>None\<close> as soon as the result is no \<open>int\<close>. A string
  or a slice that is only read or returned is a list. A slice that is edited in place is an offset, a length and a capacity
  over a memory of arrays, so that aliasing can be expressed. A run-time panic and an explicit one are \<open>None\<close>, or \<open>Inl\<close>
  where the panics are told apart; an \<open>error\<close> result is a value of a datatype. A loop is a recursive function with a
  termination proof; no definition uses fuel, and where a loop may panic the theorems say exactly when it does not.
  Code of the caller (a comparison, a \<open>sort.Interface\<close>, a reader, a writer, the growth of \<open>append\<close>) is a parameter; what the
  code relies on is a locale, interpreted on code of the library.

  \<^bold>\<open>Prelude.\<close> Types of integers, checked accesses and stores, and the arithmetic of bit operations (\<open>word_arith\<close>).

  \<^bold>\<open>unicode/utf8\<close> (\<open>Utf8\<close>, \<open>Utf8_Correct\<close>): the tables, the decoders forwards and backwards for slices and strings, the
  encoders, counting and validation with its word-at-a-time path. The specification is the RFC 3629 encoding of scalar
  values on numbers. Shown: round trips; a decoding error exactly when no valid encoding is a prefix; \<open>FullRune\<close> exactly
  when more input cannot change the result; \<open>Valid\<close> exactly on concatenations of encodings; lengths and panics of the
  encoders.

  \<^bold>\<open>unicode/utf16\<close> (\<open>Utf16\<close>, \<open>Utf16_Correct\<close>): surrogates, the encoder into its computed buffer, the decoder. Shown: both
  round trips, over the valid runes of \<open>unicode/utf8\<close>.

  \<^bold>\<open>math/bits\<close> (\<open>Bits\<close>, \<open>Bits_Correct\<close>, \<open>Bits_Count\<close>): every function at every width. Shown: the table and de Bruijn
  routines compute bit length, trailing zeros, population count, reversal and rotation; the multi-word additions,
  subtractions, products and quotients are exact on the integers their words denote, with the panics of division.

  \<^bold>\<open>sort\<close> (\<open>Sort\<close>, \<open>Sort_Interface\<close>, \<open>Sort_Pdq\<close>, \<open>Sort_Stable\<close>, \<open>Sort_Correct\<close>): pattern-defeating quicksort with its
  helpers, insertion sort, heap sort, the stable sort by in-place symmetric merges, and binary search, over an arbitrary
  \<open>sort.Interface\<close> whose state the code sees only through \<open>Len\<close>, \<open>Less\<close> and \<open>Swap\<close>. Locales: \<open>strict_weak_order\<close> and
  \<open>sort_interface\<close>, interpreted on slices of integers. Shown, for collections of which twice the length is an \<open>int\<close> (fewer than \<open>2^30\<close>
  elements on a 32-bit target), that no doubled index leaves \<open>int\<close> and: sorted permutations; stability; the symmetric merge refines
  the textbook merge; on slices the results equal \<open>sort\<close> and \<open>sort_key\<close>; binary search finds the first index.

  \<^bold>\<open>slices\<close> (\<open>Slices\<close>, \<open>Slices_Memory\<close>, \<open>Slices_Correct\<close>): the editing functions over the memory of arrays, with the
  growth rule of \<open>append\<close> from \<open>runtime/slice.go\<close> (\<open>nextslicecap\<close>, which instantiates the locale \<open>slice_growth\<close>); the
  sorting entry points share the theories of \<open>sort\<close>. Shown: the spliced contents under every aliasing of the arguments,
  what is cleared, which panics occur, and that nothing outside the slice is written.

  \<^bold>\<open>container/heap\<close> (\<open>Heap\<close>, \<open>Heap_Correct\<close>): over an arbitrary \<open>heap.Interface\<close> (locale \<open>heap_interface\<close>, interpreted
  on slices; it gives \<open>priority_queue\<close>). Shown: every operation keeps the heap order and the multiset it promises; popping
  delivers in order.

  \<^bold>\<open>container/list\<close> (\<open>Linked_List\<close>, \<open>Linked_List_Rings\<close>, \<open>Linked_List_Correct\<close>): elements and list values in a store of
  pointers. The invariant is that every list is a ring of its own elements, the stale elements that \<open>Init\<close> dropped being kept
  aside; the locale \<open>refinement\<close> lifts a simulation of steps to sequences of operations. Shown: no operation, \<open>Init\<close>
  included, follows a nil pointer, and the lists refine sequences, as long as a stale element is not passed to an
  operation of the list it was dropped from. \<open>Init_keeps_stale_elements\<close> records what happens otherwise.

  \<^bold>\<open>internal/poll\<close> (\<open>Fd_Mutex\<close>, \<open>Fd_Mutex_Word\<close>, \<open>Fd_Mutex_Correct\<close>): the lock of a file descriptor, a packed 64-bit word
  changed by compare-and-swap, and the methods of \<open>FD\<close> over it, with any number of threads interleaved at every load,
  compare-and-swap and semaphore operation. Shown over all reachable states: exclusion, reference counts, no
  inconsistency panic, one destruction when nobody holds the descriptor, and no lost wake-up: a release on
  the way reaches the sleeper, or else the descriptor is open and a thread holds the lock, tries for it, or has panicked because a count
  overflowed.

  \<^bold>\<open>internal/strconv\<close> (\<open>Strconv\<close>, \<open>Strconv_Parse\<close>, \<open>Strconv_Format\<close>, \<open>Strconv_Correct\<close>): integers from and to strings. Shown:
  \<open>ParseUint\<close> on every input, against a syntax of literals of its own (\<open>literal_base\<close>, \<open>underscores_separate\<close>), \<open>ParseInt\<close>, the fast path of \<open>Atoi\<close>, the formatters in every base, and the round trips.
  \<open>ParseInt_bitSize_1\<close> and \<open>ParseUint_range_hides_syntax\<close> record two departures from the documentation.

  \<^bold>\<open>encoding/binary\<close> (\<open>Varint\<close>, \<open>Varint_Correct\<close>): variable-length integers. Shown: exact decoding with overflow detection,
  round trips, agreement of the reading variant.

  \<^bold>\<open>bytes.Reader\<close> (\<open>Bytes_Reader\<close>, \<open>Bytes_Reader_Correct\<close>) and \<^bold>\<open>encoding/hex\<close> (\<open>Hex\<close>, \<open>Hex_Correct\<close>, \<open>Hex_Dump\<close>,
  \<open>Hex_Dump_Correct\<close>): the stream decoder is proved against the locales \<open>byte_reader\<close> and \<open>prompt_reader\<close>, which \<open>bytes.Reader\<close> provides; its \<open>ReadRune\<close>
  rests on \<open>unicode/utf8\<close>. Shown: decoding of every string, round trips, and that the streams deliver what the slices do; the
  dumper writes the hex dump of all its data however it is split over calls. \<open>dumper_store_panics\<close> records what a failing
  writer can lead to.

  \<^bold>\<open>path\<close> (\<open>Path\<close>, \<open>Path_Correct\<close>, \<open>Path_Parts\<close>, \<open>Path_Match\<close>, \<open>Path_Match_Correct\<close>): slash-separated paths, and patterns
  for them. The specification of \<open>Clean\<close> is a stack of elements, which its buffer refines; that of \<open>Match\<close> a parser of the
  documented grammar and a matcher of its terms, with the runes of \<open>unicode/utf8\<close>. Shown: what every function returns, that
  \<open>Clean\<close> is idempotent with the clean paths as its fixed points, that \<open>Match\<close> reports exactly the malformed patterns; that its
  matches are matches of the grammar, where a star takes whole characters, for ASCII names and for patterns in which a star ends
  between characters; and that it is complete where the first match of a chunk is enough. \<open>path_Match_splits_rune\<close> and
  \<open>path_Match_class_slash\<close> record what happens elsewhere, \<open>path_Dir_slash\<close> a departure of \<open>Dir\<close> from its documentation.

  \<^bold>\<open>hash/adler32\<close> and \<^bold>\<open>hash/crc32\<close> (\<open>Byte_Order\<close>, \<open>Adler32\<close>, \<open>Adler32_Correct\<close>, \<open>Crc32\<close>, \<open>Crc32_Correct\<close>): the checksums and
  their digests, over the functions of \<open>internal/byteorder\<close>. The locale \<open>stream_hash\<close> is what a digest promises of data written
  in pieces; both packages provide it. Shown: the sums of Adler-32 never wrap between reductions, so that it computes the value
  of RFC 1950; the table-driven and the slicing-by-8 CRC compute the bit-by-bit one, over every state of the tables the package
  makes once (the step relation \<open>crc_step\<close>); a marshalled state is restored, or refused when the checksums of
  the tables differ.

  \<^bold>\<open>Not modelled.\<close> The compiler, linker and tools under \<open>cmd\<close>; the runtime's scheduler, collector and allocator; system
  calls and what rests on them (\<open>os\<close>, \<open>net\<close>, the input and output of \<open>internal/poll\<close>); cryptography; floating-point
  conversion; the functions of \<open>slices\<close> that return iterators; assembly variants of the routines, which the
  Go versions modelled here specify. Memory is unbounded: running out of it, and lengths near the limit of \<open>int\<close> other than in
  \<open>sort\<close>, \<open>slices.Repeat\<close> and \<open>nextslicecap\<close>, do not occur in the model.
\<close>

end
